(* ===== verification/Kernel_Prelude.thy ===== *)
theory Kernel_Prelude
  imports Main "HOL-Library.Word" "HOL-Library.Monad_Syntax" "HOL-Library.Multiset"
begin

unbundle bit_operations_syntax

text \<open>
  What the component theories share: the machine integer types, C arrays with
  checked accesses, address blocks, and the arithmetic of alignment masks.

  A C function that can run into undefined behaviour (an array access out of
  bounds) or into a \<open>BUG_ON\<close> is modelled as a function into an option type;
  \<open>None\<close> is that fault.  A theorem that a call returns \<open>Some r\<close> therefore
  includes the absence of out-of-bounds accesses and of failed assertions.
\<close>

type_synonym u8 = "8 word"
type_synonym u16 = "16 word"
type_synonym u32 = "32 word"
type_synonym u64 = "64 word"

named_theorems array_simps \<open>checked array accesses\<close>

section \<open>Error numbers\<close>

definition EINTR :: int where "EINTR = 4"
definition EAGAIN :: int where "EAGAIN = 11"
definition ENOMEM :: int where "ENOMEM = 12"
definition EFAULT :: int where "EFAULT = 14"
definition EBUSY :: int where "EBUSY = 16"
definition EEXIST :: int where "EEXIST = 17"
definition EINVAL :: int where "EINVAL = 22"
definition ERANGE :: int where "ERANGE = 34"
definition ETIME :: int where "ETIME = 62"
definition EOVERFLOW :: int where "EOVERFLOW = 75"

lemmas errno_defs = EINTR_def ETIME_def EAGAIN_def ENOMEM_def EFAULT_def EBUSY_def EEXIST_def EINVAL_def ERANGE_def EOVERFLOW_def

section \<open>C arrays\<close>

definition aget :: "'a list \<Rightarrow> nat \<Rightarrow> 'a option" where
  "aget xs i = (if i < length xs then Some (xs ! i) else None)"

definition aset :: "'a list \<Rightarrow> nat \<Rightarrow> 'a \<Rightarrow> 'a list option" where
  "aset xs i v = (if i < length xs then Some (xs[i := v]) else None)"

lemma aget_Some [array_simps]: "i < length xs \<Longrightarrow> aget xs i = Some (xs ! i)"
  by (simp add: aget_def)

lemma aset_Some [array_simps]: "i < length xs \<Longrightarrow> aset xs i v = Some (xs[i := v])"
  by (simp add: aset_def)

lemma aget_eq_Some_iff: "aget xs i = Some v \<longleftrightarrow> i < length xs \<and> xs ! i = v"
  by (auto simp: aget_def)

lemma aset_eq_Some_iff: "aset xs i v = Some ys \<longleftrightarrow> i < length xs \<and> ys = xs[i := v]"
  by (auto simp: aset_def)

text \<open>\<open>memcpy\<close> between objects: the bytes read from one, and the object after bytes were written to it.\<close>

definition mem_read :: "'a list \<Rightarrow> nat \<Rightarrow> nat \<Rightarrow> 'a list option" where
  "mem_read xs off n = (if off + n \<le> length xs then Some (take n (drop off xs)) else None)"

definition mem_write :: "'a list \<Rightarrow> nat \<Rightarrow> 'a list \<Rightarrow> 'a list option" where
  "mem_write xs off ys =
     (if off + length ys \<le> length xs then Some (take off xs @ ys @ drop (off + length ys) xs) else None)"

lemma nth_mem_write:
  assumes "off + length ys \<le> length xs"
  shows "(take off xs @ ys @ drop (off + length ys) xs) ! i
    = (if off \<le> i \<and> i < off + length ys then ys ! (i - off) else xs ! i)"
  using assms by (auto simp: nth_append not_less)

section \<open>Words\<close>

lemma unat_sub_1: "0 < unat (x :: 'a :: len word) \<Longrightarrow> unat (x - 1) = unat x - 1"
  by (metis gr_implies_not0 unat_minus_one unsigned_0)

lemma unat_add_nowrap:
  "unat x + unat y < 2 ^ LENGTH('a) \<Longrightarrow> unat (x + y) = unat x + unat (y :: 'a :: len word)"
  by (simp add: unat_word_ariths)

lemma unat_sub_nowrap:
  "unat y \<le> unat x \<Longrightarrow> unat (x - y) = unat x - unat (y :: 'a :: len word)"
  by (simp add: unat_sub word_le_nat_alt)

text \<open>
  \<open>x AND NOT (a - 1)\<close> with \<open>a\<close> a power of two clears the low bits: the multiple
  of \<open>a\<close> at or below \<open>x\<close>.
\<close>

lemma unat_and_not_mask:
  "unat (x AND NOT (mask k) :: 'a :: len word) = (unat x div 2 ^ k) * 2 ^ k"
proof -
  have "x AND NOT (mask k) = push_bit k (drop_bit k x)"
    by (rule bit_word_eqI) (auto simp: bit_simps)
  moreover have "(unat x div 2 ^ k) * 2 ^ k < 2 ^ LENGTH('a)"
    by (rule le_less_trans [OF div_times_less_eq_dividend unsigned_less])
  moreover have "unat (push_bit k (drop_bit k x)) = take_bit LENGTH('a) ((unat x div 2 ^ k) * 2 ^ k)"
    by (simp only: unsigned_push_bit_eq unsigned_drop_bit_eq take_bit_nat_eq_self [OF unsigned_less]
        flip: drop_bit_eq_div push_bit_eq_mult)
  ultimately show ?thesis
    by (simp only: take_bit_nat_eq_self)
qed
lemma sint_small:
  assumes "unat (x :: 'a :: len word) < 2 ^ (LENGTH('a) - 1)"
  shows "sint x = int (unat x)"
proof -
  have "int (unat x) < int (2 ^ (LENGTH('a) - 1))"
    using assms by (simp only: of_nat_less_iff)
  then have less: "uint x < 2 ^ (LENGTH('a) - 1)"
    by (simp only: uint_nat of_nat_power of_nat_numeral)
  have ge: "- (2 ^ (LENGTH('a) - 1)) \<le> uint x"
    by (rule order_trans [of _ 0]) simp_all
  show ?thesis
    using signed_take_bit_int_eq_self [OF ge less] by (simp only: sint_uint One_nat_def) (rule uint_nat)
qed

lemma unat_ucast_up [simp]: "unat (ucast (x :: u32) :: u64) = unat x"
proof -
  have "unat x < 2 ^ 32" using unsigned_less [of x] by simp
  then have "unat x < 2 ^ 64" by (rule less_trans) simp
  then show ?thesis by (simp add: unsigned_ucast_eq take_bit_nat_eq_self)
qed

lemma unat_pow2:
  assumes "k < LENGTH('a)"
  shows "unat (2 ^ k :: 'a :: len word) = 2 ^ k"
proof -
  have "unat (of_nat (2 ^ k) :: 'a word) = 2 ^ k"
    using assms by (simp add: unat_of_nat del: of_nat_power)
  then show ?thesis by simp
qed

lemma uint_less_pow: "unat (x :: 'a :: len word) < 2 ^ n \<Longrightarrow> uint x < 2 ^ n"
proof -
  assume "unat x < 2 ^ n"
  then have "int (unat x) < int (2 ^ n)" by (simp only: of_nat_less_iff)
  then show ?thesis by (simp only: uint_nat of_nat_power of_nat_numeral)
qed

text \<open>The low half of a difference, and a small value read as signed.\<close>

lemma ucast_diff_32: "ucast (a - b :: u64) = (word_of_int (uint a - uint b) :: u32)"
proof -
  have "ucast (a - b) = (word_of_int (uint (a - b)) :: u32)" by simp
  also have "\<dots> = word_of_int (take_bit 64 (uint a - uint b))"
    by (simp add: uint_word_ariths take_bit_eq_mod)
  also have "\<dots> = word_of_int (uint a - uint b)"
    by transfer (simp add: take_bit_take_bit)
  finally show ?thesis .
qed

lemma sint_word_of_int_32: "- (2 ^ 31) \<le> x \<Longrightarrow> x < 2 ^ 31 \<Longrightarrow> sint (word_of_int x :: u32) = x"
  using signed_take_bit_int_eq_self [of 31 x] by (simp add: signed_of_int)

section \<open>Searching a table\<close>

text \<open>
  The index at which a loop \<open>for (i = i0; i < n; i++) if (P(xs[i])) break;\<close>
  stops.
\<close>

function find_ix :: "('a \<Rightarrow> bool) \<Rightarrow> 'a list \<Rightarrow> nat \<Rightarrow> nat \<Rightarrow> nat" where
  "find_ix P xs i n = (if i < n \<and> \<not> P (xs ! i) then find_ix P xs (i + 1) n else i)"
  by pat_completeness auto
termination
  by (relation "measure (\<lambda>(P, xs, i, n). n - i)") auto

declare find_ix.simps [simp del]

lemma find_ix_props:
  "i \<le> n \<Longrightarrow> i \<le> find_ix P xs i n \<and> find_ix P xs i n \<le> n
     \<and> (\<forall>m. i \<le> m \<longrightarrow> m < find_ix P xs i n \<longrightarrow> \<not> P (xs ! m))
     \<and> (find_ix P xs i n < n \<longrightarrow> P (xs ! find_ix P xs i n))"
proof (induction P xs i n rule: find_ix.induct)
  case (1 P xs i n)
  show ?case
  proof (cases "i < n \<and> \<not> P (xs ! i)")
    case True
    with "1.IH" have "Suc i \<le> find_ix P xs (Suc i) n \<and> find_ix P xs (Suc i) n \<le> n
     \<and> (\<forall>m. Suc i \<le> m \<longrightarrow> m < find_ix P xs (Suc i) n \<longrightarrow> \<not> P (xs ! m))
     \<and> (find_ix P xs (Suc i) n < n \<longrightarrow> P (xs ! find_ix P xs (Suc i) n))" by simp
    with True show ?thesis
      by (auto simp: find_ix.simps [of P xs i n]) (metis le_eq_less_or_eq less_eq_Suc_le)+
  next
    case False
    with "1.prems" show ?thesis by (auto simp: find_ix.simps [of P xs i n])
  qed
qed

lemma find_ix_less_iff: "i \<le> n \<Longrightarrow> find_ix P xs i n < n \<longleftrightarrow> (\<exists>m. i \<le> m \<and> m < n \<and> P (xs ! m))"
  using find_ix_props [of i n P xs] by (metis leI le_less_trans linorder_not_less)


end
