(* ===== verification/Lmb.thy ===== *)
theory Lmb
  imports Kernel_Prelude
begin

text \<open>
  Logical memory blocks: \<open>lib/lmb.c\<close> and the structures of
  \<open>include/linux/lmb.h\<close>.  A table of blocks is an array of
  \<open>MAX_LMB_REGIONS + 1\<close> entries of which the first \<open>cnt\<close> are in use; the
  allocator takes blocks from the table \<open>memory\<close> that do not meet a block of
  the table \<open>reserved\<close>.  \<open>unsigned long\<close> is a 64-bit word.  A result
  \<open>None\<close> is an access outside the array, a \<open>BUG_ON\<close>, a \<open>panic\<close> or, for
  the one loop over a callback, a loop that does not end.
\<close>

section \<open>The tables\<close>

record lmb_property =
  lbase :: u64
  lsize :: u64

record lmb_region =
  rcnt :: u64
  rsize :: u64
  rregion :: "lmb_property list"

record lmb =
  debug :: u64
  rmo_size :: u64
  memory :: lmb_region
  reserved :: lmb_region

definition MAX_LMB_REGIONS :: nat where
  "MAX_LMB_REGIONS = 128"

definition LMB_ALLOC_ANYWHERE :: u64 where
  "LMB_ALLOC_ANYWHERE = 0"

definition lmb_addrs_overlap :: "u64 \<Rightarrow> u64 \<Rightarrow> u64 \<Rightarrow> u64 \<Rightarrow> bool" where
  "lmb_addrs_overlap base1 size1 base2 size2 \<longleftrightarrow>
     base1 < base2 + size2 \<and> base2 < base1 + size1"

definition lmb_addrs_adjacent :: "u64 \<Rightarrow> u64 \<Rightarrow> u64 \<Rightarrow> u64 \<Rightarrow> int" where
  "lmb_addrs_adjacent base1 size1 base2 size2 =
     (if base2 = base1 + size1 then 1 else if base1 = base2 + size2 then -1 else 0)"

definition lmb_regions_adjacent :: "lmb_region \<Rightarrow> nat \<Rightarrow> nat \<Rightarrow> int option" where
  "lmb_regions_adjacent rgn r1 r2 = do {
     p1 \<leftarrow> aget (rregion rgn) r1;
     p2 \<leftarrow> aget (rregion rgn) r2;
     Some (lmb_addrs_adjacent (lbase p1) (lsize p1) (lbase p2) (lsize p2)) }"

text \<open>The loop of \<open>lmb_remove_region\<close>: entries \<open>i + 1 .. n\<close> move one place down.\<close>

function lmb_shift_down :: "lmb_property list \<Rightarrow> nat \<Rightarrow> nat \<Rightarrow> lmb_property list option" where
  "lmb_shift_down xs i n =
     (if i < n
      then do { p \<leftarrow> aget xs (i + 1); ys \<leftarrow> aset xs i p; lmb_shift_down ys (i + 1) n }
      else Some xs)"
  by pat_completeness auto
termination
  by (relation "measure (\<lambda>(xs, i, n). n - i)") auto

definition lmb_remove_region :: "lmb_region \<Rightarrow> nat \<Rightarrow> lmb_region option" where
  "lmb_remove_region rgn r = do {
     xs \<leftarrow> lmb_shift_down (rregion rgn) r (unat (rcnt rgn - 1));
     Some (rgn\<lparr>rregion := xs, rcnt := rcnt rgn - 1\<rparr>) }"

definition lmb_coalesce_regions :: "lmb_region \<Rightarrow> nat \<Rightarrow> nat \<Rightarrow> lmb_region option" where
  "lmb_coalesce_regions rgn r1 r2 = do {
     p1 \<leftarrow> aget (rregion rgn) r1;
     p2 \<leftarrow> aget (rregion rgn) r2;
     xs \<leftarrow> aset (rregion rgn) r1 (p1\<lparr>lsize := lsize p1 + lsize p2\<rparr>);
     lmb_remove_region (rgn\<lparr>rregion := xs\<rparr>) r2 }"

definition lmb_init :: "lmb \<Rightarrow> lmb option" where
  "lmb_init l = do {
     ms \<leftarrow> aset (rregion (memory l)) 0 \<lparr>lbase = 0, lsize = 0\<rparr>;
     rs \<leftarrow> aset (rregion (reserved l)) 0 \<lparr>lbase = 0, lsize = 0\<rparr>;
     Some (l\<lparr>memory := (memory l)\<lparr>rregion := ms, rcnt := 1\<rparr>,
             reserved := (reserved l)\<lparr>rregion := rs, rcnt := 1\<rparr>\<rparr>) }"

text \<open>The summing loop of \<open>lmb_analyze\<close>.\<close>

function lmb_sum_sizes :: "lmb_region \<Rightarrow> nat \<Rightarrow> u64 \<Rightarrow> u64 option" where
  "lmb_sum_sizes rgn i acc =
     (if i < unat (rcnt rgn)
      then do { p \<leftarrow> aget (rregion rgn) i; lmb_sum_sizes rgn (i + 1) (acc + lsize p) }
      else Some acc)"
  by pat_completeness auto
termination
  by (relation "measure (\<lambda>(rgn, i, acc). unat (rcnt rgn) - i)") auto

definition lmb_analyze :: "lmb \<Rightarrow> lmb option" where
  "lmb_analyze l = do {
     n \<leftarrow> lmb_sum_sizes (memory l) 0 0;
     Some (l\<lparr>memory := (memory l)\<lparr>rsize := n\<rparr>\<rparr>) }"

section \<open>Adding and removing blocks\<close>

text \<open>
  The first loop of \<open>lmb_add_region\<close>.  \<open>Some None\<close> is its \<open>return 0\<close> (the block
  is in the table already); otherwise the index the loop stops at, the value of
  \<open>coalesced\<close> and the table.
\<close>

function lmb_add_scan ::
  "lmb_region \<Rightarrow> u64 \<Rightarrow> u64 \<Rightarrow> nat \<Rightarrow> (nat \<times> int \<times> lmb_region) option option" where
  "lmb_add_scan rgn b s i =
     (if i < unat (rcnt rgn) then do {
        p \<leftarrow> aget (rregion rgn) i;
        if lbase p = b \<and> lsize p = s then Some None
        else let adjacent = lmb_addrs_adjacent b s (lbase p) (lsize p) in
        if adjacent > 0 then do {
          xs \<leftarrow> aset (rregion rgn) i (p\<lparr>lbase := lbase p - s, lsize := lsize p + s\<rparr>);
          Some (Some (i, 1, rgn\<lparr>rregion := xs\<rparr>)) }
        else if adjacent < 0 then do {
          xs \<leftarrow> aset (rregion rgn) i (p\<lparr>lsize := lsize p + s\<rparr>);
          Some (Some (i, 1, rgn\<lparr>rregion := xs\<rparr>)) }
        else lmb_add_scan rgn b s (i + 1) }
      else Some (Some (i, 0, rgn)))"
  by pat_completeness auto
termination
  by (relation "measure (\<lambda>(rgn, b, s, i). unat (rcnt rgn) - i)") auto

text \<open>
  The second loop of \<open>lmb_add_region\<close>; the argument is \<open>i + 1\<close> of the loop
  \<open>for (i = cnt - 1; i >= 0; i--)\<close>.
\<close>

fun lmb_insert_loop :: "lmb_property list \<Rightarrow> u64 \<Rightarrow> u64 \<Rightarrow> nat \<Rightarrow> lmb_property list option" where
  "lmb_insert_loop xs b s 0 = Some xs"
| "lmb_insert_loop xs b s (Suc i) = do {
     p \<leftarrow> aget xs i;
     if b < lbase p then do { ys \<leftarrow> aset xs (i + 1) p; lmb_insert_loop ys b s i }
     else aset xs (i + 1) \<lparr>lbase = b, lsize = s\<rparr> }"

text \<open>
  \<open>lmb_add_region\<close> after its first loop: merging with the next entry, and the
  insertion into the sorted table when nothing was merged.
\<close>

definition lmb_add_finish ::
  "u64 \<Rightarrow> u64 \<Rightarrow> nat \<Rightarrow> int \<Rightarrow> lmb_region \<Rightarrow> (int \<times> lmb_region) option" where
  "lmb_add_finish b s i coalesced rgn1 = do {
     adj \<leftarrow> (if i < unat (rcnt rgn1 - 1) then lmb_regions_adjacent rgn1 i (i + 1) else Some 0);
     (coalesced', rgn2) \<leftarrow>
       (if adj \<noteq> 0
        then do { r \<leftarrow> lmb_coalesce_regions rgn1 i (i + 1); Some (coalesced + 1, r) }
        else Some (coalesced, rgn1));
     if coalesced' \<noteq> 0 then Some (coalesced', rgn2)
     else if unat (rcnt rgn2) \<ge> MAX_LMB_REGIONS then Some (-1, rgn2)
     else do {
       xs \<leftarrow> lmb_insert_loop (rregion rgn2) b s (nat (sint (rcnt rgn2 - 1) + 1));
       q0 \<leftarrow> aget xs 0;
       ys \<leftarrow> (if b < lbase q0 then aset xs 0 \<lparr>lbase = b, lsize = s\<rparr> else Some xs);
       Some (0, rgn2\<lparr>rregion := ys, rcnt := rcnt rgn2 + 1\<rparr>) } }"

definition lmb_add_region :: "lmb_region \<Rightarrow> u64 \<Rightarrow> u64 \<Rightarrow> (int \<times> lmb_region) option" where
  "lmb_add_region rgn b s = do {
     p0 \<leftarrow> aget (rregion rgn) 0;
     if rcnt rgn = 1 \<and> lsize p0 = 0 then do {
       xs \<leftarrow> aset (rregion rgn) 0 \<lparr>lbase = b, lsize = s\<rparr>;
       Some (0, rgn\<lparr>rregion := xs\<rparr>) }
     else do {
       scan \<leftarrow> lmb_add_scan rgn b s 0;
       case scan of None \<Rightarrow> Some (0, rgn)
       | Some (i, coalesced, rgn1) \<Rightarrow> lmb_add_finish b s i coalesced rgn1 } }"

definition lmb_add :: "lmb \<Rightarrow> u64 \<Rightarrow> u64 \<Rightarrow> (int \<times> lmb) option" where
  "lmb_add l b s =
     (let l' = (if b = 0 then l\<lparr>rmo_size := s\<rparr> else l) in do {
        (ret, r) \<leftarrow> lmb_add_region (memory l') b s;
        Some (ret, l'\<lparr>memory := r\<rparr>) })"

text \<open>The search loop of \<open>__lmb_remove\<close>: the index of the entry, or \<open>cnt\<close>.\<close>

function lmb_remove_find :: "lmb_region \<Rightarrow> u64 \<Rightarrow> u64 \<Rightarrow> nat \<Rightarrow> nat option" where
  "lmb_remove_find rgn b e i =
     (if i < unat (rcnt rgn) then do {
        p \<leftarrow> aget (rregion rgn) i;
        if lbase p \<le> b \<and> e \<le> lbase p + lsize p then Some i
        else lmb_remove_find rgn b e (i + 1) }
      else Some i)"
  by pat_completeness auto
termination
  by (relation "measure (\<lambda>(rgn, b, e, i). unat (rcnt rgn) - i)") auto

text \<open>\<open>__lmb_remove\<close>\<close>

definition raw_lmb_remove :: "lmb_region \<Rightarrow> u64 \<Rightarrow> u64 \<Rightarrow> (int \<times> lmb_region) option" where
  "raw_lmb_remove rgn b s = (let e = b + s in do {
     i \<leftarrow> lmb_remove_find rgn b e 0;
     if i = unat (rcnt rgn) then Some (-1, rgn)
     else do {
       p \<leftarrow> aget (rregion rgn) i;
       let rgnbegin = lbase p; rgnend = lbase p + lsize p in
       if rgnbegin = b \<and> rgnend = e then do { r \<leftarrow> lmb_remove_region rgn i; Some (0, r) }
       else if rgnbegin = b then do {
         xs \<leftarrow> aset (rregion rgn) i (p\<lparr>lbase := e, lsize := lsize p - s\<rparr>);
         Some (0, rgn\<lparr>rregion := xs\<rparr>) }
       else if rgnend = e then do {
         xs \<leftarrow> aset (rregion rgn) i (p\<lparr>lsize := lsize p - s\<rparr>);
         Some (0, rgn\<lparr>rregion := xs\<rparr>) }
       else do {
         xs \<leftarrow> aset (rregion rgn) i (p\<lparr>lsize := b - lbase p\<rparr>);
         lmb_add_region (rgn\<lparr>rregion := xs\<rparr>) e (rgnend - e) } } })"

definition lmb_remove :: "lmb \<Rightarrow> u64 \<Rightarrow> u64 \<Rightarrow> (int \<times> lmb) option" where
  "lmb_remove l b s = do {
     (ret, r) \<leftarrow> raw_lmb_remove (memory l) b s; Some (ret, l\<lparr>memory := r\<rparr>) }"

definition lmb_free :: "lmb \<Rightarrow> u64 \<Rightarrow> u64 \<Rightarrow> (int \<times> lmb) option" where
  "lmb_free l b s = do {
     (ret, r) \<leftarrow> raw_lmb_remove (reserved l) b s; Some (ret, l\<lparr>reserved := r\<rparr>) }"

definition lmb_reserve :: "lmb \<Rightarrow> u64 \<Rightarrow> u64 \<Rightarrow> (int \<times> lmb) option" where
  "lmb_reserve l b s =
     (if s = 0 then None
      else do { (ret, r) \<leftarrow> lmb_add_region (reserved l) b s; Some (ret, l\<lparr>reserved := r\<rparr>) })"

section \<open>Queries\<close>

function lmb_overlaps_from :: "lmb_region \<Rightarrow> u64 \<Rightarrow> u64 \<Rightarrow> nat \<Rightarrow> nat option" where
  "lmb_overlaps_from rgn b s i =
     (if i < unat (rcnt rgn) then do {
        p \<leftarrow> aget (rregion rgn) i;
        if lmb_addrs_overlap b s (lbase p) (lsize p) then Some i
        else lmb_overlaps_from rgn b s (i + 1) }
      else Some i)"
  by pat_completeness auto
termination
  by (relation "measure (\<lambda>(rgn, b, s, i). unat (rcnt rgn) - i)") auto

definition lmb_overlaps_region :: "lmb_region \<Rightarrow> u64 \<Rightarrow> u64 \<Rightarrow> int option" where
  "lmb_overlaps_region rgn b s = do {
     i \<leftarrow> lmb_overlaps_from rgn b s 0;
     Some (if i < unat (rcnt rgn) then int i else -1) }"

function lmb_is_reserved_from :: "lmb_region \<Rightarrow> u64 \<Rightarrow> nat \<Rightarrow> bool option" where
  "lmb_is_reserved_from rgn addr i =
     (if i < unat (rcnt rgn) then do {
        p \<leftarrow> aget (rregion rgn) i;
        let upper = lbase p + lsize p - 1 in
        if addr \<ge> lbase p \<and> addr \<le> upper then Some True
        else lmb_is_reserved_from rgn addr (i + 1) }
      else Some False)"
  by pat_completeness auto
termination
  by (relation "measure (\<lambda>(rgn, addr, i). unat (rcnt rgn) - i)") auto

definition lmb_is_reserved :: "lmb \<Rightarrow> u64 \<Rightarrow> bool option" where
  "lmb_is_reserved l addr = lmb_is_reserved_from (reserved l) addr 0"

definition lmb_is_region_reserved :: "lmb \<Rightarrow> u64 \<Rightarrow> u64 \<Rightarrow> int option" where
  "lmb_is_region_reserved l b s = lmb_overlaps_region (reserved l) b s"

text \<open>\<open>lmb_find\<close>: the result code and the adjusted request.\<close>

function lmb_find_from ::
  "lmb_region \<Rightarrow> lmb_property \<Rightarrow> u64 \<Rightarrow> u64 \<Rightarrow> nat \<Rightarrow> (int \<times> lmb_property) option" where
  "lmb_find_from rgn res rstart rend i =
     (if i < unat (rcnt rgn) then do {
        p \<leftarrow> aget (rregion rgn) i;
        let start = lbase p; pend = lbase p + lsize p - 1 in
        if start > rend then Some (-1, res)
        else if pend \<ge> rstart \<and> start < rend then
          let rstart' = (if rstart < start then start else rstart);
              rend' = (if rend > pend then pend else rend)
          in Some (0, res\<lparr>lbase := rstart', lsize := rend' - rstart' + 1\<rparr>)
        else lmb_find_from rgn res rstart rend (i + 1) }
      else Some (-1, res))"
  by pat_completeness auto
termination
  by (relation "measure (\<lambda>(rgn, res, rstart, rend, i). unat (rcnt rgn) - i)") auto

definition lmb_find :: "lmb \<Rightarrow> lmb_property \<Rightarrow> (int \<times> lmb_property) option" where
  "lmb_find l res = lmb_find_from (memory l) res (lbase res) (lbase res + lsize res - 1) 0"

definition lmb_phys_mem_size :: "lmb \<Rightarrow> u64" where
  "lmb_phys_mem_size l = rsize (memory l)"

text \<open>The index is the \<open>int\<close> that \<open>cnt - 1\<close> converts to.\<close>

definition lmb_end_of_DRAM :: "lmb \<Rightarrow> u64 option" where
  "lmb_end_of_DRAM l = (let idx = sint (ucast (rcnt (memory l) - 1) :: u32) in
     if idx < 0 then None
     else do { p \<leftarrow> aget (rregion (memory l)) (nat idx); Some (lbase p + lsize p) })"

section \<open>Allocation\<close>

definition lmb_align_down :: "u64 \<Rightarrow> u64 \<Rightarrow> u64" where
  "lmb_align_down addr s = addr AND NOT (s - 1)"

definition lmb_align_up :: "u64 \<Rightarrow> u64 \<Rightarrow> u64" where
  "lmb_align_up addr s = (addr + (s - 1)) AND NOT (s - 1)"

declare lmb_shift_down.simps [simp del] lmb_sum_sizes.simps [simp del]
  lmb_add_scan.simps [simp del] lmb_remove_find.simps [simp del]
  lmb_overlaps_from.simps [simp del] lmb_is_reserved_from.simps [simp del]
  lmb_find_from.simps [simp del]

text \<open>
  Both allocation loops retry below the reserved block they hit.  The candidate
  gets strictly smaller, whatever the words wrap to, so the loops end.
\<close>

lemma lmb_overlaps_from_hit:
  "lmb_overlaps_from rgn b s i = Some j \<Longrightarrow> j < unat (rcnt rgn) \<Longrightarrow>
   \<exists>p. aget (rregion rgn) j = Some p \<and> lmb_addrs_overlap b s (lbase p) (lsize p)"
  by (induction rgn b s i rule: lmb_overlaps_from.induct)
     (subst (asm) (2) lmb_overlaps_from.simps, auto split: if_splits bind_splits)

lemma lmb_retry_below:
  assumes "lmb_addrs_overlap b s rb rs" and "\<not> rb < s"
  shows "unat (lmb_align_down (rb - s) a) < unat b"
proof -
  have "lmb_align_down (rb - s) a \<le> rb - s"
    by (simp add: lmb_align_down_def word_and_le2)
  moreover have "unat (rb - s) < unat b"
  proof -
    have "unat (b + s) \<le> unat b + unat s"
      by (simp add: unat_word_ariths)
    with assms show ?thesis
      by (simp add: lmb_addrs_overlap_def word_less_nat_alt unat_sub_nowrap) linarith
  qed
  ultimately show ?thesis
    by (simp add: word_le_nat_alt)
qed

function lmb_alloc_nid_loop ::
  "lmb_region \<Rightarrow> u64 \<Rightarrow> u64 \<Rightarrow> u64 \<Rightarrow> u64 \<Rightarrow> (u64 \<times> lmb_region) option" where
  "lmb_alloc_nid_loop res start s align b =
     (if start \<le> b then do {
        j \<leftarrow> lmb_overlaps_region res b s;
        if j < 0 then do {
          (ret, r) \<leftarrow> lmb_add_region res b s;
          Some (if ret < 0 then NOT 0 else b, r) }
        else do {
          p \<leftarrow> aget (rregion res) (nat j);
          if lbase p < s then Some (NOT 0, res)
          else lmb_alloc_nid_loop res start s align (lmb_align_down (lbase p - s) align) } }
      else Some (NOT 0, res))"
  by pat_completeness auto
termination
  by (relation "measure (\<lambda>(res, start, s, align, b). unat b)")
     (auto simp: lmb_overlaps_region_def split: if_splits bind_splits
       dest!: lmb_overlaps_from_hit intro: lmb_retry_below)

definition lmb_alloc_nid_unreserved ::
  "lmb \<Rightarrow> u64 \<Rightarrow> u64 \<Rightarrow> u64 \<Rightarrow> u64 \<Rightarrow> (u64 \<times> lmb) option" where
  "lmb_alloc_nid_unreserved l start e s align = do {
     (ret, r) \<leftarrow> lmb_alloc_nid_loop (reserved l) start s align (lmb_align_down (e - s) align);
     Some (ret, l\<lparr>reserved := r\<rparr>) }"

text \<open>
  The inner loop of \<open>__lmb_alloc_base\<close>: \<open>Some None\<close> leaves the loop without a
  result, \<open>Some (Some (ret, r))\<close> returns from the function.
\<close>

function lmb_alloc_inner ::
  "lmb_region \<Rightarrow> u64 \<Rightarrow> u64 \<Rightarrow> u64 \<Rightarrow> u64 \<Rightarrow> (u64 \<times> lmb_region) option option" where
  "lmb_alloc_inner res lmbbase s align b =
     (if b \<noteq> 0 \<and> lmbbase \<le> b then do {
        j \<leftarrow> lmb_overlaps_region res b s;
        if j < 0 then do {
          (ret, r) \<leftarrow> lmb_add_region res b s;
          Some (Some (if ret < 0 then 0 else b, r)) }
        else do {
          p \<leftarrow> aget (rregion res) (nat j);
          if lbase p < s then Some None
          else lmb_alloc_inner res lmbbase s align (lmb_align_down (lbase p - s) align) } }
      else Some None)"
  by pat_completeness auto
termination
  by (relation "measure (\<lambda>(res, lmbbase, s, align, b). unat b)")
     (auto simp: lmb_overlaps_region_def split: if_splits bind_splits
       dest!: lmb_overlaps_from_hit intro: lmb_retry_below)

declare lmb_alloc_nid_loop.simps [simp del] lmb_alloc_inner.simps [simp del]

text \<open>The outer loop of \<open>__lmb_alloc_base\<close>; the last argument is \<open>i + 1\<close>.\<close>

fun lmb_alloc_outer :: "lmb \<Rightarrow> u64 \<Rightarrow> u64 \<Rightarrow> u64 \<Rightarrow> nat \<Rightarrow> (u64 \<times> lmb) option" where
  "lmb_alloc_outer l s align max_addr 0 = Some (0, l)"
| "lmb_alloc_outer l s align max_addr (Suc i) = do {
     p \<leftarrow> aget (rregion (memory l)) i;
     let lmbbase = lbase p; lmbsize = lsize p in
     if lmbsize < s then lmb_alloc_outer l s align max_addr i
     else if max_addr \<noteq> LMB_ALLOC_ANYWHERE \<and> \<not> lmbbase < max_addr
     then lmb_alloc_outer l s align max_addr i
     else do {
       res \<leftarrow> lmb_alloc_inner (reserved l) lmbbase s align
         (if max_addr = LMB_ALLOC_ANYWHERE then lmb_align_down (lmbbase + lmbsize - s) align
          else lmb_align_down (min (lmbbase + lmbsize) max_addr - s) align);
       case res of None \<Rightarrow> lmb_alloc_outer l s align max_addr i
       | Some (ret, r) \<Rightarrow> Some (ret, l\<lparr>reserved := r\<rparr>) } }"

text \<open>
  \<open>__lmb_alloc_base\<close>; the parameter \<open>real_limit\<close> is the architecture's
  \<open>LMB_REAL_LIMIT\<close>.
\<close>

definition raw_lmb_alloc_base ::
  "u64 \<Rightarrow> lmb \<Rightarrow> u64 \<Rightarrow> u64 \<Rightarrow> u64 \<Rightarrow> (u64 \<times> lmb) option" where
  "raw_lmb_alloc_base real_limit l s align max_addr =
     (if s = 0 then None
      else lmb_alloc_outer l (lmb_align_up s align) align
        (if max_addr = LMB_ALLOC_ANYWHERE then real_limit else max_addr)
        (nat (sint (rcnt (memory l) - 1) + 1)))"

definition lmb_alloc_base ::
  "u64 \<Rightarrow> lmb \<Rightarrow> u64 \<Rightarrow> u64 \<Rightarrow> u64 \<Rightarrow> (u64 \<times> lmb) option" where
  "lmb_alloc_base real_limit l s align max_addr = do {
     (alloc, l') \<leftarrow> raw_lmb_alloc_base real_limit l s align max_addr;
     if alloc = 0 then None else Some (alloc, l') }"

definition lmb_alloc :: "u64 \<Rightarrow> lmb \<Rightarrow> u64 \<Rightarrow> u64 \<Rightarrow> (u64 \<times> lmb) option" where
  "lmb_alloc real_limit l s align = lmb_alloc_base real_limit l s align LMB_ALLOC_ANYWHERE"

text \<open>
  \<open>nid_range\<close> is the caller's function: the end of the part of \<open>start .. e\<close> that
  lies on one node, and the node.
\<close>

partial_function (option) lmb_alloc_nid_scan ::
  "(u64 \<Rightarrow> u64 \<Rightarrow> u64 \<times> int) \<Rightarrow> lmb \<Rightarrow> u64 \<Rightarrow> u64 \<Rightarrow> int \<Rightarrow> u64 \<Rightarrow> u64 \<Rightarrow> (u64 \<times> lmb) option" where
  "lmb_alloc_nid_scan nid_range l s align nid start e =
     (if start < e then
        (let this_end = fst (nid_range start e); this_nid = snd (nid_range start e) in
         if this_nid = nid then
           Option.bind (lmb_alloc_nid_unreserved l start this_end s align)
             (\<lambda>(ret, l'). if ret \<noteq> NOT 0 then Some (ret, l')
                else lmb_alloc_nid_scan nid_range l' s align nid this_end e)
         else lmb_alloc_nid_scan nid_range l s align nid this_end e)
      else Some (NOT 0, l))"

definition lmb_alloc_nid_region ::
  "(u64 \<Rightarrow> u64 \<Rightarrow> u64 \<times> int) \<Rightarrow> lmb \<Rightarrow> lmb_property \<Rightarrow> u64 \<Rightarrow> u64 \<Rightarrow> int \<Rightarrow> (u64 \<times> lmb) option" where
  "lmb_alloc_nid_region nid_range l mp s align nid =
     lmb_alloc_nid_scan nid_range l s align nid (lmb_align_up (lbase mp) align) (lbase mp + lsize mp)"

function lmb_alloc_nid_from ::
  "u64 \<Rightarrow> (u64 \<Rightarrow> u64 \<Rightarrow> u64 \<times> int) \<Rightarrow> lmb_region \<Rightarrow> lmb \<Rightarrow> u64 \<Rightarrow> u64 \<Rightarrow> int \<Rightarrow> nat
   \<Rightarrow> (u64 \<times> lmb) option" where
  "lmb_alloc_nid_from real_limit nid_range mem l s align nid i =
     (if i < unat (rcnt mem) then do {
        p \<leftarrow> aget (rregion mem) i;
        (ret, l') \<leftarrow> lmb_alloc_nid_region nid_range l p s align nid;
        if ret \<noteq> NOT 0 then Some (ret, l')
        else lmb_alloc_nid_from real_limit nid_range mem l' s align nid (i + 1) }
      else lmb_alloc real_limit l s align)"
  by pat_completeness auto
termination
  by (relation "measure (\<lambda>(real_limit, nid_range, mem, l, s, align, nid, i). unat (rcnt mem) - i)") auto

definition lmb_alloc_nid ::
  "u64 \<Rightarrow> (u64 \<Rightarrow> u64 \<Rightarrow> u64 \<times> int) \<Rightarrow> lmb \<Rightarrow> u64 \<Rightarrow> u64 \<Rightarrow> int \<Rightarrow> (u64 \<times> lmb) option" where
  "lmb_alloc_nid real_limit nid_range l s align nid =
     (if s = 0 then None
      else lmb_alloc_nid_from real_limit nid_range (memory l) l (lmb_align_up s align) align nid 0)"

section \<open>The memory limit\<close>

function lmb_truncate_memory :: "lmb_region \<Rightarrow> u64 \<Rightarrow> nat \<Rightarrow> lmb_region option" where
  "lmb_truncate_memory rgn limit i =
     (if i < unat (rcnt rgn) then do {
        p \<leftarrow> aget (rregion rgn) i;
        if limit > lsize p then lmb_truncate_memory rgn (limit - lsize p) (i + 1)
        else do {
          xs \<leftarrow> aset (rregion rgn) i (p\<lparr>lsize := limit\<rparr>);
          Some (rgn\<lparr>rregion := xs, rcnt := of_nat i + 1\<rparr>) } }
      else Some rgn)"
  by pat_completeness auto
termination
  by (relation "measure (\<lambda>(rgn, limit, i). unat (rcnt rgn) - i)") auto

text \<open>
  The loop over the reserved table: an entry that is cut to nothing is removed
  and its place looked at again (the \<open>i--\<close> of the source before the loop's
  \<open>i++\<close>).
\<close>

lemma lmb_remove_region_cnt:
  "lmb_remove_region rgn i = Some r \<Longrightarrow> rcnt r = rcnt rgn - 1"
  by (auto simp: lmb_remove_region_def split: bind_splits)

function lmb_truncate_reserved :: "lmb_region \<Rightarrow> u64 \<Rightarrow> nat \<Rightarrow> lmb_region option" where
  "lmb_truncate_reserved rgn limit i =
     (if i < unat (rcnt rgn) then do {
        p \<leftarrow> aget (rregion rgn) i;
        let p' = (if lbase p > limit then p\<lparr>lsize := 0\<rparr>
                  else if lbase p + lsize p > limit then p\<lparr>lsize := limit - lbase p\<rparr>
                  else p) in do {
          xs \<leftarrow> aset (rregion rgn) i p';
          if lsize p' = 0
          then do {
            r \<leftarrow> lmb_remove_region (rgn\<lparr>rregion := xs\<rparr>) i;
            lmb_truncate_reserved r limit i }
          else lmb_truncate_reserved (rgn\<lparr>rregion := xs\<rparr>) limit (i + 1) } }
      else Some rgn)"
  by pat_completeness auto
termination
  by (relation "measure (\<lambda>(rgn, limit, i). unat (rcnt rgn) - i)")
     (auto dest!: lmb_remove_region_cnt simp: unat_sub_1)

declare lmb_truncate_memory.simps [simp del] lmb_truncate_reserved.simps [simp del]
  lmb_alloc_nid_from.simps [simp del]

definition lmb_enforce_memory_limit :: "lmb \<Rightarrow> u64 \<Rightarrow> lmb option" where
  "lmb_enforce_memory_limit l memory_limit =
     (if memory_limit = 0 then Some l
      else do {
        mem \<leftarrow> lmb_truncate_memory (memory l) memory_limit 0;
        p0 \<leftarrow> aget (rregion mem) 0;
        let l1 = l\<lparr>memory := mem, rmo_size := (if lsize p0 < rmo_size l then lsize p0 else rmo_size l)\<rparr>
        in do {
          limit \<leftarrow> lmb_end_of_DRAM l1;
          res \<leftarrow> lmb_truncate_reserved (reserved l1) limit 0;
          Some (l1\<lparr>reserved := res\<rparr>) } })"

end
