(* ===== verification/Lmb_Table.thy ===== *)
theory Lmb_Table
  imports Lmb
begin

text \<open>
  What a table of memory blocks means (the set of addresses it covers), the
  invariant of the tables, and the effect of adding, removing, clipping and
  looking up blocks.
\<close>

section \<open>The loops of the table operations\<close>

lemma lmb_overlaps_from_find_ix:
  "unat (rcnt rgn) \<le> length (rregion rgn) \<Longrightarrow>
   lmb_overlaps_from rgn b s i =
     Some (find_ix (\<lambda>p. lmb_addrs_overlap b s (lbase p) (lsize p)) (rregion rgn) i (unat (rcnt rgn)))"
  by (induction rgn b s i rule: lmb_overlaps_from.induct)
     (subst lmb_overlaps_from.simps, subst find_ix.simps, simp add: aget_def)

lemma lmb_remove_find_find_ix:
  "unat (rcnt rgn) \<le> length (rregion rgn) \<Longrightarrow>
   lmb_remove_find rgn b e i =
     Some (find_ix (\<lambda>p. lbase p \<le> b \<and> e \<le> lbase p + lsize p) (rregion rgn) i (unat (rcnt rgn)))"
  by (induction rgn b e i rule: lmb_remove_find.induct)
     (subst lmb_remove_find.simps, subst find_ix.simps, simp add: aget_def)

lemma lmb_is_reserved_from_find_ix:
  "unat (rcnt rgn) \<le> length (rregion rgn) \<Longrightarrow> i \<le> unat (rcnt rgn) \<Longrightarrow>
   lmb_is_reserved_from rgn a i =
     Some (find_ix (\<lambda>p. lbase p \<le> a \<and> a \<le> lbase p + lsize p - 1) (rregion rgn) i (unat (rcnt rgn))
       < unat (rcnt rgn))"
  by (induction rgn a i rule: lmb_is_reserved_from.induct)
     (subst lmb_is_reserved_from.simps, subst find_ix.simps, simp add: aget_def Let_def)

definition lmb_add_hit :: "u64 \<Rightarrow> u64 \<Rightarrow> lmb_property \<Rightarrow> bool" where
  "lmb_add_hit b s p \<longleftrightarrow> lbase p = b \<and> lsize p = s \<or> lmb_addrs_adjacent b s (lbase p) (lsize p) \<noteq> 0"

definition lmb_add_found ::
  "lmb_region \<Rightarrow> u64 \<Rightarrow> u64 \<Rightarrow> nat \<Rightarrow> (nat \<times> int \<times> lmb_region) option" where
  "lmb_add_found rgn b s k = (let p = rregion rgn ! k in
      if unat (rcnt rgn) \<le> k then Some (k, 0, rgn)
      else if lbase p = b \<and> lsize p = s then None
      else if lmb_addrs_adjacent b s (lbase p) (lsize p) > 0
      then Some (k, 1, rgn\<lparr>rregion := (rregion rgn)[k := p\<lparr>lbase := lbase p - s, lsize := lsize p + s\<rparr>]\<rparr>)
      else Some (k, 1, rgn\<lparr>rregion := (rregion rgn)[k := p\<lparr>lsize := lsize p + s\<rparr>]\<rparr>))"

lemma lmb_add_scan_find_ix:
  "unat (rcnt rgn) \<le> length (rregion rgn) \<Longrightarrow>
   lmb_add_scan rgn b s i =
     Some (lmb_add_found rgn b s (find_ix (lmb_add_hit b s) (rregion rgn) i (unat (rcnt rgn))))"
proof (induction rgn b s i rule: lmb_add_scan.induct)
  case (1 rgn b s i)
  show ?case
  proof (cases "i < unat (rcnt rgn) \<and> \<not> lmb_add_hit b s (rregion rgn ! i)")
    case True
    with 1 have "lmb_add_scan rgn b s i = lmb_add_scan rgn b s (i + 1)"
      by (subst lmb_add_scan.simps) (auto simp: aget_def lmb_add_hit_def)
    moreover have "lmb_add_scan rgn b s (i + 1) = Some (lmb_add_found rgn b s
        (find_ix (lmb_add_hit b s) (rregion rgn) (i + 1) (unat (rcnt rgn))))"
      by (rule "1.IH"[OF _ _ _ _ _ _ "1.prems"])
         (use True "1.prems" in \<open>auto simp: aget_def lmb_add_hit_def\<close>)
    moreover have "find_ix (lmb_add_hit b s) (rregion rgn) i (unat (rcnt rgn)) =
        find_ix (lmb_add_hit b s) (rregion rgn) (i + 1) (unat (rcnt rgn))"
      using True by (subst find_ix.simps) simp
    ultimately show ?thesis by simp
  next
    case False
    with "1.prems" show ?thesis
      by (subst lmb_add_scan.simps, subst find_ix.simps)
         (auto simp: aget_def aset_def Let_def lmb_add_found_def lmb_add_hit_def)
  qed
qed

lemma lmb_shift_down_eq:
  "i \<le> n \<Longrightarrow> n < length xs \<Longrightarrow>
   lmb_shift_down xs i n = Some (take i xs @ take (n - i) (drop (Suc i) xs) @ drop n xs)"
proof (induction xs i n rule: lmb_shift_down.induct)
  case (1 xs i n)
  show ?case
  proof (cases "i < n")
    case True
    with 1 have "lmb_shift_down xs i n = Some (take (Suc i) (xs[i := xs ! Suc i]) @
        take (n - Suc i) (drop (Suc (Suc i)) (xs[i := xs ! Suc i])) @ drop n (xs[i := xs ! Suc i]))"
      by (subst lmb_shift_down.simps) (simp add: aget_def aset_def)
    also have "\<dots> = Some (take i xs @ take (n - i) (drop (Suc i) xs) @ drop n xs)"
      using True "1.prems"
      by (auto simp: take_Suc_conv_app_nth take_Cons' nth_append Cons_nth_drop_Suc [symmetric] simp del: drop_drop)
    finally show ?thesis .
  next
    case False
    with "1.prems" show ?thesis by (subst lmb_shift_down.simps) simp
  qed
qed

section \<open>What a table means\<close>

definition active :: "lmb_region \<Rightarrow> lmb_property list" where
  "active rgn = take (unat (rcnt rgn)) (rregion rgn)"

definition lo :: "lmb_property \<Rightarrow> nat" where
  "lo p = unat (lbase p)"

definition hi :: "lmb_property \<Rightarrow> nat" where
  "hi p = unat (lbase p) + unat (lsize p)"

definition block :: "lmb_property \<Rightarrow> nat set" where
  "block p = {lo p..<hi p}"

definition covered :: "lmb_region \<Rightarrow> nat set" where
  "covered rgn = (\<Union>p \<in> set (active rgn). block p)"

definition lmb_table_ok :: "lmb_region \<Rightarrow> bool" where
  "lmb_table_ok rgn \<longleftrightarrow> length (rregion rgn) = MAX_LMB_REGIONS + 1 \<and> 0 < unat (rcnt rgn)
     \<and> unat (rcnt rgn) \<le> MAX_LMB_REGIONS"

text \<open>Blocks in increasing order with a gap between any two of them.\<close>

definition separated :: "lmb_property list \<Rightarrow> bool" where
  "separated ps \<longleftrightarrow> sorted_wrt (\<lambda>p q. hi p < lo q) ps \<and> (\<forall>p \<in> set ps. 0 < lsize p \<and> hi p < 2 ^ 64)"

definition lmb_inv :: "lmb_region \<Rightarrow> bool" where
  "lmb_inv rgn \<longleftrightarrow> lmb_table_ok rgn \<and>
     (rcnt rgn = 1 \<and> lsize (rregion rgn ! 0) = 0 \<or> separated (active rgn))"

lemma lmb_insert_loop_eq:
  assumes "k < length xs"
  shows "\<exists>j \<le> k. (\<forall>m. j \<le> m \<longrightarrow> m < k \<longrightarrow> b < lbase (xs ! m)) \<and> (0 < j \<longrightarrow> lbase (xs ! (j - 1)) \<le> b)
    \<and> lmb_insert_loop xs b s k =
        Some (take j xs @ (if j = 0 then xs ! 0 else \<lparr>lbase = b, lsize = s\<rparr>) #
              take (k - j) (drop j xs) @ drop (Suc k) xs)"
  using assms
proof (induction k arbitrary: xs)
  case 0
  then show ?case by (auto simp: Cons_nth_drop_Suc)
next
  case (Suc i)
  show ?case
  proof (cases "b < lbase (xs ! i)")
    case True
    let ?ys = "xs[Suc i := xs ! i]"
    obtain j where j: "j \<le> i" "\<forall>m. j \<le> m \<longrightarrow> m < i \<longrightarrow> b < lbase (?ys ! m)"
      "0 < j \<longrightarrow> lbase (?ys ! (j - 1)) \<le> b"
      and eq: "lmb_insert_loop ?ys b s i =
        Some (take j ?ys @ (if j = 0 then ?ys ! 0 else \<lparr>lbase = b, lsize = s\<rparr>) #
              take (i - j) (drop j ?ys) @ drop (Suc i) ?ys)"
      using Suc.IH [of ?ys] Suc.prems by (metis Suc_lessD length_list_update)
    have "take (Suc i - j) (drop j xs) = take (i - j) (drop j xs) @ [xs ! i]"
      using j(1) Suc.prems by (simp add: Suc_diff_le take_Suc_conv_app_nth)
    moreover have "take (i - j) (drop j ?ys) = take (i - j) (drop j xs)"
      using j(1) by (simp add: drop_update_swap)
    moreover have "drop (Suc i) ?ys = xs ! i # drop (Suc (Suc i)) xs"
      using Suc.prems by (simp add: drop_update_swap Cons_nth_drop_Suc [symmetric])
    moreover have "lmb_insert_loop xs b s (Suc i) = lmb_insert_loop ?ys b s i"
      using True Suc.prems by (simp add: aget_def aset_def)
    ultimately show ?thesis
      using j eq True Suc.prems by (intro exI [of _ j]) (auto simp: nth_list_update less_Suc_eq)
  next
    case False
    with Suc.prems show ?thesis
      by (intro exI [of _ "Suc i"])
         (auto simp: aget_def aset_def upd_conv_take_nth_drop)
  qed
qed


lemma hi_ge_lo: "lo p \<le> hi p"
  by (simp add: lo_def hi_def)

lemma separated_Nil [simp]: "separated []"
  by (simp add: separated_def)

lemma separated_Cons [simp]:
  "separated (p # ps) \<longleftrightarrow> 0 < lsize p \<and> hi p < 2 ^ 64 \<and> (\<forall>q \<in> set ps. hi p < lo q) \<and> separated ps"
  by (auto simp: separated_def)

lemma separated_append [simp]:
  "separated (ps @ qs) \<longleftrightarrow> separated ps \<and> separated qs \<and> (\<forall>p \<in> set ps. \<forall>q \<in> set qs. hi p < lo q)"
  by (auto simp: separated_def sorted_wrt_append)

lemma separated_memD: "separated ps \<Longrightarrow> p \<in> set ps \<Longrightarrow> lo p < hi p \<and> hi p < 2 ^ 64 \<and> 0 < lsize p"
  by (auto simp: separated_def lo_def hi_def word_less_nat_alt)

lemma length_active: "lmb_table_ok rgn \<Longrightarrow> length (active rgn) = unat (rcnt rgn)"
  by (simp add: active_def lmb_table_ok_def)

lemma active_nth: "lmb_table_ok rgn \<Longrightarrow> i < unat (rcnt rgn) \<Longrightarrow> active rgn ! i = rregion rgn ! i"
  by (simp add: active_def)

lemma active_update:
  "active (rgn\<lparr>rregion := (rregion rgn)[k := p]\<rparr>) = (active rgn)[k := p]"
  by (simp add: active_def take_update_swap)

lemma lmb_table_ok_update [simp]:
  "lmb_table_ok (rgn\<lparr>rregion := (rregion rgn)[k := p]\<rparr>) = lmb_table_ok rgn"
  by (simp add: lmb_table_ok_def)

lemma lmb_remove_region_active:
  assumes "lmb_table_ok rgn" and "r < unat (rcnt rgn)"
  shows "\<exists>rgn'. lmb_remove_region rgn r = Some rgn' \<and> rcnt rgn' = rcnt rgn - 1
    \<and> length (rregion rgn') = length (rregion rgn)
    \<and> active rgn' = take r (active rgn) @ drop (Suc r) (active rgn)"
proof -
  let ?n = "unat (rcnt rgn)"
  have n: "unat (rcnt rgn - 1) = ?n - 1"
    using assms by (intro unat_sub_1) simp
  have eq: "lmb_shift_down (rregion rgn) r (?n - 1) =
      Some (take r (rregion rgn) @ take (?n - 1 - r) (drop (Suc r) (rregion rgn)) @ drop (?n - 1) (rregion rgn))"
    using assms by (intro lmb_shift_down_eq) (auto simp: lmb_table_ok_def)
  have "take (?n - 1) (take r (rregion rgn) @ take (?n - 1 - r) (drop (Suc r) (rregion rgn)) @ drop (?n - 1) (rregion rgn))
      = take r (active rgn) @ drop (Suc r) (active rgn)"
    using assms by (cases "r = ?n - 1") (auto simp: active_def drop_take min_def lmb_table_ok_def)
  with eq n assms show ?thesis
    by (auto simp: lmb_remove_region_def active_def lmb_table_ok_def)
qed

lemma hi_word: "hi p < 2 ^ 64 \<Longrightarrow> unat (lbase p + lsize p) = hi p"
  by (simp add: hi_def unat_add_nowrap)

lemma adjacent_nat:
  assumes "hi p < 2 ^ 64" and "hi q < 2 ^ 64"
  shows "lmb_addrs_adjacent (lbase p) (lsize p) (lbase q) (lsize q) =
    (if lo q = hi p then 1 else if lo p = hi q then -1 else 0)"
  using assms by (simp add: lmb_addrs_adjacent_def lo_def word_unat_eq_iff flip: hi_word)

lemma overlap_nat:
  assumes "hi p < 2 ^ 64" and "hi q < 2 ^ 64"
  shows "lmb_addrs_overlap (lbase p) (lsize p) (lbase q) (lsize q) \<longleftrightarrow> lo p < hi q \<and> lo q < hi p"
  using assms by (simp add: lmb_addrs_overlap_def lo_def word_less_nat_alt hi_word)

lemma overlap_block:
  assumes "0 < lsize p" and "0 < lsize q"
  shows "block p \<inter> block q = {} \<longleftrightarrow> hi p \<le> lo q \<or> hi q \<le> lo p"
  using assms by (auto simp: block_def lo_def hi_def word_less_nat_alt)


text \<open>Adding a block: what the table holds afterwards, case by case.\<close>

definition new_block :: "u64 \<Rightarrow> u64 \<Rightarrow> lmb_property" where
  "new_block b s = \<lparr>lbase = b, lsize = s\<rparr>"

lemma new_block_sel [simp]: "lbase (new_block b s) = b" "lsize (new_block b s) = s"
  by (simp_all add: new_block_def)

lemma active_split:
  assumes "lmb_table_ok rgn" and "k < unat (rcnt rgn)"
  shows "active rgn = take k (active rgn) @ rregion rgn ! k # drop (Suc k) (active rgn)"
    and "length (take k (active rgn)) = k"
  using assms id_take_nth_drop [of k "active rgn"] by (auto simp: length_active active_nth)

lemma grow_down:
  assumes "separated (as @ p # bs)" and "lo p = hi n" and "0 < lsize n"
    and "\<forall>q \<in> set as. block n \<inter> block q = {} \<and> lo n \<noteq> hi q"
    and "p' = p\<lparr>lbase := lbase p - lsize n, lsize := lsize p + lsize n\<rparr>"
  shows "lo p' = lo n \<and> hi p' = hi p \<and> separated (as @ p' # bs)"
proof -
  have "unat (lbase p - lsize n) = lo n"
    using assms(2) by (simp add: lo_def hi_def unat_sub_nowrap)
  moreover have "unat (lsize p + lsize n) = unat (lsize p) + unat (lsize n)"
    using assms(1,2) by (intro unat_add_nowrap) (auto simp: lo_def hi_def)
  ultimately have 1: "lo p' = lo n \<and> hi p' = hi p" "0 < lsize p'"
    using assms(2,3,5) by (auto simp: lo_def hi_def word_less_nat_alt)
  have "hi q < lo n" if "q \<in> set as" for q
  proof -
    have "0 < lsize q" "hi q < lo p" "lo q < hi q"
      using assms(1) that by (auto dest: separated_memD)
    then show ?thesis
      using assms(2,3,4) that overlap_block [of n q] by (auto simp: le_less hi_ge_lo)
  qed
  with 1 assms(1) show ?thesis by auto
qed

lemma grow_up:
  assumes "separated (as @ p # bs)" and "lo n = hi p" and "0 < lsize n" and "hi n < 2 ^ 64"
    and "p' = p\<lparr>lsize := lsize p + lsize n\<rparr>"
  shows "lo p' = lo p \<and> hi p' = hi n \<and> 0 < lsize p'"
proof -
  have "unat (lsize p + lsize n) = unat (lsize p) + unat (lsize n)"
    using assms by (intro unat_add_nowrap) (auto simp: lo_def hi_def)
  with assms show ?thesis by (auto simp: lo_def hi_def word_less_nat_alt)
qed

lemma after_new:
  assumes "separated (q # qs)" and "0 < lsize n" and "block n \<inter> block q = {}" and "lo n < lo q"
  shows "hi n \<le> lo q"
  using assms overlap_block [of n q] by (auto dest: separated_memD simp: hi_def lo_def)

section \<open>Adding a block\<close>

definition added :: "lmb_region \<Rightarrow> lmb_property \<Rightarrow> lmb_region \<Rightarrow> bool" where
  "added rgn n rgn' \<longleftrightarrow> lmb_table_ok rgn' \<and> separated (active rgn')
     \<and> covered rgn' = covered rgn \<union> block n"

lemma addedI:
  assumes "lmb_table_ok rgn'" and "separated (active rgn')"
    and "(\<Union>p \<in> set (active rgn'). block p) = (\<Union>p \<in> set (active rgn). block p) \<union> block n"
  shows "added rgn n rgn'"
  using assms by (simp add: added_def covered_def)

lemma add_empty_table:
  assumes "lmb_table_ok rgn" and "rcnt rgn = 1" and "lsize (rregion rgn ! 0) = 0"
    and "0 < s" and "hi (new_block b s) < 2 ^ 64"
  shows "\<exists>rgn'. lmb_add_region rgn b s = Some (0, rgn') \<and> added rgn (new_block b s) rgn'"
proof -
  let ?r = "rgn\<lparr>rregion := (rregion rgn)[0 := new_block b s]\<rparr>"
  have "active rgn = [rregion rgn ! 0]"
    using assms by (simp add: active_def lmb_table_ok_def take_Suc_conv_app_nth)
  moreover from this have "active ?r = [new_block b s]"
    by (simp add: active_update)
  moreover have "block (rregion rgn ! 0) = {}"
    using assms(3) by (simp add: block_def lo_def hi_def)
  ultimately have "added rgn (new_block b s) ?r"
    using assms by (intro addedI) auto
  moreover have "lmb_add_region rgn b s = Some (0, ?r)"
    using assms by (simp add: lmb_add_region_def aget_def aset_def lmb_table_ok_def new_block_def)
  ultimately show ?thesis by blast
qed

lemma separated_not_empty_table:
  assumes "lmb_table_ok rgn" and "separated (active rgn)"
  shows "lsize (rregion rgn ! 0) \<noteq> 0"
proof -
  have "rregion rgn ! 0 \<in> set (active rgn)"
    using assms(1) nth_mem [of 0 "active rgn"]
    by (metis active_nth length_active lmb_table_ok_def)
  from separated_memD [OF assms(2) this] show ?thesis by auto
qed

lemma separated_mono:
  assumes "separated ps" and "i \<le> j" and "j < length ps"
  shows "lo (ps ! i) \<le> lo (ps ! j)"
proof (cases "i = j")
  case False
  with assms have "hi (ps ! i) < lo (ps ! j)"
    by (auto simp: separated_def sorted_wrt_iff_nth_less)
  then show ?thesis using hi_ge_lo [of "ps ! i"] by simp
qed simp

lemma lmb_add_region_scan:
  assumes "lmb_table_ok rgn" and "separated (active rgn)"
  shows "lmb_add_region rgn b s =
    (case lmb_add_found rgn b s (find_ix (lmb_add_hit b s) (rregion rgn) 0 (unat (rcnt rgn))) of
       None \<Rightarrow> Some (0, rgn)
     | Some (i, coalesced, rgn1) \<Rightarrow> lmb_add_finish b s i coalesced rgn1)"
  using separated_not_empty_table [OF assms] assms(1)
  by (simp add: lmb_add_region_def aget_def lmb_table_ok_def lmb_add_scan_find_ix)

lemma finish_not_adjacent:
  assumes ok: "lmb_table_ok rgn1" and sep: "separated (active rgn1)" and k: "k < unat (rcnt rgn1)"
    and c: "c \<noteq> 0"
  shows "lmb_add_finish b s k c rgn1 = Some (c, rgn1)"
proof -
  have n: "unat (rcnt rgn1 - 1) = unat (rcnt rgn1) - 1"
    using ok by (intro unat_sub_1) (simp add: lmb_table_ok_def)
  have "lmb_regions_adjacent rgn1 k (k + 1) = Some 0" if k1: "k < unat (rcnt rgn1) - 1"
  proof -
    from active_split(1) [OF ok k] have "active rgn1 ! Suc k \<in> set (drop (Suc k) (active rgn1))"
      using k1 ok by (metis Cons_nth_drop_Suc length_active less_diff_conv list.set_intros(1) Suc_eq_plus1)
    then have "hi (rregion rgn1 ! k) < lo (rregion rgn1 ! Suc k)"
      "hi (rregion rgn1 ! k) < 2 ^ 64" "hi (rregion rgn1 ! Suc k) < 2 ^ 64"
      using sep active_split(1) [OF ok k] k1 ok
      by (metis separated_append separated_Cons active_nth less_diff_conv Suc_eq_plus1
          separated_memD in_set_dropD)+
    then show ?thesis
      using ok k k1 hi_ge_lo [of "rregion rgn1 ! k"] hi_ge_lo [of "rregion rgn1 ! Suc k"]
      by (auto simp: lmb_regions_adjacent_def aget_def lmb_table_ok_def adjacent_nat)
  qed
  with c n show ?thesis
    by (simp add: lmb_add_finish_def)
qed

lemma finish_coalesce:
  assumes ok: "lmb_table_ok rgn1" and act: "active rgn1 = as @ p # q # bs"
    and adj: "hi p = lo q" and bounds: "hi p < 2 ^ 64" "hi q < 2 ^ 64"
  shows "\<exists>rgn2. lmb_add_finish b s (length as) 1 rgn1 = Some (2, rgn2) \<and> lmb_table_ok rgn2
    \<and> active rgn2 = as @ p\<lparr>lsize := lsize p + lsize q\<rparr> # bs"
proof -
  let ?k = "length as"
  let ?r = "rgn1\<lparr>rregion := (rregion rgn1)[?k := p\<lparr>lsize := lsize p + lsize q\<rparr>]\<rparr>"
  have len: "unat (rcnt rgn1) = length as + 2 + length bs"
    using length_active [OF ok] act by simp
  have nth: "rregion rgn1 ! ?k = p" "rregion rgn1 ! Suc ?k = q"
    using active_nth [OF ok, of ?k] active_nth [OF ok, of "Suc ?k"] act len by (auto simp: nth_append)
  have n: "unat (rcnt rgn1 - 1) = unat (rcnt rgn1) - 1"
    using ok by (intro unat_sub_1) (simp add: lmb_table_ok_def)
  have "lmb_table_ok ?r" "Suc ?k < unat (rcnt ?r)"
    using ok len by auto
  then obtain rgn2 where rgn2: "lmb_remove_region ?r (Suc ?k) = Some rgn2" "rcnt rgn2 = rcnt rgn1 - 1"
    "length (rregion rgn2) = length (rregion rgn1)"
    "active rgn2 = take (Suc ?k) (active ?r) @ drop (Suc (Suc ?k)) (active ?r)"
    using lmb_remove_region_active by fastforce
  have "active rgn2 = as @ p\<lparr>lsize := lsize p + lsize q\<rparr> # bs"
    using rgn2(4) by (simp add: active_update act)
  moreover have "lmb_table_ok rgn2"
    using rgn2 ok n len by (auto simp: lmb_table_ok_def)
  moreover have "lmb_add_finish b s ?k 1 rgn1 = Some (2, rgn2)"
    using ok len n nth adj bounds rgn2(1)
    by (simp add: lmb_add_finish_def lmb_regions_adjacent_def lmb_coalesce_regions_def aget_def aset_def
        lmb_table_ok_def adjacent_nat)
  ultimately show ?thesis by blast
qed

lemma finish_insert:
  assumes ok: "lmb_table_ok rgn" and sep: "separated (active rgn)"
    and new: "0 < s" "hi (new_block b s) < 2 ^ 64"
    and apart: "\<forall>q \<in> set (active rgn). hi q < lo (new_block b s) \<or> hi (new_block b s) < lo q"
    and room: "unat (rcnt rgn) < MAX_LMB_REGIONS"
  shows "\<exists>rgn'. lmb_add_finish b s (unat (rcnt rgn)) 0 rgn = Some (0, rgn') \<and> added rgn (new_block b s) rgn'"
proof -
  let ?n = "unat (rcnt rgn)" and ?xs = "rregion rgn" and ?new = "new_block b s"
  have len: "length ?xs = 129" "0 < ?n" "?n < 128"
    using ok room by (auto simp: lmb_table_ok_def MAX_LMB_REGIONS_def)
  have n: "unat (rcnt rgn - 1) = ?n - 1"
    using len by (intro unat_sub_1)
  have stop: "\<not> ?n < unat (rcnt rgn - 1)"
    using n by simp
  have "sint (rcnt rgn - 1) = int (?n - 1)"
    using len n by (subst sint_small) auto
  then have k: "nat (sint (rcnt rgn - 1) + 1) = ?n"
    using len by simp
  obtain j where j: "j \<le> ?n" "\<forall>m. j \<le> m \<longrightarrow> m < ?n \<longrightarrow> b < lbase (?xs ! m)"
    "0 < j \<longrightarrow> lbase (?xs ! (j - 1)) \<le> b"
    and loop: "lmb_insert_loop ?xs b s ?n = Some (take j ?xs @ (if j = 0 then ?xs ! 0 else ?new) #
       take (?n - j) (drop j ?xs) @ drop (Suc ?n) ?xs)"
    using lmb_insert_loop_eq [of ?n ?xs b s] len unfolding new_block_def by auto
  have le: "lo q \<le> lo ?new" if q: "q \<in> set (take j (active rgn))" for q
  proof -
    obtain m where m: "m < j" "q = active rgn ! m"
      using q by (auto simp: in_set_conv_nth length_active [OF ok])
    then have "m \<le> j - 1" "j - 1 < ?n" using j(1) by auto
    then have "lo q \<le> lo (?xs ! (j - 1))"
      using separated_mono [OF sep, of m "j - 1"] active_nth [OF ok, of "j - 1"] m
      by (simp add: length_active [OF ok])
    with j(3) m show ?thesis by (simp add: lo_def word_le_nat_alt)
  qed
  have gt: "lo ?new < lo q" if q: "q \<in> set (drop j (active rgn))" for q
  proof -
    obtain i where "i < length (drop j (active rgn))" "q = drop j (active rgn) ! i"
      using q by (metis in_set_conv_nth)
    then have "j + i < ?n" "q = active rgn ! (j + i)"
      by (simp_all add: length_active [OF ok])
    then show ?thesis
      using j active_nth [OF ok, of "j + i"] by (simp add: lo_def word_less_nat_alt)
  qed
  define ys where "ys = take j ?xs @ ?new # take (?n - j) (drop j ?xs) @ drop (Suc ?n) ?xs"
  define rgn' where "rgn' = rgn\<lparr>rregion := ys, rcnt := rcnt rgn + 1\<rparr>"
  have n1: "unat (rcnt rgn + 1) = ?n + 1"
    using len by (subst unat_add_nowrap) auto
  have act: "active rgn' = take j (active rgn) @ ?new # drop j (active rgn)"
    using j(1) len n1 by (auto simp: rgn'_def ys_def active_def min_def drop_take Suc_diff_le)
  have "added rgn ?new rgn'"
  proof (rule addedI)
    show "lmb_table_ok rgn'"
      using len n1 j(1) by (auto simp: lmb_table_ok_def rgn'_def ys_def MAX_LMB_REGIONS_def)
    have "hi q < lo ?new" if "q \<in> set (take j (active rgn))" for q
      using le [OF that] apart in_set_takeD [OF that] hi_ge_lo [of ?new] by force
    moreover have "hi ?new < lo q" if "q \<in> set (drop j (active rgn))" for q
      using gt [OF that] apart in_set_dropD [OF that] hi_ge_lo [of q] by force
    moreover have "separated (take j (active rgn) @ drop j (active rgn))"
      using sep by simp
    ultimately show "separated (active rgn')"
      using new unfolding act by (simp del: append_take_drop_id)
    have "set (active rgn) = set (take j (active rgn)) \<union> set (drop j (active rgn))"
      by (metis append_take_drop_id set_append)
    then show "(\<Union>p\<in>set (active rgn'). block p) = (\<Union>p\<in>set (active rgn). block p) \<union> block ?new"
      unfolding act by auto
  qed
  moreover have "lmb_add_finish b s ?n 0 rgn = Some (0, rgn')"
  proof (cases "j = 0")
    case True
    with j len have "b < lbase (?xs ! 0)" by simp
    with True len room k loop stop show ?thesis
      by (simp add: lmb_add_finish_def aget_def aset_def rgn'_def ys_def new_block_def)
  next
    case False
    have "lo (active rgn ! 0) \<le> lo ?new"
      using False len by (intro le) (auto simp: in_set_conv_nth length_active [OF ok])
    then have "\<not> b < lbase (?xs ! 0)"
      using active_nth [OF ok, of 0] len by (simp add: lo_def word_less_nat_alt)
    with False len room k loop stop j(1) show ?thesis
      by (simp add: lmb_add_finish_def aget_def aset_def rgn'_def ys_def nth_append)
  qed
  ultimately show ?thesis by blast
qed

lemma covered_disjointD:
  "block n \<inter> covered rgn = {} \<Longrightarrow> q \<in> set (active rgn) \<Longrightarrow> block n \<inter> block q = {}"
  by (auto simp: covered_def)

lemma add_found_grow_down:
  assumes ok: "lmb_table_ok rgn" and sep: "separated (active rgn)" and s: "0 < s"
    and disj: "block (new_block b s) \<inter> covered rgn = {}"
    and k: "k < unat (rcnt rgn)" and no: "\<forall>m < k. lo (new_block b s) \<noteq> hi (rregion rgn ! m)"
    and adj: "lo (rregion rgn ! k) = hi (new_block b s)"
    and rgn1: "rgn1 = rgn\<lparr>rregion := (rregion rgn)[k := (rregion rgn ! k)\<lparr>lbase := lbase (rregion rgn ! k) - s,
        lsize := lsize (rregion rgn ! k) + s\<rparr>]\<rparr>"
  shows "lmb_add_finish b s k 1 rgn1 = Some (1, rgn1) \<and> added rgn (new_block b s) rgn1"
proof -
  let ?p = "rregion rgn ! k" and ?n = "new_block b s"
  let ?p' = "?p\<lparr>lbase := lbase ?p - lsize ?n, lsize := lsize ?p + lsize ?n\<rparr>"
  define as bs where "as = take k (active rgn)" and "bs = drop (Suc k) (active rgn)"
  have act: "active rgn = as @ ?p # bs" and len: "length as = k"
    using active_split [OF ok k] by (simp_all add: as_def bs_def)
  have act1: "active rgn1 = as @ ?p' # bs"
    using len unfolding rgn1 active_update act by (simp add: list_update_append)
  have "\<forall>q \<in> set as. block ?n \<inter> block q = {} \<and> lo ?n \<noteq> hi q"
  proof
    fix q assume q: "q \<in> set as"
    then obtain m where "m < k" "q = rregion rgn ! m"
      using len k active_nth [OF ok] by (auto simp: in_set_conv_nth as_def bs_def)
    with no q show "block ?n \<inter> block q = {} \<and> lo ?n \<noteq> hi q"
      using covered_disjointD [OF disj, of q] act by simp
  qed
  with grow_down [of as ?p bs ?n ?p'] sep adj s act
  have p': "lo ?p' = lo ?n" "hi ?p' = hi ?p" "separated (as @ ?p' # bs)" by auto
  have "block ?p' = block ?n \<union> block ?p"
    using p' adj hi_ge_lo [of ?p] hi_ge_lo [of ?n] by (auto simp: block_def)
  with p' ok have "added rgn ?n rgn1"
    by (intro addedI) (auto simp: rgn1 act act1 [unfolded rgn1])
  moreover have "lmb_add_finish b s k 1 rgn1 = Some (1, rgn1)"
    using p' ok k act1 by (intro finish_not_adjacent) (auto simp: rgn1)
  ultimately show ?thesis by simp
qed

lemma add_found_grow_up:
  assumes ok: "lmb_table_ok rgn" and sep: "separated (active rgn)" and s: "0 < s"
    and n: "hi (new_block b s) < 2 ^ 64"
    and disj: "block (new_block b s) \<inter> covered rgn = {}"
    and k: "k < unat (rcnt rgn)" and adj: "lo (new_block b s) = hi (rregion rgn ! k)"
    and rgn1: "rgn1 = rgn\<lparr>rregion := (rregion rgn)[k := (rregion rgn ! k)\<lparr>lsize := lsize (rregion rgn ! k) + s\<rparr>]\<rparr>"
  shows "\<exists>c rgn2. lmb_add_finish b s k 1 rgn1 = Some (c, rgn2) \<and> 0 \<le> c \<and> added rgn (new_block b s) rgn2"
proof -
  let ?p = "rregion rgn ! k" and ?n = "new_block b s"
  let ?p' = "?p\<lparr>lsize := lsize ?p + lsize ?n\<rparr>"
  define as bs where "as = take k (active rgn)" and "bs = drop (Suc k) (active rgn)"
  have act: "active rgn = as @ ?p # bs" and len: "length as = k"
    using active_split [OF ok k] by (simp_all add: as_def bs_def)
  have act1: "active rgn1 = as @ ?p' # bs"
    using len unfolding rgn1 active_update act by (simp add: list_update_append)
  have ok1: "lmb_table_ok rgn1" using ok by (simp add: rgn1)
  have p': "lo ?p' = lo ?p" "hi ?p' = hi ?n" "0 < lsize ?p'"
    using grow_up [of as ?p bs ?n ?p'] sep adj s n act by auto
  have blk: "block ?p' = block ?p \<union> block ?n"
    using p' adj hi_ge_lo [of ?p] hi_ge_lo [of ?n] by (auto simp: block_def)
  have beyond: "hi ?n \<le> lo q" if "q \<in> set bs" for q
  proof -
    have "0 < lsize q" "hi ?p < lo q"
      using that sep act by (auto dest: separated_memD)
    moreover have "block ?n \<inter> block q = {}"
      using that act by (intro covered_disjointD [OF disj]) simp
    ultimately show ?thesis
      using s adj overlap_block [of ?n q] hi_ge_lo [of q] by auto
  qed
  show ?thesis
  proof (cases "\<exists>q bs'. bs = q # bs' \<and> lo q = hi ?n")
    case True
    then obtain q bs' where bs: "bs = q # bs'" and q: "lo q = hi ?n" by blast
    have hq: "hi q < 2 ^ 64" using sep act bs by simp
    obtain rgn2 where rgn2: "lmb_add_finish b s (length as) 1 rgn1 = Some (2, rgn2)" "lmb_table_ok rgn2"
      "active rgn2 = as @ ?p'\<lparr>lsize := lsize ?p' + lsize q\<rparr> # bs'"
      using finish_coalesce [OF ok1 act1 [unfolded bs], of b s] p' q n hq by auto
    let ?p'' = "?p'\<lparr>lsize := lsize ?p' + lsize q\<rparr>"
    have p'': "lo ?p'' = lo ?p' \<and> hi ?p'' = hi q \<and> 0 < lsize ?p''"
    proof (rule grow_up)
      show "separated ([] @ ?p' # [])" using p' n by simp
      show "lo q = hi ?p'" using p' q by (simp only:)
      show "0 < lsize q" "hi q < 2 ^ 64" using sep act bs by auto
    qed (rule refl)
    have "block ?p'' = block ?p' \<union> block q"
      using p'' p' q hi_ge_lo [of ?p'] hi_ge_lo [of q] by (auto simp: block_def)
    with blk have cov: "block ?p'' = block ?p \<union> block ?n \<union> block q" by (simp only:)
    have sep': "separated (as @ ?p # q # bs')" using sep by (simp only: act bs)
    have "lo ?p'' = lo ?p" using p'' p' by (simp only:)
    with sep' p'' hq have "separated (active rgn2)"
      unfolding rgn2(3) separated_append separated_Cons by fastforce
    moreover have "(\<Union>x \<in> set (active rgn2). block x) = (\<Union>x \<in> set (active rgn). block x) \<union> block ?n"
      unfolding rgn2(3) act bs set_append list.set UN_Un UN_insert cov by blast
    ultimately have "added rgn ?n rgn2"
      by (rule addedI [OF rgn2(2)])
    with rgn2(1) len show ?thesis by auto
  next
    case False
    have "hi ?n < lo q" if "q \<in> set bs" for q
    proof (cases bs)
      case (Cons q0 bs')
      with False beyond [of q0] have "hi ?n < lo q0" by (simp add: order_less_le)
      moreover have "q = q0 \<or> hi q0 < lo q"
        using Cons that sep act by auto
      ultimately show ?thesis using hi_ge_lo [of q0] by auto
    qed (use that in simp)
    moreover have "separated (as @ ?p # bs)" using sep by (simp only: act)
    ultimately have sep1: "separated (as @ ?p' # bs)"
      using p' n unfolding separated_append separated_Cons by fastforce
    have "(\<Union>x \<in> set (active rgn1). block x) = (\<Union>x \<in> set (active rgn). block x) \<union> block ?n"
      unfolding act1 act set_append list.set UN_Un UN_insert blk by blast
    with ok1 sep1 have "added rgn ?n rgn1"
      by (intro addedI) (simp_all only: act1)
    moreover have "lmb_add_finish b s k 1 rgn1 = Some (1, rgn1)"
      using sep1 ok1 k act1 by (intro finish_not_adjacent) (auto simp: rgn1)
    ultimately show ?thesis by auto
  qed
qed

lemma hit_nat:
  assumes "hi (new_block b s) < 2 ^ 64" and "hi p < 2 ^ 64"
  shows "lmb_addrs_adjacent b s (lbase p) (lsize p) =
    (if lo p = hi (new_block b s) then 1 else if lo (new_block b s) = hi p then -1 else 0)"
  using adjacent_nat [OF assms] by simp

lemma region_mem_active:
  assumes "lmb_table_ok rgn" and "m < unat (rcnt rgn)"
  shows "rregion rgn ! m \<in> set (active rgn)"
  using assms nth_mem [of m "active rgn"] by (simp add: length_active active_nth)

lemma active_memE:
  assumes "lmb_table_ok rgn" and "q \<in> set (active rgn)"
  obtains m where "m < unat (rcnt rgn)" and "q = rregion rgn ! m"
  using assms by (metis in_set_conv_nth length_active active_nth)

lemma no_hit_apart:
  assumes ok: "lmb_table_ok rgn" and sep: "separated (active rgn)" and s: "0 < s"
    and n: "hi (new_block b s) < 2 ^ 64" and disj: "block (new_block b s) \<inter> covered rgn = {}"
    and q: "q \<in> set (active rgn)" and no: "\<not> lmb_add_hit b s q"
  shows "hi q < lo (new_block b s) \<or> hi (new_block b s) < lo q"
proof -
  have hq: "hi q < 2 ^ 64" "0 < lsize q" using separated_memD [OF sep q] by auto
  then have "lo q \<noteq> hi (new_block b s)" "lo (new_block b s) \<noteq> hi q"
    using no hit_nat [OF n hq(1)] by (auto simp: lmb_add_hit_def split: if_splits)
  then show ?thesis
    using overlap_block [of "new_block b s" q] covered_disjointD [OF disj q] s hq by auto
qed

lemma add_no_hit:
  assumes ok: "lmb_table_ok rgn" and sep: "separated (active rgn)" and s: "0 < s"
    and n: "hi (new_block b s) < 2 ^ 64" and disj: "block (new_block b s) \<inter> covered rgn = {}"
    and no: "\<forall>m < unat (rcnt rgn). \<not> lmb_add_hit b s (rregion rgn ! m)"
  shows "\<exists>ret rgn'. lmb_add_finish b s (unat (rcnt rgn)) 0 rgn = Some (ret, rgn') \<and>
    (ret = -1 \<and> rgn' = rgn \<and> unat (rcnt rgn) = MAX_LMB_REGIONS
     \<or> 0 \<le> ret \<and> added rgn (new_block b s) rgn')"
proof (cases "unat (rcnt rgn) < MAX_LMB_REGIONS")
  case True
  have "\<forall>q \<in> set (active rgn). hi q < lo (new_block b s) \<or> hi (new_block b s) < lo q"
    using no_hit_apart [OF ok sep s n disj] no active_memE [OF ok] by metis
  from finish_insert [OF ok sep s n this True] show ?thesis by auto
next
  case False
  then have full: "unat (rcnt rgn) = MAX_LMB_REGIONS"
    using ok by (simp add: lmb_table_ok_def)
  have "unat (rcnt rgn - 1) = unat (rcnt rgn) - 1"
    using ok by (intro unat_sub_1) (simp add: lmb_table_ok_def)
  then have "\<not> unat (rcnt rgn) < unat (rcnt rgn - 1)" by simp
  then have "lmb_add_finish b s (unat (rcnt rgn)) 0 rgn = Some (-1, rgn)"
    using full by (simp add: lmb_add_finish_def)
  with full show ?thesis by blast
qed

lemma add_hit:
  assumes ok: "lmb_table_ok rgn" and sep: "separated (active rgn)" and s: "0 < s"
    and n: "hi (new_block b s) < 2 ^ 64" and disj: "block (new_block b s) \<inter> covered rgn = {}"
    and k: "k < unat (rcnt rgn)" and hit: "lmb_add_hit b s (rregion rgn ! k)"
    and before: "\<forall>m < k. \<not> lmb_add_hit b s (rregion rgn ! m)"
  shows "\<exists>c rgn1 ret rgn'. lmb_add_found rgn b s k = Some (k, c, rgn1)
    \<and> lmb_add_finish b s k c rgn1 = Some (ret, rgn') \<and> 0 \<le> ret \<and> added rgn (new_block b s) rgn'"
proof -
  let ?p = "rregion rgn ! k" and ?n = "new_block b s"
  have mem: "?p \<in> set (active rgn)" by (rule region_mem_active [OF ok k])
  have p: "lo ?p < hi ?p" "hi ?p < 2 ^ 64" using separated_memD [OF sep mem] by auto
  have notin: "\<not> (lbase ?p = b \<and> lsize ?p = s)"
    using covered_disjointD [OF disj mem] p(1) by (auto simp: block_def lo_def hi_def)
  then consider (down) "lo ?p = hi ?n" | (up) "lo ?p \<noteq> hi ?n" "lo ?n = hi ?p"
    using hit hit_nat [OF n p(2)] by (auto simp: lmb_add_hit_def split: if_splits)
  then show ?thesis
  proof cases
    case down
    have "lo ?n \<noteq> hi (rregion rgn ! m)" if m: "m < k" for m
    proof -
      have "hi (rregion rgn ! m) < 2 ^ 64"
        using separated_memD [OF sep region_mem_active [OF ok, of m]] m k by simp
      then show ?thesis
        using before m hit_nat [OF n, of "rregion rgn ! m"] by (auto simp: lmb_add_hit_def split: if_splits)
    qed
    then have "\<forall>m < k. lo ?n \<noteq> hi (rregion rgn ! m)" by blast
    from add_found_grow_down [OF ok sep s disj k this down refl] show ?thesis
      using notin k down hit_nat [OF n p(2)] by (auto simp: lmb_add_found_def Let_def)
  next
    case up
    from add_found_grow_up [OF ok sep s n disj k up(2) refl] show ?thesis
      using notin k up hit_nat [OF n p(2)] by (auto simp: lmb_add_found_def Let_def)
  qed
qed

lemma lmb_add_region_separated:
  assumes ok: "lmb_table_ok rgn" and sep: "separated (active rgn)" and s: "0 < s"
    and n: "hi (new_block b s) < 2 ^ 64" and disj: "block (new_block b s) \<inter> covered rgn = {}"
  shows "\<exists>ret rgn'. lmb_add_region rgn b s = Some (ret, rgn') \<and>
    (ret = -1 \<and> rgn' = rgn \<and> unat (rcnt rgn) = MAX_LMB_REGIONS
     \<or> 0 \<le> ret \<and> added rgn (new_block b s) rgn')"
proof -
  define k where "k = find_ix (lmb_add_hit b s) (rregion rgn) 0 (unat (rcnt rgn))"
  note k = find_ix_props [of 0 "unat (rcnt rgn)" "lmb_add_hit b s" "rregion rgn", folded k_def]
  note add = lmb_add_region_scan [OF ok sep, of b s, folded k_def]
  show ?thesis
  proof (cases "k < unat (rcnt rgn)")
    case True
    with add_hit [OF ok sep s n disj True] k add show ?thesis by auto
  next
    case False
    then have "k = unat (rcnt rgn)" using k by simp
    moreover from this have "lmb_add_found rgn b s k = Some (k, 0, rgn)"
      by (simp add: lmb_add_found_def)
    ultimately show ?thesis
      using add_no_hit [OF ok sep s n disj] k add by auto
  qed
qed

lemma lmb_inv_cases:
  assumes "lmb_inv rgn"
  obtains (Empty) "lmb_table_ok rgn" "rcnt rgn = 1" "lsize (rregion rgn ! 0) = 0" "covered rgn = {}"
  | (Blocks) "lmb_table_ok rgn" "separated (active rgn)"
proof -
  have "covered rgn = {}" if "lmb_table_ok rgn" "rcnt rgn = 1" "lsize (rregion rgn ! 0) = 0"
  proof -
    have "active rgn = [rregion rgn ! 0]"
      using that by (simp add: active_def lmb_table_ok_def take_Suc_conv_app_nth)
    with that show ?thesis by (simp add: covered_def block_def lo_def hi_def)
  qed
  with assms that show ?thesis by (auto simp: lmb_inv_def)
qed

lemma added_inv: "added rgn n rgn' \<Longrightarrow> lmb_inv rgn' \<and> covered rgn' = covered rgn \<union> block n"
  by (simp add: added_def lmb_inv_def)

lemma lmb_add_region_spec:
  assumes "lmb_inv rgn" and "0 < s" and "hi (new_block b s) < 2 ^ 64"
    and "block (new_block b s) \<inter> covered rgn = {}"
  shows "\<exists>ret rgn'. lmb_add_region rgn b s = Some (ret, rgn') \<and>
    (ret = -1 \<and> rgn' = rgn \<and> unat (rcnt rgn) = MAX_LMB_REGIONS
     \<or> 0 \<le> ret \<and> lmb_inv rgn' \<and> separated (active rgn') \<and> covered rgn' = covered rgn \<union> block (new_block b s))"
  using assms(1)
proof (cases rule: lmb_inv_cases)
  case Empty
  with add_empty_table [OF Empty(1-3) assms(2,3)] show ?thesis
    by (force simp: added_def lmb_inv_def)
next
  case Blocks
  with lmb_add_region_separated [OF Blocks assms(2-4)] show ?thesis
    by (force simp: added_def lmb_inv_def)
qed

section \<open>Removing a block\<close>

lemma separated_disjoint:
  assumes "separated (as @ p # bs)" and "q \<in> set as \<union> set bs"
  shows "block q \<inter> block p = {}"
  using assms hi_ge_lo by (fastforce simp: block_def)

lemma cut_block:
  assumes sep: "separated (as @ p # bs)"
    and p': "lo p \<le> lo p'" "hi p' \<le> hi p" "0 < lsize p'" and cut: "block p' = block p - C"
    and cut_sub: "C \<subseteq> block p"
  shows "separated (as @ p' # bs)"
    and "(\<Union>x \<in> set (as @ p' # bs). block x) = (\<Union>x \<in> set (as @ p # bs). block x) - C"
proof -
  show "separated (as @ p' # bs)"
    using sep p' by fastforce
  have "block x \<inter> C = {}" if "x \<in> set as \<union> set bs" for x
    using separated_disjoint [OF sep that] cut_sub by blast
  then show "(\<Union>x \<in> set (as @ p' # bs). block x) = (\<Union>x \<in> set (as @ p # bs). block x) - C"
    using cut by auto
qed

lemma drop_block:
  assumes sep: "separated (as @ p # bs)"
  shows "separated (as @ bs)"
    and "(\<Union>x \<in> set (as @ bs). block x) = (\<Union>x \<in> set (as @ p # bs). block x) - block p"
proof -
  show "separated (as @ bs)" using sep by simp
  have "block x \<inter> block p = {}" if "x \<in> set as \<union> set bs" for x
    by (rule separated_disjoint [OF sep that])
  then show "(\<Union>x \<in> set (as @ bs). block x) = (\<Union>x \<in> set (as @ p # bs). block x) - block p"
    by auto
qed

text \<open>Replacing entry \<open>k\<close> of the table by a part of it.\<close>

lemma cut_entry:
  assumes ok: "lmb_table_ok rgn" and sep: "separated (active rgn)" and k: "k < unat (rcnt rgn)"
    and p': "lo (rregion rgn ! k) \<le> lo p'" "hi p' \<le> hi (rregion rgn ! k)" "0 < lsize p'"
    and cut: "block p' = block (rregion rgn ! k) - C" "C \<subseteq> block (rregion rgn ! k)"
    and rgn': "rgn' = rgn\<lparr>rregion := (rregion rgn)[k := p']\<rparr>"
  shows "lmb_table_ok rgn' \<and> separated (active rgn') \<and> covered rgn' = covered rgn - C"
proof -
  let ?p = "rregion rgn ! k"
  define as bs where "as = take k (active rgn)" and "bs = drop (Suc k) (active rgn)"
  have act: "active rgn = as @ ?p # bs" and len: "length as = k"
    using active_split [OF ok k] by (simp_all add: as_def bs_def)
  have act': "active rgn' = as @ p' # bs"
    using len unfolding rgn' active_update act by (simp add: list_update_append)
  have "separated (as @ ?p # bs)" using sep by (simp only: act)
  moreover have "lmb_table_ok rgn'" using ok by (simp add: rgn')
  ultimately show ?thesis
    using cut_block [of as ?p bs, OF _ p' cut] by (simp add: covered_def act act')
qed

lemma remove_entry:
  assumes ok: "lmb_table_ok rgn" and sep: "separated (active rgn)" and k: "k < unat (rcnt rgn)"
  shows "\<exists>rgn'. lmb_remove_region rgn k = Some rgn' \<and> unat (rcnt rgn') = unat (rcnt rgn) - 1
    \<and> (1 < unat (rcnt rgn) \<longrightarrow> lmb_table_ok rgn') \<and> separated (active rgn')
    \<and> covered rgn' = covered rgn - block (rregion rgn ! k)"
proof -
  let ?p = "rregion rgn ! k"
  define as bs where "as = take k (active rgn)" and "bs = drop (Suc k) (active rgn)"
  have act: "active rgn = as @ ?p # bs" and len: "length as = k"
    using active_split [OF ok k] by (simp_all add: as_def bs_def)
  obtain rgn' where rgn': "lmb_remove_region rgn k = Some rgn'" "rcnt rgn' = rcnt rgn - 1"
    "length (rregion rgn') = length (rregion rgn)" "active rgn' = as @ bs"
    using lmb_remove_region_active [OF ok k] by (auto simp: as_def bs_def)
  have "unat (rcnt rgn - 1) = unat (rcnt rgn) - 1"
    using k by (intro unat_sub_1) simp
  moreover have "separated (as @ ?p # bs)" using sep by (simp only: act)
  ultimately show ?thesis
    using drop_block [of as ?p bs] rgn' ok by (auto simp: covered_def act lmb_table_ok_def)
qed

lemma remove_find_nat:
  assumes "hi (new_block b s) < 2 ^ 64" and "hi p < 2 ^ 64"
  shows "lbase p \<le> b \<and> b + s \<le> lbase p + lsize p \<longleftrightarrow> lo p \<le> lo (new_block b s) \<and> hi (new_block b s) \<le> hi p"
  using assms hi_word [of p] hi_word [of "new_block b s"]
  by (simp add: word_le_nat_alt lo_def)


lemma raw_lmb_remove_find:
  assumes ok: "lmb_table_ok rgn" and bounds: "\<forall>p \<in> set (active rgn). hi p < 2 ^ 64"
    and n: "hi (new_block b s) < 2 ^ 64"
  obtains (Missing) "lmb_remove_find rgn b (b + s) 0 = Some (unat (rcnt rgn))"
      "\<forall>p \<in> set (active rgn). \<not> (lo p \<le> lo (new_block b s) \<and> hi (new_block b s) \<le> hi p)"
  | (Found) k where "lmb_remove_find rgn b (b + s) 0 = Some k" "k < unat (rcnt rgn)"
      "lo (rregion rgn ! k) \<le> lo (new_block b s)" "hi (new_block b s) \<le> hi (rregion rgn ! k)"
proof -
  let ?P = "\<lambda>p. lbase p \<le> b \<and> b + s \<le> lbase p + lsize p"
  define k where "k = find_ix ?P (rregion rgn) 0 (unat (rcnt rgn))"
  note k = find_ix_props [of 0 "unat (rcnt rgn)" ?P "rregion rgn", folded k_def]
  have find: "lmb_remove_find rgn b (b + s) 0 = Some k"
    using ok by (simp add: lmb_remove_find_find_ix k_def lmb_table_ok_def)
  have P: "?P p \<longleftrightarrow> lo p \<le> lo (new_block b s) \<and> hi (new_block b s) \<le> hi p" if "p \<in> set (active rgn)" for p
    using remove_find_nat [OF n] bounds that by blast
  show ?thesis
  proof (cases "k < unat (rcnt rgn)")
    case True
    then show ?thesis
      using Found [OF find] k P [OF region_mem_active [OF ok True]] by simp
  next
    case False
    then have "k = unat (rcnt rgn)" using k by simp
    moreover from this have "\<forall>p \<in> set (active rgn). \<not> ?P p"
      using k by (metis active_memE [OF ok] le0)
    ultimately show ?thesis
      using Missing find P by blast
  qed
qed

lemma raw_lmb_remove_missing:
  assumes "lmb_table_ok rgn" and "\<forall>p \<in> set (active rgn). hi p < 2 ^ 64"
    and "0 < s" and "hi (new_block b s) < 2 ^ 64"
    and "\<forall>p \<in> set (active rgn). \<not> block (new_block b s) \<subseteq> block p"
  shows "raw_lmb_remove rgn b s = Some (-1, rgn)"
  using assms(1,2,4)
proof (cases rule: raw_lmb_remove_find)
  case Missing
  then show ?thesis by (simp add: raw_lmb_remove_def)
next
  case (Found k)
  then have "block (new_block b s) \<subseteq> block (rregion rgn ! k)"
    by (auto simp: block_def)
  with assms(5) region_mem_active [OF assms(1) Found(2)] show ?thesis by blast
qed

text \<open>
  The four cases of a block that lies in one entry.  The last disjunct is the
  split of an entry of a full table: the call fails, and the part of the entry
  behind the block is lost as well.
\<close>

definition removed :: "lmb_region \<Rightarrow> lmb_property \<Rightarrow> int \<Rightarrow> lmb_region \<Rightarrow> bool" where
  "removed rgn n ret rgn' \<longleftrightarrow>
     0 \<le> ret \<and> separated (active rgn') \<and> covered rgn' = covered rgn - block n
       \<and> (lmb_table_ok rgn' \<or> rcnt rgn = 1 \<and> rcnt rgn' = 0)
     \<or> ret = -1 \<and> unat (rcnt rgn) = MAX_LMB_REGIONS \<and> lmb_table_ok rgn' \<and> separated (active rgn')
       \<and> (\<exists>p \<in> set (active rgn). block n \<subseteq> block p \<and> covered rgn' = covered rgn - {lo n..<hi p})"

lemma removed_whole:
  assumes ok: "lmb_table_ok rgn" and sep: "separated (active rgn)" and k: "k < unat (rcnt rgn)"
    and eq: "lo (rregion rgn ! k) = lo n" "hi (rregion rgn ! k) = hi n"
  shows "\<exists>rgn'. lmb_remove_region rgn k = Some rgn' \<and> removed rgn n 0 rgn'"
proof -
  obtain rgn' where rgn': "lmb_remove_region rgn k = Some rgn'" "unat (rcnt rgn') = unat (rcnt rgn) - 1"
    "1 < unat (rcnt rgn) \<longrightarrow> lmb_table_ok rgn'" "separated (active rgn')"
    "covered rgn' = covered rgn - block (rregion rgn ! k)"
    using remove_entry [OF ok sep k] by blast
  have "rcnt rgn = 1 \<and> rcnt rgn' = 0" if "\<not> 1 < unat (rcnt rgn)"
  proof -
    have "unat (rcnt rgn) = 1" using that k by simp
    with rgn'(2) show ?thesis by (simp add: word_unat_eq_iff)
  qed
  moreover have "block (rregion rgn ! k) = block n"
    using eq by (simp add: block_def)
  ultimately show ?thesis
    using rgn' by (auto simp: removed_def)
qed

lemma removed_cut:
  assumes ok: "lmb_table_ok rgn" and sep: "separated (active rgn)" and k: "k < unat (rcnt rgn)"
    and n: "lo (rregion rgn ! k) \<le> lo n" "hi n \<le> hi (rregion rgn ! k)" "lo n < hi n"
    and p': "lo (rregion rgn ! k) = lo n \<and> lo p' = hi n \<and> hi p' = hi (rregion rgn ! k)
      \<or> hi (rregion rgn ! k) = hi n \<and> lo p' = lo (rregion rgn ! k) \<and> hi p' = lo n"
      "0 < lsize p'"
  shows "removed rgn n 0 (rgn\<lparr>rregion := (rregion rgn)[k := p']\<rparr>)"
proof -
  have "block p' = block (rregion rgn ! k) - block n" "block n \<subseteq> block (rregion rgn ! k)"
    using n p' by (auto simp: block_def)
  moreover have "lo (rregion rgn ! k) \<le> lo p'" "hi p' \<le> hi (rregion rgn ! k)"
    using n p' by auto
  ultimately show ?thesis
    using cut_entry [OF ok sep k _ _ p'(2) _ _ refl] by (simp add: removed_def)
qed


lemma removed_split:
  assumes ok: "lmb_table_ok rgn" and sep: "separated (active rgn)" and k: "k < unat (rcnt rgn)"
    and n: "lo (rregion rgn ! k) < lo n" "hi n < hi (rregion rgn ! k)" "lo n < hi n"
    and p: "p = rregion rgn ! k"
  shows "\<exists>ret rgn'. lmb_add_region (rgn\<lparr>rregion := (rregion rgn)[k := p\<lparr>lsize := lbase n - lbase p\<rparr>]\<rparr>)
      (lbase n + lsize n) (lbase p + lsize p - (lbase n + lsize n)) = Some (ret, rgn')
    \<and> removed rgn n ret rgn'"
proof -
  let ?e = "lbase n + lsize n" and ?p' = "p\<lparr>lsize := lbase n - lbase p\<rparr>"
  let ?m = "new_block ?e (lbase p + lsize p - ?e)"
  define rgn1 where "rgn1 = rgn\<lparr>rregion := (rregion rgn)[k := ?p']\<rparr>"
  have mem: "p \<in> set (active rgn)" unfolding p by (rule region_mem_active [OF ok k])
  have hp: "hi p < 2 ^ 64" using separated_memD [OF sep mem] by simp
  have e: "unat ?e = hi n" "unat (lbase p + lsize p) = hi p"
    using hp n by (auto simp: p hi_word)
  have p': "lo ?p' = lo p" "hi ?p' = lo n"
    using n by (auto simp: p lo_def hi_def unat_sub_nowrap)
  have m: "lo ?m = hi n" "hi ?m = hi p"
    using e n by (auto simp: p lo_def hi_def unat_sub_nowrap)
  have "unat (lsize ?p') \<noteq> 0" "unat (lsize ?m) \<noteq> 0"
    using n e by (auto simp: p lo_def unat_sub_nowrap)
  then have pos: "0 < lsize ?p'" "0 < lsize ?m" by (metis unsigned_0 word_neq_0_conv)+
  have "block ?p' = block p - {lo n..<hi p}" "{lo n..<hi p} \<subseteq> block p" "lo p \<le> lo ?p'" "hi ?p' \<le> hi p"
    using p' n by (auto simp: p block_def)
  then have rgn1: "lmb_table_ok rgn1" "separated (active rgn1)" "covered rgn1 = covered rgn - {lo n..<hi p}"
    using cut_entry [OF ok sep k _ _ pos(1) _ _ rgn1_def, folded p] by auto
  have "block ?m \<inter> covered rgn1 = {}"
    using rgn1(3) m n by (auto simp: block_def)
  then obtain ret rgn' where add: "lmb_add_region rgn1 ?e (lsize ?m) = Some (ret, rgn')"
    "ret = -1 \<and> rgn' = rgn1 \<and> unat (rcnt rgn1) = MAX_LMB_REGIONS \<or> 0 \<le> ret \<and> added rgn1 ?m rgn'"
    using lmb_add_region_separated [OF rgn1(1,2), of "lsize ?m" ?e] pos m hp by auto
  have "block p \<subseteq> covered rgn" using mem by (auto simp: covered_def)
  then have "covered rgn1 \<union> block ?m = covered rgn - block n" "block n \<subseteq> block p"
    using rgn1(3) m n by (auto simp: block_def p)
  with add(2) rgn1 mem have "removed rgn n ret rgn'"
    by (auto simp: removed_def added_def rgn1_def)
  with add(1) show ?thesis by (auto simp: rgn1_def)
qed

lemma raw_lmb_remove_at:
  assumes ok: "lmb_table_ok rgn" and n: "hi (new_block b s) < 2 ^ 64"
    and find: "lmb_remove_find rgn b (b + s) 0 = Some k" and k: "k < unat (rcnt rgn)"
    and p: "p = rregion rgn ! k" "hi p < 2 ^ 64"
  shows "raw_lmb_remove rgn b s =
    (if lo p = lo (new_block b s) \<and> hi p = hi (new_block b s)
     then map_option (Pair 0) (lmb_remove_region rgn k)
     else if lo p = lo (new_block b s)
     then Some (0, rgn\<lparr>rregion := (rregion rgn)[k := p\<lparr>lbase := b + s, lsize := lsize p - s\<rparr>]\<rparr>)
     else if hi p = hi (new_block b s)
     then Some (0, rgn\<lparr>rregion := (rregion rgn)[k := p\<lparr>lsize := lsize p - s\<rparr>]\<rparr>)
     else lmb_add_region (rgn\<lparr>rregion := (rregion rgn)[k := p\<lparr>lsize := b - lbase p\<rparr>]\<rparr>)
       (b + s) (lbase p + lsize p - (b + s)))"
proof -
  have "lbase p = b \<longleftrightarrow> lo p = lo (new_block b s)" by (simp add: lo_def word_unat_eq_iff)
  moreover have "lbase p + lsize p = b + s \<longleftrightarrow> hi p = hi (new_block b s)"
    using hi_word [OF p(2)] hi_word [OF n] by (simp add: word_unat_eq_iff)
  moreover have "k < length (rregion rgn)" using ok k by (simp add: lmb_table_ok_def)
  ultimately show ?thesis
    using find k unfolding raw_lmb_remove_def Let_def p(1)
    by (cases "lmb_remove_region rgn k") (auto simp: aget_def aset_def)
qed

lemma raw_lmb_remove_spec:
  assumes ok: "lmb_table_ok rgn" and sep: "separated (active rgn)"
    and s: "0 < s" and n: "hi (new_block b s) < 2 ^ 64"
    and sub: "p \<in> set (active rgn)" "block (new_block b s) \<subseteq> block p"
  shows "\<exists>ret rgn'. raw_lmb_remove rgn b s = Some (ret, rgn') \<and> removed rgn (new_block b s) ret rgn'"
proof -
  let ?n = "new_block b s"
  have pos: "lo ?n < hi ?n" using s by (simp add: lo_def hi_def word_less_nat_alt)
  have bounds: "\<forall>p \<in> set (active rgn). hi p < 2 ^ 64" using separated_memD [OF sep] by blast
  have "lo p \<le> lo ?n \<and> hi ?n \<le> hi p"
    using sub(2) pos by (auto simp: block_def)
  then obtain k where find: "lmb_remove_find rgn b (b + s) 0 = Some k" and k: "k < unat (rcnt rgn)"
    and le: "lo (rregion rgn ! k) \<le> lo ?n" "hi ?n \<le> hi (rregion rgn ! k)"
    using raw_lmb_remove_find [OF ok bounds n] sub(1) by metis
  define p where "p = rregion rgn ! k"
  have hp: "hi p < 2 ^ 64" using bounds region_mem_active [OF ok k] by (simp add: p_def)
  note at = raw_lmb_remove_at [OF ok n find k p_def hp]
  have sz: "unat s \<le> unat (lsize p)"
    using le by (simp add: lo_def hi_def p_def)
  have left: "0 < lsize p - s" if "\<not> (lo p = lo ?n \<and> hi p = hi ?n)"
  proof -
    have "unat s < unat (lsize p)" using that le by (auto simp: lo_def hi_def p_def)
    then show ?thesis by (simp add: word_less_nat_alt unat_sub_nowrap)
  qed
  consider (whole) "lo p = lo ?n" "hi p = hi ?n" | (front) "lo p = lo ?n" "hi p \<noteq> hi ?n"
    | (rear) "lo p \<noteq> lo ?n" "hi p = hi ?n" | (split) "lo p < lo ?n" "hi ?n < hi p"
    using le unfolding p_def by linarith
  then show ?thesis
  proof cases
    case whole
    with removed_whole [OF ok sep k, of ?n] at show ?thesis
      by (auto simp: p_def)
  next
    case front
    let ?p' = "p\<lparr>lbase := b + s, lsize := lsize p - s\<rparr>"
    have "lo ?p' = hi ?n" "hi ?p' = hi p"
      using front(1) hi_word [OF n] sz by (auto simp: lo_def hi_def unat_sub_nowrap)
    with removed_cut [OF ok sep k le pos, of ?p'] left front at show ?thesis
      by (simp add: p_def)
  next
    case rear
    let ?p' = "p\<lparr>lsize := lsize p - s\<rparr>"
    have "lo ?p' = lo p" "hi ?p' = lo ?n"
      using rear(2) sz by (auto simp: lo_def hi_def unat_sub_nowrap)
    with removed_cut [OF ok sep k le pos, of ?p'] left rear at show ?thesis
      by (simp add: p_def)
  next
    case split
    with removed_split [OF ok sep k _ _ pos p_def] at show ?thesis
      by (simp add: p_def)
  qed
qed

section \<open>Queries\<close>

lemma cnt_index:
  assumes "lmb_table_ok rgn"
  shows "nat (sint (rcnt rgn - 1) + 1) = unat (rcnt rgn)"
proof -
  have n: "unat (rcnt rgn - 1) = unat (rcnt rgn) - 1"
    using assms by (intro unat_sub_1) (simp add: lmb_table_ok_def)
  then have "sint (rcnt rgn - 1) = int (unat (rcnt rgn) - 1)"
    using assms by (subst sint_small) (auto simp: lmb_table_ok_def MAX_LMB_REGIONS_def)
  with assms show ?thesis by (simp add: lmb_table_ok_def)
qed

lemma lmb_overlaps_region_spec:
  assumes ok: "lmb_table_ok rgn" and bounds: "\<forall>p \<in> set (active rgn). hi p < 2 ^ 64"
    and n: "hi (new_block b s) < 2 ^ 64"
  obtains (Free) "lmb_overlaps_region rgn b s = Some (-1)"
      "\<forall>p \<in> set (active rgn). hi p \<le> lo (new_block b s) \<or> hi (new_block b s) \<le> lo p"
  | (Hit) j where "lmb_overlaps_region rgn b s = Some (int j)" "j < unat (rcnt rgn)"
      "lo (new_block b s) < hi (rregion rgn ! j)" "lo (rregion rgn ! j) < hi (new_block b s)"
proof -
  let ?P = "\<lambda>p. lmb_addrs_overlap b s (lbase p) (lsize p)"
  define k where "k = find_ix ?P (rregion rgn) 0 (unat (rcnt rgn))"
  note k = find_ix_props [of 0 "unat (rcnt rgn)" ?P "rregion rgn", folded k_def]
  have P: "?P p \<longleftrightarrow> lo (new_block b s) < hi p \<and> lo p < hi (new_block b s)" if "p \<in> set (active rgn)" for p
    using overlap_nat [OF n, of p] bounds that by simp
  have ov: "lmb_overlaps_region rgn b s = Some (if k < unat (rcnt rgn) then int k else -1)"
    using ok by (simp add: lmb_overlaps_region_def lmb_overlaps_from_find_ix k_def lmb_table_ok_def)
  show ?thesis
  proof (cases "k < unat (rcnt rgn)")
    case True
    then show ?thesis
      using Hit [of k] ov k P [OF region_mem_active [OF ok True]] by simp
  next
    case False
    then have "\<forall>p \<in> set (active rgn). \<not> ?P p"
      using k by (metis active_memE [OF ok] le0 linorder_not_less order.strict_trans2)
    then show ?thesis
      using Free ov False P by (auto simp: not_less)
  qed
qed

lemma lmb_inv_bounds: "lmb_inv rgn \<Longrightarrow> p \<in> set (active rgn) \<Longrightarrow> hi p < 2 ^ 64"
proof (cases rule: lmb_inv_cases)
  assume "lmb_inv rgn" "p \<in> set (active rgn)"
  assume "lmb_table_ok rgn" "rcnt rgn = 1" "lsize (rregion rgn ! 0) = 0" "p \<in> set (active rgn)"
  then have "p = rregion rgn ! 0"
    by (simp add: active_def lmb_table_ok_def take_Suc_conv_app_nth)
  with \<open>lsize _ = 0\<close> show ?thesis
    using unsigned_less [of "lbase p"] by (simp add: hi_def)
qed (auto dest: separated_memD)

lemma lmb_is_reserved_from_spec:
  assumes ok: "lmb_table_ok rgn" and sep: "separated (active rgn)"
  shows "lmb_is_reserved_from rgn a 0 = Some (unat a \<in> covered rgn)"
proof -
  let ?P = "\<lambda>p. lbase p \<le> a \<and> a \<le> lbase p + lsize p - 1"
  have P: "?P p \<longleftrightarrow> unat a \<in> block p" if p: "p \<in> set (active rgn)" for p
  proof -
    have hp: "hi p < 2 ^ 64" "lo p < hi p" using separated_memD [OF sep p] by auto
    then have "unat (lbase p + lsize p - 1) = hi p - 1"
      using hi_word [OF hp(1)] by (subst unat_sub_1) auto
    with hp(2) show ?thesis by (auto simp: block_def lo_def word_le_nat_alt)
  qed
  have "find_ix ?P (rregion rgn) 0 (unat (rcnt rgn)) < unat (rcnt rgn) \<longleftrightarrow>
      (\<exists>m < unat (rcnt rgn). ?P (rregion rgn ! m))"
    by (simp add: find_ix_less_iff)
  also have "\<dots> \<longleftrightarrow> (\<exists>p \<in> set (active rgn). ?P p)"
    using region_mem_active [OF ok] active_memE [OF ok] by metis
  also have "\<dots> \<longleftrightarrow> unat a \<in> covered rgn"
    using P by (auto simp: covered_def)
  finally show ?thesis
    using ok by (simp add: lmb_is_reserved_from_find_ix lmb_table_ok_def)
qed

text \<open>\<open>lmb_find\<close>\<close>

definition find_meets :: "lmb_property \<Rightarrow> lmb_property \<Rightarrow> bool" where
  "find_meets n p \<longleftrightarrow> lo n < hi p \<and> lo p + 1 < hi n"

definition find_result :: "lmb_property list \<Rightarrow> lmb_property \<Rightarrow> int \<times> lmb_property \<Rightarrow> bool" where
  "find_result ps n out \<longleftrightarrow>
     (fst out = -1 \<and> snd out = n \<and> (\<forall>p \<in> set ps. \<not> find_meets n p)
      \<or> fst out = 0 \<and> (\<exists>p \<in> set ps. find_meets n p \<and> block (snd out) = block n \<inter> block p \<and> block (snd out) \<noteq> {}))"

lemma lmb_find_hit:
  assumes n: "0 < lsize n" "hi n < 2 ^ 64" and p: "lo p < hi p" "hi p < 2 ^ 64" and m: "find_meets n p"
    and st: "st = max (lbase n) (lbase p)"
    and en: "en = min (lbase n + lsize n - 1) (lbase p + lsize p - 1)"
  shows "block (n\<lparr>lbase := st, lsize := en - st + 1\<rparr>) = block n \<inter> block p"
    and "block n \<inter> block p \<noteq> {}"
proof -
  have nn: "lo n < hi n" using n by (simp add: lo_def hi_def word_less_nat_alt)
  have e: "unat (lbase n + lsize n - 1) = hi n - 1" "unat (lbase p + lsize p - 1) = hi p - 1"
    using hi_word [OF n(2)] hi_word [OF p(2)] nn p(1) by (subst unat_sub_1; simp)+
  have ust: "unat st = max (lo n) (lo p)"
    by (auto simp: st max_def lo_def word_le_nat_alt)
  have uen: "unat en = min (hi n) (hi p) - 1"
    using e nn p(1) by (auto simp: en min_def word_le_nat_alt)
  have lt: "max (lo n) (lo p) < min (hi n) (hi p)"
    using nn p(1) m by (auto simp: find_meets_def)
  then have d: "unat (en - st) = min (hi n) (hi p) - 1 - max (lo n) (lo p)"
    using ust uen by (subst unat_sub_nowrap) auto
  then have "unat (en - st + 1) = min (hi n) (hi p) - max (lo n) (lo p)"
    using lt n(2) by (subst unat_add_nowrap) auto
  then have "hi (n\<lparr>lbase := st, lsize := en - st + 1\<rparr>) = min (hi n) (hi p)"
    using ust lt by (simp add: hi_def)
  moreover have "lo (n\<lparr>lbase := st, lsize := en - st + 1\<rparr>) = max (lo n) (lo p)"
    using ust by (simp add: lo_def)
  ultimately show "block (n\<lparr>lbase := st, lsize := en - st + 1\<rparr>) = block n \<inter> block p"
    by (auto simp: block_def)
  show "block n \<inter> block p \<noteq> {}"
    using lt by (auto simp: block_def)
qed

lemma find_result_Cons:
  "find_result ps n out \<Longrightarrow> \<not> find_meets n p \<Longrightarrow> find_result (p # ps) n out"
  by (auto simp: find_result_def)

lemma lmb_find_from_spec:
  assumes ok: "lmb_table_ok rgn" and sep: "separated (active rgn)"
    and n: "0 < lsize n" "hi n < 2 ^ 64" and i: "i \<le> unat (rcnt rgn)"
  shows "\<exists>out. lmb_find_from rgn n (lbase n) (lbase n + lsize n - 1) i = Some out
    \<and> find_result (drop i (active rgn)) n out"
  using i
proof (induction "unat (rcnt rgn) - i" arbitrary: i)
  case 0
  then show ?case
    using ok by (subst lmb_find_from.simps) (auto simp: find_result_def length_active)
next
  case (Suc d)
  let ?p = "rregion rgn ! i" and ?e = "lbase n + lsize n - 1"
  have i: "i < unat (rcnt rgn)" using Suc.hyps(2) by simp
  have get: "aget (rregion rgn) i = Some ?p" using i ok by (simp add: aget_def lmb_table_ok_def)
  have drop: "drop i (active rgn) = ?p # drop (Suc i) (active rgn)"
    using i ok by (metis Cons_nth_drop_Suc length_active active_nth)
  have p: "lo ?p < hi ?p" "hi ?p < 2 ^ 64"
    using separated_memD [OF sep region_mem_active [OF ok i]] by auto
  have nn: "lo n < hi n" using n by (simp add: lo_def hi_def word_less_nat_alt)
  have e: "unat ?e = hi n - 1" "unat (lbase ?p + lsize ?p - 1) = hi ?p - 1"
    using hi_word [OF n(2)] hi_word [OF p(2)] nn p(1) by (subst unat_sub_1; simp)+
  consider (stop) "hi n \<le> lo ?p" | (hit) "lo ?p < hi n" "find_meets n ?p"
    | (miss) "lo ?p < hi n" "\<not> find_meets n ?p" by linarith
  then show ?case
  proof cases
    case stop
    have "separated (?p # drop (Suc i) (active rgn))"
      using sep by (metis append_take_drop_id drop separated_append)
    then have "\<forall>q \<in> set (drop i (active rgn)). hi n \<le> lo q"
      using stop p(1) unfolding drop by force
    then have "\<forall>q \<in> set (drop i (active rgn)). \<not> find_meets n q"
      by (auto simp: find_meets_def)
    moreover have "lbase ?p > ?e" using stop e nn by (simp add: word_less_nat_alt lo_def)
    ultimately show ?thesis
      using i get by (subst lmb_find_from.simps) (auto simp: find_result_def)
  next
    case hit
    let ?st = "max (lbase n) (lbase ?p)" and ?en = "min ?e (lbase ?p + lsize ?p - 1)"
    have "\<not> lbase ?p > ?e" "lbase n \<le> lbase ?p + lsize ?p - 1" "lbase ?p < ?e"
      using hit e by (auto simp: word_less_nat_alt word_le_nat_alt find_meets_def lo_def)
    then have "lmb_find_from rgn n (lbase n) ?e i =
        Some (0, n\<lparr>lbase := ?st, lsize := ?en - ?st + 1\<rparr>)"
      using i get by (subst lmb_find_from.simps) (auto simp: Let_def max_def min_def)
    moreover have "find_result (drop i (active rgn)) n (0, n\<lparr>lbase := ?st, lsize := ?en - ?st + 1\<rparr>)"
      using lmb_find_hit [OF n p hit(2) refl refl] hit(2) unfolding drop find_result_def by auto
    ultimately show ?thesis by blast
  next
    case miss
    have "\<not> lbase ?p > ?e" "\<not> (lbase n \<le> lbase ?p + lsize ?p - 1 \<and> lbase ?p < ?e)"
      using miss e p by (auto simp: word_less_nat_alt word_le_nat_alt find_meets_def lo_def)
    then have "lmb_find_from rgn n (lbase n) ?e i = lmb_find_from rgn n (lbase n) ?e (i + 1)"
      using i get by (subst lmb_find_from.simps) (auto simp: Let_def)
    with Suc.hyps i miss(2) show ?thesis
      unfolding drop by (metis Suc_eq_plus1 Suc_leI diff_Suc_eq_diff_pred diff_Suc_1 diff_diff_left find_result_Cons plus_1_eq_Suc)
  qed
qed

section \<open>The memory limit\<close>

definition bytes :: "lmb_property list \<Rightarrow> nat" where
  "bytes ps = (\<Sum>p \<leftarrow> ps. unat (lsize p))"

lemma bytes_simps [simp]:
  "bytes [] = 0" "bytes (p # ps) = unat (lsize p) + bytes ps" "bytes (ps @ qs) = bytes ps + bytes qs"
  by (simp_all add: bytes_def)

definition truncated :: "lmb_property list \<Rightarrow> nat \<Rightarrow> lmb_property list \<Rightarrow> bool" where
  "truncated ps limit qs \<longleftrightarrow>
     qs = ps \<and> bytes ps < limit \<or>
     (\<exists>as p bs q. ps = as @ p # bs \<and> qs = as @ [q] \<and> lbase q = lbase p
        \<and> unat (lsize q) + bytes as = limit \<and> 0 < lsize q \<and> lsize q \<le> lsize p)"

lemma lmb_truncate_memory_spec:
  assumes "lmb_table_ok rgn" and "separated (active rgn)" and "0 < limit"
    and "active rgn = as @ bs" and "length as = i"
  shows "\<exists>rgn'. lmb_truncate_memory rgn limit i = Some rgn' \<and> lmb_table_ok rgn'
    \<and> truncated (active rgn) (bytes as + unat limit) (active rgn')"
  using assms
proof (induction bs arbitrary: as i limit)
  case Nil
  then have "unat (rcnt rgn) = i" using length_active by fastforce
  with Nil show ?case
    by (subst lmb_truncate_memory.simps) (auto simp: truncated_def word_less_nat_alt)
next
  case (Cons p bs)
  have i: "i < unat (rcnt rgn)" using Cons.prems length_active by fastforce
  have p: "rregion rgn ! i = p"
    using active_nth [OF Cons.prems(1) i] Cons.prems(4,5) by (simp add: nth_append)
  have len: "length (rregion rgn) = Suc MAX_LMB_REGIONS" "i < length (rregion rgn)"
    "unat (rcnt rgn) \<le> MAX_LMB_REGIONS"
    using Cons.prems(1) i by (simp_all add: lmb_table_ok_def)
  show ?case
  proof (cases "limit > lsize p")
    case True
    then have d: "unat (limit - lsize p) = unat limit - unat (lsize p)"
      by (intro unat_sub_nowrap) (simp add: word_less_nat_alt)
    have "0 < limit - lsize p"
      using True d by (simp add: word_less_nat_alt)
    from Cons.IH [OF Cons.prems(1,2) this, of "as @ [p]" "Suc i"] Cons.prems(4,5) True d
    obtain rgn' where "lmb_truncate_memory rgn (limit - lsize p) (Suc i) = Some rgn'" "lmb_table_ok rgn'"
      "truncated (active rgn) (bytes as + unat limit) (active rgn')"
      by (auto simp: word_less_nat_alt)
    with i p len True show ?thesis
      by (subst lmb_truncate_memory.simps) (simp add: aget_def)
  next
    case False
    define rgn' where "rgn' = rgn\<lparr>rregion := (rregion rgn)[i := p\<lparr>lsize := limit\<rparr>], rcnt := of_nat i + 1\<rparr>"
    have n: "unat (of_nat i + 1 :: u64) = Suc i"
    proof -
      have "unat (of_nat (Suc i) :: u64) = Suc i"
        using i len(3) by (simp only: unat_of_nat) (simp add: MAX_LMB_REGIONS_def)
      then show ?thesis by (simp add: add.commute)
    qed
    have "active rgn' = take (Suc i) ((rregion rgn)[i := p\<lparr>lsize := limit\<rparr>])"
      using n by (simp add: active_def rgn'_def)
    also have "\<dots> = take i (active rgn) @ [p\<lparr>lsize := limit\<rparr>]"
      using i len by (simp add: active_def take_Suc_conv_app_nth)
    finally have act: "active rgn' = as @ [p\<lparr>lsize := limit\<rparr>]"
      using Cons.prems(4,5) by simp
    have "lmb_table_ok rgn'"
      using n i len by (simp add: lmb_table_ok_def rgn'_def)
    moreover have "truncated (active rgn) (bytes as + unat limit) (active rgn')"
      using Cons.prems(3,4) act False by (auto simp: truncated_def not_less)
    moreover have "lmb_truncate_memory rgn limit i = Some rgn'"
      using i p len False by (subst lmb_truncate_memory.simps) (simp add: aget_def aset_def rgn'_def)
    ultimately show ?thesis by blast
  qed
qed

lemma truncated_spec:
  assumes "separated ps" and "truncated ps limit qs"
  shows "separated qs" and "bytes qs = min limit (bytes ps)"
    and "(\<Union>p \<in> set qs. block p) \<subseteq> (\<Union>p \<in> set ps. block p)"
    and "x \<in> (\<Union>p \<in> set ps. block p) - (\<Union>p \<in> set qs. block p) \<Longrightarrow> q \<in> set qs \<Longrightarrow> hi q \<le> x"
proof -
  consider (same) "qs = ps" "bytes ps < limit"
    | (trim) as p bs q where "ps = as @ p # bs" "qs = as @ [q]" "lbase q = lbase p"
        "unat (lsize q) + bytes as = limit" "0 < lsize q" "lsize q \<le> lsize p"
    using assms(2) by (auto simp: truncated_def)
  then have "separated qs \<and> bytes qs = min limit (bytes ps)
    \<and> (\<Union>p \<in> set qs. block p) \<subseteq> (\<Union>p \<in> set ps. block p)
    \<and> (\<forall>x \<in> (\<Union>p \<in> set ps. block p) - (\<Union>p \<in> set qs. block p). \<forall>q \<in> set qs. hi q \<le> x)"
  proof cases
    case same
    with assms(1) show ?thesis by simp
  next
    case trim
    have q: "lo q = lo p" "hi q \<le> hi p"
      using trim(3,6) by (auto simp: lo_def hi_def word_le_nat_alt)
    have sep: "separated (as @ p # bs)" using assms(1) trim(1) by simp
    have sepq: "separated qs" using sep q trim(2,5) by auto
    have sub: "block q \<subseteq> block p" using q by (auto simp: block_def)
    have "hi r \<le> x" if x: "x \<in> (\<Union>p \<in> set ps. block p) - (\<Union>p \<in> set qs. block p)" and r: "r \<in> set qs" for x r
    proof -
      have "x \<notin> block q" using x trim(2) by auto
      moreover have "x \<in> block p \<or> (\<exists>b \<in> set bs. x \<in> block b)"
        using x trim(1,2) by auto
      ultimately have "hi q \<le> x"
        using sep q by (auto simp: block_def)
      moreover have "hi r \<le> hi q"
        using r sepq hi_ge_lo [of q] unfolding trim(2) by fastforce
      ultimately show ?thesis by simp
    qed
    moreover have "bytes qs = min limit (bytes ps)"
      using trim by (simp add: word_le_nat_alt)
    moreover have "(\<Union>p \<in> set qs. block p) \<subseteq> (\<Union>p \<in> set ps. block p)"
      using sub trim(1,2) by auto
    ultimately show ?thesis
      using sepq by blast
  qed
  then show "separated qs" "bytes qs = min limit (bytes ps)"
    "(\<Union>p \<in> set qs. block p) \<subseteq> (\<Union>p \<in> set ps. block p)"
    "x \<in> (\<Union>p \<in> set ps. block p) - (\<Union>p \<in> set qs. block p) \<Longrightarrow> q \<in> set qs \<Longrightarrow> hi q \<le> x"
    by blast+
qed


definition table_fits :: "lmb_region \<Rightarrow> bool" where
  "table_fits rgn \<longleftrightarrow> length (rregion rgn) = MAX_LMB_REGIONS + 1 \<and> unat (rcnt rgn) \<le> MAX_LMB_REGIONS"

definition clip :: "u64 \<Rightarrow> lmb_property \<Rightarrow> lmb_property list" where
  "clip limit p = (if unat limit \<le> lo p then []
     else if unat limit < hi p then [p\<lparr>lsize := limit - lbase p\<rparr>] else [p])"

lemma length_active_fits: "table_fits rgn \<Longrightarrow> length (active rgn) = unat (rcnt rgn)"
  by (simp add: active_def table_fits_def)

lemma lmb_truncate_reserved_spec:
  assumes "table_fits rgn" and "\<forall>p \<in> set bs. 0 < lsize p \<and> hi p < 2 ^ 64"
    and "active rgn = as @ bs" and "length as = i"
  shows "\<exists>rgn'. lmb_truncate_reserved rgn limit i = Some rgn' \<and> table_fits rgn'
    \<and> active rgn' = as @ concat (map (clip limit) bs)"
  using assms
proof (induction bs arbitrary: as i rgn)
  case Nil
  then have "unat (rcnt rgn) = i" using length_active_fits by fastforce
  with Nil show ?case
    by (subst lmb_truncate_reserved.simps) auto
next
  case (Cons p bs)
  have i: "i < unat (rcnt rgn)" using Cons.prems(1,3,4) length_active_fits by fastforce
  have ok: "lmb_table_ok rgn" using Cons.prems(1) i by (simp add: table_fits_def lmb_table_ok_def)
  have p: "rregion rgn ! i = p"
    using active_nth [OF ok i] Cons.prems(3,4) by (simp add: nth_append)
  have len: "i < length (rregion rgn)"
    using ok i by (simp add: lmb_table_ok_def)
  define p' where "p' = (if lbase p > limit then p\<lparr>lsize := 0\<rparr>
     else if lbase p + lsize p > limit then p\<lparr>lsize := limit - lbase p\<rparr> else p)"
  define rgn1 where "rgn1 = rgn\<lparr>rregion := (rregion rgn)[i := p']\<rparr>"
  have act1: "active rgn1 = as @ p' # bs"
    using Cons.prems(3,4) unfolding rgn1_def active_update by (simp add: list_update_append)
  have hp: "0 < lsize p" "hi p < 2 ^ 64" using Cons.prems(2) by auto
  have clip: "clip limit p = (if lsize p' = 0 then [] else [p'])"
  proof -
    have "lbase p + lsize p > limit \<longleftrightarrow> unat limit < hi p"
      using hi_word [OF hp(2)] by (simp add: word_less_nat_alt)
    moreover have "limit - lbase p = 0 \<longleftrightarrow> unat limit = lo p"
      by (simp add: lo_def word_unat_eq_iff [symmetric])
    moreover have "lo p < hi p" using hp(1) by (simp add: lo_def hi_def word_less_nat_alt)
    ultimately show ?thesis
      using hp(1) by (auto simp: clip_def p'_def lo_def word_less_nat_alt)
  qed
  show ?case
  proof (cases "lsize p' = 0")
    case True
    obtain r where r: "lmb_remove_region rgn1 i = Some r" "rcnt r = rcnt rgn - 1"
      "length (rregion r) = length (rregion rgn)" "active r = take i (active rgn1) @ drop (Suc i) (active rgn1)"
      using lmb_remove_region_active [of rgn1 i] ok i by (auto simp: rgn1_def)
    have act: "active r = as @ bs"
      using r(4) Cons.prems(4) by (simp add: act1)
    have "unat (rcnt r) = unat (rcnt rgn) - 1"
      unfolding r(2) using i by (intro unat_sub_1) simp
    then have "table_fits r" using ok r(3) by (auto simp: lmb_table_ok_def table_fits_def)
    from Cons.IH [OF this _ act Cons.prems(4)] Cons.prems(2)
    obtain rgn' where "lmb_truncate_reserved r limit i = Some rgn'" "table_fits rgn'"
      "active rgn' = as @ concat (map (clip limit) bs)" by auto
    with i p len True clip r(1) show ?thesis
      by (subst lmb_truncate_reserved.simps) (simp add: aget_def aset_def p'_def rgn1_def Let_def)
  next
    case False
    have "table_fits rgn1" using Cons.prems(1) by (simp add: rgn1_def table_fits_def)
    from Cons.IH [OF this, of "as @ [p']" "Suc i"] Cons.prems(2,4) act1
    obtain rgn' where "lmb_truncate_reserved rgn1 limit (Suc i) = Some rgn'" "table_fits rgn'"
      "active rgn' = as @ [p'] @ concat (map (clip limit) bs)" by auto
    with i p len False clip show ?thesis
      by (subst lmb_truncate_reserved.simps) (simp add: aget_def aset_def p'_def rgn1_def Let_def)
  qed
qed

lemma clip_block:
  "(\<Union>q \<in> set (clip limit p). block q) = block p \<inter> {..<unat limit}"
proof -
  have "hi (p\<lparr>lsize := limit - lbase p\<rparr>) = unat limit" if "\<not> unat limit \<le> lo p"
    using that by (simp add: hi_def lo_def unat_sub_nowrap)
  then show ?thesis
    by (auto simp: clip_def block_def lo_def)
qed

lemma lmb_end_of_DRAM_spec:
  assumes ok: "lmb_table_ok (memory l)" and "hi (last (active (memory l))) < 2 ^ 64"
  shows "\<exists>e. lmb_end_of_DRAM l = Some e \<and> unat e = hi (last (active (memory l)))"
proof -
  let ?m = "memory l"
  obtain i where i: "unat (rcnt ?m) = Suc i"
    using ok by (metis lmb_table_ok_def gr0_conv_Suc)
  have n: "unat (rcnt ?m - 1) = i" "i < 128" "i < length (rregion ?m)"
    using ok i by (auto simp: lmb_table_ok_def MAX_LMB_REGIONS_def unat_sub_1)
  then have "unat (ucast (rcnt ?m - 1) :: u32) = i"
    by (simp add: unsigned_ucast_eq take_bit_nat_eq_self)
  then have idx: "sint (ucast (rcnt ?m - 1) :: u32) = int i"
    using n by (subst sint_small) auto
  have "active ?m \<noteq> []" using length_active [OF ok] i by auto
  then have "last (active ?m) = rregion ?m ! i"
    using length_active [OF ok] i by (simp add: last_conv_nth active_nth [OF ok])
  with idx assms(2) n show ?thesis
    by (simp add: lmb_end_of_DRAM_def aget_def hi_word Let_def)
qed


text \<open>The whole of \<open>lmb_enforce_memory_limit\<close>.\<close>

lemma lmb_enforce_memory_limit_spec:
  assumes mem: "lmb_table_ok (memory l)" "separated (active (memory l))"
    and res: "lmb_table_ok (reserved l)" "separated (active (reserved l))" and limit: "0 < limit"
  shows "\<exists>l'. lmb_enforce_memory_limit l limit = Some l'
    \<and> lmb_inv (memory l') \<and> covered (memory l') \<subseteq> covered (memory l)
    \<and> bytes (active (memory l')) = min (unat limit) (bytes (active (memory l)))
    \<and> (\<forall>x \<in> covered (memory l). \<forall>y \<in> covered (memory l'). x \<le> y \<longrightarrow> x \<in> covered (memory l'))
    \<and> covered (reserved l') = covered (reserved l) \<inter> {..<hi (last (active (memory l')))}"
proof -
  obtain m where m: "lmb_truncate_memory (memory l) limit 0 = Some m" "lmb_table_ok m"
    "truncated (active (memory l)) (unat limit) (active m)"
    using lmb_truncate_memory_spec [OF mem limit, of "[]"] by auto
  note trunc = truncated_spec [OF mem(2) m(3)]
  have len0: "0 < length (rregion m)" using m(2) by (simp add: lmb_table_ok_def)
  have "active m \<noteq> []" using length_active [OF m(2)] m(2) by (auto simp: lmb_table_ok_def)
  then have last: "last (active m) \<in> set (active m)" by simp
  define l1 where "l1 = l\<lparr>memory := m, rmo_size := (if lsize (rregion m ! 0) < rmo_size l
     then lsize (rregion m ! 0) else rmo_size l)\<rparr>"
  have "lmb_table_ok (memory l1)" "hi (last (active (memory l1))) < 2 ^ 64"
    using m(2) separated_memD [OF trunc(1) last] by (simp_all add: l1_def)
  then obtain e where e: "lmb_end_of_DRAM l1 = Some e" "unat e = hi (last (active m))"
    using lmb_end_of_DRAM_spec [of l1] by (auto simp: l1_def)
  have fits: "table_fits (reserved l)" using res(1) by (simp add: lmb_table_ok_def table_fits_def)
  obtain r where r: "lmb_truncate_reserved (reserved l) e 0 = Some r"
    "active r = concat (map (clip e) (active (reserved l)))"
    using lmb_truncate_reserved_spec [OF fits, of "active (reserved l)" "[]" 0 e] separated_memD [OF res(2)]
    by auto
  have "covered r = covered (reserved l) \<inter> {..<unat e}"
    unfolding covered_def r(2) using clip_block by auto
  moreover have "lmb_enforce_memory_limit l limit = Some (l1\<lparr>reserved := r\<rparr>)"
    using m(1) e(1) r(1) limit len0
    by (simp add: lmb_enforce_memory_limit_def aget_def l1_def word_neq_0_conv)
  moreover have "x \<in> covered m" if "x \<in> covered (memory l)" "y \<in> covered m" "x \<le> y" for x y
    using trunc(4) [of x] that unfolding covered_def by (fastforce simp: block_def)
  moreover have "covered m \<subseteq> covered (memory l)" using trunc(3) by (simp add: covered_def)
  ultimately show ?thesis
    using m(2) trunc(1,2) e(2) by (auto simp: l1_def lmb_inv_def)
qed

lemma lmb_sum_sizes_spec:
  assumes ok: "lmb_table_ok rgn" and i: "i \<le> unat (rcnt rgn)"
  shows "lmb_sum_sizes rgn i acc = Some (acc + of_nat (bytes (drop i (active rgn))))"
  using i
proof (induction "unat (rcnt rgn) - i" arbitrary: i acc)
  case 0
  then show ?case
    using ok by (subst lmb_sum_sizes.simps) (simp add: length_active)
next
  case (Suc d)
  then have i: "i < unat (rcnt rgn)" by simp
  have "drop i (active rgn) = rregion rgn ! i # drop (Suc i) (active rgn)"
    using i ok by (metis Cons_nth_drop_Suc length_active active_nth)
  moreover have "lmb_sum_sizes rgn (Suc i) (acc + lsize (rregion rgn ! i)) =
      Some (acc + lsize (rregion rgn ! i) + of_nat (bytes (drop (Suc i) (active rgn))))"
    using Suc.hyps i by (intro Suc.hyps(1)) auto
  ultimately show ?case
    using i ok by (subst lmb_sum_sizes.simps) (simp add: aget_def lmb_table_ok_def add.assoc)
qed


section \<open>The tables at boot\<close>

definition empty_table :: lmb_region where
  "empty_table = \<lparr>rcnt = 0, rsize = 0, rregion = replicate (MAX_LMB_REGIONS + 1) \<lparr>lbase = 0, lsize = 0\<rparr>\<rparr>"

definition boot_lmb :: lmb where
  "boot_lmb = \<lparr>debug = 0, rmo_size = 0, memory = empty_table, reserved = empty_table\<rparr>"

text \<open>A table with one block, the state after the first \<open>lmb_add\<close> or \<open>lmb_reserve\<close>.\<close>

definition one_block :: "u64 \<Rightarrow> u64 \<Rightarrow> lmb_region" where
  "one_block b s = empty_table\<lparr>rcnt := 1, rregion := (rregion empty_table)[0 := new_block b s]\<rparr>"

lemma one_block_active: "active (one_block b s) = [new_block b s]"
  by (simp add: one_block_def active_def empty_table_def MAX_LMB_REGIONS_def take_Suc_conv_app_nth)

lemma one_block_covered: "covered (one_block b s) = block (new_block b s)"
  by (simp add: covered_def one_block_active)

lemma one_block_ok: "lmb_table_ok (one_block b s)"
  by (simp add: lmb_table_ok_def one_block_def empty_table_def MAX_LMB_REGIONS_def)

lemma one_block_separated: "0 < s \<Longrightarrow> hi (new_block b s) < 2 ^ 64 \<Longrightarrow> separated (active (one_block b s))"
  by (simp add: one_block_active)

lemma one_block_inv: "0 < s \<Longrightarrow> hi (new_block b s) < 2 ^ 64 \<Longrightarrow> lmb_inv (one_block b s)"
  by (simp add: lmb_inv_def one_block_ok one_block_active)

lemmas one_block_facts = one_block_active one_block_covered one_block_ok one_block_separated one_block_inv

lemma block_new_block: "block (new_block b s) = {unat b..<unat b + unat s}"
  by (simp add: block_def lo_def hi_def)

lemma lo_new_block: "lo (new_block b s) = unat b"
  by (simp add: lo_def)

lemma hi_new_block: "hi (new_block b s) = unat b + unat s"
  by (simp add: hi_def)

lemmas lmb_eval = boot_lmb_def empty_table_def MAX_LMB_REGIONS_def aget_def aset_def nth_list_update Let_def
  lmb_init_def lmb_reserve_def lmb_free_def lmb_add_def lmb_is_reserved_def lmb_is_reserved_from.simps
  lmb_add_region_def lmb_add_scan.simps lmb_add_finish_def raw_lmb_remove_def lmb_remove_find.simps
  lmb_remove_region_def lmb_shift_down.simps lmb_addrs_adjacent_def lmb_regions_adjacent_def
  lmb_coalesce_regions_def lmb_overlaps_region_def lmb_overlaps_from.simps lmb_addrs_overlap_def
  lmb_align_up_def lmb_align_down_def LMB_ALLOC_ANYWHERE_def raw_lmb_alloc_base_def lmb_alloc_inner.simps
  lmb_find_def lmb_find_from.simps

section \<open>Properties\<close>

text \<open>
  C15.  Adding a block that does not meet the table returns, without an access
  outside the array, with the invariant kept (sorted entries with a gap between any
  two, so adjacent blocks were merged) and exactly the addresses of the block added;
  it fails, and changes nothing, only when all \<open>MAX_LMB_REGIONS\<close> entries are in use.
\<close>

theorem lmb_add_region_ok:
  assumes "lmb_inv rgn" and "0 < s" and "unat b + unat s < 2 ^ 64"
    and "{unat b..<unat b + unat s} \<inter> covered rgn = {}"
  shows "\<exists>ret rgn'. lmb_add_region rgn b s = Some (ret, rgn') \<and>
    (ret = -1 \<and> rgn' = rgn \<and> unat (rcnt rgn) = MAX_LMB_REGIONS
     \<or> 0 \<le> ret \<and> lmb_inv rgn' \<and> covered rgn' = covered rgn \<union> {unat b..<unat b + unat s})"
  using lmb_add_region_spec [of rgn s b] assms unfolding block_new_block hi_new_block by blast

theorem lmb_add_region_ok_witness:
  "lmb_inv (one_block 0x1000 0x1000) \<and>
   (\<exists>ret rgn'. lmb_add_region (one_block 0x1000 0x1000) 0x2000 0x1000 = Some (ret, rgn') \<and>
      (ret = -1 \<and> rgn' = one_block 0x1000 0x1000
         \<and> unat (rcnt (one_block 0x1000 0x1000)) = MAX_LMB_REGIONS
       \<or> 0 \<le> ret \<and> lmb_inv rgn' \<and> covered rgn' = covered (one_block 0x1000 0x1000) \<union> {0x2000..<0x3000}))"
proof -
  have inv: "lmb_inv (one_block 0x1000 0x1000)"
    by (rule one_block_inv) (simp_all add: hi_def)
  show ?thesis
    using lmb_add_region_ok [OF inv, of "0x1000" "0x2000"] inv
    by (simp add: one_block_covered block_new_block)
qed

text \<open>
  C16.  Removing a range that lies inside one block of the table takes away exactly
  that range and keeps the entries sorted and apart.  Two exceptions are visible in
  the statement: removing the only block leaves a table with \<open>cnt = 0\<close>, and when an
  entry of a full table has to be split the call returns \<open>-1\<close> although the entry
  has been cut, so everything behind the range is lost too.
\<close>

theorem lmb_remove_ok:
  assumes "lmb_table_ok rgn" and "separated (active rgn)" and "0 < s" and "unat b + unat s < 2 ^ 64"
    and "p \<in> set (active rgn)" and "{unat b..<unat b + unat s} \<subseteq> block p"
  shows "\<exists>ret rgn'. raw_lmb_remove rgn b s = Some (ret, rgn') \<and> separated (active rgn') \<and>
    (0 \<le> ret \<and> covered rgn' = covered rgn - {unat b..<unat b + unat s}
       \<and> (lmb_table_ok rgn' \<or> rcnt rgn = 1 \<and> rcnt rgn' = 0)
     \<or> ret = -1 \<and> unat (rcnt rgn) = MAX_LMB_REGIONS
       \<and> (\<exists>q \<in> set (active rgn). covered rgn' = covered rgn - {unat b..<hi q}))"
proof -
  have "hi (new_block b s) < 2 ^ 64" "block (new_block b s) \<subseteq> block p"
    using assms(4,6) by (simp_all only: block_new_block hi_new_block)
  from raw_lmb_remove_spec [OF assms(1-3) this(1) assms(5) this(2)]
  obtain ret rgn' where run: "raw_lmb_remove rgn b s = Some (ret, rgn')"
    and "removed rgn (new_block b s) ret rgn'" by blast
  then show ?thesis
    unfolding removed_def block_new_block lo_new_block by blast
qed

theorem lmb_remove_ok_witness:
  "\<exists>ret rgn'. raw_lmb_remove (one_block 0x1000 0x3000) 0x2000 0x1000 = Some (ret, rgn') \<and>
    separated (active rgn') \<and>
    (0 \<le> ret \<and> covered rgn' = covered (one_block 0x1000 0x3000) - {0x2000..<0x3000}
       \<and> (lmb_table_ok rgn' \<or> rcnt (one_block 0x1000 0x3000) = 1 \<and> rcnt rgn' = 0)
     \<or> ret = -1 \<and> unat (rcnt (one_block 0x1000 0x3000)) = MAX_LMB_REGIONS
       \<and> (\<exists>q \<in> set (active (one_block 0x1000 0x3000)).
             covered rgn' = covered (one_block 0x1000 0x3000) - {0x2000..<hi q}))"
  using lmb_remove_ok [of "one_block 0x1000 0x3000" "0x1000" "0x2000" "new_block 0x1000 0x3000"]
  by (simp add: one_block_facts hi_def block_new_block)

text \<open>
  Every lookup in a table agrees with the addresses it covers:
  \<open>lmb_is_reserved\<close> tells whether an address is covered, and
  \<open>lmb_overlaps_region\<close> returns \<open>-1\<close> exactly for the ranges that meet no block.
\<close>

theorem lmb_lookup_ok:
  assumes "lmb_table_ok rgn" and "separated (active rgn)" and "0 < s" and "unat b + unat s < 2 ^ 64"
    and "reserved l = rgn"
  shows "lmb_is_reserved l a = Some (unat a \<in> covered rgn)
    \<and> (\<exists>j. lmb_overlaps_region rgn b s = Some j
         \<and> (j = -1 \<longleftrightarrow> {unat b..<unat b + unat s} \<inter> covered rgn = {}))"
proof
  show "lmb_is_reserved l a = Some (unat a \<in> covered rgn)"
    using lmb_is_reserved_from_spec [OF assms(1,2)] assms(5) by (simp add: lmb_is_reserved_def)
  have bounds: "\<forall>p \<in> set (active rgn). hi p < 2 ^ 64" using separated_memD [OF assms(2)] by blast
  have n: "hi (new_block b s) < 2 ^ 64" using assms(4) by (simp add: hi_def)
  show "\<exists>j. lmb_overlaps_region rgn b s = Some j \<and> (j = -1 \<longleftrightarrow> {unat b..<unat b + unat s} \<inter> covered rgn = {})"
    using assms(1) bounds n
  proof (cases rule: lmb_overlaps_region_spec)
    case Free
    then have "block (new_block b s) \<inter> covered rgn = {}"
      by (auto simp: covered_def block_def)
    with Free(1) show ?thesis by (simp add: block_new_block)
  next
    case (Hit j)
    have mem: "rregion rgn ! j \<in> set (active rgn)" by (rule region_mem_active [OF assms(1) Hit(2)])
    then have "block (new_block b s) \<inter> block (rregion rgn ! j) \<noteq> {}"
      using Hit(3,4) overlap_block [of "new_block b s" "rregion rgn ! j"] assms(3)
        separated_memD [OF assms(2) mem] by auto
    with mem Hit(1) show ?thesis by (auto simp: covered_def block_new_block)
  qed
qed

theorem lmb_lookup_ok_witness:
  "lmb_is_reserved (boot_lmb\<lparr>reserved := one_block 0x1000 0x1000\<rparr>) 0x1800 = Some True \<and>
   (\<exists>j. lmb_overlaps_region (one_block 0x1000 0x1000) 0x2000 0x1000 = Some j \<and> j = -1)"
  using lmb_lookup_ok [of "one_block 0x1000 0x1000" "0x1000" "0x2000"
      "boot_lmb\<lparr>reserved := one_block 0x1000 0x1000\<rparr>" "0x1800"]
  by (simp add: one_block_facts hi_def block_new_block)

text \<open>
  \<open>lmb_find\<close> clips the request to the first region it meets, where a region
  whose first byte is the last byte of the request does not count as met.
\<close>

theorem lmb_find_ok:
  assumes "lmb_table_ok (memory l)" and "separated (active (memory l))"
    and "0 < lsize n" and "unat (lbase n) + unat (lsize n) < 2 ^ 64"
  shows "\<exists>ret r. lmb_find l n = Some (ret, r) \<and>
    (ret = -1 \<and> r = n \<and> (\<forall>p \<in> set (active (memory l)). hi p \<le> lo n \<or> hi n \<le> lo p + 1)
     \<or> ret = 0 \<and> (\<exists>p \<in> set (active (memory l)). block r = block n \<inter> block p \<and> block r \<noteq> {}))"
proof -
  have "hi n < 2 ^ 64" using assms(4) by (simp add: hi_def)
  from lmb_find_from_spec [OF assms(1-3) this, of 0]
  obtain out where run: "lmb_find_from (memory l) n (lbase n) (lbase n + lsize n - 1) 0 = Some out"
    and res: "find_result (active (memory l)) n out" by auto
  have "lmb_find l n = Some (fst out, snd out)" using run by (simp add: lmb_find_def)
  moreover have "\<not> find_meets n p \<longleftrightarrow> hi p \<le> lo n \<or> hi n \<le> lo p + 1" for p
    by (auto simp: find_meets_def)
  ultimately show ?thesis
    using res unfolding find_result_def by blast
qed

theorem lmb_find_ok_witness:
  "\<exists>ret r. lmb_find (boot_lmb\<lparr>memory := one_block 0x1000 0x1000\<rparr>) (new_block 0x800 0x1000) = Some (ret, r) \<and>
     ret = 0 \<and> block r = {0x1000..<0x1800}"
proof -
  have *: "block (new_block 0x800 0x1000) \<inter> block (new_block 0x1000 0x1000) = {0x1000..<0x1800}"
    by (simp add: block_new_block)
  show ?thesis
    using lmb_find_ok [of "boot_lmb\<lparr>memory := one_block 0x1000 0x1000\<rparr>" "new_block 0x800 0x1000"]
    by (auto simp: one_block_facts hi_new_block lo_new_block *)
qed

text \<open>
  Enforcing a memory limit keeps the lowest \<open>limit\<close> bytes of memory (all of it
  when there is less) and cuts the reserved blocks at the new end of memory.
\<close>

theorem lmb_enforce_memory_limit_ok:
  assumes "lmb_table_ok (memory l)" and "separated (active (memory l))"
    and "lmb_table_ok (reserved l)" and "separated (active (reserved l))" and "0 < limit"
  shows "\<exists>l'. lmb_enforce_memory_limit l limit = Some l'
    \<and> lmb_inv (memory l') \<and> covered (memory l') \<subseteq> covered (memory l)
    \<and> bytes (active (memory l')) = min (unat limit) (bytes (active (memory l)))
    \<and> (\<forall>x \<in> covered (memory l). \<forall>y \<in> covered (memory l'). x \<le> y \<longrightarrow> x \<in> covered (memory l'))
    \<and> covered (reserved l') = covered (reserved l) \<inter> {..<hi (last (active (memory l')))}"
  using assms by (rule lmb_enforce_memory_limit_spec)

theorem lmb_enforce_memory_limit_ok_witness:
  "\<exists>l'. lmb_enforce_memory_limit
         (boot_lmb\<lparr>memory := one_block 0x1000 0x3000, reserved := one_block 0x1800 0x1000\<rparr>) 0x1000 = Some l'
    \<and> lmb_inv (memory l') \<and> bytes (active (memory l')) = 0x1000"
proof -
  let ?l = "boot_lmb\<lparr>memory := one_block 0x1000 0x3000, reserved := one_block 0x1800 0x1000\<rparr>"
  have "\<exists>l'. lmb_enforce_memory_limit ?l 0x1000 = Some l'
    \<and> lmb_inv (memory l') \<and> covered (memory l') \<subseteq> covered (memory ?l)
    \<and> bytes (active (memory l')) = min (unat (0x1000 :: u64)) (bytes (active (memory ?l)))
    \<and> (\<forall>x \<in> covered (memory ?l). \<forall>y \<in> covered (memory l'). x \<le> y \<longrightarrow> x \<in> covered (memory l'))
    \<and> covered (reserved l') = covered (reserved ?l) \<inter> {..<hi (last (active (memory l')))}"
    by (rule lmb_enforce_memory_limit_ok) (simp_all add: one_block_facts hi_new_block)
  then show ?thesis by (auto simp: one_block_active)
qed


end
