(* ===== verification/Allocator.thy ===== *)
theory Allocator
  imports Kernel_Prelude
begin

text \<open>
  The contract the kernel's allocators share.  A state \<open>s\<close> holds a set of units
  (addresses, page numbers, identifiers); a request takes a block of units that
  nobody holds.  The locales are interpreted on the models of \<open>lib/lmb.c\<close> and
  of the regions of \<open>lib/bitmap.c\<close>; what follows
  from the contract, the exclusiveness of everything handed out by any sequence
  of calls, is proved once here.
\<close>

section \<open>Sequences of allocations\<close>

text \<open>Serve a list of requests; stop at the first failure.\<close>

fun alloc_seq :: "('s \<Rightarrow> 'r \<Rightarrow> ('b \<times> 's) option) \<Rightarrow> 's \<Rightarrow> 'r list \<Rightarrow> ('b list \<times> 's) option" where
  "alloc_seq alloc s [] = Some ([], s)"
| "alloc_seq alloc s (r # rs) = do {
     (b, s') \<leftarrow> alloc s r;
     (bs, s'') \<leftarrow> alloc_seq alloc s' rs;
     Some (b # bs, s'') }"

text \<open>Blocks that do not share a unit, pairwise.\<close>

definition exclusive :: "('b \<Rightarrow> 'u set) \<Rightarrow> 'b list \<Rightarrow> bool" where
  "exclusive span bs \<longleftrightarrow> sorted_wrt (\<lambda>a b. span a \<inter> span b = {}) bs"

lemma exclusive_Nil [simp]: "exclusive span []"
  by (simp add: exclusive_def)

lemma exclusive_Cons [simp]:
  "exclusive span (b # bs) \<longleftrightarrow> (\<forall>c \<in> set bs. span b \<inter> span c = {}) \<and> exclusive span bs"
  by (simp add: exclusive_def)

lemma exclusive_nth:
  "exclusive span bs \<Longrightarrow> i < j \<Longrightarrow> j < length bs \<Longrightarrow> span (bs ! i) \<inter> span (bs ! j) = {}"
  by (simp add: exclusive_def sorted_wrt_iff_nth_less)

locale allocator =
  fixes invar :: "'s \<Rightarrow> bool"
    and held :: "'s \<Rightarrow> 'u set"
    and valid :: "'r \<Rightarrow> bool"
    and alloc :: "'s \<Rightarrow> 'r \<Rightarrow> ('b \<times> 's) option"
    and span :: "'b \<Rightarrow> 'u set"
  assumes alloc_invar: "invar s \<Longrightarrow> valid r \<Longrightarrow> alloc s r = Some (b, s') \<Longrightarrow> invar s'"
    and alloc_fresh: "invar s \<Longrightarrow> valid r \<Longrightarrow> alloc s r = Some (b, s') \<Longrightarrow> span b \<inter> held s = {}"
    and alloc_held: "invar s \<Longrightarrow> valid r \<Longrightarrow> alloc s r = Some (b, s') \<Longrightarrow> held s' = held s \<union> span b"
begin

lemma alloc_seq_spec:
  assumes "invar s" and "\<forall>r \<in> set rs. valid r" and "alloc_seq alloc s rs = Some (bs, s')"
  shows "invar s' \<and> held s' = held s \<union> (\<Union>b \<in> set bs. span b) \<and> exclusive span bs
    \<and> (\<forall>b \<in> set bs. span b \<inter> held s = {})"
  using assms
proof (induction rs arbitrary: s bs)
  case Nil
  then show ?case by simp
next
  case (Cons r rs)
  from Cons.prems(3) obtain b s1 bs' where
    first: "alloc s r = Some (b, s1)" and rest: "alloc_seq alloc s1 rs = Some (bs', s')" and bs: "bs = b # bs'"
    by (auto split: bind_splits)
  have r: "valid r" "\<forall>r \<in> set rs. valid r" using Cons.prems(2) by auto
  note step = alloc_invar [OF Cons.prems(1) r(1) first] alloc_fresh [OF Cons.prems(1) r(1) first]
    alloc_held [OF Cons.prems(1) r(1) first]
  from Cons.IH [OF step(1) r(2) rest] step(2,3) show ?case
    unfolding bs by auto
qed

end

section \<open>Histories of allocations and releases\<close>

text \<open>
  An owner asks for a block or gives one back.  \<open>run_history\<close> keeps the list of
  the blocks that are out; a release names the position of the block in it.
\<close>

datatype 'r request = Take 'r | Give nat

fun run_history ::
  "('s \<Rightarrow> 'r \<Rightarrow> ('b \<times> 's) option) \<Rightarrow> ('s \<Rightarrow> 'b \<Rightarrow> 's option) \<Rightarrow> 's \<Rightarrow> 'b list \<Rightarrow> 'r request list
   \<Rightarrow> ('b list \<times> 's) option" where
  "run_history alloc release s out [] = Some (out, s)"
| "run_history alloc release s out (Take r # qs) = do {
     (b, s') \<leftarrow> alloc s r;
     run_history alloc release s' (b # out) qs }"
| "run_history alloc release s out (Give i # qs) =
     (if i < length out
      then do {
        s' \<leftarrow> release s (out ! i);
        run_history alloc release s' (take i out @ drop (Suc i) out) qs }
      else run_history alloc release s out qs)"

lemma exclusive_append:
  "exclusive span (as @ bs) \<longleftrightarrow> exclusive span as \<and> exclusive span bs
     \<and> (\<forall>a \<in> set as. \<forall>b \<in> set bs. span a \<inter> span b = {})"
  by (auto simp: exclusive_def sorted_wrt_append)

lemma exclusive_remove:
  assumes "exclusive span out" and "i < length out"
  shows "exclusive span (take i out @ drop (Suc i) out)"
    and "(\<Union>b \<in> set (take i out @ drop (Suc i) out). span b) = (\<Union>b \<in> set out. span b) - span (out ! i)"
proof -
  note out = id_take_nth_drop [OF assms(2), symmetric]
  have ex: "exclusive span (take i out @ out ! i # drop (Suc i) out)"
    using assms(1) by (simp only: out)
  then show "exclusive span (take i out @ drop (Suc i) out)"
    by (auto simp: exclusive_append)
  have "(\<Union>b \<in> set out. span b) = (\<Union>b \<in> set (take i out @ out ! i # drop (Suc i) out). span b)"
    by (simp only: out)
  moreover have "span b \<inter> span (out ! i) = {}" if "b \<in> set (take i out @ drop (Suc i) out)" for b
    using ex that by (auto simp: exclusive_append)
  ultimately show "(\<Union>b \<in> set (take i out @ drop (Suc i) out). span b) = (\<Union>b \<in> set out. span b) - span (out ! i)"
    by auto
qed

locale releasing_allocator = allocator +
  fixes release :: "'s \<Rightarrow> 'b \<Rightarrow> 's option"
    and owned :: "'s \<Rightarrow> 'b \<Rightarrow> bool"
  assumes release_invar: "invar s \<Longrightarrow> owned s b \<Longrightarrow> release s b = Some s' \<Longrightarrow> invar s'"
    and release_held: "invar s \<Longrightarrow> owned s b \<Longrightarrow> release s b = Some s' \<Longrightarrow> held s' = held s - span b"
    and alloc_owned: "invar s \<Longrightarrow> valid r \<Longrightarrow> alloc s r = Some (b, s') \<Longrightarrow> owned s' b"
    and owned_alloc: "invar s \<Longrightarrow> valid r \<Longrightarrow> alloc s r = Some (b, s') \<Longrightarrow> owned s c \<Longrightarrow> owned s' c"
    and owned_release: "invar s \<Longrightarrow> owned s b \<Longrightarrow> release s b = Some s' \<Longrightarrow> owned s c \<Longrightarrow>
      span c \<inter> span b = {} \<Longrightarrow> owned s' c"
    and owned_span: "owned s b \<Longrightarrow> span b \<subseteq> held s"
begin

text \<open>
  Whatever is asked for and given back, the blocks that are out do not share a
  unit, and the allocator holds exactly them and what it held at the start.
\<close>

lemma run_history_spec:
  assumes "invar s" and "exclusive span out" and "\<forall>b \<in> set out. owned s b"
    and "held s = base \<union> (\<Union>b \<in> set out. span b)" and "\<forall>b \<in> set out. span b \<inter> base = {}"
    and "\<forall>r. Take r \<in> set qs \<longrightarrow> valid r"
    and "run_history alloc release s out qs = Some (out', s')"
  shows "invar s' \<and> exclusive span out' \<and> held s' = base \<union> (\<Union>b \<in> set out'. span b)
    \<and> (\<forall>b \<in> set out'. span b \<inter> base = {})"
  using assms
proof (induction qs arbitrary: s out)
  case Nil
  then show ?case by simp
next
  case (Cons q qs)
  show ?case
  proof (cases q)
    case (Take r)
    with Cons.prems(7) obtain b s1 where first: "alloc s r = Some (b, s1)"
      and rest: "run_history alloc release s1 (b # out) qs = Some (out', s')"
      by (auto split: bind_splits)
    have r: "valid r" using Cons.prems(6) Take by simp
    note step = alloc_invar [OF Cons.prems(1) r first] alloc_fresh [OF Cons.prems(1) r first]
      alloc_held [OF Cons.prems(1) r first] alloc_owned [OF Cons.prems(1) r first]
    have "\<forall>c \<in> set (b # out). owned s1 c"
      using step(4) owned_alloc [OF Cons.prems(1) r first] Cons.prems(3) by auto
    moreover have "exclusive span (b # out)"
      using step(2) Cons.prems(2,4) by auto
    moreover have "\<forall>c \<in> set (b # out). span c \<inter> base = {}"
      using step(2) Cons.prems(4,5) by auto
    moreover have "held s1 = base \<union> (\<Union>c \<in> set (b # out). span c)"
      unfolding step(3) Cons.prems(4) by auto
    moreover have "\<forall>r. Take r \<in> set qs \<longrightarrow> valid r"
      using Cons.prems(6) by simp
    ultimately show ?thesis
      by (intro Cons.IH [OF step(1) _ _ _ _ _ rest])
  next
    case (Give i)
    show ?thesis
    proof (cases "i < length out")
      case False
      with Cons.prems(7) Give have rest: "run_history alloc release s out qs = Some (out', s')"
        by simp
      have "\<forall>r. Take r \<in> set qs \<longrightarrow> valid r"
        using Cons.prems(6) by simp
      from Cons.IH [OF Cons.prems(1-5) this rest] show ?thesis .
    next
      case True
      let ?b = "out ! i" and ?out = "take i out @ drop (Suc i) out"
      have mem: "?b \<in> set out" "set ?out \<subseteq> set out"
        using True by (auto dest: in_set_takeD in_set_dropD)
      from Cons.prems(7) Give True obtain s1 where rel: "release s ?b = Some s1"
        and rest: "run_history alloc release s1 ?out qs = Some (out', s')"
        by (auto split: bind_splits)
      have own: "owned s ?b" using Cons.prems(3) mem by blast
      have "exclusive span (take i out @ ?b # drop (Suc i) out)"
        using Cons.prems(2) by (simp only: id_take_nth_drop [OF True, symmetric])
      then have apart: "\<forall>c \<in> set ?out. span c \<inter> span ?b = {}" by (auto simp: exclusive_append)
      have "\<forall>c \<in> set ?out. owned s1 c"
        using owned_release [OF Cons.prems(1) own rel] Cons.prems(3) mem apart by blast
      moreover have "held s1 = base \<union> (\<Union>c \<in> set ?out. span c)"
        unfolding release_held [OF Cons.prems(1) own rel] Cons.prems(4)
          exclusive_remove(2) [OF Cons.prems(2) True]
        using Cons.prems(5) mem(1) by blast
      moreover have "\<forall>c \<in> set ?out. span c \<inter> base = {}"
        using Cons.prems(5) mem(2) by blast
      moreover have "\<forall>r. Take r \<in> set qs \<longrightarrow> valid r"
        using Cons.prems(6) by simp
      ultimately show ?thesis
        by (rule Cons.IH [OF release_invar [OF Cons.prems(1) own rel]
              exclusive_remove(1) [OF Cons.prems(2) True] _ _ _ _ rest])
    qed
  qed
qed

end

end
