(* ===== verification/Lmb_Alloc.thy ===== *)
theory Lmb_Alloc
  imports Lmb_Table Allocator
begin

text \<open>
  The two allocators of \<open>lib/lmb.c\<close>: what they return, and that
  \<open>__lmb_alloc_base\<close> fails only when there is no place.
\<close>

section \<open>Alignment\<close>

lemma unat_align_down: "unat (lmb_align_down x (2 ^ k)) = (unat x div 2 ^ k) * 2 ^ k"
proof -
  have "lmb_align_down x (2 ^ k) = x AND NOT (mask k)"
    by (simp add: lmb_align_down_def mask_eq_exp_minus_1)
  then show ?thesis by (simp only: unat_and_not_mask)
qed

lemma align_down_le: "unat (lmb_align_down x (2 ^ k)) \<le> unat x"
  unfolding unat_align_down by (rule div_times_less_eq_dividend)

lemma align_down_dvd: "2 ^ k dvd unat (lmb_align_down x (2 ^ k))"
  unfolding unat_align_down by simp

lemma align_down_greatest:
  assumes "2 ^ k dvd c" and "c \<le> unat x"
  shows "c \<le> unat (lmb_align_down x (2 ^ k))"
  using assms unfolding unat_align_down by (auto simp: div_le_mono elim!: dvdE)
    (metis div_le_mono mult.commute nonzero_mult_div_cancel_left power_not_zero zero_neq_numeral)

definition alloc_outcome ::
  "lmb_region \<Rightarrow> u64 \<Rightarrow> u64 \<Rightarrow> nat \<Rightarrow> u64 \<Rightarrow> (u64 \<times> lmb_region) option \<Rightarrow> bool" where
  "alloc_outcome res lb s k b out = (case out of
     None \<Rightarrow> separated (active res) \<longrightarrow>
       (\<forall>c. 0 < c \<longrightarrow> unat lb \<le> c \<longrightarrow> c \<le> unat b \<longrightarrow> 2 ^ k dvd c \<longrightarrow> {c..<c + unat s} \<inter> covered res \<noteq> {})
   | Some (ret, r) \<Rightarrow>
       ret = 0 \<and> r = res \<and> unat (rcnt res) = MAX_LMB_REGIONS
       \<or> ret \<noteq> 0 \<and> lb \<le> ret \<and> ret \<le> b \<and> 2 ^ k dvd unat ret \<and> block (new_block ret s) \<inter> covered res = {}
         \<and> lmb_inv r \<and> separated (active r) \<and> covered r = covered res \<union> block (new_block ret s))"

text \<open>
  Below a reserved entry that meets the candidate, every base down to the entry's
  own lower bound minus the size meets it as well: nothing free is skipped.
\<close>

lemma skipped_meets:
  assumes "lo (new_block b s) < hi p" and "c \<le> unat b" and "lo p < c + unat s"
    and "0 < s" and "0 < lsize p"
  shows "{c..<c + unat s} \<inter> block p \<noteq> {}"
proof -
  have "max c (lo p) \<in> {c..<c + unat s} \<inter> block p"
    using assms by (auto simp: block_def lo_def hi_def word_less_nat_alt)
  then show ?thesis by blast
qed

lemma lmb_alloc_inner_spec:
  assumes "lmb_inv res" and "0 < s" and "k < 64"
    and "hi (new_block b s) < 2 ^ 64" and "2 ^ k dvd unat b"
  shows "\<exists>out. lmb_alloc_inner res lb s (2 ^ k) b = Some out \<and> alloc_outcome res lb s k b out"
  using assms
proof (induction "unat b" arbitrary: b rule: less_induct)
  case less
  let ?n = "new_block b s"
  show ?case
  proof (cases "b \<noteq> 0 \<and> lb \<le> b")
    case False
    then show ?thesis
      by (subst lmb_alloc_inner.simps) (auto simp: alloc_outcome_def word_le_nat_alt)
  next
    case True
    have ok: "lmb_table_ok res" using less.prems(1) by (simp add: lmb_inv_def)
    have bounds: "\<forall>p \<in> set (active res). hi p < 2 ^ 64" using lmb_inv_bounds [OF less.prems(1)] by blast
    show ?thesis
    using ok bounds less.prems(4)
    proof (cases rule: lmb_overlaps_region_spec)
      case Free
      then have disj: "block ?n \<inter> covered res = {}"
        by (auto simp: covered_def block_def)
      obtain ret r where "lmb_add_region res b s = Some (ret, r)"
        "ret = -1 \<and> r = res \<and> unat (rcnt res) = MAX_LMB_REGIONS
         \<or> 0 \<le> ret \<and> lmb_inv r \<and> separated (active r) \<and> covered r = covered res \<union> block ?n"
        using lmb_add_region_spec [OF less.prems(1,2,4) disj] by blast
      with True Free disj less.prems(5) show ?thesis
        by (subst lmb_alloc_inner.simps) (auto simp: alloc_outcome_def)
    next
      case (Hit j)
      let ?p = "rregion res ! j"
      let ?b' = "lmb_align_down (lbase ?p - s) (2 ^ k)"
      have len: "j < length (rregion res)" using ok Hit(2) by (simp add: lmb_table_ok_def)
      have mem: "?p \<in> set (active res)" by (rule region_mem_active [OF ok Hit(2)])
      have skip: "{c..<c + unat s} \<inter> covered res \<noteq> {}"
        if "separated (active res)" "c \<le> unat b" "lo ?p < c + unat s" for c
        using skipped_meets [OF Hit(3) that(2,3) less.prems(2)] separated_memD [OF that(1) mem] mem
        by (auto simp: covered_def)
      show ?thesis
      proof (cases "lbase ?p < s")
        case small: True
        then have "alloc_outcome res lb s k b None"
          using skip by (auto simp: alloc_outcome_def lo_def word_less_nat_alt)
        with True Hit(1) len small show ?thesis
          by (subst lmb_alloc_inner.simps) (auto simp: aget_def)
      next
        case big: False
        have less': "unat ?b' < unat b"
          using big Hit(4) align_down_le [of "lbase ?p - s" k]
          by (simp add: word_less_nat_alt unat_sub_nowrap lo_def hi_def)
        moreover have "hi (new_block ?b' s) < 2 ^ 64"
          using less' less.prems(4) by (simp add: hi_def)
        ultimately obtain out where out: "lmb_alloc_inner res lb s (2 ^ k) ?b' = Some out"
          "alloc_outcome res lb s k ?b' out"
          using less.hyps [OF less' less.prems(1-3) _ align_down_dvd] by blast
        have "alloc_outcome res lb s k b out"
        proof (cases out)
          case None
          have "c \<le> unat ?b' \<or> lo ?p < c + unat s" if "2 ^ k dvd c" for c
            using align_down_greatest [OF that, of "lbase ?p - s"] big
            by (auto simp: word_less_nat_alt unat_sub_nowrap lo_def not_less)
          with None out(2) skip show ?thesis by (auto simp: alloc_outcome_def)
        next
          case (Some a)
          with out(2) less' show ?thesis
            by (auto simp: alloc_outcome_def word_le_nat_alt split: prod.splits)
        qed
        with True Hit(1) len big out(1) show ?thesis
          by (subst lmb_alloc_inner.simps) (auto simp: aget_def)
      qed
    qed
  qed
qed

text \<open>
  A place for \<open>s\<close> bytes: aligned, not at address 0, inside one block of memory,
  below the limit (if there is one) and not reserved.
\<close>

definition free_place :: "lmb \<Rightarrow> lmb_property \<Rightarrow> nat \<Rightarrow> nat \<Rightarrow> u64 \<Rightarrow> nat \<Rightarrow> bool" where
  "free_place l p s k limit c \<longleftrightarrow> 0 < c \<and> 2 ^ k dvd c \<and> {c..<c + s} \<subseteq> block p
     \<and> (limit \<noteq> 0 \<longrightarrow> c + s \<le> unat limit) \<and> {c..<c + s} \<inter> covered (reserved l) = {}"

definition alloc_result :: "lmb \<Rightarrow> lmb_property list \<Rightarrow> u64 \<Rightarrow> nat \<Rightarrow> u64 \<Rightarrow> u64 \<Rightarrow> lmb \<Rightarrow> bool" where
  "alloc_result l ps s k limit ret l' \<longleftrightarrow>
     (if ret = 0
      then l' = l \<and> (unat (rcnt (reserved l)) = MAX_LMB_REGIONS \<or>
        (separated (active (reserved l)) \<longrightarrow> (\<forall>p \<in> set ps. \<forall>c. \<not> free_place l p (unat s) k limit c)))
      else (\<exists>p \<in> set ps. free_place l p (unat s) k limit (unat ret))
        \<and> l' = l\<lparr>reserved := reserved l'\<rparr> \<and> lmb_inv (reserved l')
        \<and> covered (reserved l') = covered (reserved l) \<union> block (new_block ret s))"

lemma block_interval: "block (new_block b s) = {unat b..<unat b + unat s}"
  by (simp add: block_def lo_def hi_def)

definition alloc_start :: "lmb_property \<Rightarrow> u64 \<Rightarrow> nat \<Rightarrow> u64 \<Rightarrow> u64" where
  "alloc_start p s k limit =
     (if limit = 0 then lmb_align_down (lbase p + lsize p - s) (2 ^ k)
      else lmb_align_down (min (lbase p + lsize p) limit - s) (2 ^ k))"

lemma alloc_start_spec:
  assumes "hi p < 2 ^ 64" and "s \<le> lsize p" and "limit = 0 \<or> s \<le> limit"
  defines "ub \<equiv> (if limit = 0 then hi p else min (hi p) (unat limit))"
  shows "unat (alloc_start p s k limit) + unat s \<le> ub"
    and "2 ^ k dvd unat (alloc_start p s k limit)"
    and "2 ^ k dvd c \<Longrightarrow> c + unat s \<le> ub \<Longrightarrow> c \<le> unat (alloc_start p s k limit)"
proof -
  define x where "x = (if limit = 0 then lbase p + lsize p - s else min (lbase p + lsize p) limit - s)"
  have eq: "alloc_start p s k limit = lmb_align_down x (2 ^ k)"
    by (simp add: alloc_start_def x_def)
  have "unat (min (lbase p + lsize p) limit) = min (hi p) (unat limit)"
    using hi_word [OF assms(1)] by (simp add: min_def word_le_nat_alt)
  moreover have "unat s \<le> hi p" using assms(2) by (simp add: word_le_nat_alt hi_def)
  ultimately have x: "unat x = ub - unat s" "unat s \<le> ub"
    using assms(3) hi_word [OF assms(1)]
    by (auto simp: x_def ub_def unat_sub_nowrap word_le_nat_alt)
  show "unat (alloc_start p s k limit) + unat s \<le> ub"
    using align_down_le [of x k] x by (simp add: eq)
  show "2 ^ k dvd unat (alloc_start p s k limit)"
    by (simp add: eq align_down_dvd)
  show "c \<le> unat (alloc_start p s k limit)" if "2 ^ k dvd c" "c + unat s \<le> ub"
    using align_down_greatest [OF that(1), of x] that(2) x by (simp add: eq)
qed

lemma free_place_empty:
  assumes "0 < s" and "lsize p < s \<or> limit \<noteq> 0 \<and> \<not> lbase p < limit"
  shows "\<not> free_place l p (unat s) k limit c"
proof
  assume "free_place l p (unat s) k limit c"
  then have "lo p \<le> c" "c + unat s \<le> hi p" "limit \<noteq> 0 \<longrightarrow> c + unat s \<le> unat limit"
    using assms(1) by (auto simp: free_place_def block_def word_less_nat_alt)
  with assms show False by (auto simp: word_less_nat_alt lo_def hi_def)
qed

lemma alloc_result_Cons:
  "alloc_result l ps s k limit ret l' \<Longrightarrow>
   (\<And>c. separated (active (reserved l)) \<Longrightarrow> \<not> free_place l p (unat s) k limit c) \<Longrightarrow>
   alloc_result l (ps @ [p]) s k limit ret l'"
  by (auto simp: alloc_result_def split: if_splits)

lemma lmb_alloc_outer_spec:
  assumes "lmb_inv (reserved l)" and "lmb_table_ok (memory l)"
    and "\<forall>p \<in> set (active (memory l)). hi p < 2 ^ 64"
    and "0 < s" and "k < 64" and "limit = 0 \<or> s \<le> limit" and "i \<le> unat (rcnt (memory l))"
  shows "\<exists>ret l'. lmb_alloc_outer l s (2 ^ k) limit i = Some (ret, l')
    \<and> alloc_result l (take i (active (memory l))) s k limit ret l'"
  using assms(7)
proof (induction i)
  case 0
  then show ?case by (simp add: alloc_result_def)
next
  case (Suc i)
  let ?p = "rregion (memory l) ! i"
  have i: "i < unat (rcnt (memory l))" using Suc.prems by simp
  have get: "aget (rregion (memory l)) i = Some ?p"
    using i assms(2) by (simp add: aget_def lmb_table_ok_def)
  have mem: "?p \<in> set (active (memory l))" by (rule region_mem_active [OF assms(2) i])
  then have hp: "hi ?p < 2 ^ 64" using assms(3) by blast
  have take: "take (Suc i) (active (memory l)) = take i (active (memory l)) @ [?p]"
    using i assms(2) by (simp add: take_Suc_conv_app_nth length_active active_nth)
  obtain ret l' where rest: "lmb_alloc_outer l s (2 ^ k) limit i = Some (ret, l')"
    "alloc_result l (take i (active (memory l))) s k limit ret l'"
    using Suc.IH i by auto
  show ?case
  proof (cases "lsize ?p < s \<or> limit \<noteq> 0 \<and> \<not> lbase ?p < limit")
    case True
    have "alloc_result l (take i (active (memory l)) @ [?p]) s k limit ret l'"
      by (rule alloc_result_Cons [OF rest(2)]) (rule free_place_empty [OF assms(4) True])
    with True rest(1) get show ?thesis
      by (auto simp: take LMB_ALLOC_ANYWHERE_def Let_def)
  next
    case False
    let ?b = "alloc_start ?p s k limit"
    have "s \<le> lsize ?p" using False by auto
    note st = alloc_start_spec [OF hp this assms(6), of k]
    have "hi (new_block ?b s) < 2 ^ 64" using st(1) hp by (auto simp: hi_def split: if_splits)
    then obtain out where out: "lmb_alloc_inner (reserved l) (lbase ?p) s (2 ^ k) ?b = Some out"
      "alloc_outcome (reserved l) (lbase ?p) s k ?b out"
      using lmb_alloc_inner_spec [OF assms(1,4,5) _ st(2)] by blast
    have step: "lmb_alloc_outer l s (2 ^ k) limit (Suc i) =
        (case out of None \<Rightarrow> lmb_alloc_outer l s (2 ^ k) limit i
         | Some (ret, r) \<Rightarrow> Some (ret, l\<lparr>reserved := r\<rparr>))"
      using False get out(1) by (simp add: Let_def LMB_ALLOC_ANYWHERE_def alloc_start_def split: if_splits)
    show ?thesis
    proof (cases out)
      case None
      have "\<not> free_place l ?p (unat s) k limit c" if "separated (active (reserved l))" for c
        using out(2) None that st(3) [of c] assms(4)
        by (auto simp: free_place_def alloc_outcome_def block_def lo_def word_less_nat_alt split: if_splits)
      with step None rest show ?thesis
        by (auto simp: take intro: alloc_result_Cons)
    next
      case (Some a)
      obtain ret r where a: "a = (ret, r)" by (cases a)
      have "alloc_result l (take (Suc i) (active (memory l))) s k limit ret (l\<lparr>reserved := r\<rparr>)"
        using out(2) st(1) unfolding Some a
        by (auto simp: alloc_result_def alloc_outcome_def take free_place_def block_interval
            block_def [of ?p] lo_def word_le_nat_alt unat_gt_0 split: if_splits)
      with step Some a show ?thesis by simp
    qed
  qed
qed

lemma unat_align_up:
  assumes "k < 64" and "unat s + 2 ^ k \<le> 2 ^ 64"
  shows "unat (lmb_align_up s (2 ^ k)) = ((unat s + (2 ^ k - 1)) div 2 ^ k) * 2 ^ k"
proof -
  have one: "unat ((2 ^ k :: u64) - 1) = 2 ^ k - 1"
    using assms(1) by (subst unat_sub_1) (simp_all add: unat_pow2)
  have "0 < (2 :: nat) ^ k" by simp
  then have "unat s + unat ((2 ^ k :: u64) - 1) < 2 ^ LENGTH(64)"
    using assms(2) unfolding one by simp
  from unat_add_nowrap [OF this] have "unat (s + (2 ^ k - 1)) = unat s + (2 ^ k - 1)"
    unfolding one .
  moreover have "lmb_align_up s (2 ^ k) = lmb_align_down (s + (2 ^ k - 1)) (2 ^ k)"
    by (simp add: lmb_align_up_def lmb_align_down_def)
  ultimately show ?thesis by (simp only: unat_align_down)
qed


lemma align_up_bounds:
  assumes "k < 64" and "unat s + 2 ^ k \<le> 2 ^ 64"
  shows "unat s \<le> unat (lmb_align_up s (2 ^ k))" and "unat (lmb_align_up s (2 ^ k)) < unat s + 2 ^ k"
    and "2 ^ k dvd unat (lmb_align_up s (2 ^ k))"
proof -
  let ?x = "unat s + (2 ^ k - 1)"
  have "?x = (?x div 2 ^ k) * 2 ^ k + ?x mod 2 ^ k" by (rule div_mult_mod_eq [symmetric])
  moreover have "?x mod 2 ^ k < 2 ^ k" by simp
  moreover have "0 < (2 :: nat) ^ k" by simp
  ultimately show "unat s \<le> unat (lmb_align_up s (2 ^ k))" "unat (lmb_align_up s (2 ^ k)) < unat s + 2 ^ k"
    unfolding unat_align_up [OF assms] by linarith+
  show "2 ^ k dvd unat (lmb_align_up s (2 ^ k))"
    unfolding unat_align_up [OF assms] by simp
qed

lemma raw_lmb_alloc_base_spec:
  assumes "lmb_inv (reserved l)" and "lmb_inv (memory l)" and "0 < s" and "k < 64"
    and "unat s + 2 ^ k \<le> 2 ^ 64"
    and "limit = (if max_addr = 0 then real_limit else max_addr)"
    and "limit = 0 \<or> lmb_align_up s (2 ^ k) \<le> limit"
  shows "\<exists>ret l'. raw_lmb_alloc_base real_limit l s (2 ^ k) max_addr = Some (ret, l')
    \<and> alloc_result l (active (memory l)) (lmb_align_up s (2 ^ k)) k limit ret l'"
proof -
  let ?s = "lmb_align_up s (2 ^ k)"
  have ok: "lmb_table_ok (memory l)" using assms(2) by (simp add: lmb_inv_def)
  have bounds: "\<forall>p \<in> set (active (memory l)). hi p < 2 ^ 64" using lmb_inv_bounds [OF assms(2)] by blast
  have "0 < ?s"
    using align_up_bounds(1) [OF assms(4,5)] assms(3) by (simp add: word_less_nat_alt)
  from lmb_alloc_outer_spec [OF assms(1) ok bounds this assms(4,7) order_refl] assms(3,6)
  show ?thesis
    by (auto simp: raw_lmb_alloc_base_def cnt_index [OF ok] LMB_ALLOC_ANYWHERE_def active_def)
qed


section \<open>Allocation on a node\<close>

text \<open>
  What a successful allocation of \<open>s\<close> bytes at \<open>ret\<close> does to the reserved table.
\<close>

definition reserved_at :: "lmb_region \<Rightarrow> u64 \<Rightarrow> u64 \<Rightarrow> lmb_region \<Rightarrow> bool" where
  "reserved_at res ret s r \<longleftrightarrow> block (new_block ret s) \<inter> covered res = {} \<and> lmb_inv r
     \<and> covered r = covered res \<union> block (new_block ret s)"

lemma lmb_alloc_nid_loop_spec:
  assumes "lmb_inv res" and "0 < s" and "k < 64"
    and "hi (new_block b s) < 2 ^ 64" and "2 ^ k dvd unat b"
  shows "\<exists>ret r. lmb_alloc_nid_loop res start s (2 ^ k) b = Some (ret, r) \<and>
    (ret = NOT 0 \<and> r = res
     \<or> ret \<noteq> NOT 0 \<and> start \<le> ret \<and> ret \<le> b \<and> 2 ^ k dvd unat ret \<and> reserved_at res ret s r)"
  using assms
proof (induction "unat b" arbitrary: b rule: less_induct)
  case less
  have ok: "lmb_table_ok res" using less.prems(1) by (simp add: lmb_inv_def)
  have bounds: "\<forall>p \<in> set (active res). hi p < 2 ^ 64" using lmb_inv_bounds [OF less.prems(1)] by blast
  have bn: "b \<noteq> NOT 0"
  proof
    assume "b = NOT 0"
    then have "unat b = 2 ^ 64 - 1" by (simp add: unsigned_minus_1_eq_mask mask_eq_exp_minus_1)
    with less.prems(2,4) show False by (simp add: hi_def word_less_nat_alt)
  qed
  show ?case
  proof (cases "start \<le> b")
    case False
    then show ?thesis by (subst lmb_alloc_nid_loop.simps) simp
  next
    case True
    show ?thesis
      using ok bounds less.prems(4)
    proof (cases rule: lmb_overlaps_region_spec)
      case Free
      then have disj: "block (new_block b s) \<inter> covered res = {}"
        by (auto simp: covered_def block_def)
      with lmb_add_region_spec [OF less.prems(1,2,4) disj] True Free(1) less.prems(5) bn show ?thesis
        by (subst lmb_alloc_nid_loop.simps) (auto simp: reserved_at_def)
    next
      case (Hit j)
      let ?p = "rregion res ! j"
      let ?b' = "lmb_align_down (lbase ?p - s) (2 ^ k)"
      have len: "j < length (rregion res)" using ok Hit(2) by (simp add: lmb_table_ok_def)
      show ?thesis
      proof (cases "lbase ?p < s")
        case small: True
        with True Hit(1) len show ?thesis
          by (subst lmb_alloc_nid_loop.simps) (auto simp: aget_def)
      next
        case big: False
        have less': "unat ?b' < unat b"
          using big Hit(4) align_down_le [of "lbase ?p - s" k]
          by (simp add: word_less_nat_alt unat_sub_nowrap lo_def hi_def)
        moreover have "hi (new_block ?b' s) < 2 ^ 64"
          using less' less.prems(4) by (simp add: hi_def)
        ultimately obtain ret r where out: "lmb_alloc_nid_loop res start s (2 ^ k) ?b' = Some (ret, r)"
          "ret = NOT 0 \<and> r = res \<or> ret \<noteq> NOT 0 \<and> start \<le> ret \<and> ret \<le> ?b' \<and> 2 ^ k dvd unat ret
             \<and> reserved_at res ret s r"
          using less.hyps [OF less' less.prems(1-3) _ align_down_dvd] by blast
        have "ret \<le> b" if "ret \<le> ?b'" using that less' by (simp add: word_le_nat_alt)
        with True Hit(1) len big out show ?thesis
          by (subst lmb_alloc_nid_loop.simps) (auto simp: aget_def)
      qed
    qed
  qed
qed

lemma lmb_alloc_nid_unreserved_spec:
  assumes "lmb_inv (reserved l)" and "0 < s" and "k < 64" and "s \<le> e"
  shows "\<exists>ret l'. lmb_alloc_nid_unreserved l start e s (2 ^ k) = Some (ret, l') \<and>
    (ret = NOT 0 \<and> l' = l
     \<or> ret \<noteq> NOT 0 \<and> unat start \<le> unat ret \<and> unat ret + unat s \<le> unat e \<and> 2 ^ k dvd unat ret
       \<and> l' = l\<lparr>reserved := reserved l'\<rparr> \<and> reserved_at (reserved l) ret s (reserved l'))"
proof -
  let ?b = "lmb_align_down (e - s) (2 ^ k)"
  have "unat (e - s) = unat e - unat s" using assms(4) by (intro unat_sub_nowrap) (simp add: word_le_nat_alt)
  then have b: "unat ?b + unat s \<le> unat e"
    using align_down_le [of "e - s" k] assms(4) by (simp add: word_le_nat_alt)
  then have "hi (new_block ?b s) < 2 ^ 64" using unsigned_less [of e, where ?'a = nat] by (simp add: hi_def)
  from lmb_alloc_nid_loop_spec [OF assms(1-3) this align_down_dvd, of start] b show ?thesis
    by (auto simp: lmb_alloc_nid_unreserved_def word_le_nat_alt)
qed

text \<open>
  The contract of the caller's \<open>nid_range\<close>: it makes progress inside \<open>start .. e\<close>,
  and no part ends below the size asked for (see the finding on the unsigned
  subtraction in \<open>lmb_alloc_nid_unreserved\<close>).
\<close>

definition nid_range_ok :: "(u64 \<Rightarrow> u64 \<Rightarrow> u64 \<times> int) \<Rightarrow> u64 \<Rightarrow> bool" where
  "nid_range_ok nid_range s \<longleftrightarrow>
     (\<forall>start e. start < e \<longrightarrow> start < fst (nid_range start e) \<and> fst (nid_range start e) \<le> e
        \<and> s \<le> fst (nid_range start e))"

definition on_node :: "(u64 \<Rightarrow> u64 \<Rightarrow> u64 \<times> int) \<Rightarrow> u64 \<Rightarrow> u64 \<Rightarrow> int \<Rightarrow> u64 \<Rightarrow> u64 \<Rightarrow> bool" where
  "on_node nid_range start e nid ret s \<longleftrightarrow>
     (\<exists>st. start \<le> st \<and> st < e \<and> snd (nid_range st e) = nid
        \<and> unat st \<le> unat ret \<and> unat ret + unat s \<le> unat (fst (nid_range st e)))"

lemma lmb_alloc_nid_scan_spec:
  assumes "lmb_inv (reserved l)" and "0 < s" and "k < 64" and "nid_range_ok nid_range s"
  shows "\<exists>ret l'. lmb_alloc_nid_scan nid_range l s (2 ^ k) nid start e = Some (ret, l') \<and>
    (ret = NOT 0 \<and> l' = l
     \<or> ret \<noteq> NOT 0 \<and> on_node nid_range start e nid ret s \<and> 2 ^ k dvd unat ret
       \<and> l' = l\<lparr>reserved := reserved l'\<rparr> \<and> reserved_at (reserved l) ret s (reserved l'))"
proof (induction "unat e - unat start" arbitrary: start rule: less_induct)
  case less
  show ?case
  proof (cases "start < e")
    case False
    then show ?thesis by (subst lmb_alloc_nid_scan.simps) simp
  next
    case True
    let ?t = "fst (nid_range start e)"
    have t: "start < ?t" "?t \<le> e" "s \<le> ?t" using assms(4) True by (auto simp: nid_range_ok_def)
    then have "unat e - unat ?t < unat e - unat start"
      using True by (simp add: word_less_nat_alt word_le_nat_alt)
    from less.hyps [OF this] obtain ret l' where
      rest: "lmb_alloc_nid_scan nid_range l s (2 ^ k) nid ?t e = Some (ret, l')"
      "ret = NOT 0 \<and> l' = l
       \<or> ret \<noteq> NOT 0 \<and> on_node nid_range ?t e nid ret s \<and> 2 ^ k dvd unat ret
         \<and> l' = l\<lparr>reserved := reserved l'\<rparr> \<and> reserved_at (reserved l) ret s (reserved l')"
      by blast
    have later: "on_node nid_range start e nid x s" if on: "on_node nid_range ?t e nid x s" for x
    proof -
      obtain st where "?t \<le> st" "st < e" "snd (nid_range st e) = nid" "unat st \<le> unat x"
        "unat x + unat s \<le> unat (fst (nid_range st e))"
        using on by (auto simp: on_node_def)
      moreover have "start \<le> st" using t(1) \<open>?t \<le> st\<close> by simp
      ultimately show ?thesis unfolding on_node_def by blast
    qed
    show ?thesis
    proof (cases "snd (nid_range start e) = nid")
      case False
      with True rest later show ?thesis by (subst lmb_alloc_nid_scan.simps) (auto simp: Let_def)
    next
      case node: True
      have here: "on_node nid_range start e nid x s"
        if "unat start \<le> unat x" "unat x + unat s \<le> unat ?t" for x
        using that node True unfolding on_node_def by blast
      obtain r1 l1 where first: "lmb_alloc_nid_unreserved l start ?t s (2 ^ k) = Some (r1, l1)"
        "r1 = NOT 0 \<and> l1 = l
         \<or> r1 \<noteq> NOT 0 \<and> unat start \<le> unat r1 \<and> unat r1 + unat s \<le> unat ?t \<and> 2 ^ k dvd unat r1
           \<and> l1 = l\<lparr>reserved := reserved l1\<rparr> \<and> reserved_at (reserved l) r1 s (reserved l1)"
        using lmb_alloc_nid_unreserved_spec [OF assms(1-3) t(3)] by blast
      show ?thesis
      proof (cases "r1 = NOT 0")
        case True1: True
        with first True node rest later show ?thesis
          by (subst lmb_alloc_nid_scan.simps) (auto simp: Let_def)
      next
        case False
        with first True node here show ?thesis
          by (subst lmb_alloc_nid_scan.simps) (auto simp: Let_def)
      qed
    qed
  qed
qed


lemma lmb_alloc_nid_region_spec:
  assumes inv: "lmb_inv (reserved l)" and s: "0 < s" "2 ^ k dvd unat s" and k: "k < 64"
    and range: "nid_range_ok nid_range s" and mp: "hi mp < 2 ^ 64" "unat (lbase mp) + 2 ^ k \<le> 2 ^ 64"
  shows "\<exists>ret l'. lmb_alloc_nid_region nid_range l mp s (2 ^ k) nid = Some (ret, l') \<and>
    (ret = NOT 0 \<and> l' = l
     \<or> ret \<noteq> NOT 0 \<and> on_node nid_range (lmb_align_up (lbase mp) (2 ^ k)) (lbase mp + lsize mp) nid ret s
       \<and> 2 ^ k dvd unat ret \<and> block (new_block ret s) \<subseteq> block mp
       \<and> l' = l\<lparr>reserved := reserved l'\<rparr> \<and> reserved_at (reserved l) ret s (reserved l'))"
proof -
  let ?st = "lmb_align_up (lbase mp) (2 ^ k)" and ?e = "lbase mp + lsize mp"
  have "block (new_block x s) \<subseteq> block mp" if on: "on_node nid_range ?st ?e nid x s" for x
  proof -
    obtain st where st: "?st \<le> st" "st < ?e" "unat st \<le> unat x"
      "unat x + unat s \<le> unat (fst (nid_range st ?e))"
      using on by (auto simp: on_node_def)
    then have "fst (nid_range st ?e) \<le> ?e" using range by (auto simp: nid_range_ok_def)
    with st hi_word [OF mp(1)] align_up_bounds(1) [OF k mp(2)] show ?thesis
      by (auto simp: block_interval block_def [of mp] lo_def word_le_nat_alt)
  qed
  with lmb_alloc_nid_scan_spec [OF inv s(1) k range, of nid ?st ?e] show ?thesis
    unfolding lmb_alloc_nid_region_def by blast
qed

section \<open>The allocator contract\<close>

text \<open>
  A request is a size, the exponent of its alignment and an address limit
  (0 for \<open>LMB_ALLOC_ANYWHERE\<close>); \<open>lmb_alloc_base\<close> panics, here \<open>None\<close>, when
  there is no room.
\<close>

definition lmb_request :: "u64 \<Rightarrow> lmb \<Rightarrow> u64 \<times> nat \<times> u64 \<Rightarrow> ((u64 \<times> u64) \<times> lmb) option" where
  "lmb_request real_limit l q = (case q of (s, k, max_addr) \<Rightarrow>
     map_option (\<lambda>(ret, l'). ((ret, lmb_align_up s (2 ^ k)), l'))
       (lmb_alloc_base real_limit l s (2 ^ k) max_addr))"

definition lmb_request_ok :: "u64 \<Rightarrow> u64 \<times> nat \<times> u64 \<Rightarrow> bool" where
  "lmb_request_ok real_limit q = (case q of (s, k, max_addr) \<Rightarrow>
     0 < s \<and> k < 64 \<and> unat s + 2 ^ k \<le> 2 ^ 64 \<and>
     (let limit = if max_addr = 0 then real_limit else max_addr
      in limit = 0 \<or> lmb_align_up s (2 ^ k) \<le> limit))"

definition lmb_span :: "u64 \<times> u64 \<Rightarrow> nat set" where
  "lmb_span b = {unat (fst b)..<unat (fst b) + unat (snd b)}"

definition lmb_invs :: "lmb \<Rightarrow> bool" where
  "lmb_invs l \<longleftrightarrow> lmb_inv (memory l) \<and> lmb_inv (reserved l)"

lemma lmb_request_spec:
  assumes inv: "lmb_invs l" and ok: "lmb_request_ok real_limit q" and run: "lmb_request real_limit l q = Some (b, l')"
  shows "lmb_invs l' \<and> lmb_span b \<inter> covered (reserved l) = {}
    \<and> covered (reserved l') = covered (reserved l) \<union> lmb_span b \<and> memory l' = memory l
    \<and> lmb_span b \<subseteq> covered (memory l)"
proof -
  obtain s k m where q: "q = (s, k, m)" by (cases q)
  define limit where "limit = (if m = 0 then real_limit else m)"
  have pre: "0 < s" "k < 64" "unat s + 2 ^ k \<le> 2 ^ 64" "limit = 0 \<or> lmb_align_up s (2 ^ k) \<le> limit"
    using ok by (auto simp: lmb_request_ok_def q limit_def Let_def)
  from raw_lmb_alloc_base_spec [OF _ _ pre(1-3) limit_def pre(4)] inv
  obtain ret l1 where base: "raw_lmb_alloc_base real_limit l s (2 ^ k) m = Some (ret, l1)"
    and res: "alloc_result l (active (memory l)) (lmb_align_up s (2 ^ k)) k limit ret l1"
    unfolding lmb_invs_def by blast
  have ret: "ret \<noteq> 0" and l': "l' = l1" and b: "b = (ret, lmb_align_up s (2 ^ k))"
    using run base by (auto simp: lmb_request_def q lmb_alloc_base_def split: if_splits)
  from res ret have keep: "l1 = l\<lparr>reserved := reserved l1\<rparr>" and inv1: "lmb_inv (reserved l1)"
    and cov: "covered (reserved l1) = covered (reserved l) \<union> lmb_span b"
    and place: "\<exists>p \<in> set (active (memory l)). free_place l p (unat (lmb_align_up s (2 ^ k))) k limit (unat ret)"
    by (simp_all add: alloc_result_def b lmb_span_def block_interval)
  have mem: "memory l1 = memory l"
    using arg_cong [OF keep, of memory] by simp
  have "lmb_span b \<subseteq> covered (memory l)" "lmb_span b \<inter> covered (reserved l) = {}"
    using place by (auto simp: free_place_def b lmb_span_def covered_def)
  with mem inv1 cov inv show ?thesis by (simp add: l' lmb_invs_def)
qed

interpretation lmb_allocator: allocator lmb_invs "\<lambda>l. covered (reserved l)" "lmb_request_ok real_limit"
  "lmb_request real_limit" lmb_span for real_limit
  by unfold_locales (blast dest: lmb_request_spec)+

section \<open>Properties\<close>





text \<open>
  The node-aware allocator returns a block inside the given memory region and
  inside one range that the platform's \<open>nid_range\<close> reports for the node, aligned
  and free before, and reserves exactly it; or it returns \<open>~0\<close> and changes nothing.
  It terminates because \<open>nid_range\<close> makes progress; the hypothesis also asks that no
  reported range ends below the requested size.
\<close>

theorem lmb_alloc_nid_region_ok:
  assumes "lmb_inv (reserved l)" and "0 < s" and "2 ^ k dvd unat s" and "k < 64"
    and "nid_range_ok nid_range s" and "hi mp < 2 ^ 64" and "unat (lbase mp) + 2 ^ k \<le> 2 ^ 64"
  shows "\<exists>ret l'. lmb_alloc_nid_region nid_range l mp s (2 ^ k) nid = Some (ret, l') \<and>
    (ret = NOT 0 \<and> l' = l
     \<or> ret \<noteq> NOT 0 \<and> on_node nid_range (lmb_align_up (lbase mp) (2 ^ k)) (lbase mp + lsize mp) nid ret s
       \<and> 2 ^ k dvd unat ret \<and> {unat ret..<unat ret + unat s} \<subseteq> block mp
       \<and> {unat ret..<unat ret + unat s} \<inter> covered (reserved l) = {} \<and> lmb_inv (reserved l')
       \<and> covered (reserved l') = covered (reserved l) \<union> {unat ret..<unat ret + unat s})"
  using lmb_alloc_nid_region_spec [OF assms] unfolding reserved_at_def block_interval by blast

theorem lmb_alloc_nid_region_ok_witness:
  "\<exists>ret l'. lmb_alloc_nid_region (\<lambda>start e. (e, 3)) (boot_lmb\<lparr>reserved := one_block 0x8000 0x1000\<rparr>)
       (new_block 0x2000 0x8000) 1 (2 ^ 0) 3 = Some (ret, l') \<and>
    (ret = NOT 0 \<or> unat ret \<in> {0x2000..<0xa000} \<and> unat ret \<notin> {0x8000..<0x9000})"
proof -
  have range: "nid_range_ok (\<lambda>start e. (e, 3)) 1"
    by (auto simp: nid_range_ok_def word_less_nat_alt word_le_nat_alt)
  have inv: "lmb_inv (reserved (boot_lmb\<lparr>reserved := one_block 0x8000 0x1000\<rparr>))"
    by (simp add: one_block_inv hi_new_block)
  show ?thesis
    using lmb_alloc_nid_region_ok [OF inv _ _ _ range, where k = 0 and mp = "new_block 0x2000 0x8000" and nid = 3]
    by (auto simp: one_block_covered block_new_block hi_new_block)
qed

text \<open>
  Without the bound on the limit the subtraction \<open>base - size\<close> wraps around:
  with 1 GB of memory and nothing reserved, a request for \<open>0x2000\<close> bytes below
  \<open>0x1000\<close> is answered with an address just below \<open>2 ^ 64\<close>.
\<close>

theorem lmb_alloc_base_underflow:
  "(do { l0 \<leftarrow> lmb_init boot_lmb;
         (r1, l1) \<leftarrow> lmb_add l0 0 0x40000000;
         (ret, l2) \<leftarrow> raw_lmb_alloc_base 0 l1 0x2000 0x1000 0x1000;
         Some (r1, ret) }) = Some (0, 0xFFFFFFFFFFFFF000)"
  by (simp add: lmb_eval lmb_alloc_outer.simps)

end
