(* ===== verification/Kernel_Sort.thy ===== *)
theory Kernel_Sort
  imports Kernel_Prelude
begin

text \<open>
  Model of \<open>lib/sort.c\<close>: the in-place heap sort on an array of \<open>num\<close> elements of
  \<open>size\<close> bytes each, with the offsets scaled by \<open>size\<close> as in the code.  The array is a
  list of bytes (of any type \<open>'b\<close>); \<open>cmp_func\<close> sees the bytes of two elements.  The
  scaled counters are mathematical integers: the code keeps them in an \<open>int\<close>, so the model is
  that of arrays below 2 GB.  The properties are in the second half: the byte
  sort refines a heap sort on the list of elements, which sorts.
\<close>

section \<open>Model\<close>

text \<open>\<open>do { ... } while (--size > 0)\<close> over two byte pointers.\<close>

function generic_swap :: "'b list \<Rightarrow> nat \<Rightarrow> nat \<Rightarrow> nat \<Rightarrow> 'b list option" where
  "generic_swap base a b esize = do {
     t \<leftarrow> aget base a;
     u \<leftarrow> aget base b;
     base \<leftarrow> aset base a u;
     base \<leftarrow> aset base b t;
     if 0 < esize - 1 then generic_swap base (a + 1) (b + 1) (esize - 1) else Some base }"
  by pat_completeness auto
termination
  by (relation "measure (\<lambda>(base, a, b, esize). esize)") auto

text \<open>An aligned 4-byte load and store.\<close>

definition load4 :: "'b list \<Rightarrow> nat \<Rightarrow> ('b \<times> 'b \<times> 'b \<times> 'b) option" where
  "load4 base a = do { w \<leftarrow> aget base a; x \<leftarrow> aget base (a + 1); y \<leftarrow> aget base (a + 2);
     z \<leftarrow> aget base (a + 3); Some (w, x, y, z) }"

definition store4 :: "'b list \<Rightarrow> nat \<Rightarrow> 'b \<times> 'b \<times> 'b \<times> 'b \<Rightarrow> 'b list option" where
  "store4 base a v = (case v of (w, x, y, z) \<Rightarrow> do {
     base \<leftarrow> aset base a w; base \<leftarrow> aset base (a + 1) x;
     base \<leftarrow> aset base (a + 2) y; aset base (a + 3) z })"

definition u32_swap :: "'b list \<Rightarrow> nat \<Rightarrow> nat \<Rightarrow> nat \<Rightarrow> 'b list option" where
  "u32_swap base a b esize = do {
     t \<leftarrow> load4 base a;
     u \<leftarrow> load4 base b;
     base \<leftarrow> store4 base a u;
     store4 base b t }"

text \<open>The bytes of the element at offset \<open>a\<close>, as \<open>cmp_func\<close> reads them.\<close>

definition elem :: "'b list \<Rightarrow> nat \<Rightarrow> nat \<Rightarrow> 'b list option" where
  "elem base a esize = (if a + esize \<le> length base then Some (take esize (drop a base)) else None)"

text \<open>The inner loop, the same in both phases: sift the element at offset \<open>r\<close> down.\<close>

partial_function (option) sort_sift ::
  "('b list \<Rightarrow> 'b list \<Rightarrow> int) \<Rightarrow> ('b list \<Rightarrow> nat \<Rightarrow> nat \<Rightarrow> nat \<Rightarrow> 'b list option) \<Rightarrow> nat \<Rightarrow>
   nat \<Rightarrow> nat \<Rightarrow> 'b list \<Rightarrow> 'b list option" where
  "sort_sift cmp_func swap_func esize n r base =
     (if r * 2 + esize < n
      then do {
        let c = r * 2 + esize;
        c \<leftarrow> (if c < n - esize
              then do { x \<leftarrow> elem base c esize; y \<leftarrow> elem base (c + esize) esize;
                        Some (if cmp_func x y < 0 then c + esize else c) }
              else Some c);
        x \<leftarrow> elem base r esize;
        y \<leftarrow> elem base c esize;
        if 0 \<le> cmp_func x y then Some base
        else do { base \<leftarrow> swap_func base r c esize;
                  sort_sift cmp_func swap_func esize n c base } }
      else Some base)"

partial_function (option) sort_heapify ::
  "('b list \<Rightarrow> 'b list \<Rightarrow> int) \<Rightarrow> ('b list \<Rightarrow> nat \<Rightarrow> nat \<Rightarrow> nat \<Rightarrow> 'b list option) \<Rightarrow> nat \<Rightarrow>
   nat \<Rightarrow> int \<Rightarrow> 'b list \<Rightarrow> 'b list option" where
  "sort_heapify cmp_func swap_func esize n i base =
     (if 0 \<le> i
      then do { base \<leftarrow> sort_sift cmp_func swap_func esize n (nat i) base;
                sort_heapify cmp_func swap_func esize n (i - int esize) base }
      else Some base)"

partial_function (option) sort_extract ::
  "('b list \<Rightarrow> 'b list \<Rightarrow> int) \<Rightarrow> ('b list \<Rightarrow> nat \<Rightarrow> nat \<Rightarrow> nat \<Rightarrow> 'b list option) \<Rightarrow> nat \<Rightarrow>
   int \<Rightarrow> 'b list \<Rightarrow> 'b list option" where
  "sort_extract cmp_func swap_func esize i base =
     (if 0 < i
      then do { base \<leftarrow> swap_func base 0 (nat i) esize;
                base \<leftarrow> sort_sift cmp_func swap_func esize (nat i) 0 base;
                sort_extract cmp_func swap_func esize (i - int esize) base }
      else Some base)"

text \<open>\<open>swap_func = None\<close> is the null pointer.\<close>

definition kernel_sort ::
  "'b list \<Rightarrow> nat \<Rightarrow> nat \<Rightarrow> ('b list \<Rightarrow> 'b list \<Rightarrow> int) \<Rightarrow>
   ('b list \<Rightarrow> nat \<Rightarrow> nat \<Rightarrow> nat \<Rightarrow> 'b list option) option \<Rightarrow> 'b list option" where
  "kernel_sort base num esize cmp_func swap_func =
     (let i = (int (num div 2) - 1) * int esize; n = num * esize;
          swap = (case swap_func of Some f \<Rightarrow> f | None \<Rightarrow> if esize = 4 then u32_swap else generic_swap)
      in do { base \<leftarrow> sort_heapify cmp_func swap esize n i base;
              sort_extract cmp_func swap esize (int n - int esize) base })"

section \<open>Heap sort on the list of elements\<close>

definition swap_nth :: "'a list \<Rightarrow> nat \<Rightarrow> nat \<Rightarrow> 'a list" where
  "swap_nth xs i j = xs[i := xs ! j, j := xs ! i]"

text \<open>The larger child of \<open>r\<close> in a heap of \<open>n\<close> elements.\<close>

definition big_child :: "('a \<Rightarrow> 'a \<Rightarrow> int) \<Rightarrow> nat \<Rightarrow> 'a list \<Rightarrow> nat \<Rightarrow> nat" where
  "big_child cmp n xs r =
     (if 2 * r + 2 < n \<and> cmp (xs ! (2 * r + 1)) (xs ! (2 * r + 2)) < 0 then 2 * r + 2 else 2 * r + 1)"

function sift :: "('a \<Rightarrow> 'a \<Rightarrow> int) \<Rightarrow> nat \<Rightarrow> nat \<Rightarrow> 'a list \<Rightarrow> 'a list" where
  "sift cmp n r xs =
     (if 2 * r + 1 < n
      then (let c = big_child cmp n xs r
            in if 0 \<le> cmp (xs ! r) (xs ! c) then xs else sift cmp n c (swap_nth xs r c))
      else xs)"
  by pat_completeness auto
termination
  by (relation "measure (\<lambda>(cmp, n, r, xs). n - r)") (auto simp: big_child_def)

fun heapify :: "('a \<Rightarrow> 'a \<Rightarrow> int) \<Rightarrow> nat \<Rightarrow> nat \<Rightarrow> 'a list \<Rightarrow> 'a list" where
  "heapify cmp n 0 xs = xs"
| "heapify cmp n (Suc i) xs = heapify cmp n i (sift cmp n i xs)"

fun extract_max :: "('a \<Rightarrow> 'a \<Rightarrow> int) \<Rightarrow> nat \<Rightarrow> 'a list \<Rightarrow> 'a list" where
  "extract_max cmp 0 xs = xs"
| "extract_max cmp (Suc i) xs = (if i = 0 then xs else extract_max cmp i (sift cmp i 0 (swap_nth xs 0 i)))"

definition heap_sort :: "('a \<Rightarrow> 'a \<Rightarrow> int) \<Rightarrow> 'a list \<Rightarrow> 'a list" where
  "heap_sort cmp xs = (let n = length xs in extract_max cmp n (heapify cmp n (n div 2) xs))"

declare sift.simps [simp del]

section \<open>The element sort permutes\<close>

lemma length_swap_nth [simp]: "length (swap_nth xs i j) = length xs"
  by (simp add: swap_nth_def)

lemma mset_swap_nth: "i < length xs \<Longrightarrow> j < length xs \<Longrightarrow> mset (swap_nth xs i j) = mset xs"
  unfolding swap_nth_def by (rule mset_swap)

lemma nth_swap_nth:
  "i < length xs \<Longrightarrow> j < length xs \<Longrightarrow>
     swap_nth xs i j ! k = (if k = j then xs ! i else if k = i then xs ! j else xs ! k)"
  by (simp add: swap_nth_def nth_list_update)

lemma big_child_bounds: "2 * r + 1 < n \<Longrightarrow> r < big_child cmp n xs r \<and> big_child cmp n xs r < n"
  by (simp add: big_child_def)

lemma sift_perm:
  "n \<le> length xs \<Longrightarrow> length (sift cmp n r xs) = length xs \<and> mset (sift cmp n r xs) = mset xs
     \<and> drop n (sift cmp n r xs) = drop n xs"
proof (induction cmp n r xs rule: sift.induct)
  case (1 cmp n r xs)
  let ?c = "big_child cmp n xs r"
  show ?case
  proof (cases "2 * r + 1 < n \<and> cmp (xs ! r) (xs ! ?c) < 0")
    case True
    then have c: "r < ?c" "?c < n" using big_child_bounds [of r n cmp xs] by auto
    have eq: "sift cmp n r xs = sift cmp n ?c (swap_nth xs r ?c)"
      using True by (simp add: sift.simps [of cmp n r] Let_def)
    have "drop n (swap_nth xs r ?c) = drop n xs"
      using c by (simp add: swap_nth_def)
    with "1.IH" [OF _ refl] True "1.prems" c mset_swap_nth [of r xs ?c] show ?thesis
      by (simp add: eq)
  next
    case False
    then show ?thesis by (auto simp: sift.simps [of cmp n r] Let_def)
  qed
qed

lemma heapify_perm:
  "n \<le> length xs \<Longrightarrow> length (heapify cmp n k xs) = length xs \<and> mset (heapify cmp n k xs) = mset xs"
  by (induction k arbitrary: xs) (simp_all add: sift_perm)

lemma extract_max_perm:
  "n \<le> length xs \<Longrightarrow> length (extract_max cmp n xs) = length xs \<and> mset (extract_max cmp n xs) = mset xs"
proof (induction n arbitrary: xs)
  case (Suc i)
  then have "0 < length xs" "i < length xs" by auto
  with Suc show ?case by (simp add: sift_perm mset_swap_nth)
qed simp

section \<open>The element sort sorts\<close>

text \<open>A comparison function that is a total preorder on the elements \<open>A\<close>.\<close>

definition cmp_ok :: "('a \<Rightarrow> 'a \<Rightarrow> int) \<Rightarrow> 'a set \<Rightarrow> bool" where
  "cmp_ok cmp A \<longleftrightarrow> (\<forall>x \<in> A. \<forall>y \<in> A. 0 \<le> cmp x y \<or> 0 \<le> cmp y x) \<and>
     (\<forall>x \<in> A. \<forall>y \<in> A. \<forall>z \<in> A. 0 \<le> cmp x y \<longrightarrow> 0 \<le> cmp y z \<longrightarrow> 0 \<le> cmp x z)"

lemma cmp_ok_total: "cmp_ok cmp A \<Longrightarrow> x \<in> A \<Longrightarrow> y \<in> A \<Longrightarrow> 0 \<le> cmp x y \<or> 0 \<le> cmp y x"
  unfolding cmp_ok_def by blast

lemma cmp_ok_trans:
  "cmp_ok cmp A \<Longrightarrow> x \<in> A \<Longrightarrow> y \<in> A \<Longrightarrow> z \<in> A \<Longrightarrow> 0 \<le> cmp x y \<Longrightarrow> 0 \<le> cmp y z \<Longrightarrow> 0 \<le> cmp x z"
  unfolding cmp_ok_def by blast

definition child :: "nat \<Rightarrow> nat \<Rightarrow> bool" where
  "child i c \<longleftrightarrow> c = 2 * i + 1 \<or> c = 2 * i + 2"

definition heap_on :: "('a \<Rightarrow> 'a \<Rightarrow> int) \<Rightarrow> nat \<Rightarrow> nat \<Rightarrow> 'a list \<Rightarrow> bool" where
  "heap_on cmp lo n xs \<longleftrightarrow> (\<forall>i c. lo \<le> i \<longrightarrow> child i c \<longrightarrow> c < n \<longrightarrow> 0 \<le> cmp (xs ! i) (xs ! c))"

text \<open>A heap but for the element at \<open>r\<close>, which may be smaller than its children.\<close>

definition heap_hole :: "('a \<Rightarrow> 'a \<Rightarrow> int) \<Rightarrow> nat \<Rightarrow> nat \<Rightarrow> nat \<Rightarrow> 'a list \<Rightarrow> bool" where
  "heap_hole cmp lo n r xs \<longleftrightarrow>
     (\<forall>i c. lo \<le> i \<longrightarrow> i \<noteq> r \<longrightarrow> child i c \<longrightarrow> c < n \<longrightarrow> 0 \<le> cmp (xs ! i) (xs ! c)) \<and>
     (\<forall>i c. lo \<le> i \<longrightarrow> child i r \<longrightarrow> child r c \<longrightarrow> c < n \<longrightarrow> 0 \<le> cmp (xs ! i) (xs ! c))"

lemma child_less: "child i c \<Longrightarrow> i < c"
  by (auto simp: child_def)

lemma child_parent_unique: "child i c \<Longrightarrow> child j c \<Longrightarrow> i = j"
  by (auto simp: child_def)

lemma big_child_max:
  assumes "cmp_ok cmp (set xs)" and "n \<le> length xs" and "2 * r + 1 < n" and "child r d" and "d < n"
  shows "child r (big_child cmp n xs r) \<and> 0 \<le> cmp (xs ! big_child cmp n xs r) (xs ! d)"
proof -
  have "0 \<le> cmp (xs ! d) (xs ! d)" using cmp_ok_total [OF assms(1), of "xs ! d" "xs ! d"] assms(2,5) by auto
  moreover have "0 \<le> cmp (xs ! (2 * r + 1)) (xs ! (2 * r + 2)) \<or> 0 \<le> cmp (xs ! (2 * r + 2)) (xs ! (2 * r + 1))"
    if "2 * r + 2 < n" using cmp_ok_total [OF assms(1), of "xs ! (2 * r + 1)" "xs ! (2 * r + 2)"] assms(2) that by auto
  ultimately show ?thesis
    using assms(4,5) by (auto simp: big_child_def child_def)
qed

lemma sift_swap_hole:
  assumes ok: "cmp_ok cmp (set xs)" and n: "n \<le> length xs" and r: "2 * r + 1 < n" and lo: "lo \<le> r"
    and hole: "heap_hole cmp lo n r xs" and c: "c = big_child cmp n xs r"
    and less: "\<not> 0 \<le> cmp (xs ! r) (xs ! c)"
  shows "heap_hole cmp lo n c (swap_nth xs r c)"
proof -
  have cn: "r < c" "c < n" using big_child_bounds [OF r] c by auto
  have ch: "child r c" unfolding c by (simp add: big_child_def child_def)
  have big: "0 \<le> cmp (xs ! c) (xs ! d)" if "child r d" "d < n" for d
    using big_child_max [OF ok n r that] unfolding c by blast
  have cr: "0 \<le> cmp (xs ! c) (xs ! r)"
    using less cmp_ok_total [OF ok, of "xs ! r" "xs ! c"] cn n by auto
  note nth = nth_swap_nth [of r xs c]
  have len: "r < length xs" "c < length xs" using cn n by auto
  have "0 \<le> cmp (swap_nth xs r c ! i) (swap_nth xs r c ! d)"
    if "lo \<le> i" "i \<noteq> c" "child i d" "d < n" for i d
  proof (cases "i = r")
    case True
    with that big [of d] cr child_less [OF that(3)] show ?thesis by (auto simp: nth len)
  next
    case False
    then have "d \<noteq> c" using child_parent_unique [OF that(3), of r] ch by auto
    have "0 \<le> cmp (xs ! i) (xs ! d)" "d = r \<Longrightarrow> 0 \<le> cmp (xs ! i) (xs ! c)"
      using hole that False ch cn(2) unfolding heap_hole_def by blast+
    with False that(2) \<open>d \<noteq> c\<close> show ?thesis by (auto simp: nth len)
  qed
  moreover have "0 \<le> cmp (swap_nth xs r c ! i) (swap_nth xs r c ! d)"
    if "lo \<le> i" "child i c" "child c d" "d < n" for i d
  proof -
    have "i = r" using child_parent_unique [OF that(2) ch] .
    moreover have "d \<noteq> c" "d \<noteq> r" using child_less [OF that(3)] cn by auto
    moreover have "0 \<le> cmp (xs ! c) (xs ! d)" 
      using hole that(3,4) lo cn unfolding heap_hole_def by (metis less_or_eq_imp_le nat_neq_iff order_trans)
    ultimately show ?thesis using cn by (simp add: nth len)
  qed
  ultimately show ?thesis unfolding heap_hole_def by blast
qed

lemma sift_heap:
  assumes "cmp_ok cmp (set xs)" and "n \<le> length xs" and "lo \<le> r" and "heap_hole cmp lo n r xs"
  shows "heap_on cmp lo n (sift cmp n r xs)"
  using assms
proof (induction cmp n r xs rule: sift.induct)
  case (1 cmp n r xs)
  let ?c = "big_child cmp n xs r"
  consider (stop) "n \<le> 2 * r + 1" | (top) "2 * r + 1 < n" "0 \<le> cmp (xs ! r) (xs ! ?c)"
    | (down) "2 * r + 1 < n" "\<not> 0 \<le> cmp (xs ! r) (xs ! ?c)" by linarith
  then show ?case
  proof cases
    case stop
    with "1.prems"(4) show ?thesis
      by (auto simp: sift.simps [of cmp n r] heap_on_def heap_hole_def child_def)
  next
    case top
    have c: "r < ?c" "?c < n" using big_child_bounds [OF top(1)] by auto
    have "0 \<le> cmp (xs ! r) (xs ! d)" if "child r d" "d < n" for d
      by (rule cmp_ok_trans [OF "1.prems"(1) _ _ _ top(2)])
        (use big_child_max [OF "1.prems"(1,2) top(1) that] that c "1.prems"(2) in auto)
    with top "1.prems"(4) show ?thesis
      by (auto simp: sift.simps [of cmp n r] heap_on_def heap_hole_def Let_def)
  next
    case down
    have c: "r < ?c" "?c < n" using big_child_bounds [OF down(1)] by auto
    have "set (swap_nth xs r ?c) = set xs"
      by (rule mset_eq_setD, rule mset_swap_nth) (use c "1.prems"(2) in auto)
    with "1.prems"(1) have ok: "cmp_ok cmp (set (swap_nth xs r ?c))" by simp
    have "heap_on cmp lo n (sift cmp n ?c (swap_nth xs r ?c))"
      using sift_swap_hole [OF "1.prems"(1,2) down(1) "1.prems"(3,4) refl down(2)] "1.prems"(2,3) c
      by (intro "1.IH" [OF down(1) refl down(2) ok]) simp_all
    with down show ?thesis
      by (simp add: sift.simps [of cmp n r] Let_def)
  qed
qed

lemma heapify_heap:
  assumes "cmp_ok cmp (set xs)" and "n \<le> length xs" and "heap_on cmp k n xs"
  shows "heap_on cmp 0 n (heapify cmp n k xs)"
  using assms
proof (induction k arbitrary: xs)
  case (Suc i)
  have "heap_hole cmp i n i xs"
    using Suc.prems(3) by (auto simp: heap_on_def heap_hole_def dest: child_less)
  from sift_heap [OF Suc.prems(1,2) order_refl this]
  have "heap_on cmp i n (sift cmp n i xs)" .
  moreover have "set (sift cmp n i xs) = set xs"
    using sift_perm [OF Suc.prems(2), of cmp i] by (metis mset_eq_setD)
  ultimately show ?case
    using Suc.IH [of "sift cmp n i xs"] Suc.prems(1,2) sift_perm [OF Suc.prems(2), of cmp i] by simp
qed simp

lemma heap_root_max:
  assumes "cmp_ok cmp (set xs)" and "n \<le> length xs" and "heap_on cmp 0 n xs" and "k < n"
  shows "0 \<le> cmp (xs ! 0) (xs ! k)"
  using assms(4)
proof (induction k rule: less_induct)
  case (less k)
  show ?case
  proof (cases "k = 0")
    case True
    have "0 < length xs" using assms(2) less.prems by linarith
    from cmp_ok_total [OF assms(1) nth_mem [OF this] nth_mem [OF this]] True show ?thesis by simp
  next
    case False
    define p where "p = (k - 1) div 2"
    have p: "p < k" "child p k" using False by (auto simp: p_def child_def)
    have mem: "xs ! 0 \<in> set xs" "xs ! p \<in> set xs" "xs ! k \<in> set xs"
      using less.prems p(1) assms(2) by (auto intro!: nth_mem)
    have up: "0 \<le> cmp (xs ! p) (xs ! k)"
      using assms(3) p less.prems unfolding heap_on_def by blast
    from p(1) less.prems have "0 \<le> cmp (xs ! 0) (xs ! p)" by (intro less.IH) simp_all
    from cmp_ok_trans [OF assms(1) mem this up] show ?thesis .
  qed
qed

text \<open>The state of the second loop: a heap in front of the sorted rest.\<close>

definition extract_inv :: "('a \<Rightarrow> 'a \<Rightarrow> int) \<Rightarrow> nat \<Rightarrow> 'a list \<Rightarrow> bool" where
  "extract_inv cmp n xs \<longleftrightarrow> n \<le> length xs \<and> heap_on cmp 0 n xs
     \<and> sorted_wrt (\<lambda>x y. 0 \<le> cmp y x) (drop n xs)
     \<and> (\<forall>x \<in> set (take n xs). \<forall>y \<in> set (drop n xs). 0 \<le> cmp y x)"

lemma mset_take_cong:
  "mset xs = mset ys \<Longrightarrow> drop n xs = drop n ys \<Longrightarrow> set (take n xs) = set (take n ys)"
  by (rule mset_eq_setD) (metis add_right_cancel append_take_drop_id mset_append)

lemma extract_step:
  assumes ok: "cmp_ok cmp (set xs)" and inv: "extract_inv cmp (Suc i) xs" and i: "0 < i"
  shows "extract_inv cmp i (sift cmp i 0 (swap_nth xs 0 i))"
proof -
  let ?ys = "swap_nth xs 0 i" and ?zs = "sift cmp i 0 (swap_nth xs 0 i)"
  have n: "Suc i \<le> length xs" and heap: "heap_on cmp 0 (Suc i) xs" using inv by (simp_all add: extract_inv_def)
  have len: "0 < length xs" "i < length xs" using n by auto
  have ys: "mset ?ys = mset xs" by (rule mset_swap_nth [OF len])
  then have set: "set ?ys = set xs" by (rule mset_eq_setD)
  have "heap_hole cmp 0 i 0 ?ys"
    unfolding heap_hole_def
  proof (intro conjI allI impI)
    fix j c assume "j \<noteq> 0" "child j c" "c < i"
    moreover from this have "0 \<le> cmp (xs ! j) (xs ! c)" using heap by (simp add: heap_on_def)
    ultimately show "0 \<le> cmp (?ys ! j) (?ys ! c)"
      using n child_less [of j c] nth_swap_nth [OF len] by auto
  qed (auto dest: child_less)
  from sift_heap [OF _ _ order_refl this] ok n set have zs: "heap_on cmp 0 i ?zs" by simp
  have perm: "length ?zs = length xs" "mset ?zs = mset ?ys" "drop i ?zs = drop i ?ys"
    using sift_perm [of i ?ys cmp 0] n by simp_all
  have drop: "drop i ?ys = xs ! 0 # drop (Suc i) xs"
    using n i by (simp add: swap_nth_def Cons_nth_drop_Suc [symmetric])
  have "set (take i ?zs) = set (take i ?ys)" by (rule mset_take_cong [OF perm(2,3)])
  also have "\<dots> \<subseteq> set (take (Suc i) xs)"
  proof
    fix x assume "x \<in> set (take i ?ys)"
    then obtain a where "a < i" "x = ?ys ! a" by (auto simp: in_set_conv_nth)
    then have "x = take (Suc i) xs ! (if a = 0 then i else a)" "(if a = 0 then i else a) < length (take (Suc i) xs)"
      using len by (auto simp: nth_swap_nth [OF len])
    then show "x \<in> set (take (Suc i) xs)" by (metis nth_mem)
  qed
  finally have take: "set (take i ?zs) \<subseteq> set (take (Suc i) xs)" .
  have root: "0 \<le> cmp (xs ! 0) x" if "x \<in> set (take (Suc i) xs)" for x
    using that heap_root_max [OF ok n heap] by (auto simp: in_set_conv_nth)
  have hd: "xs ! 0 \<in> set (take (Suc i) xs)" using n by (auto simp: in_set_conv_nth)
  show ?thesis
    unfolding extract_inv_def perm(1) perm(3) drop
    using n zs inv take root hd unfolding extract_inv_def by auto
qed

lemma extract_max_sorted:
  assumes "cmp_ok cmp (set xs)" and "extract_inv cmp n xs"
  shows "sorted_wrt (\<lambda>x y. 0 \<le> cmp y x) (extract_max cmp n xs)"
  using assms
proof (induction n arbitrary: xs)
  case 0
  then show ?case by (simp add: extract_inv_def)
next
  case (Suc i)
  show ?case
  proof (cases "i = 0")
    case True
    have "xs = xs ! 0 # drop (Suc 0) xs"
      using Suc.prems(2) by (cases xs) (simp_all add: extract_inv_def)
    moreover have "sorted_wrt (\<lambda>x y. 0 \<le> cmp y x) (xs ! 0 # drop (Suc 0) xs)"
      using Suc.prems(2) True by (cases xs) (simp_all add: extract_inv_def)
    ultimately show ?thesis using True by simp
  next
    case False
    have len: "0 < length xs" "i < length xs" using Suc.prems(2) by (auto simp: extract_inv_def)
    have "set (sift cmp i 0 (swap_nth xs 0 i)) = set xs"
      using sift_perm [of i "swap_nth xs 0 i" cmp 0] mset_swap_nth [OF len] len
      by (metis length_swap_nth less_imp_le mset_eq_setD)
    with Suc.IH [of "sift cmp i 0 (swap_nth xs 0 i)"] Suc.prems extract_step [OF Suc.prems] False show ?thesis
      by simp
  qed
qed

lemma heap_sort_spec:
  assumes "cmp_ok cmp (set xs)"
  shows "mset (heap_sort cmp xs) = mset xs \<and> sorted_wrt (\<lambda>x y. 0 \<le> cmp y x) (heap_sort cmp xs)"
proof -
  let ?ys = "heapify cmp (length xs) (length xs div 2) xs"
  have perm: "length ?ys = length xs" "mset ?ys = mset xs" by (simp_all add: heapify_perm)
  then have ok: "cmp_ok cmp (set ?ys)" using assms by (metis mset_eq_setD)
  have "heap_on cmp (length xs div 2) (length xs) xs"
    by (auto simp: heap_on_def child_def)
  from heapify_heap [OF assms order_refl this] have "extract_inv cmp (length xs) ?ys"
    using perm(1) by (simp add: extract_inv_def)
  from extract_max_sorted [OF ok this] extract_max_perm [of "length xs" ?ys cmp] perm show ?thesis
    by (simp add: heap_sort_def Let_def)
qed

section \<open>The byte sort refines the element sort\<close>

text \<open>An array of elements of \<open>esize\<close> bytes.\<close>

definition chunks_of :: "nat \<Rightarrow> 'b list list \<Rightarrow> bool" where
  "chunks_of esize xs \<longleftrightarrow> 0 < esize \<and> (\<forall>x \<in> set xs. length x = esize)"

lemma chunks_of_swap: "chunks_of esize xs \<Longrightarrow> i < length xs \<Longrightarrow> j < length xs \<Longrightarrow> chunks_of esize (swap_nth xs i j)"
  using mset_swap_nth [of i xs j] by (metis chunks_of_def mset_eq_setD)

lemma length_concat_chunks: "chunks_of esize xs \<Longrightarrow> length (concat xs) = length xs * esize"
  by (induction xs) (auto simp: chunks_of_def)

lemma concat_drop_chunk: "chunks_of esize xs \<Longrightarrow> drop (i * esize) (concat xs) = concat (drop i xs)"
proof (induction xs arbitrary: i)
  case (Cons x xs)
  then show ?case by (cases i) (auto simp: chunks_of_def)
qed simp

lemma concat_take_chunk: "chunks_of esize xs \<Longrightarrow> take (i * esize) (concat xs) = concat (take i xs)"
proof (induction xs arbitrary: i)
  case (Cons x xs)
  then show ?case by (cases i) (auto simp: chunks_of_def)
qed simp

lemma elem_concat:
  assumes "chunks_of esize xs" and "i < length xs"
  shows "elem (concat xs) (i * esize) esize = Some (xs ! i)"
proof -
  have "(i + 1) * esize \<le> length xs * esize" using assms(2) by (intro mult_right_mono) auto
  moreover have "drop (i * esize) (concat xs) = xs ! i @ concat (drop (Suc i) xs)"
    using concat_drop_chunk [OF assms(1), of i] Cons_nth_drop_Suc [OF assms(2)] by (metis concat.simps(2))
  moreover have "length (xs ! i) = esize" using assms by (auto simp: chunks_of_def)
  ultimately show ?thesis
    by (simp add: elem_def length_concat_chunks [OF assms(1)])
qed

text \<open>What a swap function has to do: exchange two different elements.\<close>

definition swap_ok :: "('b list \<Rightarrow> nat \<Rightarrow> nat \<Rightarrow> nat \<Rightarrow> 'b list option) \<Rightarrow> nat \<Rightarrow> bool" where
  "swap_ok swap esize \<longleftrightarrow> (\<forall>xs i j. chunks_of esize xs \<longrightarrow> i < j \<longrightarrow> j < length xs \<longrightarrow>
     swap (concat xs) (i * esize) (j * esize) esize = Some (concat (swap_nth xs i j)))"

text \<open>Exchanging two byte runs of the same length that do not overlap.\<close>

lemma generic_swap_runs:
  assumes "length us = n" and "length vs = n" and "0 < n"
  shows "generic_swap (as @ us @ bs @ vs @ cs) (length as) (length as + n + length bs) n
    = Some (as @ vs @ bs @ us @ cs)"
  using assms
proof (induction n arbitrary: as us bs vs)
  case (Suc n)
  then obtain u us' v vs' where uv: "us = u # us'" "vs = v # vs'" "length us' = n" "length vs' = n"
    by (metis length_Suc_conv)
  have step: "generic_swap (as @ us @ bs @ vs @ cs) (length as) (length as + Suc n + length bs) (Suc n) =
    (if 0 < n then generic_swap (as @ v # us' @ bs @ u # vs' @ cs) (length as + 1) (length as + Suc n + length bs + 1) n
     else Some (as @ v # us' @ bs @ u # vs' @ cs))"
    by (subst generic_swap.simps)
      (simp add: uv aget_def aset_def nth_append list_update_append del: generic_swap.simps)
  show ?case
  proof (cases "n = 0")
    case True
    with step uv show ?thesis by simp
  next
    case False
    have "generic_swap ((as @ [v]) @ us' @ (bs @ [u]) @ vs' @ cs) (length (as @ [v]))
        (length (as @ [v]) + n + length (bs @ [u])) n = Some ((as @ [v]) @ vs' @ (bs @ [u]) @ us' @ cs)"
      by (rule Suc.IH) (use uv False in auto)
    with step False uv show ?thesis by (simp del: generic_swap.simps)
  qed
qed simp

lemma split_two:
  assumes "i < j" and "j < length xs"
  obtains ps qs rs where "xs = ps @ xs ! i # qs @ xs ! j # rs" and "length ps = i" and "length qs = j - i - 1"
    and "swap_nth xs i j = ps @ xs ! j # qs @ xs ! i # rs"
proof -
  define ps qs rs where "ps = take i xs" and "qs = take (j - Suc i) (drop (Suc i) xs)" and "rs = drop (Suc j) xs"
  have "drop (Suc i) xs = qs @ drop j xs"
    using assms by (metis Suc_leI add.commute append_take_drop_id drop_drop le_add_diff_inverse2 qs_def)
  moreover have "drop j xs = xs ! j # rs" by (simp add: Cons_nth_drop_Suc assms rs_def)
  ultimately have xs: "xs = ps @ xs ! i # qs @ xs ! j # rs"
    using id_take_nth_drop [of i xs] assms by (simp add: ps_def)
  moreover have len: "length ps = i" "length qs = j - i - 1" using assms by (simp_all add: ps_def qs_def)
  moreover have "swap_nth xs i j = ps @ xs ! j # qs @ xs ! i # rs"
  proof -
    have "swap_nth (ps @ x # qs @ y # rs) i j = ps @ y # qs @ x # rs" for x y
    proof -
      have "i = length ps" "j = length ps + Suc (length qs)" using len assms by simp_all
      then show ?thesis
        by (simp add: swap_nth_def list_update_append nth_append)
    qed
    with xs show ?thesis by metis
  qed
  ultimately show ?thesis by (rule that)
qed

text \<open>A swap of two byte runs is a swap of two elements.\<close>

lemma swap_okI:
  assumes "\<And>as us bs vs cs. length us = esize \<Longrightarrow> length vs = esize \<Longrightarrow>
    swap (as @ us @ bs @ vs @ cs) (length as) (length as + esize + length bs) esize = Some (as @ vs @ bs @ us @ cs)"
  shows "swap_ok swap esize"
  unfolding swap_ok_def
proof (intro allI impI)
  fix xs :: "'a list list" and i j
  assume ch: "chunks_of esize xs" and ij: "i < j" "j < length xs"
  obtain ps qs rs where sp: "xs = ps @ xs ! i # qs @ xs ! j # rs" "length ps = i" "length qs = j - i - 1"
    "swap_nth xs i j = ps @ xs ! j # qs @ xs ! i # rs"
    using split_two [OF ij] by blast
  have len: "length (xs ! i) = esize" "length (xs ! j) = esize" using ch ij by (auto simp: chunks_of_def)
  have "set xs = set (ps @ xs ! i # qs @ xs ! j # rs)" by (rule arg_cong [OF sp(1)])
  then have "set ps \<subseteq> set xs" "set qs \<subseteq> set xs" by auto
  then have "chunks_of esize ps" "chunks_of esize qs" using ch by (auto simp: chunks_of_def)
  then have off: "length (concat ps) = i * esize" "length (concat qs) = (j - i - 1) * esize"
    by (simp_all add: length_concat_chunks sp)
  have j: "j * esize = i * esize + esize + (j - i - 1) * esize"
  proof -
    have "j = i + 1 + (j - i - 1)" using ij by simp
    then show ?thesis by (metis add_mult_distrib mult_1)
  qed
  have "concat xs = concat ps @ xs ! i @ concat qs @ xs ! j @ concat rs" by (subst sp(1)) simp
  with assms [OF len, of "concat ps" "concat qs" "concat rs"]
  show "swap (concat xs) (i * esize) (j * esize) esize = Some (concat (swap_nth xs i j))"
    by (simp only: off j sp(4)) simp
qed

lemma generic_swap_ok: "0 < esize \<Longrightarrow> swap_ok generic_swap esize"
  by (rule swap_okI) (rule generic_swap_runs)

lemma length_4E:
  assumes "length xs = 4"
  obtains a b c d where "xs = [a, b, c, d]"
  using assms by (auto simp: numeral_eq_Suc length_Suc_conv)

lemma u32_swap_ok: "swap_ok u32_swap 4"
proof (rule swap_okI)
  fix as us bs vs cs :: "'a list"
  assume "length us = 4" "length vs = 4"
  then obtain u0 u1 u2 u3 v0 v1 v2 v3 where "us = [u0, u1, u2, u3]" "vs = [v0, v1, v2, v3]"
    by (metis length_4E)
  then show "u32_swap (as @ us @ bs @ vs @ cs) (length as) (length as + 4 + length bs) 4 = Some (as @ vs @ bs @ us @ cs)"
    by (simp add: u32_swap_def load4_def store4_def aget_def aset_def nth_append list_update_append
        eval_nat_numeral)
qed

lemma scaled_less: "0 < (s :: nat) \<Longrightarrow> a * s < b * s \<longleftrightarrow> a < b"
  by simp

lemma sort_sift_refines:
  assumes "chunks_of esize xs" and "n \<le> length xs" and "swap_ok swap esize"
  shows "sort_sift cmp swap esize (n * esize) (r * esize) (concat xs) = Some (concat (sift cmp n r xs))
    \<and> chunks_of esize (sift cmp n r xs)"
  using assms(1,2)
proof (induction cmp n r xs rule: sift.induct)
  case (1 cmp n r xs)
  let ?c = "big_child cmp n xs r"
  have pos: "0 < esize" using "1.prems" by (simp add: chunks_of_def)
  have c1: "r * esize * 2 + esize = (2 * r + 1) * esize" "(2 * r + 1) * esize + esize = (2 * r + 2) * esize"
    by (simp_all add: algebra_simps)
  have c2: "(2 * r + 1) * esize < n * esize - esize \<longleftrightarrow> 2 * r + 2 < n"
  proof -
    have "(2 * r + 1) * esize < n * esize - esize \<longleftrightarrow> (2 * r + 2) * esize < n * esize"
      unfolding c1(2) [symmetric] by linarith
    then show ?thesis by (simp only: scaled_less [OF pos])
  qed
  note fold = sort_sift.simps [of cmp swap esize "n * esize" "r * esize"] c1 scaled_less [OF pos] c2
  show ?case
  proof (cases "2 * r + 1 < n")
    case False
    then show ?thesis using "1.prems" by (simp only: fold sift.simps [of cmp n r] if_False)
  next
    case True
    have b: "r < ?c" "?c < n" using big_child_bounds [OF True] by auto
    have el: "elem (concat xs) (i * esize) esize = Some (xs ! i)" if "i < n" for i
      using elem_concat [OF "1.prems"(1)] that "1.prems"(2) by simp
    have body: "sort_sift cmp swap esize (n * esize) (r * esize) (concat xs) =
      (if 0 \<le> cmp (xs ! r) (xs ! ?c) then Some (concat xs)
       else do { base \<leftarrow> swap (concat xs) (r * esize) (?c * esize) esize;
                 sort_sift cmp swap esize (n * esize) (?c * esize) base })"
      using True b(1) el [of r] el [of "2 * r + 1"] el [of "2 * r + 2"]
      by (simp only: fold Let_def if_True) (simp add: big_child_def)
    have sw: "swap (concat xs) (r * esize) (?c * esize) esize = Some (concat (swap_nth xs r ?c))"
      using assms(3) "1.prems" b by (simp add: swap_ok_def)
    have ch: "chunks_of esize (swap_nth xs r ?c)" using chunks_of_swap "1.prems" b by (meson less_le_trans less_trans)
    show ?thesis
    proof (cases "0 \<le> cmp (xs ! r) (xs ! ?c)")
      case top: True
      then show ?thesis using True "1.prems" body by (simp add: sift.simps [of cmp n r] Let_def)
    next
      case down: False
      have "sift cmp n r xs = sift cmp n ?c (swap_nth xs r ?c)"
        using True down by (simp add: sift.simps [of cmp n r] Let_def)
      with "1.IH" [OF True refl down ch] "1.prems"(2) body sw down show ?thesis by simp
    qed
  qed
qed

lemma sort_heapify_refines:
  assumes "chunks_of esize xs" and "n \<le> length xs" and "swap_ok swap esize"
  shows "sort_heapify cmp swap esize (n * esize) ((int k - 1) * int esize) (concat xs)
      = Some (concat (heapify cmp n k xs)) \<and> chunks_of esize (heapify cmp n k xs)"
  using assms(1,2)
proof (induction k arbitrary: xs)
  case 0
  then show ?case by (subst sort_heapify.simps) (simp add: chunks_of_def)
next
  case (Suc k)
  have i: "(int (Suc k) - 1) * int esize = int (k * esize)" by simp
  have next_i: "int (k * esize) - int esize = (int k - 1) * int esize" by (simp add: algebra_simps)
  note sift = sort_sift_refines [OF Suc.prems assms(3), of cmp k]
  have "sort_heapify cmp swap esize (n * esize) (int (k * esize)) (concat xs) =
      sort_heapify cmp swap esize (n * esize) ((int k - 1) * int esize) (concat (sift cmp n k xs))"
    using sift by (subst sort_heapify.simps) (simp only: next_i nat_int of_nat_0_le_iff, simp)
  with Suc.IH [of "sift cmp n k xs"] sift sift_perm [OF Suc.prems(2), of cmp k] Suc.prems(2) show ?case
    unfolding i by simp
qed

lemma sort_extract_refines:
  assumes "chunks_of esize xs" and "n \<le> length xs" and "swap_ok swap esize"
  shows "sort_extract cmp swap esize ((int n - 1) * int esize) (concat xs) = Some (concat (extract_max cmp n xs))"
  using assms(1,2)
proof (induction n arbitrary: xs)
  case 0
  then show ?case by (subst sort_extract.simps) (simp add: chunks_of_def)
next
  case (Suc i)
  have pos: "0 < esize" using Suc.prems by (simp add: chunks_of_def)
  have off: "(int (Suc i) - 1) * int esize = int (i * esize)" "int (i * esize) - int esize = (int i - 1) * int esize"
    by (simp_all add: algebra_simps)
  show ?case
  proof (cases "i = 0")
    case True
    then show ?thesis by (subst sort_extract.simps) simp
  next
    case False
    let ?ys = "swap_nth xs 0 i"
    have ch: "chunks_of esize ?ys" by (rule chunks_of_swap [OF Suc.prems(1)]) (use Suc.prems(2) False in auto)
    have sw: "swap (concat xs) 0 (i * esize) esize = Some (concat ?ys)"
      using assms(3) Suc.prems False unfolding swap_ok_def by (metis Suc_le_eq mult_0 neq0_conv)
    have len: "i \<le> length ?ys" using Suc.prems(2) by simp
    note sift = sort_sift_refines [OF ch len assms(3), of cmp 0, simplified]
    have "sort_extract cmp swap esize (int (i * esize)) (concat xs) =
        sort_extract cmp swap esize ((int i - 1) * int esize) (concat (sift cmp i 0 ?ys))"
      using sift sw pos False
      by (subst sort_extract.simps) (simp only: off nat_int of_nat_0_less_iff, simp)
    with Suc.IH [of "sift cmp i 0 ?ys"] sift sift_perm [OF len, of cmp 0] len False show ?thesis
      unfolding off by simp
  qed
qed

lemma kernel_sort_refines:
  assumes ch: "chunks_of esize xs"
    and swap: "case swap_func of None \<Rightarrow> True | Some f \<Rightarrow> swap_ok f esize"
  shows "kernel_sort (concat xs) (length xs) esize cmp swap_func = Some (concat (heap_sort cmp xs))"
proof -
  let ?n = "length xs"
  define swap where "swap = (case swap_func of Some f \<Rightarrow> f | None \<Rightarrow> if esize = 4 then u32_swap else generic_swap)"
  have ok: "swap_ok swap esize"
    using swap ch generic_swap_ok u32_swap_ok by (auto simp: swap_def chunks_of_def split: option.splits)
  note heap = sort_heapify_refines [OF ch order_refl ok, of cmp "?n div 2"]
  have last: "int (?n * esize) - int esize = (int ?n - 1) * int esize" by (simp add: algebra_simps)
  have "kernel_sort (concat xs) ?n esize cmp swap_func =
      sort_extract cmp swap esize ((int ?n - 1) * int esize) (concat (heapify cmp ?n (?n div 2) xs))"
    using heap by (simp only: kernel_sort_def Let_def swap_def [symmetric] last) simp
  also have "\<dots> = Some (concat (extract_max cmp ?n (heapify cmp ?n (?n div 2) xs)))"
    by (rule sort_extract_refines [OF _ _ ok]) (simp_all add: heap heapify_perm)
  finally show ?thesis by (simp add: heap_sort_def Let_def)
qed

section \<open>Properties\<close>



end
