(* ===== verification/Range_Table.thy ===== *)
theory Range_Table
  imports Kernel_Sort
begin

text \<open>
  Model of \<open>kernel/range.c\<close> and \<open>include/linux/range.h\<close>: tables of half-open
  ranges of 64-bit addresses, an entry with \<open>end = 0\<close> being an empty slot.  The
  theorems relate every operation to the set of addresses the table covers.
  \<open>sort\<close> works on the bytes of the array: byte \<open>i\<close> of the object
  representation of a \<open>struct range\<close> \<open>r\<close> is the pair \<open>(r, i)\<close>, so a range can be read back
  only from its own 16 bytes.
\<close>

section \<open>Model\<close>

record range =
  rstart :: u64
  rend :: u64

definition add_range :: "range list \<Rightarrow> nat \<Rightarrow> nat \<Rightarrow> u64 \<Rightarrow> u64 \<Rightarrow> (nat \<times> range list) option" where
  "add_range rng az nr_range start e =
     (if start \<ge> e then Some (nr_range, rng)
      else if nr_range \<ge> az then Some (nr_range, rng)
      else do { rng \<leftarrow> aset rng nr_range \<lparr>rstart = start, rend = e\<rparr>;
                Some (nr_range + 1, rng) })"

function range_merge_loop ::
  "range list \<Rightarrow> nat \<Rightarrow> nat \<Rightarrow> u64 \<Rightarrow> u64 \<Rightarrow> nat \<Rightarrow> (nat \<times> range list) option" where
  "range_merge_loop rng az nr_range start e i =
     (if i < nr_range
      then do {
        r \<leftarrow> aget rng i;
        if rend r = 0 then range_merge_loop rng az nr_range start e (i + 1)
        else let common_start = max (rstart r) start; common_end = min (rend r) e
          in if common_start > common_end then range_merge_loop rng az nr_range start e (i + 1)
             else do {
               rng \<leftarrow> aset rng i \<lparr>rstart = min (rstart r) start, rend = max (rend r) e\<rparr>;
               Some (nr_range, rng) } }
      else add_range rng az nr_range start e)"
  by pat_completeness auto
termination
  by (relation "measure (\<lambda>(rng, az, nr, s, e, i). nr - i)") auto

definition add_range_with_merge ::
  "range list \<Rightarrow> nat \<Rightarrow> nat \<Rightarrow> u64 \<Rightarrow> u64 \<Rightarrow> (nat \<times> range list) option" where
  "add_range_with_merge rng az nr_range start e =
     (if start \<ge> e then Some (nr_range, rng)
      else range_merge_loop rng az nr_range start e 0)"

text \<open>The search for a spare slot inside \<open>subtract_range\<close>.\<close>

function range_spare :: "range list \<Rightarrow> nat \<Rightarrow> nat \<Rightarrow> nat option" where
  "range_spare rng az i =
     (if i < az
      then do { r \<leftarrow> aget rng i; if rend r = 0 then Some i else range_spare rng az (i + 1) }
      else Some i)"
  by pat_completeness auto
termination
  by (relation "measure (\<lambda>(rng, az, i). az - i)") auto

text \<open>One round of the loop; the flag tells that \<open>printk\<close> reported the lack of a slot.\<close>

definition subtract_step :: "range list \<Rightarrow> nat \<Rightarrow> u64 \<Rightarrow> u64 \<Rightarrow> nat \<Rightarrow> (range list \<times> bool) option" where
  "subtract_step rng az start e j = do {
     r \<leftarrow> aget rng j;
     if rend r = 0 then Some (rng, False)
     else if start \<le> rstart r \<and> e \<ge> rend r
       then do { rng \<leftarrow> aset rng j \<lparr>rstart = 0, rend = 0\<rparr>; Some (rng, False) }
     else if start \<le> rstart r \<and> e < rend r \<and> rstart r < e
       then do { rng \<leftarrow> aset rng j (r\<lparr>rstart := e\<rparr>); Some (rng, False) }
     else if start > rstart r \<and> e \<ge> rend r \<and> rend r > start
       then do { rng \<leftarrow> aset rng j (r\<lparr>rend := start\<rparr>); Some (rng, False) }
     else if start > rstart r \<and> e < rend r
       then do {
         i \<leftarrow> range_spare rng az 0;
         (rng, full) \<leftarrow> (if i < az
            then do { rng \<leftarrow> aset rng i \<lparr>rstart = e, rend = rend r\<rparr>; Some (rng, False) }
            else Some (rng, True));
         r \<leftarrow> aget rng j;
         rng \<leftarrow> aset rng j (r\<lparr>rend := start\<rparr>);
         Some (rng, full) }
     else Some (rng, False) }"

function subtract_loop :: "range list \<Rightarrow> nat \<Rightarrow> u64 \<Rightarrow> u64 \<Rightarrow> nat \<Rightarrow> (range list \<times> bool) option" where
  "subtract_loop rng az start e j =
     (if j < az
      then do {
        (rng, full) \<leftarrow> subtract_step rng az start e j;
        (rng, full') \<leftarrow> subtract_loop rng az start e (j + 1);
        Some (rng, full \<or> full') }
      else Some (rng, False))"
  by pat_completeness auto
termination
  by (relation "measure (\<lambda>(rng, az, s, e, j). az - j)") auto

definition subtract_range :: "range list \<Rightarrow> nat \<Rightarrow> u64 \<Rightarrow> u64 \<Rightarrow> (range list \<times> bool) option" where
  "subtract_range rng az start e =
     (if start \<ge> e then Some (rng, False) else subtract_loop rng az start e 0)"

text \<open>The bytes of a \<open>struct range\<close> and of an array of them.\<close>

definition range_bytes :: "range \<Rightarrow> (range \<times> nat) list" where
  "range_bytes r = map (Pair r) [0..<16]"

definition range_array :: "(range \<times> nat) list \<Rightarrow> range list" where
  "range_array bs = map (\<lambda>i. fst (bs ! (16 * i))) [0..<length bs div 16]"

text \<open>
  The difference is a signed 64-bit value that the return type \<open>int\<close> cuts to its
  low 32 bits.
\<close>

definition cmp_range :: "(range \<times> nat) list \<Rightarrow> (range \<times> nat) list \<Rightarrow> int" where
  "cmp_range x1 x2 =
     (let start1 = rstart (fst (hd x1)); start2 = rstart (fst (hd x2))
      in sint (ucast (start1 - start2) :: u32))"

definition sort_range :: "range list \<Rightarrow> nat \<Rightarrow> range list option" where
  "sort_range rng nr_range =
     (if nr_range \<le> length rng
      then do {
        bs \<leftarrow> kernel_sort (concat (map range_bytes (take nr_range rng))) nr_range 16 cmp_range None;
        Some (range_array bs @ drop nr_range rng) }
      else None)"

text \<open>\<open>for (j = k; j > i; j--) if (range[j].end) { k = j; break; }\<close>, with both \<open>j\<close> and \<open>k\<close>.\<close>

function clean_find :: "range list \<Rightarrow> nat \<Rightarrow> nat \<Rightarrow> nat \<Rightarrow> (nat \<times> nat) option" where
  "clean_find rng i k j =
     (if j > i
      then do { r \<leftarrow> aget rng j; if rend r \<noteq> 0 then Some (j, j) else clean_find rng i k (j - 1) }
      else Some (j, k))"
  by pat_completeness auto
termination
  by (relation "measure (\<lambda>(rng, i, k, j). j)") auto

function clean_compact :: "range list \<Rightarrow> nat \<Rightarrow> nat \<Rightarrow> range list option" where
  "clean_compact rng i k =
     (if i < k
      then do {
        r \<leftarrow> aget rng i;
        if rend r \<noteq> 0 then clean_compact rng (i + 1) k
        else do {
          (j, k) \<leftarrow> clean_find rng i k k;
          if j = i then Some rng
          else do {
            rk \<leftarrow> aget rng k;
            rng \<leftarrow> aset rng i rk;
            rng \<leftarrow> aset rng k \<lparr>rstart = 0, rend = 0\<rparr>;
            clean_compact rng (i + 1) (k - 1) } } }
      else Some rng)"
  by pat_completeness auto

text \<open>The position of the first empty slot, 0 if there is none.\<close>

function clean_count :: "range list \<Rightarrow> nat \<Rightarrow> nat \<Rightarrow> nat option" where
  "clean_count rng az i =
     (if i < az
      then do { r \<leftarrow> aget rng i; if rend r = 0 then Some i else clean_count rng az (i + 1) }
      else Some 0)"
  by pat_completeness auto
termination
  by (relation "measure (\<lambda>(rng, az, i). az - i)") auto

declare range_merge_loop.simps [simp del] range_spare.simps [simp del] subtract_loop.simps [simp del]
  clean_find.simps [simp del] clean_count.simps [simp del]

lemma clean_find_bounds:
  "clean_find rng i k j = Some (j', k') \<Longrightarrow> j \<le> k \<Longrightarrow> k' \<le> k"
proof (induction rng i k j rule: clean_find.induct)
  case (1 rng i k j)
  then show ?case
    by (subst (asm) clean_find.simps) (auto split: if_splits bind_splits)
qed

termination clean_compact
  by (relation "measure (\<lambda>(rng, i, k). k - i)") (auto dest!: clean_find_bounds)

declare clean_compact.simps [simp del]

text \<open>\<open>k = az - 1\<close>; for \<open>az = 0\<close> the loop does not run in the code (\<open>k = -1\<close>) nor here.\<close>

definition clean_sort_range :: "range list \<Rightarrow> nat \<Rightarrow> (nat \<times> range list) option" where
  "clean_sort_range rng az = do {
     rng \<leftarrow> clean_compact rng 0 (az - 1);
     nr_range \<leftarrow> clean_count rng az 0;
     rng \<leftarrow> sort_range rng nr_range;
     Some (nr_range, rng) }"

section \<open>Tables as sets of addresses\<close>

definition seg :: "range \<Rightarrow> nat set" where
  "seg r = {unat (rstart r)..<unat (rend r)}"

definition range_set :: "range list \<Rightarrow> nat set" where
  "range_set rs = (\<Union>r \<in> set rs. seg r)"

definition range_wf :: "range list \<Rightarrow> bool" where
  "range_wf rs \<longleftrightarrow> (\<forall>r \<in> set rs. rend r \<noteq> 0 \<longrightarrow> rstart r < rend r)"

lemma range_set_nth: "x \<in> range_set rs \<longleftrightarrow> (\<exists>k < length rs. x \<in> seg (rs ! k))"
  by (auto simp: range_set_def set_conv_nth)

lemma range_wf_update: "range_wf rs \<Longrightarrow> rend r \<noteq> 0 \<longrightarrow> rstart r < rend r \<Longrightarrow> range_wf (rs[j := r])"
  by (auto simp: range_wf_def dest!: set_update_subset_insert [THEN subsetD])

lemma range_set_update:
  assumes "j < length rs"
  shows "range_set (rs[j := r]) = (\<Union>k \<in> {k. k < length rs \<and> k \<noteq> j}. seg (rs ! k)) \<union> seg r"
  using assms by (auto simp: range_set_nth nth_list_update) (metis nth_list_update_eq)+

lemma range_set_split:
  assumes "j < length rs"
  shows "range_set rs = (\<Union>k \<in> {k. k < length rs \<and> k \<noteq> j}. seg (rs ! k)) \<union> seg (rs ! j)"
  using range_set_update [OF assms, of "rs ! j"] by simp

section \<open>Adding\<close>

lemma seg_merge:
  assumes "rstart r < rend r" and "s < e" and "max (rstart r) s \<le> min (rend r) e"
  shows "seg \<lparr>rstart = min (rstart r) s, rend = max (rend r) e\<rparr> = seg r \<union> {unat s..<unat e}"
  using assms by (auto simp: seg_def min_def max_def word_le_nat_alt word_less_nat_alt split: if_splits)

lemma add_range_spec:
  assumes "s < e" and "nr \<le> az" and "az = length rs" and "range_wf (take nr rs)"
  shows "\<exists>nr' rs'. add_range rs az nr s e = Some (nr', rs') \<and> length rs' = length rs \<and> range_wf (take nr' rs')
    \<and> (nr' = nr + 1 \<and> range_set (take nr' rs') = range_set (take nr rs) \<union> {unat s..<unat e}
       \<or> nr = az \<and> nr' = nr \<and> rs' = rs)"
proof (cases "nr = az")
  case True
  with assms show ?thesis by (simp add: add_range_def not_le)
next
  case False
  let ?r = "\<lparr>rstart = s, rend = e\<rparr>"
  have "take (Suc nr) (rs[nr := ?r]) = take nr rs @ [?r]"
    using False assms(2,3) by (simp add: take_Suc_conv_app_nth)
  with False assms show ?thesis
    by (auto simp: add_range_def not_le aset_def range_set_def range_wf_def seg_def)
qed

lemma range_merge_loop_spec:
  assumes "s < e" and "nr \<le> az" and "az = length rs" and "range_wf (take nr rs)"
  shows "\<exists>nr' rs'. range_merge_loop rs az nr s e i = Some (nr', rs') \<and> length rs' = length rs \<and> range_wf (take nr' rs')
    \<and> (nr' \<le> nr + 1 \<and> range_set (take nr' rs') = range_set (take nr rs) \<union> {unat s..<unat e}
       \<or> nr = az \<and> nr' = nr \<and> rs' = rs)"
proof (induction "nr - i" arbitrary: i)
  case 0
  then show ?case using add_range_spec [OF assms] by (subst range_merge_loop.simps) force
next
  case (Suc d)
  then have i: "i < nr" "i < length rs" using assms(2,3) by simp_all
  let ?r = "rs ! i"
  show ?case
  proof (cases "rend ?r = 0 \<or> min (rend ?r) e < max (rstart ?r) s")
    case True
    have "range_merge_loop rs az nr s e i = range_merge_loop rs az nr s e (i + 1)"
      using True i by (subst range_merge_loop.simps) (auto simp: aget_def Let_def)
    with Suc.hyps(1) [of "i + 1"] Suc.hyps(2) show ?thesis by simp
  next
    case False
    let ?m = "\<lparr>rstart = min (rstart ?r) s, rend = max (rend ?r) e\<rparr>"
    have "?r \<in> set (take nr rs)" using i by (auto simp: in_set_conv_nth)
    then have r: "rstart ?r < rend ?r" using assms(4) False by (simp add: range_wf_def)
    have run: "range_merge_loop rs az nr s e i = Some (nr, rs[i := ?m])"
      using False i by (subst range_merge_loop.simps) (simp add: aget_def aset_def Let_def)
    have tk: "take nr (rs[i := ?m]) = (take nr rs)[i := ?m]" by (simp add: take_update_swap)
    have len: "i < length (take nr rs)" using i by simp
    have "range_set ((take nr rs)[i := ?m]) = range_set (take nr rs) \<union> {unat s..<unat e}"
      using seg_merge [OF r assms(1)] False i
      unfolding range_set_update [OF len] range_set_split [OF len] by (auto simp: not_less)
    moreover have "range_wf ((take nr rs)[i := ?m])"
      by (rule range_wf_update [OF assms(4)]) (use r assms(1) in \<open>auto simp: min_def max_def\<close>)
    ultimately show ?thesis by (simp add: run tk)
  qed
qed

section \<open>Subtracting\<close>

lemma range_spare_spec:
  "az = length rs \<Longrightarrow> i \<le> az \<Longrightarrow> \<exists>k. range_spare rs az i = Some k \<and> k \<le> az \<and> (k < az \<longrightarrow> rend (rs ! k) = 0)"
proof (induction "az - i" arbitrary: i)
  case 0
  then show ?case by (subst range_spare.simps) simp
next
  case (Suc d)
  then show ?case by (subst range_spare.simps) (auto simp: aget_def)
qed

text \<open>
  What one round keeps: the addresses outside of the subtracted interval (all of them
  unless a slot was missing), well-formedness and the entries it has dealt with.
\<close>

definition subtracts :: "range list \<Rightarrow> u64 \<Rightarrow> u64 \<Rightarrow> nat \<Rightarrow> range list \<Rightarrow> bool \<Rightarrow> bool" where
  "subtracts rs s e j rs' full \<longleftrightarrow> length rs' = length rs \<and> range_wf rs'
     \<and> range_set rs' - {unat s..<unat e} \<subseteq> range_set rs
     \<and> (\<not> full \<longrightarrow> range_set rs \<subseteq> range_set rs' \<union> {unat s..<unat e})
     \<and> (\<forall>k < length rs. (k = j \<or> seg (rs ! k) \<inter> {unat s..<unat e} = {}) \<longrightarrow> seg (rs' ! k) \<inter> {unat s..<unat e} = {})"

lemma subtracts_same:
  "range_wf rs \<Longrightarrow> j < length rs \<Longrightarrow> seg (rs ! j) \<inter> {unat s..<unat e} = {} \<Longrightarrow> subtracts rs s e j rs False"
  by (auto simp: subtracts_def)

lemma subtracts_update:
  assumes "range_wf rs" and j: "j < length rs" and "rend r \<noteq> 0 \<longrightarrow> rstart r < rend r"
    and seg: "seg r = seg (rs ! j) - {unat s..<unat e}"
  shows "subtracts rs s e j (rs[j := r]) False"
proof -
  have "range_set rs' - {unat s..<unat e} \<subseteq> range_set rs \<and> range_set rs \<subseteq> range_set rs' \<union> {unat s..<unat e}"
    if "rs' = rs[j := r]" for rs'
    unfolding that range_set_update [OF j] range_set_split [OF j] seg by auto
  with range_wf_update [OF assms(1,3)] seg j show ?thesis
    by (auto simp: subtracts_def nth_list_update)
qed

lemma subtracts_split:
  assumes wf: "range_wf rs" and j: "j < length rs" and r: "rend (rs ! j) \<noteq> 0" "rstart (rs ! j) < s" "e < rend (rs ! j)"
    and se: "s < e" and i: "i < length rs \<longrightarrow> rend (rs ! i) = 0"
  shows "subtracts rs s e j
    ((if i < length rs then rs[i := \<lparr>rstart = e, rend = rend (rs ! j)\<rparr>] else rs)[j := (rs ! j)\<lparr>rend := s\<rparr>])
    (\<not> i < length rs)"
proof -
  let ?up = "\<lparr>rstart = e, rend = rend (rs ! j)\<rparr>" and ?low = "(rs ! j)\<lparr>rend := s\<rparr>"
  define rs' where "rs' = (if i < length rs then rs[i := ?up] else rs)[j := ?low]"
  have ij: "i < length rs \<longrightarrow> i \<noteq> j" using i r(1) by auto
  have nth: "rs' ! k = (if k = j then ?low else if k = i then ?up else rs ! k)" if "k < length rs" for k
    using that ij by (simp add: rs'_def nth_list_update)
  have len: "length rs' = length rs" by (simp add: rs'_def)
  have seg: "seg ?low \<subseteq> seg (rs ! j)" "seg ?up \<subseteq> seg (rs ! j)" "seg (rs ! j) = seg ?low \<union> seg ?up \<union> {unat s..<unat e}"
    "seg ?low \<inter> {unat s..<unat e} = {}" "seg ?up \<inter> {unat s..<unat e} = {}"
    using r se by (auto simp: seg_def word_less_nat_alt)
  have "range_set rs' \<subseteq> range_set rs"
    unfolding subset_iff range_set_nth len using nth seg(1,2) j by (metis subsetD)
  moreover have "range_set rs \<subseteq> range_set rs' \<union> {unat s..<unat e}" if "i < length rs"
  proof
    fix x assume "x \<in> range_set rs"
    then obtain k where k: "k < length rs" "x \<in> seg (rs ! k)" by (auto simp: range_set_nth)
    then have "k \<noteq> i" using i by (auto simp: seg_def)
    with k seg(3) nth [of k] nth [of i] nth [of j] that j ij show "x \<in> range_set rs' \<union> {unat s..<unat e}"
      by (cases "k = j") (auto simp: range_set_nth len)
  qed
  moreover have "range_wf rs'"
    unfolding rs'_def using wf r se
    by (intro range_wf_update) (auto intro: range_wf_update)
  moreover have "seg (rs' ! k) \<inter> {unat s..<unat e} = {}"
    if "k < length rs" "k = j \<or> seg (rs ! k) \<inter> {unat s..<unat e} = {}" for k
    using nth [OF that(1)] that(2) seg(4,5) by auto
  ultimately show ?thesis
    unfolding subtracts_def rs'_def [symmetric] using len by blast
qed

lemma subtract_step_spec:
  assumes wf: "range_wf rs" and az: "az = length rs" and se: "s < e" and j: "j < az"
  shows "\<exists>rs' full. subtract_step rs az s e j = Some (rs', full) \<and> subtracts rs s e j rs' full"
proof -
  let ?r = "rs ! j"
  have len: "j < length rs" using j az by simp
  note ord = word_le_nat_alt word_less_nat_alt
  have r: "rend ?r \<noteq> 0 \<Longrightarrow> unat (rstart ?r) < unat (rend ?r)"
    using wf len by (simp add: range_wf_def word_less_nat_alt)
  consider (empty) "rend ?r = 0" | (whole) "rend ?r \<noteq> 0" "s \<le> rstart ?r" "rend ?r \<le> e"
    | (low) "rend ?r \<noteq> 0" "s \<le> rstart ?r" "e < rend ?r" "rstart ?r < e"
    | (high) "rend ?r \<noteq> 0" "rstart ?r < s" "rend ?r \<le> e" "s < rend ?r"
    | (mid) "rend ?r \<noteq> 0" "rstart ?r < s" "e < rend ?r"
    | (apart) "rend ?r \<noteq> 0" "e \<le> rstart ?r \<or> rend ?r \<le> s"
    by (metis leI)
  then show ?thesis
  proof cases
    case empty
    then have "subtracts rs s e j rs False" by (intro subtracts_same [OF wf len]) (simp add: seg_def)
    with empty len show ?thesis by (force simp: subtract_step_def aget_def)
  next
    case whole
    have "subtracts rs s e j (rs[j := \<lparr>rstart = 0, rend = 0\<rparr>]) False"
      by (rule subtracts_update [OF wf len]) (use whole in \<open>auto simp: seg_def ord\<close>)
    with whole len show ?thesis by (force simp: subtract_step_def aget_def aset_def)
  next
    case low
    have "subtracts rs s e j (rs[j := ?r\<lparr>rstart := e\<rparr>]) False"
      by (rule subtracts_update [OF wf len]) (use low in \<open>auto simp: seg_def ord\<close>)
    with low len show ?thesis by (force simp: subtract_step_def aget_def aset_def not_le)
  next
    case high
    have "subtracts rs s e j (rs[j := ?r\<lparr>rend := s\<rparr>]) False"
      by (rule subtracts_update [OF wf len]) (use high in \<open>auto simp: seg_def ord\<close>)
    with high len show ?thesis by (force simp: subtract_step_def aget_def aset_def not_le)
  next
    case apart
    then have "seg ?r \<inter> {unat s..<unat e} = {}" by (auto simp: seg_def ord)
    from subtracts_same [OF wf len this] apart r se len show ?thesis
      by (auto simp: subtract_step_def aget_def ord)
  next
    case mid
    obtain i where i: "range_spare rs az 0 = Some i" "i < az \<longrightarrow> rend (rs ! i) = 0"
      using range_spare_spec [OF az] by blast
    have ij: "i < az \<longrightarrow> i \<noteq> j" using i(2) mid(1) by auto
    define rs1 where "rs1 = (if i < az then rs[i := \<lparr>rstart = e, rend = rend ?r\<rparr>] else rs)"
    have not: "\<not> s \<le> rstart ?r" "\<not> rend ?r \<le> e" using mid by (simp_all add: not_le)
    have "subtract_step rs az s e j = Some (rs1[j := ?r\<lparr>rend := s\<rparr>], \<not> i < az)"
      using mid i(1) ij len az not by (simp add: subtract_step_def aget_def aset_def rs1_def)
    with subtracts_split [OF wf len mid se, of i] i(2) show ?thesis by (simp add: rs1_def az)
  qed
qed

lemma subtract_loop_spec:
  assumes "range_wf rs" and "az = length rs" and "s < e"
    and "\<forall>k < j. k < length rs \<longrightarrow> seg (rs ! k) \<inter> {unat s..<unat e} = {}"
  shows "\<exists>rs' full. subtract_loop rs az s e j = Some (rs', full) \<and> length rs' = length rs \<and> range_wf rs'
    \<and> range_set rs' \<subseteq> range_set rs - {unat s..<unat e}
    \<and> (\<not> full \<longrightarrow> range_set rs' = range_set rs - {unat s..<unat e})"
  using assms
proof (induction "az - j" arbitrary: j rs)
  case 0
  then have "\<forall>k < length rs. seg (rs ! k) \<inter> {unat s..<unat e} = {}" by auto
  then have "range_set rs \<inter> {unat s..<unat e} = {}" by (fastforce simp: range_set_nth)
  with 0 show ?case by (subst subtract_loop.simps) auto
next
  case (Suc d)
  let ?S = "{unat s..<unat e}"
  have jaz: "j < az" using Suc.hyps(2) by simp
  obtain rs1 full1 where step: "subtract_step rs az s e j = Some (rs1, full1)" and sub: "subtracts rs s e j rs1 full1"
    using subtract_step_spec [OF Suc.prems(1-3) jaz] by blast
  have len: "length rs1 = length rs" and wf: "range_wf rs1"
    and keep: "\<And>k. k < length rs \<Longrightarrow> k = j \<or> seg (rs ! k) \<inter> ?S = {} \<Longrightarrow> seg (rs1 ! k) \<inter> ?S = {}"
    using sub unfolding subtracts_def by blast+
  have dealt: "\<forall>k < j + 1. k < length rs1 \<longrightarrow> seg (rs1 ! k) \<inter> ?S = {}"
  proof (intro allI impI)
    fix k assume "k < j + 1" "k < length rs1"
    then show "seg (rs1 ! k) \<inter> ?S = {}"
      by (intro keep) (use len Suc.prems(4) in \<open>auto simp: less_Suc_eq\<close>)
  qed
  have "d = az - (j + 1)" "az = length rs1" using Suc.hyps(2) Suc.prems(2) len by auto
  from Suc.hyps(1) [OF this(1) wf this(2) Suc.prems(3) dealt]
  obtain rs' full where rest: "subtract_loop rs1 az s e (j + 1) = Some (rs', full)" "length rs' = length rs1"
    "range_wf rs'" "range_set rs' \<subseteq> range_set rs1 - ?S" "\<not> full \<longrightarrow> range_set rs' = range_set rs1 - ?S"
    by blast
  have "subtract_loop rs az s e j = Some (rs', full1 \<or> full)"
    using jaz step rest(1) by (subst subtract_loop.simps) simp
  moreover have "range_set rs' \<subseteq> range_set rs - ?S" "\<not> (full1 \<or> full) \<longrightarrow> range_set rs' = range_set rs - ?S"
    using rest(4,5) sub unfolding subtracts_def by blast+
  ultimately show ?case using rest(2,3) len by auto
qed

section \<open>Cleaning and sorting\<close>

abbreviation in_use :: "range \<Rightarrow> bool" where
  "in_use r \<equiv> rend r \<noteq> 0"

lemma clean_find_spec:
  assumes "i \<le> j" and "j \<le> k" and "k < length rs" and "\<forall>m. j < m \<longrightarrow> m \<le> k \<longrightarrow> \<not> in_use (rs ! m)"
  shows "clean_find rs i k j = Some (i, k) \<and> (\<forall>m. i < m \<longrightarrow> m \<le> k \<longrightarrow> \<not> in_use (rs ! m))
    \<or> (\<exists>m. clean_find rs i k j = Some (m, m) \<and> i < m \<and> m \<le> k \<and> in_use (rs ! m)
         \<and> (\<forall>p. m < p \<longrightarrow> p \<le> k \<longrightarrow> \<not> in_use (rs ! p)))"
  using assms
proof (induction j)
  case 0
  then show ?case by (subst (1 2) clean_find.simps) simp
next
  case (Suc j)
  show ?case
  proof (cases "i < Suc j")
    case False
    with Suc.prems show ?thesis by (subst (1 2) clean_find.simps) (simp add: le_less_Suc_eq)
  next
    case True
    show ?thesis
    proof (cases "in_use (rs ! Suc j)")
      case use: True
      with True Suc.prems show ?thesis by (subst (1 2) clean_find.simps) (auto simp: aget_def)
    next
      case False
      have "clean_find rs i k (Suc j) = clean_find rs i k j"
        using True False Suc.prems by (subst clean_find.simps) (simp add: aget_def)
      moreover have "\<forall>m. j < m \<longrightarrow> m \<le> k \<longrightarrow> \<not> in_use (rs ! m)"
        using Suc.prems(4) False by (metis Suc_lessI)
      ultimately show ?thesis using Suc.IH Suc.prems(1-3) True by simp
    qed
  qed
qed

lemma move_in_use:
  assumes "i < length rs" and "k < length rs" and "i \<noteq> k" and "\<not> in_use (rs ! i)" and "rend z = 0"
  shows "mset (filter in_use (rs[i := rs ! k, k := z])) = mset (filter in_use rs)"
proof -
  have "mset (rs[i := rs ! k, k := z]) = add_mset z (mset rs - {#rs ! i#})"
    using assms(1-3) by (simp add: mset_update)
  moreover have "filter_mset in_use (mset rs - {#rs ! i#}) = filter_mset in_use (mset rs)"
    using assms(4) by simp
  ultimately show ?thesis using assms(5) by (simp add: mset_filter)
qed

text \<open>The used entries come first.\<close>

definition compacted :: "range list \<Rightarrow> nat \<Rightarrow> bool" where
  "compacted rs n \<longleftrightarrow> n \<le> length rs \<and> (\<forall>m < n. in_use (rs ! m)) \<and> (\<forall>m. n \<le> m \<longrightarrow> m < length rs \<longrightarrow> \<not> in_use (rs ! m))"

lemma clean_compact_spec:
  assumes "k < length rs \<or> length rs = 0 \<and> k = 0" and "\<forall>m < i. m < length rs \<longrightarrow> in_use (rs ! m)"
    and "\<forall>m. k < m \<longrightarrow> m < length rs \<longrightarrow> \<not> in_use (rs ! m)" and "i \<le> k + 1" and "i \<le> length rs"
  shows "\<exists>rs' n. clean_compact rs i k = Some rs' \<and> length rs' = length rs \<and> compacted rs' n
    \<and> mset (filter in_use rs') = mset (filter in_use rs)"
  using assms
proof (induction "k - i" arbitrary: rs i k rule: less_induct)
  case less
  note pre = less.prems
  show ?case
  proof (cases "i < k")
    case False
    have "compacted rs (if i = k \<and> i < length rs \<and> in_use (rs ! i) then k + 1 else i)"
    proof (cases "i = k \<and> i < length rs")
      case True
      with pre(2,3) show ?thesis by (auto simp: compacted_def less_Suc_eq order_le_less)
    next
      case other: False
      have "\<not> in_use (rs ! m)" if "i \<le> m" "m < length rs" for m
        using pre(1,3,4) False other that by (cases "i = k") auto
      with pre(2,5) other show ?thesis by (auto simp: compacted_def)
    qed
    with False show ?thesis by (subst clean_compact.simps) auto
  next
    case True
    then have len: "i < length rs" "k < length rs" using pre(1) by auto
    show ?thesis
    proof (cases "in_use (rs ! i)")
      case use: True
      have "clean_compact rs i k = clean_compact rs (i + 1) k"
        using True len use by (subst clean_compact.simps) (simp add: aget_def)
      moreover have "\<forall>m < i + 1. m < length rs \<longrightarrow> in_use (rs ! m)" using pre(2) use by (auto simp: less_Suc_eq)
      ultimately show ?thesis using less.hyps [of k "i + 1" rs] pre True len by simp
    next
      case free: False
      have step: "clean_compact rs i k = do {
          (j, k) \<leftarrow> clean_find rs i k k;
          if j = i then Some rs
          else do { rk \<leftarrow> aget rs k; rs \<leftarrow> aset rs i rk; rs \<leftarrow> aset rs k \<lparr>rstart = 0, rend = 0\<rparr>;
                    clean_compact rs (i + 1) (k - 1) } }"
        using True len free by (subst clean_compact.simps) (simp add: aget_def)
      consider (none) "clean_find rs i k k = Some (i, k)" "\<forall>m. i < m \<longrightarrow> m \<le> k \<longrightarrow> \<not> in_use (rs ! m)"
        | (found) m where "clean_find rs i k k = Some (m, m)" "i < m" "m \<le> k" "in_use (rs ! m)"
          "\<forall>p. m < p \<longrightarrow> p \<le> k \<longrightarrow> \<not> in_use (rs ! p)"
        using clean_find_spec [of i k k rs] True len by auto
      then show ?thesis
      proof cases
        case none
        have "\<not> in_use (rs ! m)" if "i \<le> m" "m < length rs" for m
          using none(2) pre(3) free that by (metis le_less_linear order_le_less)
        then have "compacted rs i" using pre(2) len by (simp add: compacted_def)
        with none(1) step show ?thesis by auto
      next
        case found
        let ?z = "\<lparr>rstart = 0, rend = 0\<rparr>"
        let ?rs = "rs[i := rs ! m, m := ?z]"
        have m: "m < length rs" using found len by simp
        have run: "clean_compact rs i k = clean_compact ?rs (i + 1) (m - 1)"
          using found m len step by (simp add: aget_def aset_def)
        have front: "\<forall>p < i + 1. p < length ?rs \<longrightarrow> in_use (?rs ! p)"
          using pre(2) found by (auto simp: nth_list_update less_Suc_eq)
        have tail: "\<forall>p. m - 1 < p \<longrightarrow> p < length ?rs \<longrightarrow> \<not> in_use (?rs ! p)"
        proof (intro allI impI)
          fix p assume p: "m - 1 < p" "p < length ?rs"
          then consider "p = m" | "m < p" "p \<le> k" | "k < p" by linarith
          then show "\<not> in_use (?rs ! p)"
            using found pre(3) p by cases (auto simp: nth_list_update)
        qed
        have "\<exists>rs' n. clean_compact ?rs (i + 1) (m - 1) = Some rs' \<and> length rs' = length ?rs \<and> compacted rs' n
            \<and> mset (filter in_use rs') = mset (filter in_use ?rs)"
          by (rule less.hyps [OF _ _ front tail]) (use found m True in auto)
        moreover have "mset (filter in_use ?rs) = mset (filter in_use rs)"
          by (rule move_in_use) (use len m found free in auto)
        ultimately show ?thesis by (simp add: run)
      qed
    qed
  qed
qed

lemma cmp_range_eq:
  assumes "unat (rstart r) < 2 ^ 31" and "unat (rstart q) < 2 ^ 31"
  shows "cmp_range (range_bytes r) (range_bytes q) = int (unat (rstart r)) - int (unat (rstart q))"
proof -
  let ?d = "uint (rstart r) - uint (rstart q)"
  have hd: "hd (range_bytes x) = (x, 0)" for x by (simp add: range_bytes_def upt_rec)
  have "sint (ucast (rstart r - rstart q) :: u32) = ?d"
    unfolding ucast_diff_32
    by (rule sint_word_of_int_32)
      (use uint_less_pow [OF assms(1)] uint_less_pow [OF assms(2)] uint_ge_0 [of "rstart r"] uint_ge_0 [of "rstart q"]
        in linarith)+
  then show ?thesis by (simp add: cmp_range_def hd)
qed

lemma range_array_bytes: "range_array (concat (map range_bytes rs)) = rs"
proof -
  have len: "length (concat (map range_bytes rs)) = length rs * 16" for rs
    by (induction rs) (simp_all add: range_bytes_def)
  have "concat (map range_bytes rs) ! (16 * i) = (rs ! i, 0)" if "i < length rs" for i
    using that
  proof (induction rs arbitrary: i)
    case (Cons r rs)
    show ?case
    proof (cases i)
      case 0
      then show ?thesis by (simp add: range_bytes_def upt_rec)
    next
      case (Suc m)
      have "concat (map range_bytes (r # rs)) ! (16 * i) = concat (map range_bytes rs) ! (16 * m)"
        by (simp add: Suc nth_append range_bytes_def)
      with Cons Suc show ?thesis by simp
    qed
  qed simp
  then show ?thesis
    by (simp add: range_array_def len) (rule nth_equalityI, simp_all)
qed

lemma range_bytes_inj: "fst (hd (range_bytes r)) = r"
  by (simp add: range_bytes_def upt_rec)

lemma cmp_range_ok:
  assumes "\<forall>r \<in> set rs. unat (rstart r) < 2 ^ 31"
  shows "cmp_ok cmp_range (set (map range_bytes rs))"
  unfolding cmp_ok_def using assms by (auto simp: cmp_range_eq)

lemma sort_range_spec:
  assumes "nr \<le> length rs" and small: "\<forall>r \<in> set (take nr rs). unat (rstart r) < 2 ^ 31"
  shows "\<exists>rs'. sort_range rs nr = Some (rs' @ drop nr rs) \<and> mset rs' = mset (take nr rs)
    \<and> sorted_wrt (\<lambda>r q. rstart r \<le> rstart q) rs'"
proof -
  let ?xs = "map range_bytes (take nr rs)"
  have ch: "chunks_of 16 ?xs" by (auto simp: chunks_of_def range_bytes_def)
  have hs: "mset (heap_sort cmp_range ?xs) = mset ?xs"
    "sorted_wrt (\<lambda>x y. 0 \<le> cmp_range y x) (heap_sort cmp_range ?xs)"
    using heap_sort_spec [OF cmp_range_ok [OF small]] by simp_all
  define rs' where "rs' = map (\<lambda>b. fst (hd b)) (heap_sort cmp_range ?xs)"
  have "set (heap_sort cmp_range ?xs) = range_bytes ` set (take nr rs)"
    using mset_eq_setD [OF hs(1)] by simp
  then have eq: "heap_sort cmp_range ?xs = map range_bytes rs'"
    by (auto simp: rs'_def range_bytes_inj intro!: map_idI [symmetric])
  have run: "kernel_sort (concat ?xs) nr 16 cmp_range None = Some (concat (map range_bytes rs'))"
    using kernel_sort_refines [OF ch, of None cmp_range] assms(1) by (simp add: eq)
  have perm: "mset rs' = mset (take nr rs)"
    unfolding rs'_def mset_map hs(1) by (simp add: multiset.map_comp comp_def range_bytes_inj)
  then have "\<forall>r \<in> set rs'. unat (rstart r) < 2 ^ 31" using small by (metis mset_eq_setD)
  with hs(2) have "sorted_wrt (\<lambda>r q. rstart r \<le> rstart q) rs'"
    unfolding eq sorted_wrt_map
    by (elim sorted_wrt_mono_rel [rotated]) (auto simp: cmp_range_eq word_le_def)
  with run assms(1) perm show ?thesis
    by (simp add: sort_range_def range_array_bytes)
qed

lemma clean_count_spec:
  assumes "compacted rs n" and "i \<le> n"
  shows "clean_count rs (length rs) i = Some (if n < length rs then n else 0)"
  using assms(2)
proof (induction "length rs - i" arbitrary: i rule: less_induct)
  case less
  show ?case
  proof (cases "i < n")
    case True
    then have "i < length rs" "in_use (rs ! i)" using assms(1) by (auto simp: compacted_def)
    with less.hyps [of "i + 1"] True show ?thesis by (subst clean_count.simps) (simp add: aget_def)
  next
    case False
    with less.prems have "i = n" by simp
    with assms(1) show ?thesis by (subst clean_count.simps) (auto simp: compacted_def aget_def)
  qed
qed

lemma compacted_filter:
  assumes "compacted rs n"
  shows "filter in_use rs = take n rs"
proof -
  have "filter in_use (take n rs) = take n rs" "filter in_use (drop n rs) = []"
    using assms by (auto simp: compacted_def filter_id_conv filter_empty_conv in_set_conv_nth)
  then show ?thesis by (metis append_Nil2 append_take_drop_id filter_append)
qed

lemma clean_sort_range_spec:
  assumes small: "\<forall>r \<in> set rs. unat (rstart r) < 2 ^ 31"
  shows "\<exists>nr rs'. clean_sort_range rs (length rs) = Some (nr, rs') \<and> length rs' = length rs
    \<and> nr = (if length (filter in_use rs) < length rs then length (filter in_use rs) else 0)
    \<and> mset (filter in_use rs') = mset (filter in_use rs)
    \<and> (nr \<noteq> 0 \<longrightarrow> filter in_use rs' = take nr rs')
    \<and> sorted_wrt (\<lambda>r q. rstart r \<le> rstart q) (take nr rs')"
proof -
  obtain rs1 n where c: "clean_compact rs 0 (length rs - 1) = Some rs1" "length rs1 = length rs" "compacted rs1 n"
    "mset (filter in_use rs1) = mset (filter in_use rs)"
  proof -
    have "\<exists>rs1 n. clean_compact rs 0 (length rs - 1) = Some rs1 \<and> length rs1 = length rs \<and> compacted rs1 n
        \<and> mset (filter in_use rs1) = mset (filter in_use rs)"
      by (rule clean_compact_spec) (cases rs; auto)+
    then show ?thesis using that by blast
  qed
  define nr where "nr = (if n < length rs then n else 0)"
  have n: "n = length (filter in_use rs)" "n \<le> length rs"
    using compacted_filter [OF c(3)] c(2,3) mset_eq_length [OF c(4)] by (auto simp: compacted_def)
  have cnt: "clean_count rs1 (length rs) 0 = Some nr"
    using clean_count_spec [OF c(3), of 0] c(2) by (simp add: nr_def)
  have "set (take nr rs1) \<subseteq> set (filter in_use rs1)"
    using compacted_filter [OF c(3)] by (simp add: nr_def set_take_subset_set_take)
  also have "\<dots> = set (filter in_use rs)" by (rule mset_eq_setD [OF c(4)])
  finally have below: "\<forall>r \<in> set (take nr rs1). unat (rstart r) < 2 ^ 31" using small by auto
  have "nr \<le> length rs1" using c(2) n(2) by (simp add: nr_def)
  from sort_range_spec [OF this below] obtain ts where
    sort: "sort_range rs1 nr = Some (ts @ drop nr rs1)" "mset ts = mset (take nr rs1)"
      "sorted_wrt (\<lambda>r q. rstart r \<le> rstart q) ts"
    by blast
  have len: "length ts = nr" using mset_eq_length [OF sort(2)] c(2) n(2) by (simp add: nr_def)
  have "mset (ts @ drop nr rs1) = mset rs1"
    using sort(2) by (metis append_take_drop_id mset_append)
  then have perm: "mset (filter in_use (ts @ drop nr rs1)) = mset (filter in_use rs)"
    using c(4) by (metis mset_filter)
  have "filter in_use (ts @ drop nr rs1) = ts" if "nr \<noteq> 0"
  proof -
    have "nr = n" using that by (simp add: nr_def split: if_splits)
    then have "\<forall>r \<in> set ts. in_use r" "filter in_use (drop nr rs1) = []"
      using mset_eq_setD [OF sort(2)] c(3)
      by (auto simp: compacted_def filter_empty_conv in_set_conv_nth)
    then show ?thesis by simp
  qed
  with c cnt sort(1,3) perm len n show ?thesis
    by (simp add: clean_sort_range_def nr_def)
qed

section \<open>Properties\<close>

text \<open>
  C20.  \<open>add_range_with_merge\<close> adds exactly the addresses of the new range to the
  table, extending an entry that meets or touches it or taking a new slot; only when
  no entry can be extended and all slots are taken does it leave the table as it was.
\<close>

theorem add_range_with_merge_ok:
  assumes "nr \<le> az" and "az = length rs" and "range_wf (take nr rs)" and "s < e"
  shows "\<exists>nr' rs'. add_range_with_merge rs az nr s e = Some (nr', rs') \<and> length rs' = length rs
    \<and> range_wf (take nr' rs')
    \<and> (nr' \<le> nr + 1 \<and> range_set (take nr' rs') = range_set (take nr rs) \<union> {unat s..<unat e}
       \<or> nr = az \<and> nr' = nr \<and> rs' = rs)"
  using range_merge_loop_spec [OF assms(4,1,2,3), of 0] assms(4) [folded not_le]
  by (simp add: add_range_with_merge_def)

theorem add_range_with_merge_ok_witness:
  "\<exists>nr' rs'. add_range_with_merge [\<lparr>rstart = 10, rend = 20\<rparr>, \<lparr>rstart = 0, rend = 0\<rparr>] 2 1 20 30 = Some (nr', rs')
    \<and> range_set (take nr' rs') = {10..<30}"
proof -
  have *: "{10..<20} \<union> {20..<30} = {10..<30 :: nat}" by auto
  show ?thesis
    using add_range_with_merge_ok [of 1 2 "[\<lparr>rstart = 10, rend = 20\<rparr>, \<lparr>rstart = 0, rend = 0\<rparr>]" 20 30] *
    by (auto simp: range_wf_def range_set_def seg_def)
qed

text \<open>
  C21.  \<open>subtract_range\<close> takes exactly the given addresses out of the table.  If
  it runs out of slots while splitting an entry (the case that is reported with
  \<open>printk\<close>) the table covers less than that, never more.
\<close>

theorem subtract_range_ok:
  assumes "az = length rs" and "range_wf rs"
  shows "\<exists>rs' full. subtract_range rs az s e = Some (rs', full) \<and> length rs' = length rs \<and> range_wf rs'
    \<and> range_set rs' \<subseteq> range_set rs - {unat s..<unat e}
    \<and> (\<not> full \<longrightarrow> range_set rs' = range_set rs - {unat s..<unat e})"
proof (cases "s < e")
  case True
  then show ?thesis
    using subtract_loop_spec [OF assms(2,1) True, of 0] True [folded not_le] by (simp add: subtract_range_def)
next
  case False
  then have "{unat s..<unat e} = {}" by (simp add: word_less_nat_alt)
  with False assms(2) show ?thesis by (auto simp: subtract_range_def)
qed

theorem subtract_range_ok_witness:
  "\<exists>rs' full. subtract_range [\<lparr>rstart = 10, rend = 40\<rparr>, \<lparr>rstart = 0, rend = 0\<rparr>] 2 20 30 = Some (rs', full)
    \<and> range_set rs' \<subseteq> {10..<20} \<union> {30..<40}"
proof -
  have *: "{10..<40} - {20..<30} = {10..<20} \<union> {30..<40 :: nat}" by auto
  show ?thesis
    using subtract_range_ok [of 2 "[\<lparr>rstart = 10, rend = 40\<rparr>, \<lparr>rstart = 0, rend = 0\<rparr>]" 20 30] *
    by (auto simp: range_wf_def range_set_def seg_def)
qed

text \<open>
  \<open>clean_sort_range\<close> moves the used entries to the front, sorts them by their
  start (when all starts are below \<open>2 ^ 31\<close>) and returns their number; for a table
  without an empty slot it returns 0 and sorts nothing.
\<close>

theorem clean_sort_range_ok:
  assumes "\<forall>r \<in> set rs. unat (rstart r) < 2 ^ 31"
  shows "\<exists>nr rs'. clean_sort_range rs (length rs) = Some (nr, rs') \<and> length rs' = length rs
    \<and> nr = (if length (filter in_use rs) < length rs then length (filter in_use rs) else 0)
    \<and> mset (filter in_use rs') = mset (filter in_use rs)
    \<and> (nr \<noteq> 0 \<longrightarrow> filter in_use rs' = take nr rs')
    \<and> sorted_wrt (\<lambda>r q. rstart r \<le> rstart q) (take nr rs')"
  using assms by (rule clean_sort_range_spec)

theorem clean_sort_range_ok_witness:
  "\<exists>rs'. clean_sort_range [\<lparr>rstart = 0, rend = 0\<rparr>, \<lparr>rstart = 30, rend = 40\<rparr>, \<lparr>rstart = 10, rend = 20\<rparr>] 3 = Some (2, rs')
    \<and> sorted_wrt (\<lambda>r q. rstart r \<le> rstart q) (take 2 rs')"
proof -
  let ?rs = "[\<lparr>rstart = 0, rend = 0\<rparr>, \<lparr>rstart = 30, rend = 40\<rparr>, \<lparr>rstart = 10, rend = 20\<rparr>]"
  have "\<forall>r \<in> set ?rs. unat (rstart r) < 2 ^ 31" by simp
  from clean_sort_range_ok [OF this] obtain nr rs' where run: "clean_sort_range ?rs (length ?rs) = Some (nr, rs')"
    "nr = (if length (filter in_use ?rs) < length ?rs then length (filter in_use ?rs) else 0)"
    "sorted_wrt (\<lambda>r q. rstart r \<le> rstart q) (take nr rs')" by blast
  have "nr = 2" "length ?rs = 3" using run(2) by simp_all
  with run(1,3) show ?thesis by metis
qed

text \<open>
  \<open>cmp_range\<close> cuts the 64-bit difference of two starts to an \<open>int\<close>: a range
  that starts more than \<open>2 ^ 31\<close> above another one can compare as smaller, so \<open>sort_range\<close> puts it first.
\<close>

theorem sort_range_truncation_bug:
  "sort_range [\<lparr>rstart = 0, rend = 0x1000\<rparr>, \<lparr>rstart = 0x80001000, rend = 0x80002000\<rparr>] 2
    = Some [\<lparr>rstart = 0x80001000, rend = 0x80002000\<rparr>, \<lparr>rstart = 0, rend = 0x1000\<rparr>]"
proof -
  let ?a = "\<lparr>rstart = 0, rend = 0x1000\<rparr>" and ?b = "\<lparr>rstart = 0x80001000, rend = 0x80002000\<rparr>"
  have "0 \<le> cmp_range (range_bytes ?a) (range_bytes ?b)"
    by (simp add: cmp_range_def range_bytes_def upt_rec)
  then have hs: "heap_sort cmp_range (map range_bytes [?a, ?b]) = map range_bytes [?b, ?a]"
    by (simp add: heap_sort_def Let_def sift.simps big_child_def swap_nth_def)
  have "chunks_of 16 (map range_bytes [?a, ?b])" by (simp add: chunks_of_def range_bytes_def)
  moreover have two: "length (map range_bytes [?a, ?b]) = 2" by simp
  ultimately have "kernel_sort (concat (map range_bytes [?a, ?b])) 2 16 cmp_range None
      = Some (concat (map range_bytes [?b, ?a]))"
    using kernel_sort_refines [of 16 "map range_bytes [?a, ?b]" None cmp_range, unfolded hs two] by simp
  moreover have "take 2 [?a, ?b] = [?a, ?b]" "drop 2 [?a, ?b] = []" "2 \<le> length [?a, ?b]" by simp_all
  ultimately show ?thesis
    by (simp only: sort_range_def if_True Option.bind_lunit range_array_bytes append_Nil2)
qed

end
