(* ===== verification/Bitops.thy ===== *)
theory Bitops
  imports Kernel_Prelude
begin

text \<open>
  Model of the word-level bit operations of \<open>include/asm-generic/bitops\<close>,
  \<open>include/linux/bitops.h\<close> and \<open>lib/hweight.c\<close> for \<open>BITS_PER_LONG = 64\<close>: the searches for
  the lowest and the highest set bit, the operations on one bit of an array of
  words, the rotations, the byte swap and the Hamming weights, each with the
  statement about the bits of its argument that its callers rely on.
\<close>

section \<open>Model\<close>

type_synonym bitarray = "u64 list"

definition raw_ffs :: "u64 \<Rightarrow> u64" where
  "raw_ffs word =
     (let (num, word) = (if word AND 0xffffffff = 0 then (32, drop_bit 32 word) else (0, word));
          (num, word) = (if word AND 0xffff = 0 then (num + 16, drop_bit 16 word) else (num, word));
          (num, word) = (if word AND 0xff = 0 then (num + 8, drop_bit 8 word) else (num, word));
          (num, word) = (if word AND 0xf = 0 then (num + 4, drop_bit 4 word) else (num, word));
          (num, word) = (if word AND 0x3 = 0 then (num + 2, drop_bit 2 word) else (num, word))
      in if word AND 0x1 = 0 then num + 1 else num)"

definition ffz :: "u64 \<Rightarrow> u64" where
  "ffz x = raw_ffs (NOT x)"

definition raw_fls :: "u64 \<Rightarrow> u64" where
  "raw_fls word =
     (let (num, word) = (if word AND push_bit 32 (NOT 0) = 0 then (63 - 32, push_bit 32 word) else (63, word));
          (num, word) = (if word AND push_bit (64 - 16) (NOT 0) = 0 then (num - 16, push_bit 16 word) else (num, word));
          (num, word) = (if word AND push_bit (64 - 8) (NOT 0) = 0 then (num - 8, push_bit 8 word) else (num, word));
          (num, word) = (if word AND push_bit (64 - 4) (NOT 0) = 0 then (num - 4, push_bit 4 word) else (num, word));
          (num, word) = (if word AND push_bit (64 - 2) (NOT 0) = 0 then (num - 2, push_bit 2 word) else (num, word))
      in if word AND push_bit (64 - 1) (NOT 0) = 0 then num - 1 else num)"

definition fls64 :: "u64 \<Rightarrow> u64" where
  "fls64 x = (if x = 0 then 0 else raw_fls x + 1)"

definition fls_long :: "u64 \<Rightarrow> u64" where
  "fls_long l = fls64 l"

definition raw_ffs64 :: "u64 \<Rightarrow> u64" where
  "raw_ffs64 word = raw_ffs word"

text \<open>The 32-bit variants take an \<open>int\<close>; only its bits matter.\<close>

definition fls :: "u32 \<Rightarrow> int" where
  "fls x =
     (if x = 0 then 0
      else let (x, r) = (if x AND 0xffff0000 = 0 then (push_bit 16 x, 32 - 16) else (x, 32));
               (x, r) = (if x AND 0xff000000 = 0 then (push_bit 8 x, r - 8) else (x, r));
               (x, r) = (if x AND 0xf0000000 = 0 then (push_bit 4 x, r - 4) else (x, r));
               (x, r) = (if x AND 0xc0000000 = 0 then (push_bit 2 x, r - 2) else (x, r))
           in if x AND 0x80000000 = 0 then r - 1 else r)"

text \<open>\<open>x\<close> is a signed \<open>int\<close> in \<open>ffs\<close>: its right shifts are arithmetic.\<close>

definition ffs :: "u32 \<Rightarrow> int" where
  "ffs x =
     (if x = 0 then 0
      else let (x, r) = (if x AND 0xffff = 0 then (signed_drop_bit 16 x, 1 + 16) else (x, 1));
               (x, r) = (if x AND 0xff = 0 then (signed_drop_bit 8 x, r + 8) else (x, r));
               (x, r) = (if x AND 0xf = 0 then (signed_drop_bit 4 x, r + 4) else (x, r));
               (x, r) = (if x AND 3 = 0 then (signed_drop_bit 2 x, r + 2) else (x, r))
           in if x AND 1 = 0 then r + 1 else r)"

definition get_bitmask_order :: "u32 \<Rightarrow> int" where
  "get_bitmask_order cnt = fls cnt"

definition get_count_order :: "u32 \<Rightarrow> int" where
  "get_count_order cnt =
     (let order = fls cnt - 1 in if cnt AND (cnt - 1) \<noteq> 0 then order + 1 else order)"

section \<open>Model: one bit of an array of words\<close>

definition BIT_MASK :: "nat \<Rightarrow> u64" where
  "BIT_MASK nr = push_bit (nr mod 64) 1"

definition BIT_WORD :: "nat \<Rightarrow> nat" where
  "BIT_WORD nr = nr div 64"

definition BITS_TO_LONGS :: "nat \<Rightarrow> nat" where
  "BITS_TO_LONGS nr = (nr + 64 - 1) div 64"

definition set_bit_at :: "nat \<Rightarrow> bitarray \<Rightarrow> bitarray option" where
  "set_bit_at nr addr = do {
     w \<leftarrow> aget addr (BIT_WORD nr);
     aset addr (BIT_WORD nr) (w OR BIT_MASK nr) }"

definition clear_bit_at :: "nat \<Rightarrow> bitarray \<Rightarrow> bitarray option" where
  "clear_bit_at nr addr = do {
     w \<leftarrow> aget addr (BIT_WORD nr);
     aset addr (BIT_WORD nr) (w AND NOT (BIT_MASK nr)) }"

definition change_bit_at :: "nat \<Rightarrow> bitarray \<Rightarrow> bitarray option" where
  "change_bit_at nr addr = do {
     w \<leftarrow> aget addr (BIT_WORD nr);
     aset addr (BIT_WORD nr) (w XOR BIT_MASK nr) }"

definition test_and_set_bit :: "nat \<Rightarrow> bitarray \<Rightarrow> (bool \<times> bitarray) option" where
  "test_and_set_bit nr addr = do {
     old \<leftarrow> aget addr (BIT_WORD nr);
     addr \<leftarrow> aset addr (BIT_WORD nr) (old OR BIT_MASK nr);
     Some (old AND BIT_MASK nr \<noteq> 0, addr) }"

definition test_and_clear_bit :: "nat \<Rightarrow> bitarray \<Rightarrow> (bool \<times> bitarray) option" where
  "test_and_clear_bit nr addr = do {
     old \<leftarrow> aget addr (BIT_WORD nr);
     addr \<leftarrow> aset addr (BIT_WORD nr) (old AND NOT (BIT_MASK nr));
     Some (old AND BIT_MASK nr \<noteq> 0, addr) }"

definition test_and_change_bit :: "nat \<Rightarrow> bitarray \<Rightarrow> (bool \<times> bitarray) option" where
  "test_and_change_bit nr addr = do {
     old \<leftarrow> aget addr (BIT_WORD nr);
     addr \<leftarrow> aset addr (BIT_WORD nr) (old XOR BIT_MASK nr);
     Some (old AND BIT_MASK nr \<noteq> 0, addr) }"

definition test_bit :: "nat \<Rightarrow> bitarray \<Rightarrow> bool option" where
  "test_bit nr addr = do {
     w \<leftarrow> aget addr (BIT_WORD nr);
     Some (1 AND drop_bit (nr mod 64) w \<noteq> 0) }"

section \<open>Model: rotations, byte swap and weights\<close>

text \<open>\<open>shift\<close> is below the width, and not 0 where the shift by \<open>32 - shift\<close> would be undefined.\<close>

definition rol32 :: "u32 \<Rightarrow> nat \<Rightarrow> u32" where
  "rol32 word shift = push_bit shift word OR drop_bit (32 - shift) word"

definition ror32 :: "u32 \<Rightarrow> nat \<Rightarrow> u32" where
  "ror32 word shift = drop_bit shift word OR push_bit (32 - shift) word"

definition rol16 :: "u16 \<Rightarrow> nat \<Rightarrow> u16" where
  "rol16 word shift = push_bit shift word OR drop_bit (16 - shift) word"

definition ror16 :: "u16 \<Rightarrow> nat \<Rightarrow> u16" where
  "ror16 word shift = drop_bit shift word OR push_bit (16 - shift) word"

definition rol8 :: "u8 \<Rightarrow> nat \<Rightarrow> u8" where
  "rol8 word shift = push_bit shift word OR drop_bit (8 - shift) word"

definition ror8 :: "u8 \<Rightarrow> nat \<Rightarrow> u8" where
  "ror8 word shift = drop_bit shift word OR push_bit (8 - shift) word"

definition swab64 :: "u64 \<Rightarrow> u64" where
  "swab64 x =
     push_bit 56 (x AND 0x00000000000000ff) OR push_bit 40 (x AND 0x000000000000ff00) OR
     push_bit 24 (x AND 0x0000000000ff0000) OR push_bit 8 (x AND 0x00000000ff000000) OR
     drop_bit 8 (x AND 0x000000ff00000000) OR drop_bit 24 (x AND 0x0000ff0000000000) OR
     drop_bit 40 (x AND 0x00ff000000000000) OR drop_bit 56 (x AND 0xff00000000000000)"

definition hweight8 :: "u32 \<Rightarrow> u32" where
  "hweight8 w =
     (let res = w - (drop_bit 1 w AND 0x55);
          res = (res AND 0x33) + (drop_bit 2 res AND 0x33)
      in (res + drop_bit 4 res) AND 0x0F)"

definition hweight16 :: "u32 \<Rightarrow> u32" where
  "hweight16 w =
     (let res = w - (drop_bit 1 w AND 0x5555);
          res = (res AND 0x3333) + (drop_bit 2 res AND 0x3333);
          res = (res + drop_bit 4 res) AND 0x0F0F
      in (res + drop_bit 8 res) AND 0x00FF)"

definition hweight32 :: "u32 \<Rightarrow> u32" where
  "hweight32 w =
     (let res = w - (drop_bit 1 w AND 0x55555555);
          res = (res AND 0x33333333) + (drop_bit 2 res AND 0x33333333);
          res = (res + drop_bit 4 res) AND 0x0F0F0F0F;
          res = res + drop_bit 8 res
      in (res + drop_bit 16 res) AND 0x000000FF)"

definition hweight64 :: "u64 \<Rightarrow> u64" where
  "hweight64 w =
     (let res = w - (drop_bit 1 w AND 0x5555555555555555);
          res = (res AND 0x3333333333333333) + (drop_bit 2 res AND 0x3333333333333333);
          res = (res + drop_bit 4 res) AND 0x0F0F0F0F0F0F0F0F;
          res = res + drop_bit 8 res;
          res = res + drop_bit 16 res
      in (res + drop_bit 32 res) AND 0x00000000000000FF)"

definition hweight_long :: "u64 \<Rightarrow> u64" where
  "hweight_long w = hweight64 w"

section \<open>The lowest and the highest set bit\<close>

definition is_lsb :: "'a :: len word \<Rightarrow> nat \<Rightarrow> bool" where
  "is_lsb w n \<longleftrightarrow> bit w n \<and> (\<forall>m < n. \<not> bit w m)"

definition is_msb :: "'a :: len word \<Rightarrow> nat \<Rightarrow> bool" where
  "is_msb w n \<longleftrightarrow> bit w n \<and> (\<forall>m > n. \<not> bit w m)"

lemma word_has_bit: "(w :: 'a :: len word) \<noteq> 0 \<longleftrightarrow> (\<exists>n. bit w n)"
  by (metis bit_0_eq bit_eq_iff bot_apply bot_bool_def)

lemma lsb_exists: "(w :: 'a :: len word) \<noteq> 0 \<Longrightarrow> \<exists>n. is_lsb w n"
  unfolding is_lsb_def word_has_bit by (metis exists_least_iff)

lemma bit_word_less: "bit (w :: 'a :: len word) n \<Longrightarrow> n < LENGTH('a)"
  by (rule bit_imp_le_length)

lemma msb_exists:
  assumes "(w :: 'a :: len word) \<noteq> 0"
  shows "\<exists>n. is_msb w n"
proof -
  let ?S = "{n. bit w n}"
  have fin: "finite ?S" by (rule finite_subset [of _ "{..<LENGTH('a)}"]) (auto dest: bit_word_less)
  have "?S \<noteq> {}" using assms word_has_bit [of w] by auto
  from Max_in [OF fin this] Max_ge [OF fin] show ?thesis
    unfolding is_msb_def by (metis linorder_not_le mem_Collect_eq)
qed

lemma and_mask_zero: "(w :: 'a :: len word) AND mask k = 0 \<longleftrightarrow> (\<forall>m < k. \<not> bit w m)"
proof -
  have "w AND mask k = 0 \<longleftrightarrow> (\<forall>m. \<not> bit (w AND mask k) m)"
    using word_has_bit [of "w AND mask k"] by blast
  also have "\<dots> \<longleftrightarrow> (\<forall>m < k. \<not> bit w m)"
    by (auto simp: bit_simps dest: bit_word_less)
  finally show ?thesis .
qed

text \<open>One halving step of the binary searches.\<close>

lemma lsb_step:
  assumes "is_lsb w (n :: nat)"
  shows "if w AND mask k = 0 then k \<le> n \<and> is_lsb (drop_bit k w) (n - k) else n < k"
proof (cases "w AND mask k = 0")
  case True
  then have le: "k \<le> n" using assms unfolding and_mask_zero is_lsb_def by (metis linorder_not_le)
  then have "is_lsb (drop_bit k w) (n - k)"
    using assms by (auto simp: is_lsb_def bit_simps)
  with True le show ?thesis by simp
next
  case False
  then obtain m where "m < k" "bit w m" unfolding and_mask_zero by blast
  with assms have "n < k" unfolding is_lsb_def by (metis linorder_neqE_nat order.strict_trans)
  with False show ?thesis by simp
qed

lemma and_high_zero:
  "k \<le> LENGTH('a) \<Longrightarrow>
    (w :: 'a :: len word) AND push_bit (LENGTH('a) - k) (NOT 0) = 0 \<longleftrightarrow> (\<forall>m. LENGTH('a) - k \<le> m \<longrightarrow> \<not> bit w m)"
proof -
  assume k: "k \<le> LENGTH('a)"
  have "w AND push_bit (LENGTH('a) - k) (NOT 0) = 0 \<longleftrightarrow> (\<forall>m. \<not> bit (w AND push_bit (LENGTH('a) - k) (NOT 0)) m)"
    using word_has_bit [of "w AND push_bit (LENGTH('a) - k) (NOT 0)"] by blast
  also have "\<dots> \<longleftrightarrow> (\<forall>m. LENGTH('a) - k \<le> m \<longrightarrow> \<not> bit w m)"
    using k by (auto simp: bit_simps not_less [symmetric] dest: bit_word_less)
  finally show ?thesis .
qed

lemma msb_step:
  assumes "is_msb (w :: 'a :: len word) n" and "k \<le> LENGTH('a)"
  shows "if w AND push_bit (LENGTH('a) - k) (NOT 0) = 0 then n + k < LENGTH('a) \<and> is_msb (push_bit k w) (n + k)
    else LENGTH('a) - k \<le> n"
proof (cases "w AND push_bit (LENGTH('a) - k) (NOT 0) = 0")
  case True
  then have less: "n + k < LENGTH('a)"
    using assms unfolding and_high_zero [OF assms(2)] is_msb_def
    by (metis bit_word_less less_diff_conv linorder_not_le)
  then have "is_msb (push_bit k w) (n + k)"
    using assms(1) by (auto simp: is_msb_def bit_simps)
  with True less show ?thesis by simp
next
  case False
  then obtain m where "LENGTH('a) - k \<le> m" "bit w m" unfolding and_high_zero [OF assms(2)] by blast
  with assms have "LENGTH('a) - k \<le> n" unfolding is_msb_def by (metis linorder_not_less order.trans)
  with False show ?thesis by simp
qed

text \<open>The value of the counter so far plus the position in the rest stays the same.\<close>

lemma lsb_half:
  assumes "is_lsb w n" and "n < 2 * k" and "m = mask k"
    and "c = num + of_nat k" and "(if w AND m = 0 then (c, drop_bit k w) else (num, w)) = (num' :: u64, w')"
  shows "\<exists>n'. is_lsb w' n' \<and> n' < k \<and> num' + of_nat n' = num + of_nat n"
proof (cases "w AND m = 0")
  case True
  with lsb_step [OF assms(1), of k] assms(3) have "k \<le> n" "is_lsb (drop_bit k w) (n - k)" by auto
  with True assms(2,4,5) show ?thesis by (intro exI [of _ "n - k"]) auto
next
  case False
  with lsb_step [OF assms(1), of k] assms show ?thesis by auto
qed

lemma raw_ffs_spec:
  assumes "w \<noteq> 0"
  shows "is_lsb w (unat (raw_ffs w))"
proof -
  obtain n where n: "is_lsb w n" using lsb_exists [OF assms] by blast
  then have n64: "n < 64" using bit_word_less [of w n] by (simp add: is_lsb_def)
  obtain c1 w1 :: u64 where s1: "(if w AND 0xffffffff = 0 then (32, drop_bit 32 w) else (0, w)) = (c1, w1)" by fastforce
  obtain c2 w2 where s2: "(if w1 AND 0xffff = 0 then (c1 + 16, drop_bit 16 w1) else (c1, w1)) = (c2, w2)" by fastforce
  obtain c3 w3 where s3: "(if w2 AND 0xff = 0 then (c2 + 8, drop_bit 8 w2) else (c2, w2)) = (c3, w3)" by fastforce
  obtain c4 w4 where s4: "(if w3 AND 0xf = 0 then (c3 + 4, drop_bit 4 w3) else (c3, w3)) = (c4, w4)" by fastforce
  obtain c5 w5 where s5: "(if w4 AND 0x3 = 0 then (c4 + 2, drop_bit 2 w4) else (c4, w4)) = (c5, w5)" by fastforce
  have run: "raw_ffs w = (if w5 AND 1 = 0 then c5 + 1 else c5)"
    by (simp only: raw_ffs_def Let_def s1 s2 s3 s4 s5 prod.case)
  obtain n1 where n1: "is_lsb w1 n1" "n1 < 32" "c1 + of_nat n1 = 0 + of_nat n"
    using lsb_half [OF n _ _ _ s1] n64 by (auto simp: mask_eq_exp_minus_1)
  obtain n2 where n2: "is_lsb w2 n2" "n2 < 16" "c2 + of_nat n2 = c1 + of_nat n1"
    using lsb_half [OF n1(1) _ _ _ s2] n1(2) by (auto simp: mask_eq_exp_minus_1)
  obtain n3 where n3: "is_lsb w3 n3" "n3 < 8" "c3 + of_nat n3 = c2 + of_nat n2"
    using lsb_half [OF n2(1) _ _ _ s3] n2(2) by (auto simp: mask_eq_exp_minus_1)
  obtain n4 where n4: "is_lsb w4 n4" "n4 < 4" "c4 + of_nat n4 = c3 + of_nat n3"
    using lsb_half [OF n3(1) _ _ _ s4] n3(2) by (auto simp: mask_eq_exp_minus_1)
  obtain n5 where n5: "is_lsb w5 n5" "n5 < 2" "c5 + of_nat n5 = c4 + of_nat n4"
    using lsb_half [OF n4(1) _ _ _ s5] n4(2) by (auto simp: mask_eq_exp_minus_1)
  have "w5 AND 1 = 0 \<longleftrightarrow> n5 = 1"
    using lsb_step [OF n5(1), of 1] n5(2) by (auto simp: less_2_cases_iff split: if_splits)
  then have "raw_ffs w = c5 + of_nat n5"
    using run n5(2) by (auto simp: less_2_cases_iff)
  also have "\<dots> = of_nat n" using n1(3) n2(3) n3(3) n4(3) n5(3) by simp
  finally show ?thesis using n n64 by (simp add: unat_of_nat)
qed

lemma ffz_spec: "w \<noteq> NOT 0 \<Longrightarrow> is_lsb (NOT w) (unat (ffz w))"
  unfolding ffz_def by (rule raw_ffs_spec) (metis bit.double_compl)

lemma msb_half:
  assumes "is_msb (w :: 'a :: len word) n" and "LENGTH('a) \<le> n + 2 * k" and "k \<le> LENGTH('a)"
    and "m = push_bit (LENGTH('a) - k) (NOT 0)" and "c = num - of_nat k"
    and "(if w AND m = 0 then (c, push_bit k w) else (num, w)) = (num' :: 'b :: ring_1, w')"
  shows "\<exists>n'. is_msb w' n' \<and> LENGTH('a) \<le> n' + k \<and> num' + of_nat n' = num + of_nat n"
proof (cases "w AND m = 0")
  case True
  with msb_step [OF assms(1,3)] assms(4) have "n + k < LENGTH('a)" "is_msb (push_bit k w) (n + k)" by auto
  with True assms(2,5,6) show ?thesis by (intro exI [of _ "n + k"]) auto
next
  case False
  with msb_step [OF assms(1,3)] assms show ?thesis by auto
qed

lemma msb_last:
  assumes "is_msb (w :: 'a :: len word) n" and "LENGTH('a) \<le> n + 2" and "m = push_bit (LENGTH('a) - 1) (NOT 0)"
  shows "(if w AND m = 0 then num - 1 else num :: 'b :: ring_1) = num + of_nat n - of_nat (LENGTH('a) - 1)"
proof -
  have n: "n < LENGTH('a)" using assms(1) bit_word_less [of w n] by (simp add: is_msb_def)
  have one: "1 \<le> LENGTH('a)" by (simp add: Suc_leI)
  show ?thesis
  proof (cases "w AND m = 0")
    case True
    with msb_step [OF assms(1) one] assms(3) have "n + 1 < LENGTH('a)" by auto
    with assms(2) have "LENGTH('a) = n + 2" by simp
    with True show ?thesis by simp
  next
    case False
    with msb_step [OF assms(1) one] assms(3) n have "n = LENGTH('a) - 1" by auto
    with False show ?thesis by simp
  qed
qed

lemma raw_fls_spec:
  assumes "w \<noteq> 0"
  shows "is_msb w (unat (raw_fls w))"
proof -
  obtain n where n: "is_msb w n" using msb_exists [OF assms] by blast
  then have n64: "n < 64" using bit_word_less [of w n] by (simp add: is_msb_def)
  obtain c1 w1 :: u64 where
    s1: "(if w AND push_bit 32 (NOT 0) = 0 then (63 - 32, push_bit 32 w) else (63, w)) = (c1, w1)" by fastforce
  obtain c2 w2 where
    s2: "(if w1 AND push_bit (64 - 16) (NOT 0) = 0 then (c1 - 16, push_bit 16 w1) else (c1, w1)) = (c2, w2)" by fastforce
  obtain c3 w3 where
    s3: "(if w2 AND push_bit (64 - 8) (NOT 0) = 0 then (c2 - 8, push_bit 8 w2) else (c2, w2)) = (c3, w3)" by fastforce
  obtain c4 w4 where
    s4: "(if w3 AND push_bit (64 - 4) (NOT 0) = 0 then (c3 - 4, push_bit 4 w3) else (c3, w3)) = (c4, w4)" by fastforce
  obtain c5 w5 where
    s5: "(if w4 AND push_bit (64 - 2) (NOT 0) = 0 then (c4 - 2, push_bit 2 w4) else (c4, w4)) = (c5, w5)" by fastforce
  have run: "raw_fls w = (if w5 AND push_bit (64 - 1) (NOT 0) = 0 then c5 - 1 else c5)"
    by (simp only: raw_fls_def Let_def s1 s2 s3 s4 s5 prod.case)
  obtain n1 where n1: "is_msb w1 n1" "64 \<le> n1 + 32" "c1 + of_nat n1 = 63 + of_nat n"
    using msb_half [OF n _ _ _ _ s1] by auto
  obtain n2 where n2: "is_msb w2 n2" "64 \<le> n2 + 16" "c2 + of_nat n2 = c1 + of_nat n1"
    using msb_half [OF n1(1) _ _ _ _ s2] n1(2) by auto
  obtain n3 where n3: "is_msb w3 n3" "64 \<le> n3 + 8" "c3 + of_nat n3 = c2 + of_nat n2"
    using msb_half [OF n2(1) _ _ _ _ s3] n2(2) by auto
  obtain n4 where n4: "is_msb w4 n4" "64 \<le> n4 + 4" "c4 + of_nat n4 = c3 + of_nat n3"
    using msb_half [OF n3(1) _ _ _ _ s4] n3(2) by auto
  obtain n5 where n5: "is_msb w5 n5" "64 \<le> n5 + 2" "c5 + of_nat n5 = c4 + of_nat n4"
    using msb_half [OF n4(1) _ _ _ _ s5] n4(2) by auto
  have "raw_fls w = c5 + of_nat n5 - of_nat 63"
    unfolding run using msb_last [OF n5(1), of _ c5] n5(2) by simp
  also have "\<dots> = of_nat n" using n1(3) n2(3) n3(3) n4(3) n5(3) by simp
  finally show ?thesis using n n64 by (simp add: unat_of_nat)
qed

lemma fls_spec:
  assumes "w \<noteq> 0"
  shows "is_msb w (nat (fls w - 1)) \<and> 1 \<le> fls w \<and> fls w \<le> 32"
proof -
  obtain n where n: "is_msb w n" using msb_exists [OF assms] by blast
  then have n32: "n < 32" using bit_word_less [of w n] by (simp add: is_msb_def)
  have lit: "0xffff0000 = (push_bit 16 (NOT 0) :: u32)" "0xff000000 = (push_bit 24 (NOT 0) :: u32)"
    "0xf0000000 = (push_bit 28 (NOT 0) :: u32)" "0xc0000000 = (push_bit 30 (NOT 0) :: u32)"
    "0x80000000 = (push_bit 31 (NOT 0) :: u32)"
    by (simp_all add: mask_eq_exp_minus_1)
  obtain w1 and c1 :: int where s1: "(if w AND 0xffff0000 = 0 then (push_bit 16 w, 32 - 16) else (w, 32)) = (w1, c1)" by fastforce
  obtain w2 c2 where s2: "(if w1 AND 0xff000000 = 0 then (push_bit 8 w1, c1 - 8) else (w1, c1)) = (w2, c2)" by fastforce
  obtain w3 c3 where s3: "(if w2 AND 0xf0000000 = 0 then (push_bit 4 w2, c2 - 4) else (w2, c2)) = (w3, c3)" by fastforce
  obtain w4 c4 where s4: "(if w3 AND 0xc0000000 = 0 then (push_bit 2 w3, c3 - 2) else (w3, c3)) = (w4, c4)" by fastforce
  have swap: "(if b then (c, x) else (d, y)) = (e, z)" if "(if b then (x, c) else (y, d)) = (z, e)"
    for b and c d e :: int and x y z :: u32
    using that by (simp split: if_splits)
  have run: "fls w = (if w4 AND 0x80000000 = 0 then c4 - 1 else c4)"
    using assms by (simp only: fls_def Let_def s1 s2 s3 s4 prod.case if_False)
  obtain n1 where n1: "is_msb w1 n1" "32 \<le> n1 + 16" "c1 + of_nat n1 = 32 + of_nat n"
    using msb_half [OF n _ _ _ _ swap [OF s1]] lit by auto
  obtain n2 where n2: "is_msb w2 n2" "32 \<le> n2 + 8" "c2 + of_nat n2 = c1 + of_nat n1"
    using msb_half [OF n1(1) _ _ _ _ swap [OF s2]] n1(2) lit by auto
  obtain n3 where n3: "is_msb w3 n3" "32 \<le> n3 + 4" "c3 + of_nat n3 = c2 + of_nat n2"
    using msb_half [OF n2(1) _ _ _ _ swap [OF s3]] n2(2) lit by auto
  obtain n4 where n4: "is_msb w4 n4" "32 \<le> n4 + 2" "c4 + of_nat n4 = c3 + of_nat n3"
    using msb_half [OF n3(1) _ _ _ _ swap [OF s4]] n3(2) lit by auto
  have "fls w = c4 + of_nat n4 - of_nat 31"
    unfolding run using msb_last [OF n4(1), of _ c4] n4(2) lit by simp
  then have "fls w = int n + 1" using n1(3) n2(3) n3(3) n4(3) by simp
  with n n32 show ?thesis by simp
qed

section \<open>Arrays of bits\<close>

definition bitat :: "bitarray \<Rightarrow> nat \<Rightarrow> bool" where
  "bitat addr i \<longleftrightarrow> bit (addr ! (i div 64)) (i mod 64)"

lemma word_index_less: "i < 64 * length (addr :: bitarray) \<Longrightarrow> i div 64 < length addr"
  by (simp add: less_mult_imp_div_less mult.commute)

lemma and_bit_mask: "w AND BIT_MASK nr \<noteq> 0 \<longleftrightarrow> bit w (nr mod 64)"
  by (auto simp: BIT_MASK_def word_has_bit bit_simps)

lemma one_and_drop_bit: "1 AND drop_bit k w \<noteq> (0 :: 'a :: len word) \<longleftrightarrow> bit w k"
  by (auto simp: word_has_bit bit_simps)

lemma bit_BIT_MASK: "bit (BIT_MASK nr) k \<longleftrightarrow> k = nr mod 64"
  by (auto simp: BIT_MASK_def bit_simps)

lemma bitat_update:
  assumes "nr div 64 < length addr"
  shows "bitat (addr[nr div 64 := w]) i = (if i div 64 = nr div 64 then bit w (i mod 64) else bitat addr i)"
  using assms by (simp add: bitat_def nth_list_update)

lemma same_bit_iff: "i div 64 = (n :: nat) div 64 \<Longrightarrow> i mod 64 = n mod 64 \<longleftrightarrow> i = n"
  by (metis div_mult_mod_eq)

lemma set_bit_at_spec:
  assumes "nr < 64 * length addr"
  shows "\<exists>addr'. set_bit_at nr addr = Some addr' \<and> length addr' = length addr
    \<and> (\<forall>i. bitat addr' i \<longleftrightarrow> i = nr \<or> bitat addr i)"
  using word_index_less [OF assms] same_bit_iff [of _ nr]
  by (auto simp: set_bit_at_def BIT_WORD_def aget_def aset_def bitat_update bit_or_iff bit_BIT_MASK)
    (auto simp: bitat_def)

lemma clear_bit_at_spec:
  assumes "nr < 64 * length addr"
  shows "\<exists>addr'. clear_bit_at nr addr = Some addr' \<and> length addr' = length addr
    \<and> (\<forall>i. bitat addr' i \<longleftrightarrow> i \<noteq> nr \<and> bitat addr i)"
  using word_index_less [OF assms] same_bit_iff [of _ nr]
  by (auto simp: clear_bit_at_def BIT_WORD_def aget_def aset_def bitat_update bit_and_iff bit_not_iff bit_BIT_MASK)
    (auto simp: bitat_def)

lemma test_and_set_bit_spec:
  assumes "nr < 64 * length addr"
  shows "\<exists>addr'. test_and_set_bit nr addr = Some (bitat addr nr, addr') \<and> length addr' = length addr
    \<and> (\<forall>i. bitat addr' i \<longleftrightarrow> i = nr \<or> bitat addr i)"
  using word_index_less [OF assms] set_bit_at_spec [OF assms]
  by (auto simp: test_and_set_bit_def set_bit_at_def BIT_WORD_def aget_def aset_def and_bit_mask bitat_def)

lemma test_and_clear_bit_spec:
  assumes "nr < 64 * length addr"
  shows "\<exists>addr'. test_and_clear_bit nr addr = Some (bitat addr nr, addr') \<and> length addr' = length addr
    \<and> (\<forall>i. bitat addr' i \<longleftrightarrow> i \<noteq> nr \<and> bitat addr i)"
  using word_index_less [OF assms] clear_bit_at_spec [OF assms]
  by (auto simp: test_and_clear_bit_def clear_bit_at_def BIT_WORD_def aget_def aset_def and_bit_mask bitat_def)

lemma test_bit_spec: "nr < 64 * length addr \<Longrightarrow> test_bit nr addr = Some (bitat addr nr)"
  using word_index_less [of nr addr]
  by (simp add: test_bit_def BIT_WORD_def aget_def one_and_drop_bit bitat_def)

section \<open>Byte swap\<close>

lemma swab64_masks:
  "swab64 x =
     push_bit 56 (x AND mask 8) OR push_bit 40 (x AND push_bit 8 (mask 8)) OR
     push_bit 24 (x AND push_bit 16 (mask 8)) OR push_bit 8 (x AND push_bit 24 (mask 8)) OR
     drop_bit 8 (x AND push_bit 32 (mask 8)) OR drop_bit 24 (x AND push_bit 40 (mask 8)) OR
     drop_bit 40 (x AND push_bit 48 (mask 8)) OR drop_bit 56 (x AND push_bit 56 (mask 8))"
  by (simp add: swab64_def mask_eq_exp_minus_1)

lemma bit_swab64:
  assumes "n < 64"
  shows "bit (swab64 x) n \<longleftrightarrow> bit x (8 * (7 - n div 8) + n mod 8)"
proof -
  define q r where "q = n div 8" and "r = n mod 8"
  have n: "n = 8 * q + r" "r < 8" by (simp_all add: q_def r_def)
  with assms have "q < 8" by simp
  then consider "q = 0" | "q = 1" | "q = 2" | "q = 3" | "q = 4" | "q = 5" | "q = 6" | "q = 7" by linarith
  then show ?thesis
    unfolding swab64_masks q_def [symmetric] r_def [symmetric]
    by cases (use n(2) in \<open>auto simp: n(1) bit_simps\<close>)
qed

lemma swab64_swab64: "swab64 (swab64 x) = x"
proof (rule bit_word_eqI)
  fix n assume "n < LENGTH(64)"
  then have n: "n < 64" by simp
  let ?m = "8 * (7 - n div 8) + n mod 8"
  have "?m < 64" "?m div 8 = 7 - n div 8" "?m mod 8 = n mod 8" using n by auto
  moreover have "8 * (7 - (7 - n div 8)) + n mod 8 = n" using n by simp
  ultimately show "bit (swab64 (swab64 x)) n = bit x n"
    using bit_swab64 [OF n] bit_swab64 [of ?m] by simp
qed

lemma swab64_0: "swab64 x = 0 \<longleftrightarrow> x = 0"
proof -
  have "swab64 0 = 0" by (simp add: swab64_def)
  then show ?thesis by (metis swab64_swab64)
qed

end
