(* ===== verification/Find_Bit.thy ===== *)
theory Find_Bit
  imports Bitops
begin

text \<open>
  Model of \<open>lib/find_next_bit.c\<close> and \<open>lib/find_last_bit.c\<close> for 64-bit words: the
  searches for the next, the first and the last set or cleared bit of a bit array, and the
  variants for little-endian bitmaps on a big-endian machine.  The searches for a cleared bit and
  the little-endian ones are shown to be \<open>find_next_bit\<close> on the array with complemented or
  byte-swapped words, and \<open>find_next_bit\<close> to return the least hit.
  The interface of a search is a locale; its client, the loop
  \<open>for_each_set_bit\<close> of \<open>include/linux/bitops.h\<close>, visits exactly the hits, in order.
\<close>

section \<open>Model\<close>

text \<open>The code behind the labels \<open>found_first\<close> (which falls into \<open>found_middle\<close>).\<close>

definition found_first :: "u64 \<Rightarrow> u64 \<Rightarrow> u64 \<Rightarrow> u64" where
  "found_first result sz tmp =
     (let tmp = tmp AND drop_bit (64 - unat sz) (NOT 0)
      in if tmp = 0 then result + sz else result + raw_ffs tmp)"

function find_next_loop :: "bitarray \<Rightarrow> nat \<Rightarrow> u64 \<Rightarrow> u64 \<Rightarrow> u64 option" where
  "find_next_loop addr p sz result =
     (if sz AND NOT 63 \<noteq> 0
      then do {
        tmp \<leftarrow> aget addr p;
        if tmp \<noteq> 0 then Some (result + raw_ffs tmp)
        else find_next_loop addr (p + 1) (sz - 64) (result + 64) }
      else if sz = 0 then Some result
      else do { tmp \<leftarrow> aget addr p; Some (found_first result sz tmp) })"
  by pat_completeness auto

lemma and_not_63: "unat (x AND NOT 63 :: u64) = unat x div 64 * 64"
  using unat_and_not_mask [of x 6] by (simp add: mask_eq_exp_minus_1)

lemma and_not_63_nonzero: "x AND NOT 63 \<noteq> (0 :: u64) \<longleftrightarrow> 64 \<le> unat x"
proof -
  have "x AND NOT 63 \<noteq> 0 \<longleftrightarrow> unat (x AND NOT 63) \<noteq> 0" by (simp add: word_unat_eq_iff)
  also have "\<dots> \<longleftrightarrow> 64 \<le> unat x" unfolding and_not_63 by auto
  finally show ?thesis .
qed

lemma and_minus_64: "x AND - 64 = (0 :: u64) \<longleftrightarrow> unat x < 64"
  using and_not_63_nonzero [of x] by (auto simp: not_le)

lemma unat_sub_64: "64 \<le> unat (x :: u64) \<Longrightarrow> unat (x - 64) = unat x - 64"
  using unat_sub_nowrap [of 64 x] by simp

termination find_next_loop
  by (relation "measure (\<lambda>(addr, p, sz, result). unat sz)") (auto simp: and_minus_64 unat_sub_64)

definition find_next_bit :: "bitarray \<Rightarrow> u64 \<Rightarrow> u64 \<Rightarrow> u64 option" where
  "find_next_bit addr sz offset =
     (let p = unat offset div 64; result = offset AND NOT 63
      in if offset \<ge> sz then Some sz
         else let sz = sz - result; offset = offset mod 64
           in if offset \<noteq> 0
              then do {
                tmp \<leftarrow> aget addr p;
                let tmp = tmp AND push_bit (unat offset) (NOT 0);
                if sz < 64 then Some (found_first result sz tmp)
                else if tmp \<noteq> 0 then Some (result + raw_ffs tmp)
                else find_next_loop addr (p + 1) (sz - 64) (result + 64) }
              else find_next_loop addr p sz result)"

definition zero_found_first :: "u64 \<Rightarrow> u64 \<Rightarrow> u64 \<Rightarrow> u64" where
  "zero_found_first result sz tmp =
     (let tmp = tmp OR push_bit (unat sz) (NOT 0)
      in if tmp = NOT 0 then result + sz else result + ffz tmp)"

function find_next_zero_loop :: "bitarray \<Rightarrow> nat \<Rightarrow> u64 \<Rightarrow> u64 \<Rightarrow> u64 option" where
  "find_next_zero_loop addr p sz result =
     (if sz AND NOT 63 \<noteq> 0
      then do {
        tmp \<leftarrow> aget addr p;
        if NOT tmp \<noteq> 0 then Some (result + ffz tmp)
        else find_next_zero_loop addr (p + 1) (sz - 64) (result + 64) }
      else if sz = 0 then Some result
      else do { tmp \<leftarrow> aget addr p; Some (zero_found_first result sz tmp) })"
  by pat_completeness auto
termination
  by (relation "measure (\<lambda>(addr, p, sz, result). unat sz)") (auto simp: and_minus_64 unat_sub_64)

definition find_next_zero_bit :: "bitarray \<Rightarrow> u64 \<Rightarrow> u64 \<Rightarrow> u64 option" where
  "find_next_zero_bit addr sz offset =
     (let p = unat offset div 64; result = offset AND NOT 63
      in if offset \<ge> sz then Some sz
         else let sz = sz - result; offset = offset mod 64
           in if offset \<noteq> 0
              then do {
                tmp \<leftarrow> aget addr p;
                let tmp = tmp OR drop_bit (64 - unat offset) (NOT 0);
                if sz < 64 then Some (zero_found_first result sz tmp)
                else if NOT tmp \<noteq> 0 then Some (result + ffz tmp)
                else find_next_zero_loop addr (p + 1) (sz - 64) (result + 64) }
              else find_next_zero_loop addr p sz result)"

function find_first_loop :: "bitarray \<Rightarrow> nat \<Rightarrow> u64 \<Rightarrow> u64 \<Rightarrow> u64 option" where
  "find_first_loop addr p sz result =
     (if sz AND NOT 63 \<noteq> 0
      then do {
        tmp \<leftarrow> aget addr p;
        if tmp \<noteq> 0 then Some (result + raw_ffs tmp)
        else find_first_loop addr (p + 1) (sz - 64) (result + 64) }
      else if sz = 0 then Some result
      else do {
        w \<leftarrow> aget addr p;
        let tmp = w AND drop_bit (64 - unat sz) (NOT 0);
        Some (if tmp = 0 then result + sz else result + raw_ffs tmp) })"
  by pat_completeness auto
termination
  by (relation "measure (\<lambda>(addr, p, sz, result). unat sz)") (auto simp: and_minus_64 unat_sub_64)

definition find_first_bit :: "bitarray \<Rightarrow> u64 \<Rightarrow> u64 option" where
  "find_first_bit addr sz = find_first_loop addr 0 sz 0"

function find_first_zero_loop :: "bitarray \<Rightarrow> nat \<Rightarrow> u64 \<Rightarrow> u64 \<Rightarrow> u64 option" where
  "find_first_zero_loop addr p sz result =
     (if sz AND NOT 63 \<noteq> 0
      then do {
        tmp \<leftarrow> aget addr p;
        if NOT tmp \<noteq> 0 then Some (result + ffz tmp)
        else find_first_zero_loop addr (p + 1) (sz - 64) (result + 64) }
      else if sz = 0 then Some result
      else do {
        w \<leftarrow> aget addr p;
        let tmp = w OR push_bit (unat sz) (NOT 0);
        Some (if tmp = NOT 0 then result + sz else result + ffz tmp) })"
  by pat_completeness auto
termination
  by (relation "measure (\<lambda>(addr, p, sz, result). unat sz)") (auto simp: and_minus_64 unat_sub_64)

definition find_first_zero_bit :: "bitarray \<Rightarrow> u64 \<Rightarrow> u64 option" where
  "find_first_zero_bit addr sz = find_first_zero_loop addr 0 sz 0"

text \<open>Little-endian bitmaps on a big-endian machine: \<open>ext2_swabp\<close> and \<open>ext2_swab\<close> swap the bytes of a word.\<close>

definition ext2_swab :: "u64 \<Rightarrow> u64" where
  "ext2_swab y = swab64 y"

function find_next_le_loop :: "bitarray \<Rightarrow> nat \<Rightarrow> u64 \<Rightarrow> u64 \<Rightarrow> u64 option" where
  "find_next_le_loop addr p sz result =
     (if sz AND NOT 63 \<noteq> 0
      then do {
        tmp \<leftarrow> aget addr p;
        if tmp \<noteq> 0 then Some (result + raw_ffs (ext2_swab tmp))
        else find_next_le_loop addr (p + 1) (sz - 64) (result + 64) }
      else if sz = 0 then Some result
      else do { w \<leftarrow> aget addr p; Some (found_first result sz (ext2_swab w)) })"
  by pat_completeness auto
termination
  by (relation "measure (\<lambda>(addr, p, sz, result). unat sz)") (auto simp: and_minus_64 unat_sub_64)

definition generic_find_next_le_bit :: "bitarray \<Rightarrow> u64 \<Rightarrow> u64 \<Rightarrow> u64 option" where
  "generic_find_next_le_bit addr sz offset =
     (let p = unat offset div 64; result = offset AND NOT 63
      in if offset \<ge> sz then Some sz
         else let sz = sz - result; offset = offset AND 63
           in if offset \<noteq> 0
              then do {
                w \<leftarrow> aget addr p;
                let tmp = ext2_swab w AND push_bit (unat offset) (NOT 0);
                if sz < 64 then Some (found_first result sz tmp)
                else if tmp \<noteq> 0 then Some (result + raw_ffs tmp)
                else find_next_le_loop addr (p + 1) (sz - 64) (result + 64) }
              else find_next_le_loop addr p sz result)"

function find_next_zero_le_loop :: "bitarray \<Rightarrow> nat \<Rightarrow> u64 \<Rightarrow> u64 \<Rightarrow> u64 option" where
  "find_next_zero_le_loop addr p sz result =
     (if sz AND NOT 63 \<noteq> 0
      then do {
        tmp \<leftarrow> aget addr p;
        if NOT tmp \<noteq> 0 then Some (result + ffz (ext2_swab tmp))
        else find_next_zero_le_loop addr (p + 1) (sz - 64) (result + 64) }
      else if sz = 0 then Some result
      else do { w \<leftarrow> aget addr p; Some (zero_found_first result sz (ext2_swab w)) })"
  by pat_completeness auto
termination
  by (relation "measure (\<lambda>(addr, p, sz, result). unat sz)") (auto simp: and_minus_64 unat_sub_64)

definition generic_find_next_zero_le_bit :: "bitarray \<Rightarrow> u64 \<Rightarrow> u64 \<Rightarrow> u64 option" where
  "generic_find_next_zero_le_bit addr sz offset =
     (let p = unat offset div 64; result = offset AND NOT 63
      in if offset \<ge> sz then Some sz
         else let sz = sz - result; offset = offset AND 63
           in if offset \<noteq> 0
              then do {
                w \<leftarrow> aget addr p;
                let tmp = ext2_swab w OR drop_bit (64 - unat offset) (NOT 0);
                if sz < 64 then Some (zero_found_first result sz tmp)
                else if NOT tmp \<noteq> 0 then Some (result + ffz tmp)
                else find_next_zero_le_loop addr (p + 1) (sz - 64) (result + 64) }
              else find_next_zero_le_loop addr p sz result)"

text \<open>\<open>find_last_bit\<close>; \<open>words\<close> counts down.\<close>

function find_last_loop :: "bitarray \<Rightarrow> nat \<Rightarrow> u64 \<Rightarrow> u64 option" where
  "find_last_loop addr words sz =
     (if words \<noteq> 0
      then do {
        tmp \<leftarrow> aget addr (words - 1);
        if tmp \<noteq> 0 then Some (of_nat (words - 1) * 64 + raw_fls tmp)
        else find_last_loop addr (words - 1) sz }
      else Some sz)"
  by pat_completeness auto
termination
  by (relation "measure (\<lambda>(addr, words, sz). words)") auto

definition find_last_bit :: "bitarray \<Rightarrow> u64 \<Rightarrow> u64 option" where
  "find_last_bit addr sz =
     (let words = unat (sz div 64)
      in if sz AND 63 \<noteq> 0
         then do {
           w \<leftarrow> aget addr words;
           let tmp = w AND drop_bit (64 - unat (sz AND 63)) (NOT 0);
           if tmp \<noteq> 0 then Some (of_nat words * 64 + raw_fls tmp)
           else find_last_loop addr words sz }
         else find_last_loop addr words sz)"

text \<open>\<open>for_each_set_bit(bit, addr, size)\<close> with the visited bits collected; \<open>search\<close> is \<open>find_next_bit\<close>.\<close>

partial_function (option) for_each_bit ::
  "(bitarray \<Rightarrow> u64 \<Rightarrow> u64 \<Rightarrow> u64 option) \<Rightarrow> bitarray \<Rightarrow> u64 \<Rightarrow> u64 \<Rightarrow> u64 list option" where
  "for_each_bit search addr sz b =
     (if b < sz
      then do {
        next \<leftarrow> search addr sz (b + 1);
        rest \<leftarrow> for_each_bit search addr sz next;
        Some (b # rest) }
      else Some [])"

declare find_next_loop.simps [simp del] find_next_zero_loop.simps [simp del] find_first_loop.simps [simp del]
  find_first_zero_loop.simps [simp del] find_next_le_loop.simps [simp del] find_next_zero_le_loop.simps [simp del]
  find_last_loop.simps [simp del]

section \<open>The other searches as \<open>find_next_bit\<close>\<close>

lemma drop_not_0: "k \<le> 64 \<Longrightarrow> drop_bit (64 - k) (NOT 0 :: u64) = mask k"
  by (rule bit_word_eqI) (auto simp: bit_simps)

lemma aget_map: "aget (map f xs) i = map_option f (aget xs i)"
  by (simp add: aget_def)

lemma not_or_high: "k \<le> 64 \<Longrightarrow> NOT (w OR push_bit k (NOT 0)) = NOT (w :: u64) AND mask k"
  by (rule bit_word_eqI) (auto simp: bit_simps)

lemma zero_found_first_eq:
  assumes "unat sz \<le> 64"
  shows "zero_found_first result sz tmp = found_first result sz (NOT tmp)"
proof -
  let ?t = "tmp OR push_bit (unat sz) (NOT 0)"
  have "NOT tmp AND drop_bit (64 - unat sz) (NOT 0) = NOT ?t"
    using assms by (simp only: not_or_high drop_not_0)
  moreover have "?t = NOT 0 \<longleftrightarrow> NOT ?t = 0" by (metis bit.double_compl)
  ultimately show ?thesis
    unfolding zero_found_first_def found_first_def Let_def ffz_def by simp
qed

lemma find_next_zero_loop_eq: "find_next_zero_loop addr p sz result = find_next_loop (map NOT addr) p sz result"
proof (induction addr p sz result rule: find_next_zero_loop.induct)
  case (1 addr p sz result)
  show ?case
  proof (cases "sz AND NOT 63 \<noteq> 0")
    case True
    with "1.IH" show ?thesis
      by (subst find_next_zero_loop.simps, subst find_next_loop.simps)
        (auto simp: aget_map ffz_def split: bind_splits option.splits)
  next
    case False
    then have "unat sz \<le> 64" by (simp add: and_minus_64)
    with False show ?thesis
      by (subst find_next_zero_loop.simps, subst find_next_loop.simps)
        (auto simp: aget_map zero_found_first_eq split: bind_splits option.splits)
  qed
qed

lemma not_or_low: "NOT (w OR drop_bit (64 - k) (NOT 0)) = NOT (w :: u64) AND push_bit k (NOT 0)" if "k \<le> 64"
  using that by (intro bit_word_eqI) (auto simp: bit_simps drop_not_0)

lemma unat_mod_64: "unat (x mod 64 :: u64) = unat x mod 64"
  by (simp add: unat_mod_distrib)

lemma find_next_zero_bit_eq: "find_next_zero_bit addr sz offset = find_next_bit (map NOT addr) sz offset"
proof -
  have k: "unat (offset mod 64) \<le> 64" by (simp add: unat_mod_64 less_imp_le)
  have sz: "unat x \<le> 64" if "x < (64 :: u64)" for x using that by (simp add: word_less_nat_alt)
  have "(if x < 64 then Some (zero_found_first r x t) else y) = (if x < 64 then Some (found_first r x (NOT t)) else y)"
    for x r t and y :: "u64 option"
    using zero_found_first_eq [OF sz] by simp
  note * = this
  show ?thesis
    unfolding find_next_zero_bit_def find_next_bit_def Let_def aget_map find_next_zero_loop_eq *
    by (cases "aget addr (unat offset div 64)")
      (simp_all add: not_or_low [OF k, symmetric] ffz_def diff_diff_cancel [OF k])
qed

lemma find_first_loop_eq: "find_first_loop addr p sz result = find_next_loop addr p sz result"
proof (induction addr p sz result rule: find_first_loop.induct)
  case (1 addr p sz result)
  then show ?case
    by (subst find_first_loop.simps, subst find_next_loop.simps)
      (auto simp: found_first_def Let_def split: bind_splits option.splits)
qed

lemma find_first_zero_loop_eq: "find_first_zero_loop addr p sz result = find_next_zero_loop addr p sz result"
proof (induction addr p sz result rule: find_first_zero_loop.induct)
  case (1 addr p sz result)
  then show ?case
    by (subst find_first_zero_loop.simps, subst find_next_zero_loop.simps)
      (auto simp: zero_found_first_def Let_def split: bind_splits option.splits)
qed

lemma find_next_bit_0: "find_next_bit addr sz 0 = find_next_loop addr 0 sz 0"
  by (simp add: find_next_bit_def find_next_loop.simps [of addr 0 0])

lemma find_first_bit_eq: "find_first_bit addr sz = find_next_bit addr sz 0"
  by (simp add: find_first_bit_def find_first_loop_eq find_next_bit_0)

lemma find_first_zero_bit_eq: "find_first_zero_bit addr sz = find_next_zero_bit addr sz 0"
  by (simp add: find_first_zero_bit_def find_first_zero_loop_eq find_next_zero_bit_eq find_next_zero_loop_eq
      find_next_bit_0)

lemma and_63: "x AND 63 = (x mod 64 :: u64)"
proof -
  have "x AND 63 = take_bit 6 x" by (simp add: take_bit_eq_mask mask_eq_exp_minus_1)
  then show ?thesis by (simp add: take_bit_eq_mod)
qed

lemma ext2_swab_0: "ext2_swab x = 0 \<longleftrightarrow> x = 0"
  by (simp add: ext2_swab_def swab64_0)

lemma find_next_le_loop_eq: "find_next_le_loop addr p sz result = find_next_loop (map ext2_swab addr) p sz result"
proof (induction addr p sz result rule: find_next_le_loop.induct)
  case (1 addr p sz result)
  then show ?case
    by (subst find_next_le_loop.simps, subst find_next_loop.simps)
      (auto simp: aget_map ext2_swab_0 split: bind_splits option.splits)
qed

lemma find_next_le_bit_eq: "generic_find_next_le_bit addr sz offset = find_next_bit (map ext2_swab addr) sz offset"
  unfolding generic_find_next_le_bit_def find_next_bit_def Let_def aget_map find_next_le_loop_eq and_63
  by (cases "aget addr (unat offset div 64)") simp_all

lemma ext2_swab_minus_1: "NOT (ext2_swab x) = 0 \<longleftrightarrow> NOT x = 0"
  unfolding ext2_swab_def
proof -
  have not: "NOT y = 0 \<longleftrightarrow> y = NOT 0" for y :: u64
  proof
    assume "NOT y = 0"
    then have "NOT (NOT y) = NOT 0" by simp
    then show "y = NOT 0" by simp
  qed simp
  have "swab64 (NOT 0) = NOT 0" by (simp add: swab64_def)
  then have "swab64 x = NOT 0 \<longleftrightarrow> x = NOT 0" using swab64_swab64 [of x] by metis
  then show "NOT (swab64 x) = 0 \<longleftrightarrow> NOT x = 0" unfolding not .
qed

lemma find_next_zero_le_loop_eq:
  "find_next_zero_le_loop addr p sz result = find_next_zero_loop (map ext2_swab addr) p sz result"
proof (induction addr p sz result rule: find_next_zero_le_loop.induct)
  case (1 addr p sz result)
  then show ?case
    by (subst find_next_zero_le_loop.simps, subst find_next_zero_loop.simps)
      (auto simp: aget_map ext2_swab_minus_1 split: bind_splits option.splits)
qed

lemma find_next_zero_le_bit_eq:
  "generic_find_next_zero_le_bit addr sz offset = find_next_zero_bit (map ext2_swab addr) sz offset"
  unfolding generic_find_next_zero_le_bit_def find_next_zero_bit_def Let_def aget_map find_next_zero_le_loop_eq and_63
  by (cases "aget addr (unat offset div 64)") simp_all

section \<open>The search finds the least hit\<close>

definition next_hit :: "(nat \<Rightarrow> bool) \<Rightarrow> nat \<Rightarrow> nat \<Rightarrow> nat \<Rightarrow> bool" where
  "next_hit P lo n r \<longleftrightarrow> lo \<le> r \<and> r \<le> n \<and> (\<forall>i. lo \<le> i \<longrightarrow> i < r \<longrightarrow> \<not> P i) \<and> (r < n \<longrightarrow> P r)"

lemma next_hit_unique: "next_hit P lo n r \<Longrightarrow> next_hit P lo n q \<Longrightarrow> r = q"
  unfolding next_hit_def by (meson linorder_neqE_nat order_less_le_trans)

text \<open>A hit inside one word: position \<open>64 * p + k\<close>.\<close>

lemma bitat_word: "k < 64 \<Longrightarrow> bitat addr (64 * p + k) \<longleftrightarrow> bit (addr ! p) k"
  by (simp add: bitat_def)

lemma no_hit_word:
  assumes "\<And>m. lo \<le> m \<Longrightarrow> m < n \<Longrightarrow> \<not> bit (addr ! p) m" and "n \<le> 64"
    and "64 * p + lo \<le> i" and "i < 64 * p + n"
  shows "\<not> bitat addr i"
proof -
  define m where "m = i - 64 * p"
  have "i = 64 * p + m" "lo \<le> m" "m < n" using assms(3,4) by (auto simp: m_def)
  with assms(1,2) show ?thesis by (simp add: bitat_word)
qed

lemma next_hit_in_word:
  assumes "is_lsb tmp k" and "\<And>m. bit tmp m \<longleftrightarrow> lo \<le> m \<and> m < n \<and> m < 64 \<and> bit (addr ! p) m" and "64 * p + n \<le> N"
  shows "next_hit (bitat addr) (64 * p + lo) N (64 * p + k)"
proof -
  have k: "lo \<le> k" "k < n" "k < 64" "bit (addr ! p) k" using assms(1,2) [unfolded is_lsb_def] by auto
  have "\<not> bit (addr ! p) m" if "lo \<le> m" "m < k" for m
    using assms(1) assms(2) [of m] that k by (auto simp: is_lsb_def)
  from no_hit_word [OF this] k(3)
  have "\<not> bitat addr i" if "64 * p + lo \<le> i" "i < 64 * p + k" for i
    using that by simp
  with k assms(3) show ?thesis by (auto simp: next_hit_def bitat_word)
qed

lemma next_hit_skip:
  assumes "\<And>i. lo \<le> i \<Longrightarrow> i < mid \<Longrightarrow> \<not> P i" and "next_hit P mid N r" and "lo \<le> mid"
  shows "next_hit P lo N r"
  using assms unfolding next_hit_def by (meson le_less_linear le_trans)

lemma found_first_spec:
  assumes sz: "0 < unat sz" "unat sz < 64" and res: "unat result = 64 * p" and fit: "64 * p + unat sz < 2 ^ 64"
    and tmp: "\<And>m. bit tmp m \<longleftrightarrow> lo \<le> m \<and> m < 64 \<and> bit (addr ! p) m" and low: "lo \<le> unat sz"
  shows "next_hit (bitat addr) (64 * p + lo) (64 * p + unat sz) (unat (found_first result sz tmp))"
proof -
  let ?t = "tmp AND mask (unat sz)"
  have bits: "bit ?t m \<longleftrightarrow> lo \<le> m \<and> m < unat sz \<and> m < 64 \<and> bit (addr ! p) m" for m
    using tmp sz(2) by (auto simp: bit_simps)
  have ff: "found_first result sz tmp = (if ?t = 0 then result + sz else result + raw_ffs ?t)"
    using sz(2) by (simp add: found_first_def drop_not_0 Let_def)
  show ?thesis
  proof (cases "?t = 0")
    case True
    then have "\<not> bit (addr ! p) m" if "lo \<le> m" "m < unat sz" for m
      using bits [of m] that sz(2) by simp
    from no_hit_word [OF this] sz(2)
    have "\<not> bitat addr i" if "64 * p + lo \<le> i" "i < 64 * p + unat sz" for i
      using that by simp
    moreover have "unat (result + sz) = 64 * p + unat sz"
      using unat_add_nowrap [of result sz] res fit by simp
    ultimately show ?thesis using True ff low by (simp add: next_hit_def)
  next
    case False
    note lsb = raw_ffs_spec [OF False]
    have "unat (raw_ffs ?t) < unat sz" using lsb bits by (simp add: is_lsb_def)
    then have "unat (result + raw_ffs ?t) = 64 * p + unat (raw_ffs ?t)"
      using unat_add_nowrap [of result "raw_ffs ?t"] res fit by simp
    with next_hit_in_word [OF lsb bits order_refl] False ff show ?thesis by simp
  qed
qed

lemma find_next_loop_spec:
  assumes "unat result = 64 * p" and "64 * p + unat sz \<le> 64 * length addr" and "64 * p + unat sz < 2 ^ 64"
  shows "\<exists>r. find_next_loop addr p sz result = Some r
    \<and> next_hit (bitat addr) (64 * p) (64 * p + unat sz) (unat r)"
  using assms
proof (induction addr p sz result rule: find_next_loop.induct)
  case (1 addr p sz result)
  consider (full) "64 \<le> unat sz" | (none) "sz = 0" | (part) "0 < unat sz" "unat sz < 64"
    by (metis linorder_not_le neq0_conv unsigned_0 word_unat_eq_iff)
  then show ?case
  proof cases
    case none
    with "1.prems"(1) show ?thesis
      by (subst find_next_loop.simps) (simp add: next_hit_def)
  next
    case part
    then have p: "p < length addr" using "1.prems"(2) by linarith
    have "sz AND NOT 63 = 0" using part(2) and_not_63_nonzero [of sz] by auto
    then have "find_next_loop addr p sz result = Some (found_first result sz (addr ! p))"
      using part(1) p by (subst find_next_loop.simps) (auto simp: aget_def)
    moreover have "next_hit (bitat addr) (64 * p + 0) (64 * p + unat sz) (unat (found_first result sz (addr ! p)))"
      by (rule found_first_spec [OF part "1.prems"(1,3)]) (auto dest: bit_word_less)
    ultimately show ?thesis by simp
  next
    case full
    then have p: "p < length addr" using "1.prems"(2) by linarith
    have nz: "sz AND NOT 63 \<noteq> 0" using full by (simp only: and_not_63_nonzero)
    show ?thesis
    proof (cases "addr ! p = 0")
      case True
      have eq: "find_next_loop addr p sz result = find_next_loop addr (p + 1) (sz - 64) (result + 64)"
        using nz p True by (subst find_next_loop.simps) (simp add: aget_def)
      have res: "unat (result + 64) = 64 * (p + 1)"
        using unat_add_nowrap [of result 64] "1.prems"(1,3) full by simp
      have lim: "64 * (p + 1) + unat (sz - 64) = 64 * p + unat sz"
        using full by (simp add: unat_sub_64)
      have "aget addr p = Some (addr ! p)" "\<not> addr ! p \<noteq> 0" using p True by (simp_all add: aget_def)
      from "1.IH" [OF nz this res] "1.prems"(2,3)
      obtain r where r: "find_next_loop addr (p + 1) (sz - 64) (result + 64) = Some r"
        "next_hit (bitat addr) (64 * (p + 1)) (64 * p + unat sz) (unat r)"
        unfolding lim by blast
      have "\<not> bitat addr i" if "64 * p \<le> i" "i < 64 * (p + 1)" for i
        by (rule no_hit_word [of 0 64 addr p]) (use that True in auto)
      from next_hit_skip [OF this r(2)] r(1) eq show ?thesis by simp
    next
      case False
      note lsb = raw_ffs_spec [OF False]
      have k: "unat (raw_ffs (addr ! p)) < 64" using lsb bit_word_less by (fastforce simp: is_lsb_def)
      then have "unat (result + raw_ffs (addr ! p)) = 64 * p + unat (raw_ffs (addr ! p))"
        using unat_add_nowrap [of result "raw_ffs (addr ! p)"] "1.prems"(1,3) full by simp
      moreover have "next_hit (bitat addr) (64 * p + 0) (64 * p + unat sz) (64 * p + unat (raw_ffs (addr ! p)))"
        by (rule next_hit_in_word [OF lsb, of 0 64]) (use full in \<open>auto dest: bit_word_less\<close>)
      ultimately show ?thesis
        using nz p False by (subst find_next_loop.simps) (simp add: aget_def)
    qed
  qed
qed

lemma find_next_bit_spec:
  assumes len: "unat sz \<le> 64 * length addr"
  shows "\<exists>r. find_next_bit addr sz off = Some r
    \<and> next_hit (bitat addr) (min (unat off) (unat sz)) (unat sz) (unat r)"
proof (cases "off \<ge> sz")
  case True
  then show ?thesis by (simp add: find_next_bit_def next_hit_def word_le_nat_alt)
next
  case False
  define p k where "p = unat off div 64" and "k = unat off mod 64"
  define res sz' where "res = off AND NOT 63" and "sz' = sz - res"
  have off: "unat off = 64 * p + k" "k < 64" by (simp_all add: p_def k_def)
  have less: "unat off < unat sz" using False by (simp add: word_le_nat_alt)
  have res: "unat res = 64 * p" by (simp only: res_def and_not_63 p_def mult.commute)
  have sz': "64 * p + unat sz' = unat sz" using unat_sub_nowrap [of res sz] res off less by (simp add: sz'_def)
  have fit: "64 * p + unat sz' < 2 ^ 64" unfolding sz' using unsigned_less [of sz, where ?'a = nat] by simp
  have p: "p < length addr" using len less off by linarith
  have k: "unat (off mod 64) = k" by (simp add: unat_mod_64 k_def)
  define tmp where "tmp = addr ! p AND push_bit k (NOT 0)"
  have bits: "bit tmp m \<longleftrightarrow> k \<le> m \<and> m < 64 \<and> bit (addr ! p) m" for m
    by (auto simp: tmp_def bit_simps)
  have mod0: "off mod 64 = 0 \<longleftrightarrow> k = 0" using k by (simp add: word_unat_eq_iff)
  have run: "find_next_bit addr sz off =
      (if k = 0 then find_next_loop addr p sz' res
       else if sz' < 64 then Some (found_first res sz' tmp)
       else if tmp \<noteq> 0 then Some (res + raw_ffs tmp)
       else find_next_loop addr (p + 1) (sz' - 64) (res + 64))"
    using False p
    by (simp only: find_next_bit_def Let_def mod0 k if_False res_def [symmetric] sz'_def [symmetric]
        p_def [symmetric] aget_Some Option.bind.simps tmp_def [symmetric])
      simp
  have goal: "\<exists>r. find_next_bit addr sz off = Some r \<and> next_hit (bitat addr) (64 * p + k) (64 * p + unat sz') (unat r)"
  proof -
    consider (zero) "k = 0" | (first) "k \<noteq> 0" "sz' < 64" | (hit) "k \<noteq> 0" "\<not> sz' < 64" "tmp \<noteq> 0"
      | (skip) "k \<noteq> 0" "\<not> sz' < 64" "tmp = 0" by blast
    then show ?thesis
    proof cases
      case zero
      then show ?thesis using find_next_loop_spec [OF res, of sz' addr] fit len sz' run by simp
    next
      case first
      have "next_hit (bitat addr) (64 * p + k) (64 * p + unat sz') (unat (found_first res sz' tmp))"
        by (rule found_first_spec [OF _ _ res fit bits]) (use first less off sz' in \<open>auto simp: word_less_nat_alt\<close>)
      with first run show ?thesis by simp
    next
      case hit
      note lsb = raw_ffs_spec [OF hit(3)]
      have big: "64 \<le> unat sz'" using hit(2) by (simp add: word_less_nat_alt)
      have "unat (raw_ffs tmp) < 64" using lsb bits by (simp add: is_lsb_def)
      then have "unat (res + raw_ffs tmp) = 64 * p + unat (raw_ffs tmp)"
        using unat_add_nowrap [of res "raw_ffs tmp"] res fit big by simp
      moreover have "next_hit (bitat addr) (64 * p + k) (64 * p + unat sz') (64 * p + unat (raw_ffs tmp))"
        by (rule next_hit_in_word [OF lsb, of k 64]) (use bits big in auto)
      ultimately show ?thesis using hit run by simp
    next
      case skip
      have big: "64 \<le> unat sz'" using skip(2) by (simp add: word_less_nat_alt)
      have "unat (res + 64) = 64 * (p + 1)" using unat_add_nowrap [of res 64] res fit big by simp
      moreover have lim: "64 * (p + 1) + unat (sz' - 64) = 64 * p + unat sz'" using big by (simp add: unat_sub_64)
      ultimately obtain r where r: "find_next_loop addr (p + 1) (sz' - 64) (res + 64) = Some r"
        "next_hit (bitat addr) (64 * (p + 1)) (64 * p + unat sz') (unat r)"
        using find_next_loop_spec [of "res + 64" "p + 1" "sz' - 64" addr] fit len sz' by auto
      have nobit: "\<not> bit (addr ! p) m" if "k \<le> m" "m < 64" for m using bits [of m] skip(3) that by simp
      have "\<not> bitat addr i" if "64 * p + k \<le> i" "i < 64 * (p + 1)" for i
        by (rule no_hit_word [OF nobit, of _ 64]) (use that in auto)
      from next_hit_skip [OF this r(2)] off(2) r(1) skip run show ?thesis by simp
    qed
  qed
  have "min (unat off) (unat sz) = 64 * p + k" using less off by simp
  with goal sz' show ?thesis by simp
qed

lemma next_hit_cong:
  assumes "\<And>i. i < N \<Longrightarrow> P i \<longleftrightarrow> Q i"
  shows "next_hit P lo N r \<longleftrightarrow> next_hit Q lo N r"
  using assms unfolding next_hit_def by (meson order_less_le_trans)

lemma bitat_map_not: "i < 64 * length addr \<Longrightarrow> bitat (map NOT addr) i \<longleftrightarrow> \<not> bitat addr i"
  using word_index_less [of i addr] by (simp add: bitat_def bit_simps)

lemma find_next_zero_bit_spec:
  assumes "unat sz \<le> 64 * length addr"
  shows "\<exists>r. find_next_zero_bit addr sz off = Some r
    \<and> next_hit (\<lambda>i. \<not> bitat addr i) (min (unat off) (unat sz)) (unat sz) (unat r)"
proof -
  have "next_hit (bitat (map NOT addr)) lo (unat sz) r \<longleftrightarrow> next_hit (\<lambda>i. \<not> bitat addr i) lo (unat sz) r" for lo r
    using assms by (intro next_hit_cong) (simp add: bitat_map_not)
  then show ?thesis
    using find_next_bit_spec [of sz "map NOT addr" off] assms by (simp add: find_next_zero_bit_eq)
qed

section \<open>The last set bit\<close>

definition last_hit :: "(nat \<Rightarrow> bool) \<Rightarrow> nat \<Rightarrow> nat \<Rightarrow> nat \<Rightarrow> bool" where
  "last_hit P n d r \<longleftrightarrow>
     r < n \<and> P r \<and> (\<forall>i. r < i \<longrightarrow> i < n \<longrightarrow> \<not> P i) \<or> r = d \<and> (\<forall>i < n. \<not> P i)"

lemma last_hit_in_word:
  assumes "is_msb tmp k" and "\<And>m. bit tmp m \<longleftrightarrow> m < n \<and> bit (addr ! p) m" and "n \<le> 64"
  shows "last_hit (bitat addr) (64 * p + n) d (64 * p + k)"
proof -
  have k: "k < n" "bit (addr ! p) k" using assms(1,2) by (auto simp: is_msb_def)
  have "\<not> bit (addr ! p) m" if "k + 1 \<le> m" "m < n" for m
    using assms(1) assms(2) [of m] that by (auto simp: is_msb_def)
  from no_hit_word [OF this assms(3)] k assms(3) show ?thesis
    by (auto simp: last_hit_def bitat_word)
qed

lemma last_hit_extend:
  assumes hit: "last_hit P n d r" and none: "\<And>i. n \<le> i \<Longrightarrow> i < n' \<Longrightarrow> \<not> P i" and le: "n \<le> n'"
  shows "last_hit P n' d r"
proof -
  have "\<not> P i" if "i < n'" "i < n \<longrightarrow> \<not> P i" for i using none that by (cases "i < n") auto
  with hit le show ?thesis unfolding last_hit_def by (meson order_less_le_trans)
qed

lemma unat_word_index:
  assumes "64 * p + unat k < 2 ^ 64"
  shows "unat (of_nat p * 64 + k :: u64) = 64 * p + unat k"
proof -
  have "of_nat p * 64 = (of_nat (64 * p) :: u64)" by simp
  moreover have "unat (of_nat (64 * p) :: u64) = 64 * p"
    using assms by (simp only: unat_of_nat) simp
  ultimately have "unat (of_nat p * 64 :: u64) = 64 * p" by (simp only:)
  with unat_add_nowrap [of "of_nat p * 64" k] assms show ?thesis by simp
qed

lemma find_last_loop_spec:
  assumes "words \<le> length addr" and "64 * words < 2 ^ 64"
  shows "\<exists>r. find_last_loop addr words sz = Some r \<and> last_hit (bitat addr) (64 * words) (unat sz) (unat r)"
  using assms
proof (induction words)
  case 0
  then show ?case by (subst find_last_loop.simps) (simp add: last_hit_def)
next
  case (Suc p)
  show ?case
  proof (cases "addr ! p = 0")
    case True
    have "find_last_loop addr (Suc p) sz = find_last_loop addr p sz"
      using True Suc.prems(1) by (subst find_last_loop.simps) (simp add: aget_def)
    moreover have "last_hit (bitat addr) (64 * Suc p) (unat sz) r" if "last_hit (bitat addr) (64 * p) (unat sz) r" for r
      by (rule last_hit_extend [OF that], rule no_hit_word [of 0 64 addr p]) (use True in auto)
    ultimately show ?thesis using Suc by auto
  next
    case False
    note msb = raw_fls_spec [OF False]
    have "unat (raw_fls (addr ! p)) < 64" using msb bit_word_less by (fastforce simp: is_msb_def)
    then have "unat (of_nat p * 64 + raw_fls (addr ! p)) = 64 * p + unat (raw_fls (addr ! p))"
      using Suc.prems(2) by (intro unat_word_index) simp
    moreover have "last_hit (bitat addr) (64 * p + 64) (unat sz) (64 * p + unat (raw_fls (addr ! p)))"
      by (rule last_hit_in_word [OF msb]) (auto dest: bit_word_less)
    ultimately show ?thesis
      using False Suc.prems(1) by (subst find_last_loop.simps) (simp add: aget_def add.commute)
  qed
qed

lemma find_last_bit_spec:
  assumes len: "unat sz \<le> 64 * length addr"
  shows "\<exists>r. find_last_bit addr sz = Some r \<and> last_hit (bitat addr) (unat sz) (unat sz) (unat r)"
proof -
  define p k where "p = unat sz div 64" and "k = unat sz mod 64"
  have sz: "unat sz = 64 * p + k" "k < 64" by (simp_all add: p_def k_def)
  have fit: "64 * p + k < 2 ^ 64" using sz(1) unsigned_less [of sz, where ?'a = nat] by simp
  have words: "unat (sz div 64) = p" by (simp add: p_def unat_div_distrib)
  have rest: "unat (sz AND 63) = k" by (simp add: and_63 unat_mod_64 k_def)
  have p: "p \<le> length addr" using len sz by linarith
  obtain r where loop: "find_last_loop addr p sz = Some r" "last_hit (bitat addr) (64 * p) (unat sz) (unat r)"
    using find_last_loop_spec [OF p] fit by auto
  define tmp where "tmp = addr ! p AND mask k"
  have bits: "bit tmp m \<longleftrightarrow> m < k \<and> bit (addr ! p) m" for m
    using sz(2) by (auto simp: tmp_def bit_simps)
  have run: "find_last_bit addr sz = (if k = 0 then find_last_loop addr p sz
      else if p < length addr then (if tmp \<noteq> 0 then Some (of_nat p * 64 + raw_fls tmp) else find_last_loop addr p sz)
      else None)"
    using sz(2) rest
    by (auto simp: find_last_bit_def Let_def words aget_def drop_not_0 tmp_def word_unat_eq_iff)
  consider (zero) "k = 0" | (hit) "k \<noteq> 0" "tmp \<noteq> 0" | (skip) "k \<noteq> 0" "tmp = 0" by blast
  then show ?thesis
  proof cases
    case zero
    with run loop sz show ?thesis by simp
  next
    case hit
    then have "p < length addr" using len sz by linarith
    moreover note msb = raw_fls_spec [OF hit(2)]
    moreover have "unat (of_nat p * 64 + raw_fls tmp) = 64 * p + unat (raw_fls tmp)"
      using msb bits fit by (intro unat_word_index) (auto simp: is_msb_def)
    ultimately show ?thesis
      using last_hit_in_word [OF msb bits, of "unat sz"] hit run sz by simp
  next
    case skip
    then have "p < length addr" using len sz by linarith
    moreover have nobit: "\<not> bit (addr ! p) m" if "m < k" for m using bits [of m] skip(2) that by simp
    have "last_hit (bitat addr) (64 * p + k) (unat sz) (unat r)"
      by (rule last_hit_extend [OF loop(2)], rule no_hit_word [of 0 k addr p]) (use sz(2) nobit in auto)
    ultimately show ?thesis using skip run loop(1) sz(1) by simp
  qed
qed

section \<open>The interface of a search and its client\<close>

locale bit_search =
  fixes search :: "bitarray \<Rightarrow> u64 \<Rightarrow> u64 \<Rightarrow> u64 option"
    and hit :: "bitarray \<Rightarrow> nat \<Rightarrow> bool"
  assumes search_spec: "unat sz \<le> 64 * length addr \<Longrightarrow>
    \<exists>r. search addr sz off = Some r \<and> next_hit (hit addr) (min (unat off) (unat sz)) (unat sz) (unat r)"
begin

lemma for_each_bit_from:
  assumes "unat sz \<le> 64 * length addr" and "unat b \<le> unat sz" and "unat b < unat sz \<longrightarrow> hit addr (unat b)"
  shows "\<exists>bs. for_each_bit search addr sz b = Some bs \<and> map unat bs = filter (hit addr) [unat b..<unat sz]"
  using assms(2,3)
proof (induction "unat sz - unat b" arbitrary: b rule: less_induct)
  case less
  show ?case
  proof (cases "b < sz")
    case False
    then show ?thesis by (subst for_each_bit.simps) (simp add: word_less_nat_alt)
  next
    case True
    then have lt: "unat b < unat sz" by (simp add: word_less_nat_alt)
    have b1: "unat (b + 1) = unat b + 1"
      using unat_add_nowrap [of b 1] lt unsigned_less [of sz, where ?'a = nat] by simp
    obtain r where r: "search addr sz (b + 1) = Some r" "next_hit (hit addr) (unat b + 1) (unat sz) (unat r)"
      using search_spec [OF assms(1), of "b + 1"] b1 lt by (auto simp: min_def)
    have "unat sz - unat r < unat sz - unat b" using r(2) lt unfolding next_hit_def by linarith
    from less.hyps [OF this] r(2) obtain bs where bs: "for_each_bit search addr sz r = Some bs"
      "map unat bs = filter (hit addr) [unat r..<unat sz]"
      unfolding next_hit_def by blast
    have "[unat b..<unat sz] = unat b # [unat b + 1..<unat r] @ [unat r..<unat sz]"
    proof -
      have "[unat b + 1..<unat sz] = [unat b + 1..<unat r] @ [unat r..<unat sz]"
        using r(2) upt_add_eq_append [of "unat b + 1" "unat r" "unat sz - unat r"] by (simp add: next_hit_def)
      then show ?thesis using upt_conv_Cons [OF lt] by simp
    qed
    moreover have "filter (hit addr) [unat b + 1..<unat r] = []"
      using r(2) by (auto simp: next_hit_def filter_empty_conv)
    ultimately have "filter (hit addr) [unat b..<unat sz] = unat b # filter (hit addr) [unat r..<unat sz]"
      using less.prems(2) lt by simp
    with True r(1) bs show ?thesis by (subst for_each_bit.simps) simp
  qed
qed

lemma for_each_bit_all:
  assumes "unat sz \<le> 64 * length addr"
  shows "\<exists>b bs. search addr sz 0 = Some b \<and> for_each_bit search addr sz b = Some bs
    \<and> map unat bs = filter (hit addr) [0..<unat sz]"
proof -
  obtain b where b: "search addr sz 0 = Some b" "next_hit (hit addr) 0 (unat sz) (unat b)"
    using search_spec [OF assms, of 0] by auto
  obtain bs where bs: "for_each_bit search addr sz b = Some bs" "map unat bs = filter (hit addr) [unat b..<unat sz]"
    using for_each_bit_from [OF assms, of b] b(2) by (auto simp: next_hit_def)
  have "[0..<unat sz] = [0..<unat b] @ [unat b..<unat sz]"
    using b(2) by (metis add_diff_inverse_nat next_hit_def not_less upt_add_eq_append zero_le)
  moreover have "filter (hit addr) [0..<unat b] = []" using b(2) by (auto simp: next_hit_def filter_empty_conv)
  ultimately show ?thesis using b(1) bs by auto
qed

end

interpretation set_search: bit_search find_next_bit bitat
  by unfold_locales (rule find_next_bit_spec)

interpretation zero_search: bit_search find_next_zero_bit "\<lambda>addr i. \<not> bitat addr i"
  by unfold_locales (rule find_next_zero_bit_spec)

section \<open>Properties\<close>

text \<open>
  C10.  \<open>find_next_bit\<close> stays inside the array and returns the least position at or
  above the offset whose bit is set, or the size when there is none.
\<close>

theorem find_next_bit_ok:
  assumes "unat sz \<le> 64 * length addr" and "off < sz"
  shows "\<exists>r. find_next_bit addr sz off = Some r \<and> unat off \<le> unat r \<and> unat r \<le> unat sz
    \<and> (\<forall>i. unat off \<le> i \<longrightarrow> i < unat r \<longrightarrow> \<not> bitat addr i) \<and> (unat r < unat sz \<longrightarrow> bitat addr (unat r))"
proof -
  have "min (unat off) (unat sz) = unat off" using assms(2) by (simp add: word_less_nat_alt)
  with find_next_bit_spec [OF assms(1), of off] show ?thesis by (simp add: next_hit_def)
qed

theorem find_next_bit_ok_witness:
  "\<exists>r. find_next_bit [0, 0x10] 128 3 = Some r \<and> 3 \<le> unat r \<and> unat r \<le> 128
    \<and> (\<forall>i. 3 \<le> i \<longrightarrow> i < unat r \<longrightarrow> \<not> bitat [0, 0x10] i) \<and> (unat r < 128 \<longrightarrow> bitat [0, 0x10] (unat r))"
  using find_next_bit_ok [of 128 "[0, 0x10]" 3] by simp

text \<open>
  C22.  The other searches are the same search on another view of the array: for a
  cleared bit on the complemented words, from the start, and for the little-endian variants on
  the byte-swapped words.
\<close>

theorem bit_searches_equivalent:
  "find_next_zero_bit addr sz off = find_next_bit (map NOT addr) sz off
   \<and> find_first_bit addr sz = find_next_bit addr sz 0
   \<and> find_first_zero_bit addr sz = find_next_zero_bit addr sz 0
   \<and> generic_find_next_le_bit addr sz off = find_next_bit (map ext2_swab addr) sz off
   \<and> generic_find_next_zero_le_bit addr sz off = find_next_zero_bit (map ext2_swab addr) sz off"
  by (simp add: find_next_zero_bit_eq find_first_bit_eq find_first_zero_bit_eq find_next_le_bit_eq
      find_next_zero_le_bit_eq)

text \<open>
  \<open>find_last_bit\<close> returns the highest set bit below the size, or the size when
  no bit is set.
\<close>

theorem find_last_bit_ok:
  assumes "unat sz \<le> 64 * length addr"
  shows "\<exists>r. find_last_bit addr sz = Some r \<and>
    (unat r < unat sz \<and> bitat addr (unat r) \<and> (\<forall>i. unat r < i \<longrightarrow> i < unat sz \<longrightarrow> \<not> bitat addr i)
     \<or> r = sz \<and> (\<forall>i < unat sz. \<not> bitat addr i))"
  using find_last_bit_spec [OF assms] by (auto simp: last_hit_def word_unat_eq_iff)

theorem find_last_bit_ok_witness:
  "\<exists>r. find_last_bit [0x12, 0] 128 = Some r \<and>
    (unat r < 128 \<and> bitat [0x12, 0] (unat r) \<and> (\<forall>i. unat r < i \<longrightarrow> i < 128 \<longrightarrow> \<not> bitat [0x12, 0] i)
     \<or> r = 128 \<and> (\<forall>i < 128. \<not> bitat [0x12, 0] i))"
  using find_last_bit_ok [of 128 "[0x12, 0]"] by simp

text \<open>
  The loop \<open>for_each_set_bit\<close> ends and visits exactly the set bits below the
  size, in ascending order.
\<close>

theorem for_each_set_bit_ok:
  assumes "unat sz \<le> 64 * length addr"
  shows "\<exists>b bs. find_first_bit addr sz = Some b \<and> for_each_bit find_next_bit addr sz b = Some bs
    \<and> map unat bs = filter (bitat addr) [0..<unat sz]"
  using set_search.for_each_bit_all [OF assms] by (simp add: find_first_bit_eq)

theorem for_each_set_bit_ok_witness:
  "\<exists>b bs. find_first_bit [0x12] 64 = Some b \<and> for_each_bit find_next_bit [0x12] 64 b = Some bs
    \<and> map unat bs = filter (bitat [0x12]) [0..<64]"
  using for_each_set_bit_ok [of 64 "[0x12]"] by simp

end
