(* ===== verification/Bitmap.thy ===== *)
theory Bitmap
  imports Find_Bit
begin

text \<open>
  Model of \<open>lib/bitmap.c\<close> and the inline functions of \<open>include/linux/bitmap.h\<close> for
  64-bit words, without the conversions from and to text.  Sizes, positions and
  loop counters, which are non-negative \<open>int\<close> values in the code, are natural numbers.
  A bitmap operation returns the new contents of its destination;
  the two shifts also exist with the destination equal to the source.
  The lemmas about these functions are in \<open>Bitmap_Ops\<close> and \<open>Bitmap_Region\<close>.
\<close>

section \<open>Predicates\<close>

definition BITMAP_LAST_WORD_MASK :: "nat \<Rightarrow> u64" where
  "BITMAP_LAST_WORD_MASK nbits = (if nbits mod 64 \<noteq> 0 then push_bit (nbits mod 64) 1 - 1 else NOT 0)"

text \<open>\<open>for (k = 0; k < lim; ++k) if (f(k)) return ...;\<close>: whether the loop left by its return.\<close>

function any_word :: "(nat \<Rightarrow> u64 option) \<Rightarrow> nat \<Rightarrow> nat \<Rightarrow> bool option" where
  "any_word f k lim =
     (if k < lim then do { w \<leftarrow> f k; if w \<noteq> 0 then Some True else any_word f (k + 1) lim } else Some False)"
  by pat_completeness auto
termination
  by (relation "measure (\<lambda>(f, k, lim). lim - k)") auto

text \<open>The loop over the full words and the test of the last, partial word.\<close>

definition any_bit :: "(nat \<Rightarrow> u64 option) \<Rightarrow> nat \<Rightarrow> bool option" where
  "any_bit f bits =
     (let lim = bits div 64 in do {
        found \<leftarrow> any_word f 0 lim;
        if found then Some True
        else if bits mod 64 \<noteq> 0
        then do { w \<leftarrow> f lim; Some (w AND BITMAP_LAST_WORD_MASK bits \<noteq> 0) }
        else Some False })"

definition raw_bitmap_empty :: "bitarray \<Rightarrow> nat \<Rightarrow> bool option" where
  "raw_bitmap_empty bitmap bits = do { found \<leftarrow> any_bit (aget bitmap) bits; Some (\<not> found) }"

definition raw_bitmap_full :: "bitarray \<Rightarrow> nat \<Rightarrow> bool option" where
  "raw_bitmap_full bitmap bits = do {
     found \<leftarrow> any_bit (\<lambda>k. do { w \<leftarrow> aget bitmap k; Some (NOT w) }) bits;
     Some (\<not> found) }"

text \<open>\<open>a != b\<close> of the loop is \<open>a ^ b\<close> being non-zero, as in the test of the last word.\<close>

definition raw_bitmap_equal :: "bitarray \<Rightarrow> bitarray \<Rightarrow> nat \<Rightarrow> bool option" where
  "raw_bitmap_equal bitmap1 bitmap2 bits = do {
     found \<leftarrow> any_bit (\<lambda>k. do { v \<leftarrow> aget bitmap1 k; w \<leftarrow> aget bitmap2 k; Some (v XOR w) }) bits;
     Some (\<not> found) }"

definition raw_bitmap_intersects :: "bitarray \<Rightarrow> bitarray \<Rightarrow> nat \<Rightarrow> bool option" where
  "raw_bitmap_intersects bitmap1 bitmap2 bits =
     any_bit (\<lambda>k. do { v \<leftarrow> aget bitmap1 k; w \<leftarrow> aget bitmap2 k; Some (v AND w) }) bits"

definition raw_bitmap_subset :: "bitarray \<Rightarrow> bitarray \<Rightarrow> nat \<Rightarrow> bool option" where
  "raw_bitmap_subset bitmap1 bitmap2 bits = do {
     found \<leftarrow> any_bit (\<lambda>k. do { v \<leftarrow> aget bitmap1 k; w \<leftarrow> aget bitmap2 k; Some (v AND NOT w) }) bits;
     Some (\<not> found) }"

section \<open>Word-wise operations\<close>

text \<open>\<open>for (; k < lim; ++k) dst[k] = f(k);\<close>\<close>

function write_words :: "(nat \<Rightarrow> u64 option) \<Rightarrow> bitarray \<Rightarrow> nat \<Rightarrow> nat \<Rightarrow> bitarray option" where
  "write_words f dst k lim =
     (if k < lim then do { w \<leftarrow> f k; dst \<leftarrow> aset dst k w; write_words f dst (k + 1) lim } else Some dst)"
  by pat_completeness auto
termination
  by (relation "measure (\<lambda>(f, dst, k, lim). lim - k)") auto

definition raw_bitmap_complement :: "bitarray \<Rightarrow> bitarray \<Rightarrow> nat \<Rightarrow> bitarray option" where
  "raw_bitmap_complement dst src bits =
     (let lim = bits div 64 in do {
        dst \<leftarrow> write_words (\<lambda>k. do { w \<leftarrow> aget src k; Some (NOT w) }) dst 0 lim;
        if bits mod 64 \<noteq> 0
        then do { w \<leftarrow> aget src lim; aset dst lim (NOT w AND BITMAP_LAST_WORD_MASK bits) }
        else Some dst })"

text \<open>The same loop collecting \<open>result |= (dst[k] = f(k))\<close>.\<close>

function write_words_or :: "(nat \<Rightarrow> u64 option) \<Rightarrow> bitarray \<Rightarrow> u64 \<Rightarrow> nat \<Rightarrow> nat \<Rightarrow> (u64 \<times> bitarray) option" where
  "write_words_or f dst result k nr =
     (if k < nr
      then do { w \<leftarrow> f k; dst \<leftarrow> aset dst k w; write_words_or f dst (result OR w) (k + 1) nr }
      else Some (result, dst))"
  by pat_completeness auto
termination
  by (relation "measure (\<lambda>(f, dst, result, k, nr). nr - k)") auto

definition raw_bitmap_and :: "bitarray \<Rightarrow> bitarray \<Rightarrow> bitarray \<Rightarrow> nat \<Rightarrow> (bool \<times> bitarray) option" where
  "raw_bitmap_and dst bitmap1 bitmap2 bits = do {
     (result, dst) \<leftarrow> write_words_or (\<lambda>k. do { v \<leftarrow> aget bitmap1 k; w \<leftarrow> aget bitmap2 k; Some (v AND w) })
       dst 0 0 (BITS_TO_LONGS bits);
     Some (result \<noteq> 0, dst) }"

definition raw_bitmap_or :: "bitarray \<Rightarrow> bitarray \<Rightarrow> bitarray \<Rightarrow> nat \<Rightarrow> bitarray option" where
  "raw_bitmap_or dst bitmap1 bitmap2 bits =
     write_words (\<lambda>k. do { v \<leftarrow> aget bitmap1 k; w \<leftarrow> aget bitmap2 k; Some (v OR w) }) dst 0 (BITS_TO_LONGS bits)"

definition raw_bitmap_xor :: "bitarray \<Rightarrow> bitarray \<Rightarrow> bitarray \<Rightarrow> nat \<Rightarrow> bitarray option" where
  "raw_bitmap_xor dst bitmap1 bitmap2 bits =
     write_words (\<lambda>k. do { v \<leftarrow> aget bitmap1 k; w \<leftarrow> aget bitmap2 k; Some (v XOR w) }) dst 0 (BITS_TO_LONGS bits)"

definition raw_bitmap_andnot :: "bitarray \<Rightarrow> bitarray \<Rightarrow> bitarray \<Rightarrow> nat \<Rightarrow> (bool \<times> bitarray) option" where
  "raw_bitmap_andnot dst bitmap1 bitmap2 bits = do {
     (result, dst) \<leftarrow> write_words_or (\<lambda>k. do { v \<leftarrow> aget bitmap1 k; w \<leftarrow> aget bitmap2 k; Some (v AND NOT w) })
       dst 0 0 (BITS_TO_LONGS bits);
     Some (result \<noteq> 0, dst) }"

text \<open>\<open>memset(dst + k, 0, n * sizeof(long))\<close>.\<close>

definition zero_words :: "bitarray \<Rightarrow> nat \<Rightarrow> nat \<Rightarrow> bitarray option" where
  "zero_words dst k n = write_words (\<lambda>_. Some 0) dst k (k + n)"

definition raw_bitmap_weight :: "bitarray \<Rightarrow> nat \<Rightarrow> nat option" where
  "raw_bitmap_weight bitmap bits =
     (let lim = bits div 64 in
      if lim \<le> length bitmap \<and> (bits mod 64 \<noteq> 0 \<longrightarrow> lim < length bitmap)
      then Some (foldl (\<lambda>w k. w + unat (hweight_long (bitmap ! k))) 0 [0..<lim]
        + (if bits mod 64 \<noteq> 0 then unat (hweight_long (bitmap ! lim AND BITMAP_LAST_WORD_MASK bits)) else 0))
      else None)"

section \<open>Shifts\<close>

text \<open>
  \<open>rd dst k\<close> is the read of \<open>src[k]\<close>: \<open>aget src k\<close> for two different arrays,
  \<open>aget dst k\<close> for a shift in place.
\<close>

definition shift_right_word ::
  "(bitarray \<Rightarrow> nat \<Rightarrow> u64 option) \<Rightarrow> bitarray \<Rightarrow> nat \<Rightarrow> nat \<Rightarrow> nat \<Rightarrow> nat \<Rightarrow> nat \<Rightarrow> u64 option" where
  "shift_right_word rd dst off rem lim left k =
     (let msk = push_bit left 1 - 1 in do {
        upper \<leftarrow> (if rem = 0 \<or> off + k + 1 \<ge> lim then Some 0
          else do { u \<leftarrow> rd dst (off + k + 1);
                    Some (if off + k + 1 = lim - 1 \<and> left \<noteq> 0 then u AND msk else u) });
        lower \<leftarrow> rd dst (off + k);
        let lower = (if left \<noteq> 0 \<and> off + k = lim - 1 then lower AND msk else lower);
        let w = (if rem = 0 then 0 else push_bit (64 - rem) upper) OR drop_bit rem lower;
        Some (if left \<noteq> 0 \<and> k = lim - 1 then w AND msk else w) })"

function shift_right_loop ::
  "(bitarray \<Rightarrow> nat \<Rightarrow> u64 option) \<Rightarrow> bitarray \<Rightarrow> nat \<Rightarrow> nat \<Rightarrow> nat \<Rightarrow> nat \<Rightarrow> nat \<Rightarrow> bitarray option" where
  "shift_right_loop rd dst off rem lim left k =
     (if off + k < lim
      then do { w \<leftarrow> shift_right_word rd dst off rem lim left k;
                dst \<leftarrow> aset dst k w;
                shift_right_loop rd dst off rem lim left (k + 1) }
      else Some dst)"
  by pat_completeness auto
termination
  by (relation "measure (\<lambda>(rd, dst, off, rem, lim, left, k). lim - (off + k))") auto

text \<open>With \<open>off > lim\<close> the \<open>memset\<close> would start in front of the array.\<close>

definition raw_bitmap_shift_right ::
  "(bitarray \<Rightarrow> nat \<Rightarrow> u64 option) \<Rightarrow> bitarray \<Rightarrow> nat \<Rightarrow> nat \<Rightarrow> bitarray option" where
  "raw_bitmap_shift_right rd dst shift bits =
     (let lim = BITS_TO_LONGS bits; left = bits mod 64; off = shift div 64; rem = shift mod 64 in do {
        dst \<leftarrow> shift_right_loop rd dst off rem lim left 0;
        if off \<noteq> 0 then (if off \<le> lim then zero_words dst (lim - off) off else None) else Some dst })"

definition shift_left_word ::
  "(bitarray \<Rightarrow> nat \<Rightarrow> u64 option) \<Rightarrow> bitarray \<Rightarrow> nat \<Rightarrow> nat \<Rightarrow> nat \<Rightarrow> nat \<Rightarrow> nat \<Rightarrow> u64 option" where
  "shift_left_word rd dst off rem lim left k = do {
     lower \<leftarrow> (if rem \<noteq> 0 \<and> k > 0 then rd dst (k - 1) else Some 0);
     upper \<leftarrow> rd dst k;
     let upper = (if left \<noteq> 0 \<and> k = lim - 1 then upper AND (push_bit left 1 - 1) else upper);
     let w = (if rem = 0 then 0 else drop_bit (64 - rem) lower) OR push_bit rem upper;
     Some (if left \<noteq> 0 \<and> k + off = lim - 1 then w AND (push_bit left 1 - 1) else w) }"

text \<open>The loop counts down; \<open>n\<close> is \<open>k + 1\<close>.\<close>

fun shift_left_loop ::
  "(bitarray \<Rightarrow> nat \<Rightarrow> u64 option) \<Rightarrow> bitarray \<Rightarrow> nat \<Rightarrow> nat \<Rightarrow> nat \<Rightarrow> nat \<Rightarrow> nat \<Rightarrow> bitarray option" where
  "shift_left_loop rd dst off rem lim left 0 = Some dst"
| "shift_left_loop rd dst off rem lim left (Suc k) = do {
     w \<leftarrow> shift_left_word rd dst off rem lim left k;
     dst \<leftarrow> aset dst (k + off) w;
     shift_left_loop rd dst off rem lim left k }"

definition raw_bitmap_shift_left ::
  "(bitarray \<Rightarrow> nat \<Rightarrow> u64 option) \<Rightarrow> bitarray \<Rightarrow> nat \<Rightarrow> nat \<Rightarrow> bitarray option" where
  "raw_bitmap_shift_left rd dst shift bits =
     (let lim = BITS_TO_LONGS bits; left = bits mod 64; off = shift div 64; rem = shift mod 64 in do {
        dst \<leftarrow> shift_left_loop rd dst off rem lim left (lim - off);
        if off \<noteq> 0 then zero_words dst 0 off else Some dst })"

section \<open>Ranges of bits\<close>

definition BITMAP_FIRST_WORD_MASK :: "nat \<Rightarrow> u64" where
  "BITMAP_FIRST_WORD_MASK start = push_bit (start mod 64) (NOT 0)"

text \<open>The loops of \<open>bitmap_set\<close> and \<open>bitmap_clear\<close>; \<open>upd\<close> is \<open>|=\<close> or \<open>&= ~\<close>.
  \<open>bits_to\<close> is never 0, which the first test repeats for the sake of termination.\<close>

function bitmap_fill_loop ::
  "(u64 \<Rightarrow> u64 \<Rightarrow> u64) \<Rightarrow> bitarray \<Rightarrow> nat \<Rightarrow> nat \<Rightarrow> nat \<Rightarrow> nat \<Rightarrow> u64 \<Rightarrow> bitarray option" where
  "bitmap_fill_loop upd bm sz p nr bits_to mask_to =
     (if 0 < bits_to \<and> bits_to \<le> nr
      then do { w \<leftarrow> aget bm p; bm \<leftarrow> aset bm p (upd w mask_to);
                bitmap_fill_loop upd bm sz (p + 1) (nr - bits_to) 64 (NOT 0) }
      else if nr \<noteq> 0
      then do { w \<leftarrow> aget bm p; aset bm p (upd w (mask_to AND BITMAP_LAST_WORD_MASK sz)) }
      else Some bm)"
  by pat_completeness auto
termination
  by (relation "measure (\<lambda>(upd, bm, sz, p, nr, b, m). nr)") auto

definition bitmap_set :: "bitarray \<Rightarrow> nat \<Rightarrow> nat \<Rightarrow> bitarray option" where
  "bitmap_set bm start nr =
     bitmap_fill_loop (\<lambda>w m. w OR m) bm (start + nr) (BIT_WORD start) nr (64 - start mod 64)
       (BITMAP_FIRST_WORD_MASK start)"

definition bitmap_clear :: "bitarray \<Rightarrow> nat \<Rightarrow> nat \<Rightarrow> bitarray option" where
  "bitmap_clear bm start nr =
     bitmap_fill_loop (\<lambda>w m. w AND NOT m) bm (start + nr) (BIT_WORD start) nr (64 - start mod 64)
       (BITMAP_FIRST_WORD_MASK start)"

definition ALIGN_MASK :: "u64 \<Rightarrow> u64 \<Rightarrow> u64" where
  "ALIGN_MASK x m = (x + m) AND NOT m"

partial_function (option) bitmap_find_next_zero_area ::
  "bitarray \<Rightarrow> u64 \<Rightarrow> u64 \<Rightarrow> u32 \<Rightarrow> u64 \<Rightarrow> u64 option" where
  "bitmap_find_next_zero_area bm sz start nr align_mask = do {
     index \<leftarrow> find_next_zero_bit bm sz start;
     let index = ALIGN_MASK index align_mask;
     let e = index + ucast nr;
     if e > sz then Some e
     else do {
       i \<leftarrow> find_next_bit bm e index;
       if i < e then bitmap_find_next_zero_area bm sz (i + 1) nr align_mask
       else Some index } }"

section \<open>Positions and ordinals\<close>

partial_function (option) pos_to_ord_loop :: "bitarray \<Rightarrow> u64 \<Rightarrow> u64 \<Rightarrow> u64 \<Rightarrow> nat \<Rightarrow> (u64 \<times> nat) option" where
  "pos_to_ord_loop buf pos bits i ord =
     (if i < pos then do { i \<leftarrow> find_next_bit buf bits (i + 1); pos_to_ord_loop buf pos bits i (ord + 1) }
      else Some (i, ord))"

text \<open>\<open>BUG_ON(i != pos)\<close> is a fault.\<close>

definition bitmap_pos_to_ord :: "bitarray \<Rightarrow> nat \<Rightarrow> nat \<Rightarrow> int option" where
  "bitmap_pos_to_ord buf pos bits =
     (if pos \<ge> bits then Some (-1)
      else do {
        b \<leftarrow> test_bit pos buf;
        if \<not> b then Some (-1)
        else do {
          i \<leftarrow> find_first_bit buf (of_nat bits);
          (i, ord) \<leftarrow> pos_to_ord_loop buf (of_nat pos) (of_nat bits) i 0;
          if i \<noteq> of_nat pos then None else Some (int ord) } })"

partial_function (option) ord_to_pos_loop :: "bitarray \<Rightarrow> u64 \<Rightarrow> u64 \<Rightarrow> nat \<Rightarrow> (u64 \<times> nat) option" where
  "ord_to_pos_loop buf bits i ord =
     (if i < bits \<and> ord > 0 then do { i \<leftarrow> find_next_bit buf bits (i + 1); ord_to_pos_loop buf bits i (ord - 1) }
      else Some (i, ord))"

definition bitmap_ord_to_pos :: "bitarray \<Rightarrow> nat \<Rightarrow> nat \<Rightarrow> nat option" where
  "bitmap_ord_to_pos buf ord bits =
     (if ord < bits
      then do {
        i \<leftarrow> find_first_bit buf (of_nat bits);
        (i, ord) \<leftarrow> ord_to_pos_loop buf (of_nat bits) i ord;
        Some (if i < of_nat bits \<and> ord = 0 then unat i else 0) }
      else Some 0)"

definition bitmap_zero :: "bitarray \<Rightarrow> nat \<Rightarrow> bitarray option" where
  "bitmap_zero dst nbits = zero_words dst 0 (BITS_TO_LONGS nbits)"

text \<open>\<open>for_each_set_bit(b, src, bits) dst = body(b, dst)\<close>, the bits visited in order.\<close>

definition over_set_bits ::
  "bitarray \<Rightarrow> nat \<Rightarrow> (nat \<Rightarrow> 's \<Rightarrow> 's option) \<Rightarrow> 's \<Rightarrow> 's option" where
  "over_set_bits src bits body s = do {
     b \<leftarrow> find_first_bit src (of_nat bits);
     bs \<leftarrow> for_each_bit find_next_bit src (of_nat bits) b;
     foldl (\<lambda>acc b. do { s \<leftarrow> acc; body (unat b) s }) (Some s) bs }"

text \<open>\<open>dst\<close> and \<open>src\<close> are different arrays: with \<open>dst == src\<close> the code returns at once.\<close>

definition bitmap_remap :: "bitarray \<Rightarrow> bitarray \<Rightarrow> bitarray \<Rightarrow> bitarray \<Rightarrow> nat \<Rightarrow> bitarray option" where
  "bitmap_remap dst src old new bits = do {
     dst \<leftarrow> bitmap_zero dst bits;
     w \<leftarrow> raw_bitmap_weight new bits;
     over_set_bits src bits (\<lambda>oldbit dst. do {
       n \<leftarrow> bitmap_pos_to_ord old oldbit bits;
       if n < 0 \<or> w = 0 then set_bit_at oldbit dst
       else do { pos \<leftarrow> bitmap_ord_to_pos new (nat n mod w) bits; set_bit_at pos dst } }) dst }"

definition bitmap_bitremap :: "nat \<Rightarrow> bitarray \<Rightarrow> bitarray \<Rightarrow> nat \<Rightarrow> nat option" where
  "bitmap_bitremap oldbit old new bits = do {
     w \<leftarrow> raw_bitmap_weight new bits;
     n \<leftarrow> bitmap_pos_to_ord old oldbit bits;
     if n < 0 \<or> w = 0 then Some oldbit else bitmap_ord_to_pos new (nat n mod w) bits }"

definition bitmap_onto :: "bitarray \<Rightarrow> bitarray \<Rightarrow> bitarray \<Rightarrow> nat \<Rightarrow> bitarray option" where
  "bitmap_onto dst orig relmap bits = do {
     dst \<leftarrow> bitmap_zero dst bits;
     (m, dst) \<leftarrow> over_set_bits relmap bits (\<lambda>n (m, dst). do {
       b \<leftarrow> test_bit m orig;
       dst \<leftarrow> (if b then set_bit_at n dst else Some dst);
       Some (m + 1, dst) }) (0, dst);
     Some dst }"

text \<open>\<open>oldbit % sz\<close> with \<open>sz = 0\<close> is a division by zero.\<close>

definition bitmap_fold :: "bitarray \<Rightarrow> bitarray \<Rightarrow> nat \<Rightarrow> nat \<Rightarrow> bitarray option" where
  "bitmap_fold dst orig sz bits = do {
     dst \<leftarrow> bitmap_zero dst bits;
     over_set_bits orig bits (\<lambda>oldbit dst. if sz = 0 then None else set_bit_at (oldbit mod sz) dst) dst }"

section \<open>Regions\<close>

datatype reg_op = REG_OP_ISFREE | REG_OP_ALLOC | REG_OP_RELEASE

text \<open>\<open>for (i = 0; i < nlongs; i++) bitmap[index + i] = f(bitmap[index + i]);\<close>\<close>

function reg_write :: "(u64 \<Rightarrow> u64) \<Rightarrow> bitarray \<Rightarrow> nat \<Rightarrow> nat \<Rightarrow> nat \<Rightarrow> bitarray option" where
  "reg_write f bitmap index i nlongs_reg =
     (if i < nlongs_reg
      then do { w \<leftarrow> aget bitmap (index + i); bitmap \<leftarrow> aset bitmap (index + i) (f w);
                reg_write f bitmap index (i + 1) nlongs_reg }
      else Some bitmap)"
  by pat_completeness auto
termination
  by (relation "measure (\<lambda>(f, bitmap, index, i, n). n - i)") auto

definition reg_mask :: "nat \<Rightarrow> nat \<Rightarrow> u64" where
  "reg_mask nbitsinlong offset =
     (let m = push_bit (nbitsinlong - 1) 1; m = m + (m - 1) in push_bit offset m)"

definition raw_reg_op :: "bitarray \<Rightarrow> nat \<Rightarrow> nat \<Rightarrow> reg_op \<Rightarrow> (bool \<times> bitarray) option" where
  "raw_reg_op bitmap pos order op =
     (let nbits_reg = 2 ^ order; index = pos div 64; offset = pos - index * 64;
          nlongs_reg = BITS_TO_LONGS nbits_reg; nbitsinlong = min nbits_reg 64;
          m = reg_mask nbitsinlong offset
      in case op of
           REG_OP_ISFREE \<Rightarrow> do {
             found \<leftarrow> any_word (\<lambda>i. do { w \<leftarrow> aget bitmap (index + i); Some (w AND m) }) 0 nlongs_reg;
             Some (\<not> found, bitmap) }
         | REG_OP_ALLOC \<Rightarrow> do { bitmap \<leftarrow> reg_write (\<lambda>w. w OR m) bitmap index 0 nlongs_reg; Some (False, bitmap) }
         | REG_OP_RELEASE \<Rightarrow> do { bitmap \<leftarrow> reg_write (\<lambda>w. w AND NOT m) bitmap index 0 nlongs_reg;
                                  Some (False, bitmap) })"

function find_free_loop :: "bitarray \<Rightarrow> nat \<Rightarrow> nat \<Rightarrow> nat \<Rightarrow> (int \<times> bitarray) option" where
  "find_free_loop bitmap bits order pos =
     (if pos + 2 ^ order \<le> bits
      then do {
        (free, _) \<leftarrow> raw_reg_op bitmap pos order REG_OP_ISFREE;
        if \<not> free then find_free_loop bitmap bits order (pos + 2 ^ order)
        else do { (_, bitmap) \<leftarrow> raw_reg_op bitmap pos order REG_OP_ALLOC; Some (int pos, bitmap) } }
      else Some (- ENOMEM, bitmap))"
  by pat_completeness auto
termination
proof (relation "measure (\<lambda>(bitmap, bits, order, pos). bits - pos)", simp, clarsimp)
  fix bits pos order :: nat
  have "(0 :: nat) < 2 ^ order" by simp
  then show "pos + 2 ^ order \<le> bits \<Longrightarrow> bits - (pos + 2 ^ order) < bits - pos" by linarith
qed

definition bitmap_find_free_region :: "bitarray \<Rightarrow> nat \<Rightarrow> nat \<Rightarrow> (int \<times> bitarray) option" where
  "bitmap_find_free_region bitmap bits order = find_free_loop bitmap bits order 0"

definition bitmap_release_region :: "bitarray \<Rightarrow> nat \<Rightarrow> nat \<Rightarrow> bitarray option" where
  "bitmap_release_region bitmap pos order = do {
     (_, bitmap) \<leftarrow> raw_reg_op bitmap pos order REG_OP_RELEASE; Some bitmap }"

definition bitmap_allocate_region :: "bitarray \<Rightarrow> nat \<Rightarrow> nat \<Rightarrow> (int \<times> bitarray) option" where
  "bitmap_allocate_region bitmap pos order = do {
     (free, _) \<leftarrow> raw_reg_op bitmap pos order REG_OP_ISFREE;
     if \<not> free then Some (- EBUSY, bitmap)
     else do { (_, bitmap) \<leftarrow> raw_reg_op bitmap pos order REG_OP_ALLOC; Some (0, bitmap) } }"

text \<open>\<open>cpu_to_le64\<close> is a parameter: the identity or the byte swap, by the machine's byte order.\<close>

definition bitmap_copy_le :: "(u64 \<Rightarrow> u64) \<Rightarrow> bitarray \<Rightarrow> bitarray \<Rightarrow> nat \<Rightarrow> bitarray option" where
  "bitmap_copy_le cpu_to_le64 dst src nbits =
     write_words (\<lambda>i. do { w \<leftarrow> aget src i; Some (cpu_to_le64 w) }) dst 0 (nbits div 64)"

declare any_word.simps [simp del] write_words.simps [simp del] write_words_or.simps [simp del]
  shift_right_loop.simps [simp del] bitmap_fill_loop.simps [simp del] reg_write.simps [simp del]
  find_free_loop.simps [simp del]

end
