(* ===== verification/Bitmap_Ops.thy ===== *)
theory Bitmap_Ops
  imports Bitmap
begin

text \<open>
  What the predicates, the word-wise operations, the shifts and the range operations
  of \<open>Bitmap\<close> do to the single bits of their arguments.  All bits at or above the
  size of the bitmap are arbitrary, as the comment at the head of \<open>lib/bitmap.c\<close> allows.
\<close>

section \<open>Last words\<close>

lemma last_word_mask: "nbits mod 64 \<noteq> 0 \<Longrightarrow> BITMAP_LAST_WORD_MASK nbits = mask (nbits mod 64)"
  by (simp add: BITMAP_LAST_WORD_MASK_def mask_eq_exp_minus_1 push_bit_eq_mult)

lemma longs_covers: "i < bits \<Longrightarrow> i div 64 < BITS_TO_LONGS bits"
  by (simp add: BITS_TO_LONGS_def)

lemma longs_bits: "bits \<le> 64 * n \<longleftrightarrow> BITS_TO_LONGS bits \<le> n"
  by (simp add: BITS_TO_LONGS_def) linarith

lemma longs_split: "BITS_TO_LONGS bits = bits div 64 + (if bits mod 64 \<noteq> 0 then 1 else 0)"
proof -
  define q r where "q = bits div 64" and "r = bits mod 64"
  have "bits = 64 * q + r" "r < 64" by (simp_all add: q_def r_def)
  then show ?thesis
    by (cases "r = 0") (simp_all add: BITS_TO_LONGS_def flip: r_def q_def)
qed

section \<open>Predicates\<close>

lemma any_word_spec:
  assumes "\<And>k. k < lim \<Longrightarrow> f k = Some (g k)"
  shows "any_word f i lim = Some (\<exists>k. i \<le> k \<and> k < lim \<and> g k \<noteq> 0)"
proof (induction "lim - i" arbitrary: i)
  case 0
  then show ?case by (subst any_word.simps) auto
next
  case (Suc d)
  then have i: "i < lim" and IH: "any_word f (i + 1) lim = Some (\<exists>k. i + 1 \<le> k \<and> k < lim \<and> g k \<noteq> 0)"
    by auto
  have "(\<exists>k. i \<le> k \<and> k < lim \<and> g k \<noteq> 0) \<longleftrightarrow> g i \<noteq> 0 \<or> (\<exists>k. i + 1 \<le> k \<and> k < lim \<and> g k \<noteq> 0)"
    using i by (metis Suc_eq_plus1 Suc_leD Suc_leI le_eq_less_or_eq)
  with i IH assms [OF i] show ?case by (subst any_word.simps) simp
qed

lemma any_bit_spec:
  assumes f: "\<forall>k < BITS_TO_LONGS bits. f k = Some (g k)"
  shows "any_bit f bits = Some (\<exists>i < bits. bit (g (i div 64)) (i mod 64))"
proof -
  let ?q = "bits div 64" and ?r = "bits mod 64"
  have words: "any_word f 0 ?q = Some (\<exists>k < ?q. g k \<noteq> 0)"
    using any_word_spec [of ?q f g 0] f by (simp add: longs_split)
  have full: "(\<exists>k < ?q. g k \<noteq> 0) \<longleftrightarrow> (\<exists>i < 64 * ?q. bit (g (i div 64)) (i mod 64))"
  proof
    assume "\<exists>k < ?q. g k \<noteq> 0"
    then obtain k n where k: "k < ?q" "bit (g k) n" using word_has_bit by blast
    then have n: "n < 64" using bit_word_less by fastforce
    with k have "64 * k + n < 64 * ?q" by linarith
    with k n show "\<exists>i < 64 * ?q. bit (g (i div 64)) (i mod 64)"
      by (intro exI [of _ "64 * k + n"]) simp
  next
    assume "\<exists>i < 64 * ?q. bit (g (i div 64)) (i mod 64)"
    then obtain i where "i < 64 * ?q" "bit (g (i div 64)) (i mod 64)" by blast
    then have "i div 64 < ?q" "g (i div 64) \<noteq> 0" using word_has_bit by (auto simp: less_mult_imp_div_less mult.commute)
    then show "\<exists>k < ?q. g k \<noteq> 0" by blast
  qed
  have last: "g ?q AND mask ?r \<noteq> 0 \<longleftrightarrow> (\<exists>i. 64 * ?q \<le> i \<and> i < bits \<and> bit (g (i div 64)) (i mod 64))"
  proof -
    have "g ?q AND mask ?r \<noteq> 0 \<longleftrightarrow> (\<exists>n < ?r. bit (g ?q) n)" using and_mask_zero by blast
    also have "\<dots> \<longleftrightarrow> (\<exists>i. 64 * ?q \<le> i \<and> i < bits \<and> bit (g (i div 64)) (i mod 64))"
    proof
      assume "\<exists>n < ?r. bit (g ?q) n"
      then obtain n where n: "n < ?r" "bit (g ?q) n" by blast
      then have "n < 64" by (meson mod_less_divisor order_less_trans zero_less_numeral)
      moreover have "64 * ?q + n < bits" using n(1) by (metis add_less_cancel_left mult_div_mod_eq)
      ultimately show "\<exists>i. 64 * ?q \<le> i \<and> i < bits \<and> bit (g (i div 64)) (i mod 64)"
        using n by (intro exI [of _ "64 * ?q + n"]) simp
    next
      assume "\<exists>i. 64 * ?q \<le> i \<and> i < bits \<and> bit (g (i div 64)) (i mod 64)"
      then obtain i where i: "64 * ?q \<le> i" "i < bits" "bit (g (i div 64)) (i mod 64)" by blast
      then have "i div 64 = ?q" by linarith
      moreover have "i mod 64 < ?r" using i calculation by (metis div_mult_mod_eq nat_add_left_cancel_less)
      ultimately show "\<exists>n < ?r. bit (g ?q) n" using i by auto
    qed
    finally show ?thesis .
  qed
  have all: "(\<exists>i < bits. bit (g (i div 64)) (i mod 64)) \<longleftrightarrow>
      (\<exists>i < 64 * ?q. bit (g (i div 64)) (i mod 64)) \<or> (\<exists>i. 64 * ?q \<le> i \<and> i < bits \<and> bit (g (i div 64)) (i mod 64))"
    using times_div_less_eq_dividend [of 64 bits] by (meson leI order_less_le_trans)
  show ?thesis
  proof (cases "?r = 0")
    case True
    then have "64 * ?q = bits" by auto
    with words full True show ?thesis by (simp add: any_bit_def)
  next
    case False
    then have "f ?q = Some (g ?q)" using f by (simp add: longs_split)
    with words full last all False show ?thesis
      by (auto simp: any_bit_def Let_def last_word_mask)
  qed
qed

lemma aget_word: "bits \<le> 64 * length b \<Longrightarrow> k < BITS_TO_LONGS bits \<Longrightarrow> aget b k = Some (b ! k)"
  by (simp add: longs_bits aget_def)

lemma raw_bitmap_empty_spec:
  "bits \<le> 64 * length b \<Longrightarrow> raw_bitmap_empty b bits = Some (\<forall>i < bits. \<not> bitat b i)"
  using any_bit_spec [of bits "aget b" "\<lambda>k. b ! k"] by (simp add: raw_bitmap_empty_def aget_word bitat_def)

lemma bit_not_u64: "bit (NOT w) (i mod 64) \<longleftrightarrow> \<not> bit (w :: u64) (i mod 64)"
  by (simp add: bit_simps)

lemma raw_bitmap_full_spec:
  "bits \<le> 64 * length b \<Longrightarrow> raw_bitmap_full b bits = Some (\<forall>i < bits. bitat b i)"
  using any_bit_spec [of bits "\<lambda>k. do { w \<leftarrow> aget b k; Some (NOT w) }" "\<lambda>k. NOT (b ! k)"]
  by (simp add: raw_bitmap_full_def aget_word bitat_def bit_not_u64)

lemma two_words:
  assumes "bits \<le> 64 * length a" and "bits \<le> 64 * length b"
  shows "\<forall>k < BITS_TO_LONGS bits. (do { v \<leftarrow> aget a k; w \<leftarrow> aget b k; Some (f v w) }) = Some (f (a ! k) (b ! k))"
  using assms by (simp add: aget_word)

lemma raw_bitmap_equal_spec:
  assumes "bits \<le> 64 * length a" and "bits \<le> 64 * length b"
  shows "raw_bitmap_equal a b bits = Some (\<forall>i < bits. bitat a i \<longleftrightarrow> bitat b i)"
  using any_bit_spec [OF two_words [OF assms, of "(XOR)"]]
  by (simp add: raw_bitmap_equal_def bitat_def bit_xor_iff)

lemma raw_bitmap_intersects_spec:
  assumes "bits \<le> 64 * length a" and "bits \<le> 64 * length b"
  shows "raw_bitmap_intersects a b bits = Some (\<exists>i < bits. bitat a i \<and> bitat b i)"
  using any_bit_spec [OF two_words [OF assms, of "(AND)"]]
  by (simp add: raw_bitmap_intersects_def bitat_def bit_and_iff)

lemma raw_bitmap_subset_spec:
  assumes "bits \<le> 64 * length a" and "bits \<le> 64 * length b"
  shows "raw_bitmap_subset a b bits = Some (\<forall>i < bits. bitat a i \<longrightarrow> bitat b i)"
  using any_bit_spec [OF two_words [OF assms, of "\<lambda>v w. v AND NOT w"]]
  by (auto simp: raw_bitmap_subset_def bitat_def bit_and_iff bit_not_u64)

section \<open>Word-wise operations\<close>

lemma write_words_spec:
  assumes "\<And>k. i \<le> k \<Longrightarrow> k < lim \<Longrightarrow> f k = Some (g k)" and "lim \<le> length dst"
  shows "\<exists>dst'. write_words f dst i lim = Some dst' \<and> length dst' = length dst
    \<and> (\<forall>k. dst' ! k = (if i \<le> k \<and> k < lim then g k else dst ! k))"
  using assms
proof (induction "lim - i" arbitrary: i dst)
  case 0
  then show ?case by (subst write_words.simps) auto
next
  case (Suc d)
  then have i: "i < lim" by simp
  have "\<exists>dst'. write_words f (dst[i := g i]) (i + 1) lim = Some dst' \<and> length dst' = length (dst[i := g i])
      \<and> (\<forall>k. dst' ! k = (if i + 1 \<le> k \<and> k < lim then g k else dst[i := g i] ! k))"
    by (rule Suc.hyps(1)) (use Suc.hyps(2) Suc.prems in auto)
  then obtain dst' where "write_words f (dst[i := g i]) (i + 1) lim = Some dst'" "length dst' = length dst"
    "\<forall>k. dst' ! k = (if i + 1 \<le> k \<and> k < lim then g k else dst[i := g i] ! k)" by auto
  with i Suc.prems show ?case
    by (subst write_words.simps) (auto simp: aset_def nth_list_update)
qed

lemma write_words_bits:
  assumes "\<forall>k < BITS_TO_LONGS bits. f k = Some (g k)" and "bits \<le> 64 * length dst"
  shows "\<exists>dst'. write_words f dst 0 (BITS_TO_LONGS bits) = Some dst' \<and> length dst' = length dst
    \<and> (\<forall>i < bits. bitat dst' i \<longleftrightarrow> bit (g (i div 64)) (i mod 64))"
  using write_words_spec [of 0 "BITS_TO_LONGS bits" f g dst] assms
  by (auto simp: bitat_def longs_covers longs_bits)

lemma write_words_or_spec:
  assumes "\<And>k. i \<le> k \<Longrightarrow> k < lim \<Longrightarrow> f k = Some (g k)" and "lim \<le> length dst"
  shows "\<exists>res dst'. write_words_or f dst result i lim = Some (res, dst') \<and> write_words f dst i lim = Some dst'
    \<and> (res \<noteq> 0 \<longleftrightarrow> result \<noteq> 0 \<or> (\<exists>k. i \<le> k \<and> k < lim \<and> g k \<noteq> 0))"
  using assms
proof (induction "lim - i" arbitrary: i dst result)
  case 0
  then show ?case by (subst write_words_or.simps, subst write_words.simps) auto
next
  case (Suc d)
  then have i: "i < lim" by simp
  have "\<exists>res dst'. write_words_or f (dst[i := g i]) (result OR g i) (i + 1) lim = Some (res, dst')
      \<and> write_words f (dst[i := g i]) (i + 1) lim = Some dst'
      \<and> (res \<noteq> 0 \<longleftrightarrow> result OR g i \<noteq> 0 \<or> (\<exists>k. i + 1 \<le> k \<and> k < lim \<and> g k \<noteq> 0))"
    by (rule Suc.hyps(1)) (use Suc.hyps(2) Suc.prems in auto)
  moreover have "(\<exists>k. i \<le> k \<and> k < lim \<and> g k \<noteq> 0) \<longleftrightarrow> g i \<noteq> 0 \<or> (\<exists>k. i + 1 \<le> k \<and> k < lim \<and> g k \<noteq> 0)"
    using i by (metis Suc_eq_plus1 Suc_leD Suc_leI le_eq_less_or_eq)
  moreover have "result OR g i \<noteq> 0 \<longleftrightarrow> result \<noteq> 0 \<or> g i \<noteq> 0"
    by (auto simp: word_has_bit bit_or_iff)
  ultimately show ?case
    using i Suc.prems by (subst write_words_or.simps, subst write_words.simps) (auto simp: aset_def)
qed

lemma write_words_or_bits:
  assumes "\<forall>k < BITS_TO_LONGS bits. f k = Some (g k)" and "bits \<le> 64 * length dst"
  shows "\<exists>res dst'. write_words_or f dst 0 0 (BITS_TO_LONGS bits) = Some (res, dst') \<and> length dst' = length dst
    \<and> (\<forall>i < bits. bitat dst' i \<longleftrightarrow> bit (g (i div 64)) (i mod 64))
    \<and> (res \<noteq> 0 \<longleftrightarrow> (\<exists>k < BITS_TO_LONGS bits. g k \<noteq> 0))"
  using write_words_or_spec [of 0 "BITS_TO_LONGS bits" f g dst 0] write_words_bits [OF assms] assms
  by (auto simp: longs_bits)

definition bitwise_result :: "bitarray \<Rightarrow> nat \<Rightarrow> (nat \<Rightarrow> bool) \<Rightarrow> bitarray \<Rightarrow> bool" where
  "bitwise_result dst bits P dst' \<longleftrightarrow> length dst' = length dst \<and> (\<forall>i < bits. bitat dst' i \<longleftrightarrow> P i)"

lemma raw_bitmap_complement_spec:
  assumes "bits \<le> 64 * length src" and "bits \<le> 64 * length dst"
  shows "\<exists>dst'. raw_bitmap_complement dst src bits = Some dst' \<and> bitwise_result dst bits (\<lambda>i. \<not> bitat src i) dst'"
proof -
  let ?q = "bits div 64"
  obtain d where d: "write_words (\<lambda>k. do { w \<leftarrow> aget src k; Some (NOT w) }) dst 0 ?q = Some d"
    "length d = length dst" "\<And>k. d ! k = (if k < ?q then NOT (src ! k) else dst ! k)"
    using write_words_spec [of 0 ?q "\<lambda>k. do { w \<leftarrow> aget src k; Some (NOT w) }" "\<lambda>k. NOT (src ! k)" dst] assms
    by (auto simp: aget_word longs_split longs_bits)
  have full: "bitat d i \<longleftrightarrow> \<not> bitat src i" if "i < 64 * ?q" for i
    using that by (simp add: bitat_def d(3) less_mult_imp_div_less mult.commute bit_not_u64)
  show ?thesis
  proof (cases "bits mod 64 = 0")
    case True
    then have "64 * ?q = bits" by auto
    with d full True show ?thesis by (simp add: raw_bitmap_complement_def bitwise_result_def)
  next
    case False
    then have q: "?q < length src" "?q < length dst" using assms by (auto simp: longs_bits longs_split)
    let ?d = "d[?q := NOT (src ! ?q) AND mask (bits mod 64)]"
    have "bitat ?d i \<longleftrightarrow> \<not> bitat src i" if "i < bits" for i
    proof (cases "i div 64 = ?q")
      case True
      moreover have "i mod 64 < bits mod 64" using True that by (metis div_mult_mod_eq nat_add_left_cancel_less)
      ultimately show ?thesis using q d(2) by (simp add: bitat_def bit_simps)
    next
      case neq: False
      then have "i < 64 * ?q" using that by linarith
      with full neq show ?thesis by (simp add: bitat_def)
    qed
    with d q False show ?thesis
      by (simp add: raw_bitmap_complement_def bitwise_result_def last_word_mask aget_def aset_def Let_def)
  qed
qed

section \<open>Properties\<close>

text \<open>
  The bitmap predicates depend on the first \<open>bits\<close> bits only and say what
  their names say.
\<close>

theorem bitmap_predicates_ok:
  assumes "bits \<le> 64 * length a" and "bits \<le> 64 * length b"
  shows "raw_bitmap_empty a bits = Some (\<forall>i < bits. \<not> bitat a i)
    \<and> raw_bitmap_full a bits = Some (\<forall>i < bits. bitat a i)
    \<and> raw_bitmap_equal a b bits = Some (\<forall>i < bits. bitat a i \<longleftrightarrow> bitat b i)
    \<and> raw_bitmap_intersects a b bits = Some (\<exists>i < bits. bitat a i \<and> bitat b i)
    \<and> raw_bitmap_subset a b bits = Some (\<forall>i < bits. bitat a i \<longrightarrow> bitat b i)"
  using assms by (simp only: raw_bitmap_empty_spec raw_bitmap_full_spec raw_bitmap_equal_spec
      raw_bitmap_intersects_spec raw_bitmap_subset_spec)

theorem bitmap_predicates_ok_witness:
  "raw_bitmap_empty [0, 4] 66 = Some (\<forall>i < 66. \<not> bitat [0, 4] i)
   \<and> raw_bitmap_intersects [0, 4] [1, 6] 66 = Some (\<exists>i < 66. bitat [0, 4] i \<and> bitat [1, 6] i)"
  using bitmap_predicates_ok [of 66 "[0, 4]" "[1, 6]"] by simp

text \<open>
  C23.  The word-wise operations compute the boolean operation of their names on
  each of the first \<open>bits\<close> bits of the destination.
\<close>

theorem bitmap_wordwise_ok:
  assumes "bits \<le> 64 * length a" and "bits \<le> 64 * length b" and "bits \<le> 64 * length dst"
  shows "(\<exists>d. raw_bitmap_complement dst a bits = Some d \<and> bitwise_result dst bits (\<lambda>i. \<not> bitat a i) d)
    \<and> (\<exists>r d. raw_bitmap_and dst a b bits = Some (r, d) \<and> bitwise_result dst bits (\<lambda>i. bitat a i \<and> bitat b i) d)
    \<and> (\<exists>r d. raw_bitmap_andnot dst a b bits = Some (r, d) \<and> bitwise_result dst bits (\<lambda>i. bitat a i \<and> \<not> bitat b i) d)
    \<and> (\<exists>d. raw_bitmap_or dst a b bits = Some d \<and> bitwise_result dst bits (\<lambda>i. bitat a i \<or> bitat b i) d)
    \<and> (\<exists>d. raw_bitmap_xor dst a b bits = Some d \<and> bitwise_result dst bits (\<lambda>i. bitat a i \<noteq> bitat b i) d)"
proof (intro conjI)
  show "\<exists>d. raw_bitmap_complement dst a bits = Some d \<and> bitwise_result dst bits (\<lambda>i. \<not> bitat a i) d"
    by (rule raw_bitmap_complement_spec [OF assms(1,3)])
  note two = two_words [OF assms(1,2)]
  show "\<exists>r d. raw_bitmap_and dst a b bits = Some (r, d) \<and> bitwise_result dst bits (\<lambda>i. bitat a i \<and> bitat b i) d"
    using write_words_or_bits [OF two [of "(AND)"] assms(3)]
    by (auto simp: raw_bitmap_and_def bitwise_result_def bit_and_iff bitat_def)
  show "\<exists>r d. raw_bitmap_andnot dst a b bits = Some (r, d) \<and> bitwise_result dst bits (\<lambda>i. bitat a i \<and> \<not> bitat b i) d"
    using write_words_or_bits [OF two [of "\<lambda>v w. v AND NOT w"] assms(3)]
    by (auto simp: raw_bitmap_andnot_def bitwise_result_def bit_and_iff bit_not_u64 bitat_def)
  show "\<exists>d. raw_bitmap_or dst a b bits = Some d \<and> bitwise_result dst bits (\<lambda>i. bitat a i \<or> bitat b i) d"
    using write_words_bits [OF two [of "(OR)"] assms(3)]
    by (auto simp: raw_bitmap_or_def bitwise_result_def bit_or_iff bitat_def)
  show "\<exists>d. raw_bitmap_xor dst a b bits = Some d \<and> bitwise_result dst bits (\<lambda>i. bitat a i \<noteq> bitat b i) d"
    using write_words_bits [OF two [of "(XOR)"] assms(3)]
    by (auto simp: raw_bitmap_xor_def bitwise_result_def bit_xor_iff bitat_def)
qed

theorem bitmap_wordwise_ok_witness:
  "\<exists>d. raw_bitmap_xor [0] [6] [3] 3 = Some d \<and> bitwise_result [0] 3 (\<lambda>i. bitat [6] i \<noteq> bitat [3] i) d"
  using bitmap_wordwise_ok [of 3 "[6]" "[3]" "[0]"] by simp

text \<open>
  The result of \<open>__bitmap_and\<close> does depend on the unused bits, which the head of the file
  excludes: with one valid bit, two bitmaps whose common bit is the unused bit 1 do not intersect, yet
  \<open>__bitmap_and\<close> reports a non-empty result.
\<close>

theorem bitmap_and_unused_bits:
  "raw_bitmap_intersects [2] [2] 1 = Some False \<and> raw_bitmap_and [0] [2] [2] 1 = Some (True, [2])"
  by (simp add: raw_bitmap_intersects_def raw_bitmap_and_def any_bit_def any_word.simps write_words_or.simps
      aget_def aset_def BITS_TO_LONGS_def BITMAP_LAST_WORD_MASK_def)

end
