(* ===== verification/Bitmap_Shift.thy ===== *)
theory Bitmap_Shift
  imports Bitmap_Ops
begin

text \<open>
  The shifts of \<open>lib/bitmap.c\<close> move every bit by the given distance, for any distance
  that is not a whole word beyond the bitmap, and do so in place too: the loops read a word before
  they overwrite it.
\<close>

section \<open>Reading the source\<close>

text \<open>A read that a write to another word does not change, as those of a separate source and of the destination.\<close>

definition rd_local :: "(bitarray \<Rightarrow> nat \<Rightarrow> u64 option) \<Rightarrow> bool" where
  "rd_local rd \<longleftrightarrow> (\<forall>d k w j. j \<noteq> k \<longrightarrow> rd (d[k := w]) j = rd d j)"

lemma rd_local_other: "rd_local (\<lambda>_. aget src)"
  by (simp add: rd_local_def)

lemma rd_local_same: "rd_local aget"
  by (simp add: rd_local_def aget_def)

text \<open>A word of the source with the unused bits of the last word cleared.\<close>

definition eff :: "bitarray \<Rightarrow> nat \<Rightarrow> nat \<Rightarrow> u64" where
  "eff src bits j = (if bits mod 64 \<noteq> 0 \<and> j = BITS_TO_LONGS bits - 1 then src ! j AND mask (bits mod 64) else src ! j)"

lemma last_long: "bits mod 64 \<noteq> 0 \<Longrightarrow> BITS_TO_LONGS bits - 1 = bits div 64"
  by (simp add: longs_split)

lemma below_bits:
  assumes "j < BITS_TO_LONGS bits" and "n < 64"
  shows "64 * j + n < bits \<longleftrightarrow> (bits mod 64 \<noteq> 0 \<and> j = BITS_TO_LONGS bits - 1 \<longrightarrow> n < bits mod 64)"
proof -
  define q r where "q = bits div 64" and "r = bits mod 64"
  have b: "bits = 64 * q + r" "r < 64" by (simp_all add: q_def r_def)
  have l: "BITS_TO_LONGS bits = q + (if r \<noteq> 0 then 1 else 0)" by (simp add: longs_split q_def r_def)
  show ?thesis
  proof (cases "r \<noteq> 0 \<and> j = q")
    case True
    then show ?thesis using b l by (simp add: r_def [symmetric])
  next
    case False
    then have "j < q" using assms(1) l by (cases "r = 0") auto
    then have "64 * j + n < bits" using b assms(2) by linarith
    with False l show ?thesis by (auto simp: r_def [symmetric])
  qed
qed

lemma bit_eff:
  assumes "j < BITS_TO_LONGS bits" and "n < 64"
  shows "bit (eff src bits j) n \<longleftrightarrow> 64 * j + n < bits \<and> bitat src (64 * j + n)"
  using below_bits [OF assms] assms(2) by (auto simp: eff_def bit_simps bitat_word)

lemma mask_left: "k < 64 \<Longrightarrow> push_bit k 1 - 1 = (mask k :: u64)"
  by (simp add: mask_eq_exp_minus_1 push_bit_eq_mult)

section \<open>Right\<close>

definition shr_word :: "bitarray \<Rightarrow> nat \<Rightarrow> nat \<Rightarrow> nat \<Rightarrow> u64" where
  "shr_word src shift bits k =
     (let off = shift div 64; rem = shift mod 64; lim = BITS_TO_LONGS bits;
          upper = (if rem = 0 \<or> off + k + 1 \<ge> lim then 0 else eff src bits (off + k + 1));
          w = (if rem = 0 then 0 else push_bit (64 - rem) upper) OR drop_bit rem (eff src bits (off + k))
      in if bits mod 64 \<noteq> 0 \<and> k = lim - 1 then w AND mask (bits mod 64) else w)"

lemma shift_right_word_eq:
  assumes "\<forall>j. k \<le> j \<longrightarrow> j < BITS_TO_LONGS bits \<longrightarrow> rd dst j = Some (src ! j)"
    and "shift div 64 + k < BITS_TO_LONGS bits"
  shows "shift_right_word rd dst (shift div 64) (shift mod 64) (BITS_TO_LONGS bits) (bits mod 64) k
    = Some (shr_word src shift bits k)"
proof -
  have m: "push_bit (bits mod 64) 1 - 1 = (mask (bits mod 64) :: u64)" by (rule mask_left) simp
  let ?lim = "BITS_TO_LONGS bits" and ?j = "shift div 64 + k"
  have lo: "rd dst ?j = Some (src ! ?j)" using assms by simp
  have lo': "(if bits mod 64 \<noteq> 0 \<and> ?j = ?lim - 1 then src ! ?j AND mask (bits mod 64) else src ! ?j) = eff src bits ?j"
    by (simp only: eff_def)
  have up: "(if shift mod 64 = 0 \<or> ?j + 1 \<ge> ?lim then Some 0
      else rd dst (?j + 1) \<bind> (\<lambda>u. Some (if ?j + 1 = ?lim - 1 \<and> bits mod 64 \<noteq> 0 then u AND mask (bits mod 64) else u)))
    = Some (if shift mod 64 = 0 \<or> ?j + 1 \<ge> ?lim then 0 else eff src bits (?j + 1))"
    using assms by (cases "shift mod 64 = 0 \<or> ?j + 1 \<ge> ?lim") (auto simp: eff_def)
  show ?thesis unfolding shift_right_word_def shr_word_def Let_def m
    by (simp only: up lo lo' Option.bind.simps)
qed

lemma bit_shr_word:
  assumes k: "shift div 64 + k < BITS_TO_LONGS bits" and m: "m < 64" "64 * k + m < bits"
  shows "bit (shr_word src shift bits k) m \<longleftrightarrow> 64 * k + m + shift < bits \<and> bitat src (64 * k + m + shift)"
proof -
  define off rem where "off = shift div 64" and "rem = shift mod 64"
  have s: "shift = 64 * off + rem" "rem < 64" by (simp_all add: off_def rem_def)
  let ?lim = "BITS_TO_LONGS bits" and ?B = "\<lambda>i. i < bits \<and> bitat src i"
  define upper where "upper = (if rem = 0 \<or> off + k + 1 \<ge> ?lim then 0 else eff src bits (off + k + 1))"
  let ?w = "(if rem = 0 then 0 else push_bit (64 - rem) upper) OR drop_bit rem (eff src bits (off + k))"
  have low: "bit (shr_word src shift bits k) m \<longleftrightarrow> bit ?w m"
  proof (cases "bits mod 64 \<noteq> 0 \<and> k = ?lim - 1")
    case True
    have "k < ?lim" using k by simp
    then have "m < bits mod 64" using below_bits [of k bits m] True m by auto
    with True m show ?thesis
      by (simp add: shr_word_def upper_def Let_def off_def [symmetric] rem_def [symmetric] bit_simps)
  next
    case False
    then show ?thesis unfolding shr_word_def Let_def upper_def off_def rem_def by (simp only: if_False)
  qed
  have k': "off + k < ?lim" using k by (simp add: off_def)
  show ?thesis
  proof (cases "m + rem < 64")
    case True
    have "bit ?w m \<longleftrightarrow> bit (eff src bits (off + k)) (m + rem)"
      using True m by (auto simp: bit_simps add.commute)
    also have "\<dots> \<longleftrightarrow> ?B (64 * (off + k) + (m + rem))" by (rule bit_eff [OF k' True])
    finally show ?thesis using low s(1) by (simp add: algebra_simps)
  next
    case False
    then have rem: "rem \<noteq> 0" "64 - rem \<le> m" "m + rem - 64 < 64" using m s(2) by auto
    have "m - (64 - rem) = m + rem - 64" using s(2) by simp
    moreover have "\<not> bit (eff src bits (off + k)) (m + rem)" using False bit_word_less by fastforce
    ultimately have "bit ?w m \<longleftrightarrow> bit upper (m + rem - 64)"
      using rem m by (auto simp: bit_simps add.commute)
    also have "\<dots> \<longleftrightarrow> ?B (64 * (off + k + 1) + (m + rem - 64))"
    proof (cases "off + k + 1 < ?lim")
      case True
      then show ?thesis using bit_eff [OF True rem(3)] rem(1) by (simp add: upper_def)
    next
      case out: False
      then have "bits \<le> 64 * (off + k + 1)" by (simp only: longs_bits not_less)
      with out rem(1) show ?thesis by (simp add: upper_def)
    qed
    also have "64 * (off + k + 1) + (m + rem - 64) = 64 * k + m + shift" using False s(1) by simp
    finally show ?thesis using low by simp
  qed
qed

lemma shift_right_loop_spec:
  assumes "rd_local rd" and "shift div 64 + k \<le> BITS_TO_LONGS bits \<or> k = 0" and "BITS_TO_LONGS bits \<le> length dst"
    and "\<forall>j. k \<le> j \<longrightarrow> j < BITS_TO_LONGS bits \<longrightarrow> rd dst j = Some (src ! j)"
  shows "\<exists>dst'. shift_right_loop rd dst (shift div 64) (shift mod 64) (BITS_TO_LONGS bits) (bits mod 64) k = Some dst'
    \<and> length dst' = length dst
    \<and> (\<forall>j. dst' ! j = (if k \<le> j \<and> shift div 64 + j < BITS_TO_LONGS bits then shr_word src shift bits j else dst ! j))"
  using assms(2-4)
proof (induction "BITS_TO_LONGS bits - (shift div 64 + k)" arbitrary: k dst)
  case 0
  then show ?case by (subst shift_right_loop.simps) auto
next
  case (Suc d)
  let ?off = "shift div 64" and ?lim = "BITS_TO_LONGS bits" and ?w = "shr_word src shift bits k"
  have k: "?off + k < ?lim" using Suc.hyps(2) by simp
  have "\<exists>dst'. shift_right_loop rd (dst[k := ?w]) ?off (shift mod 64) ?lim (bits mod 64) (k + 1) = Some dst'
      \<and> length dst' = length (dst[k := ?w])
      \<and> (\<forall>j. dst' ! j = (if k + 1 \<le> j \<and> ?off + j < ?lim then shr_word src shift bits j else dst[k := ?w] ! j))"
    by (rule Suc.hyps(1)) (use Suc.hyps(2) Suc.prems k assms(1) in \<open>auto simp: rd_local_def\<close>)
  then obtain dst' where
    rest: "shift_right_loop rd (dst[k := ?w]) ?off (shift mod 64) ?lim (bits mod 64) (k + 1) = Some dst'"
    "length dst' = length dst"
    "\<And>j. dst' ! j = (if k + 1 \<le> j \<and> ?off + j < ?lim then shr_word src shift bits j else dst[k := ?w] ! j)"
    by auto
  have "k < length dst" using k Suc.prems(2) by simp
  then have "shift_right_loop rd dst ?off (shift mod 64) ?lim (bits mod 64) k = Some dst'"
    using k shift_right_word_eq [of k bits rd dst src shift] Suc.prems(3) rest(1) by (subst shift_right_loop.simps) (simp add: aset_def)
  moreover have "dst' ! j = (if k \<le> j \<and> ?off + j < ?lim then shr_word src shift bits j else dst ! j)" for j
    using rest(3) [of j] k \<open>k < length dst\<close> by (cases "j = k") auto
  ultimately show ?case using rest(2) by blast
qed

lemma raw_bitmap_shift_right_spec:
  assumes "rd_local rd" and "shift div 64 \<le> BITS_TO_LONGS bits" and "bits \<le> 64 * length dst"
    and "\<forall>j < BITS_TO_LONGS bits. rd dst j = Some (src ! j)"
  shows "\<exists>dst'. raw_bitmap_shift_right rd dst shift bits = Some dst'
    \<and> bitwise_result dst bits (\<lambda>i. i + shift < bits \<and> bitat src (i + shift)) dst'"
proof -
  let ?off = "shift div 64" and ?lim = "BITS_TO_LONGS bits"
  have len: "?lim \<le> length dst" using assms(3) by (simp add: longs_bits)
  obtain d1 where d1: "shift_right_loop rd dst ?off (shift mod 64) ?lim (bits mod 64) 0 = Some d1"
    "length d1 = length dst" "\<And>j. d1 ! j = (if ?off + j < ?lim then shr_word src shift bits j else dst ! j)"
    using shift_right_loop_spec [OF assms(1), of shift 0 bits dst src] len assms(4) by auto
  obtain d2 where d2: "zero_words d1 (?lim - ?off) ?off = Some d2" "length d2 = length d1"
    "\<And>j. d2 ! j = (if ?lim - ?off \<le> j \<and> j < ?lim then 0 else d1 ! j)"
    using write_words_spec [of "?lim - ?off" "?lim" "\<lambda>_. Some 0" "\<lambda>_. 0" d1] len d1(2) assms(2)
    by (auto simp: zero_words_def)
  have run: "raw_bitmap_shift_right rd dst shift bits = Some (if ?off \<noteq> 0 then d2 else d1)"
    using d1(1) d2(1) assms(2) by (simp add: raw_bitmap_shift_right_def Let_def)
  have word: "(if ?off \<noteq> 0 then d2 else d1) ! j = (if ?off + j < ?lim then shr_word src shift bits j else 0)"
    if "j < ?lim" for j
    using that d1(3) d2(3) by (cases "?off = 0") auto
  have "bitat (if ?off \<noteq> 0 then d2 else d1) i \<longleftrightarrow> i + shift < bits \<and> bitat src (i + shift)" if i: "i < bits" for i
  proof (cases "?off + i div 64 < ?lim")
    case True
    have "64 * (i div 64) + i mod 64 = i" by simp
    with bit_shr_word [OF True, of "i mod 64" src] i True word [OF longs_covers [OF i]] show ?thesis
      by (simp add: bitat_def)
  next
    case False
    then have "bits \<le> 64 * (?off + i div 64)" by (simp only: longs_bits not_less)
    moreover have "64 * ?off \<le> shift" "64 * (i div 64) \<le> i" by simp_all
    moreover have "bits \<le> 64 * (a + b) \<Longrightarrow> 64 * a \<le> shift \<Longrightarrow> 64 * b \<le> i \<Longrightarrow> bits \<le> i + shift" for a b
      by (simp add: distrib_left)
    ultimately have "bits \<le> i + shift" by blast
    with False word [OF longs_covers [OF i]] show ?thesis by (simp add: bitat_def)
  qed
  with run d1(2) d2(2) show ?thesis by (simp add: bitwise_result_def)
qed

section \<open>Left\<close>

definition shl_word :: "bitarray \<Rightarrow> nat \<Rightarrow> nat \<Rightarrow> nat \<Rightarrow> u64" where
  "shl_word src shift bits k =
     (let off = shift div 64; rem = shift mod 64;
          lower = (if rem \<noteq> 0 \<and> k > 0 then src ! (k - 1) else 0);
          w = (if rem = 0 then 0 else drop_bit (64 - rem) lower) OR push_bit rem (eff src bits k)
      in if bits mod 64 \<noteq> 0 \<and> k + off = BITS_TO_LONGS bits - 1 then w AND mask (bits mod 64) else w)"

lemma shift_left_word_eq:
  assumes "\<forall>j \<le> k. rd dst j = Some (src ! j)"
  shows "shift_left_word rd dst (shift div 64) (shift mod 64) (BITS_TO_LONGS bits) (bits mod 64) k
    = Some (shl_word src shift bits k)"
proof -
  have m: "push_bit (bits mod 64) 1 - 1 = (mask (bits mod 64) :: u64)" by (rule mask_left) simp
  have up: "rd dst k = Some (src ! k)" using assms by simp
  have up': "(if bits mod 64 \<noteq> 0 \<and> k = BITS_TO_LONGS bits - 1 then src ! k AND mask (bits mod 64) else src ! k) = eff src bits k"
    by (simp only: eff_def)
  have lo: "(if shift mod 64 \<noteq> 0 \<and> k > 0 then rd dst (k - 1) else Some 0)
      = Some (if shift mod 64 \<noteq> 0 \<and> k > 0 then src ! (k - 1) else 0)" using assms by simp
  show ?thesis unfolding shift_left_word_def shl_word_def Let_def m
    by (simp only: up up' lo Option.bind.simps)
qed

lemma bit_shl_word:
  assumes k: "k + shift div 64 < BITS_TO_LONGS bits" and m: "m < 64" "64 * (k + shift div 64) + m < bits"
  shows "bit (shl_word src shift bits k) m
    \<longleftrightarrow> shift \<le> 64 * (k + shift div 64) + m \<and> bitat src (64 * (k + shift div 64) + m - shift)"
proof -
  define off rem where "off = shift div 64" and "rem = shift mod 64"
  have s: "shift = 64 * off + rem" "rem < 64" by (simp_all add: off_def rem_def)
  define lower where "lower = (if rem \<noteq> 0 \<and> k > 0 then src ! (k - 1) else 0)"
  let ?w = "(if rem = 0 then 0 else drop_bit (64 - rem) lower) OR push_bit rem (eff src bits k)"
  have low: "bit (shl_word src shift bits k) m \<longleftrightarrow> bit ?w m"
  proof (cases "bits mod 64 \<noteq> 0 \<and> k + off = BITS_TO_LONGS bits - 1")
    case True
    then have "m < bits mod 64" using below_bits [of "k + off" bits m] k m by (auto simp: off_def)
    with True m show ?thesis
      by (simp add: shl_word_def lower_def Let_def off_def [symmetric] rem_def [symmetric] bit_simps)
  next
    case False
    then show ?thesis unfolding shl_word_def Let_def lower_def off_def rem_def by (simp only: if_False)
  qed
  have off: "shift div 64 = off" by (simp add: off_def)
  have k': "k < BITS_TO_LONGS bits" using k by simp
  show ?thesis
  proof (cases "rem \<le> m")
    case True
    have "\<not> bit lower (64 - rem + m)" using True s(2) bit_word_less [of lower "64 - rem + m"] by auto
    then have "bit ?w m \<longleftrightarrow> bit (eff src bits k) (m - rem)" using True m by (auto simp: bit_simps)
    also have "\<dots> \<longleftrightarrow> bitat src (64 * k + (m - rem))"
      using bit_eff [OF k', of "m - rem" src] m(1) m(2) by auto
    also have "64 * k + (m - rem) = 64 * (k + shift div 64) + m - shift" unfolding off using True s(1) by simp
    finally show ?thesis using low True s(1) unfolding off by simp
  next
    case False
    then have w: "bit ?w m \<longleftrightarrow> bit lower (64 - rem + m)" using m by (auto simp: bit_simps)
    show ?thesis
    proof (cases k)
      case 0
      then show ?thesis using w low False s(1) unfolding off by (simp add: lower_def)
    next
      case (Suc k0)
      have "bit lower (64 - rem + m) \<longleftrightarrow> bitat src (64 * k0 + (64 - rem + m))"
        using bitat_word [of "64 - rem + m" src k0] False Suc s(2) by (simp add: lower_def)
      also have "64 * k0 + (64 - rem + m) = 64 * (k + shift div 64) + m - shift"
        unfolding off using False s Suc by simp
      finally show ?thesis using low w False s Suc unfolding off by simp
    qed
  qed
qed

lemma shift_left_loop_spec:
  assumes "rd_local rd" and "k + shift div 64 \<le> length dst" and "\<forall>j < k. rd dst j = Some (src ! j)"
  shows "\<exists>dst'. shift_left_loop rd dst (shift div 64) (shift mod 64) (BITS_TO_LONGS bits) (bits mod 64) k = Some dst'
    \<and> length dst' = length dst
    \<and> (\<forall>j. dst' ! j = (if shift div 64 \<le> j \<and> j < k + shift div 64 then shl_word src shift bits (j - shift div 64) else dst ! j))"
  using assms(2-)
proof (induction k arbitrary: dst)
  case 0
  then show ?case by auto
next
  case (Suc k)
  let ?off = "shift div 64" and ?w = "shl_word src shift bits k"
  have "\<exists>dst'. shift_left_loop rd (dst[k + ?off := ?w]) ?off (shift mod 64) (BITS_TO_LONGS bits) (bits mod 64) k = Some dst'
      \<and> length dst' = length (dst[k + ?off := ?w])
      \<and> (\<forall>j. dst' ! j = (if ?off \<le> j \<and> j < k + ?off then shl_word src shift bits (j - ?off) else dst[k + ?off := ?w] ! j))"
    by (rule Suc.IH) (use Suc.prems assms(1) in \<open>auto simp: rd_local_def\<close>)
  then obtain dst' where
    rest: "shift_left_loop rd (dst[k + ?off := ?w]) ?off (shift mod 64) (BITS_TO_LONGS bits) (bits mod 64) k = Some dst'"
    "length dst' = length dst"
    "\<And>j. dst' ! j = (if ?off \<le> j \<and> j < k + ?off then shl_word src shift bits (j - ?off) else dst[k + ?off := ?w] ! j)"
    by auto
  have "k + ?off < length dst" using Suc.prems(1) by simp
  then have "shift_left_loop rd dst ?off (shift mod 64) (BITS_TO_LONGS bits) (bits mod 64) (Suc k) = Some dst'"
    using shift_left_word_eq [of k rd dst src shift bits] Suc.prems(2) rest(1) by (simp add: aset_def)
  moreover have "dst' ! j = (if ?off \<le> j \<and> j < Suc k + ?off then shl_word src shift bits (j - ?off) else dst ! j)" for j
    using rest(3) [of j] \<open>k + ?off < length dst\<close> by (cases "j = k + ?off") auto
  ultimately show ?case using rest(2) by blast
qed

lemma raw_bitmap_shift_left_spec:
  assumes "rd_local rd" and "shift div 64 \<le> BITS_TO_LONGS bits" and "bits \<le> 64 * length dst"
    and "\<forall>j < BITS_TO_LONGS bits. rd dst j = Some (src ! j)"
  shows "\<exists>dst'. raw_bitmap_shift_left rd dst shift bits = Some dst'
    \<and> bitwise_result dst bits (\<lambda>i. shift \<le> i \<and> bitat src (i - shift)) dst'"
proof -
  let ?off = "shift div 64" and ?lim = "BITS_TO_LONGS bits"
  have len: "?lim \<le> length dst" using assms(3) by (simp only: longs_bits)
  have k: "?lim - ?off + ?off = ?lim" using assms(2) by simp
  obtain d1 where d1: "shift_left_loop rd dst ?off (shift mod 64) ?lim (bits mod 64) (?lim - ?off) = Some d1"
    "length d1 = length dst"
    "\<And>j. d1 ! j = (if ?off \<le> j \<and> j < ?lim then shl_word src shift bits (j - ?off) else dst ! j)"
    using shift_left_loop_spec [OF assms(1), of "?lim - ?off" shift dst src bits] len assms(4) unfolding k by auto
  obtain d2 where d2: "zero_words d1 0 ?off = Some d2" "length d2 = length d1"
    "\<And>j. d2 ! j = (if j < ?off then 0 else d1 ! j)"
    using write_words_spec [of 0 "?off" "\<lambda>_. Some 0" "\<lambda>_. 0" d1] len d1(2) assms(2)
    by (auto simp: zero_words_def)
  let ?d = "if ?off \<noteq> 0 then d2 else d1"
  have run: "raw_bitmap_shift_left rd dst shift bits = Some ?d"
    using d1(1) d2(1) by (simp add: raw_bitmap_shift_left_def Let_def)
  have word: "?d ! j = (if ?off \<le> j then shl_word src shift bits (j - ?off) else 0)" if "j < ?lim" for j
    using that d1(3) d2(3) by (cases "?off = 0") auto
  have "bitat ?d i \<longleftrightarrow> shift \<le> i \<and> bitat src (i - shift)" if i: "i < bits" for i
  proof (cases "?off \<le> i div 64")
    case True
    then have "i div 64 - ?off + ?off = i div 64" by simp
    moreover have "64 * (i div 64) + i mod 64 = i" by simp
    ultimately show ?thesis
      using bit_shl_word [of "i div 64 - ?off" shift bits "i mod 64" src] longs_covers [OF i] i True word
      by (simp add: bitat_def)
  next
    case False
    then have "i < shift" by (metis div_le_mono not_less)
    with False word [OF longs_covers [OF i]] show ?thesis by (simp add: bitat_def)
  qed
  with run d1(2) d2(2) show ?thesis by (simp add: bitwise_result_def)
qed

section \<open>Property\<close>

text \<open>
  \<open>__bitmap_shift_right\<close> and \<open>__bitmap_shift_left\<close> compute the shifted bitmap bit by bit,
  with zeroes coming in and the unused bits of the source never entering the result, and also when the
  destination is the source itself.
\<close>

theorem bitmap_shift_ok:
  assumes "shift div 64 \<le> BITS_TO_LONGS bits" and "bits \<le> 64 * length dst" and "bits \<le> 64 * length src"
  shows "(\<exists>d. raw_bitmap_shift_right (\<lambda>_. aget src) dst shift bits = Some d
        \<and> bitwise_result dst bits (\<lambda>i. i + shift < bits \<and> bitat src (i + shift)) d)
    \<and> (\<exists>d. raw_bitmap_shift_right aget src shift bits = Some d
        \<and> bitwise_result src bits (\<lambda>i. i + shift < bits \<and> bitat src (i + shift)) d)
    \<and> (\<exists>d. raw_bitmap_shift_left (\<lambda>_. aget src) dst shift bits = Some d
        \<and> bitwise_result dst bits (\<lambda>i. shift \<le> i \<and> bitat src (i - shift)) d)
    \<and> (\<exists>d. raw_bitmap_shift_left aget src shift bits = Some d
        \<and> bitwise_result src bits (\<lambda>i. shift \<le> i \<and> bitat src (i - shift)) d)"
proof -
  have "\<forall>j < BITS_TO_LONGS bits. aget src j = Some (src ! j)"
    using assms(3) by (simp add: longs_bits aget_Some)
  note r = this
  show ?thesis
    by (intro conjI raw_bitmap_shift_right_spec [OF rd_local_other] raw_bitmap_shift_right_spec [OF rd_local_same]
        raw_bitmap_shift_left_spec [OF rd_local_other] raw_bitmap_shift_left_spec [OF rd_local_same] assms r)
qed

theorem bitmap_shift_ok_witness:
  "(\<exists>d. raw_bitmap_shift_right (\<lambda>_. aget [5, 6]) [0, 0] 70 100 = Some d
        \<and> bitwise_result [0, 0] 100 (\<lambda>i. i + 70 < 100 \<and> bitat [5, 6] (i + 70)) d)
    \<and> (\<exists>d. raw_bitmap_shift_right aget [5, 6] 70 100 = Some d
        \<and> bitwise_result [5, 6] 100 (\<lambda>i. i + 70 < 100 \<and> bitat [5, 6] (i + 70)) d)
    \<and> (\<exists>d. raw_bitmap_shift_left (\<lambda>_. aget [5, 6]) [0, 0] 70 100 = Some d
        \<and> bitwise_result [0, 0] 100 (\<lambda>i. 70 \<le> i \<and> bitat [5, 6] (i - 70)) d)
    \<and> (\<exists>d. raw_bitmap_shift_left aget [5, 6] 70 100 = Some d
        \<and> bitwise_result [5, 6] 100 (\<lambda>i. 70 \<le> i \<and> bitat [5, 6] (i - 70)) d)"
  by (rule bitmap_shift_ok) (simp_all add: BITS_TO_LONGS_def)

end
