(* ===== verification/Bitmap_Region.thy ===== *)
theory Bitmap_Region
  imports Bitmap_Ops Allocator
begin

text \<open>
  Ranges of bits in \<open>lib/bitmap.c\<close>: \<open>bitmap_set\<close> and \<open>bitmap_clear\<close>, the search for a
  run of zero bits, and the allocation of aligned regions whose size is a power of two, which is an
  instance of the contract of allocators that take blocks back.
\<close>

section \<open>Setting and clearing a range\<close>

text \<open>A write that gives the bits of the mask the value \<open>v\<close> and keeps the others.\<close>

definition writes_masked :: "(u64 \<Rightarrow> u64 \<Rightarrow> u64) \<Rightarrow> bool \<Rightarrow> bool" where
  "writes_masked upd v \<longleftrightarrow> (\<forall>w m n. n < 64 \<longrightarrow> bit (upd w m) n = (if bit m n then v else bit w n))"

lemma writes_masked_or: "writes_masked (\<lambda>w m. w OR m) True"
  and writes_masked_andnot: "writes_masked (\<lambda>w m. w AND NOT m) False"
  by (auto simp: writes_masked_def bit_simps)

text \<open>The bits after a range was given the value \<open>v\<close>.\<close>

definition range_result :: "bitarray \<Rightarrow> nat \<Rightarrow> nat \<Rightarrow> bool \<Rightarrow> bitarray \<Rightarrow> bool" where
  "range_result bm lo hi v bm' \<longleftrightarrow> length bm' = length bm
     \<and> (\<forall>i < 64 * length bm. bitat bm' i = (if lo \<le> i \<and> i < hi then v else bitat bm i))"

lemma range_result_step:
  assumes "writes_masked upd v" and "p < length bm" and "\<forall>n < 64. bit m n \<longleftrightarrow> lo \<le> 64 * p + n \<and> 64 * p + n < mid"
    and "range_result (bm[p := upd (bm ! p) m]) mid hi v bm'" and "mid \<le> hi" and "mid \<le> 64 * p + 64" and "64 * p \<le> lo" and "lo \<le> mid"
  shows "range_result bm lo hi v bm'"
proof -
  have "bitat bm' i = (if lo \<le> i \<and> i < hi then v else bitat bm i)" if i: "i < 64 * length bm" for i
  proof -
    have b: "bitat bm' i = (if mid \<le> i \<and> i < hi then v else bitat (bm[p := upd (bm ! p) m]) i)"
      using assms(4) i by (simp add: range_result_def)
    show ?thesis
    proof (cases "i div 64 = p")
      case True
      then have "i = 64 * p + i mod 64" by (metis mult_div_mod_eq)
      then have "bit m (i mod 64) \<longleftrightarrow> lo \<le> i \<and> i < mid" using assms(3) by (metis mod_less_divisor zero_less_numeral)
      then show ?thesis
        using b True assms(1,2,5,8) by (auto simp: writes_masked_def bitat_def)
    next
      case False
      then have "i < 64 * p \<or> 64 * p + 64 \<le> i" by (metis div_nat_eqI mult.commute mult_Suc add.commute not_less)
      then show ?thesis using b False assms(5-8) by (auto simp: bitat_def)
    qed
  qed
  then show ?thesis using assms(4) by (simp add: range_result_def)
qed

lemma bitmap_fill_loop_spec:
  assumes "writes_masked upd v" and "bits_to \<le> 64" and "0 < bits_to" and "64 * p + (64 - bits_to) + nr = sz"
    and "sz \<le> 64 * length bm" and "\<forall>n < 64. bit m n \<longleftrightarrow> 64 - bits_to \<le> n"
  shows "\<exists>bm'. bitmap_fill_loop upd bm sz p nr bits_to m = Some bm'
    \<and> range_result bm (64 * p + (64 - bits_to)) sz v bm'"
  using assms(2-)
proof (induction nr arbitrary: bm p bits_to m rule: less_induct)
  case (less nr)
  let ?lo = "64 * p + (64 - bits_to)"
  show ?case
  proof (cases "nr = 0")
    case True
    then show ?thesis using less.prems by (subst bitmap_fill_loop.simps) (auto simp: range_result_def)
  next
    case False
    have p: "p < length bm" using less.prems False by linarith
    show ?thesis
    proof (cases "bits_to \<le> nr")
      case True
      let ?bm = "bm[p := upd (bm ! p) m]"
      have "\<exists>bm'. bitmap_fill_loop upd ?bm sz (p + 1) (nr - bits_to) 64 (NOT 0) = Some bm'
          \<and> range_result ?bm (64 * (p + 1) + (64 - 64)) sz v bm'"
        by (rule less.IH) (use less.prems True in \<open>auto simp: bit_simps\<close>)
      then obtain bm' where bm': "bitmap_fill_loop upd ?bm sz (p + 1) (nr - bits_to) 64 (NOT 0) = Some bm'"
        "range_result ?bm (64 * p + 64) sz v bm'" by (auto simp: add.commute)
      have "range_result bm ?lo sz v bm'"
        by (rule range_result_step [OF assms(1) p _ bm'(2)]) (use less.prems True in auto)
      moreover have "bitmap_fill_loop upd bm sz p nr bits_to m = Some bm'"
        using bm'(1) True p less.prems(2) by (subst bitmap_fill_loop.simps) (simp add: aset_Some aget_Some)
      ultimately show ?thesis by blast
    next
      case short: False
      have szm: "sz mod 64 = 64 - bits_to + nr"
      proof -
        have "sz = 64 * p + (64 - bits_to + nr)" "64 - bits_to + nr < 64" using less.prems short by auto
        then show ?thesis by simp
      qed
      let ?m = "m AND BITMAP_LAST_WORD_MASK sz" and ?bm = "bm[p := upd (bm ! p) (m AND BITMAP_LAST_WORD_MASK sz)]"
      have "sz mod 64 \<noteq> 0" using szm False by simp
      from last_word_mask [OF this]
      have "\<forall>n < 64. bit ?m n \<longleftrightarrow> ?lo \<le> 64 * p + n \<and> 64 * p + n < sz"
        using less.prems by (auto simp: bit_simps szm)
      then have "range_result bm ?lo sz v ?bm"
        by (rule range_result_step [OF assms(1) p]) (use less.prems short in \<open>auto simp: range_result_def\<close>)
      moreover have "bitmap_fill_loop upd bm sz p nr bits_to m = Some ?bm"
        using short False p by (subst bitmap_fill_loop.simps) (simp add: aset_Some aget_Some)
      ultimately show ?thesis by blast
    qed
  qed
qed

lemma first_word_mask: "n < 64 \<Longrightarrow> bit (BITMAP_FIRST_WORD_MASK start) n \<longleftrightarrow> start mod 64 \<le> n"
  by (auto simp: BITMAP_FIRST_WORD_MASK_def bit_simps)

lemma bitmap_fill_spec:
  assumes "writes_masked upd v" and "start + nr \<le> 64 * length bm"
  shows "\<exists>bm'. bitmap_fill_loop upd bm (start + nr) (BIT_WORD start) nr (64 - start mod 64) (BITMAP_FIRST_WORD_MASK start)
      = Some bm' \<and> range_result bm start (start + nr) v bm'"
proof -
  have "64 - (64 - start mod 64) = start mod 64" by simp
  moreover have "64 * (start div 64) + start mod 64 = start" by simp
  ultimately show ?thesis
    using bitmap_fill_loop_spec [OF assms(1), of "64 - start mod 64" "start div 64" nr "start + nr" bm
        "BITMAP_FIRST_WORD_MASK start"] assms(2)
    by (simp add: BIT_WORD_def first_word_mask)
qed

section \<open>Regions\<close>

lemma reg_mask_bit:
  assumes "0 < n" and "off + n \<le> 64"
  shows "bit (reg_mask n off) k \<longleftrightarrow> off \<le> k \<and> k < off + n"
proof -
  have "(2 :: u64) ^ n = 2 * 2 ^ (n - 1)" using assms(1) by (cases n) auto
  then have "push_bit (n - 1) 1 + (push_bit (n - 1) 1 - 1) = (mask n :: u64)"
    by (simp add: mask_eq_exp_minus_1)
  then have "reg_mask n off = push_bit off (mask n)"
    unfolding reg_mask_def Let_def by (simp only:)
  then show ?thesis using assms by (auto simp: bit_simps)
qed

lemma aligned_room: "a dvd x \<Longrightarrow> a dvd n \<Longrightarrow> x < n \<Longrightarrow> x + a \<le> (n :: nat)"
  by (metis add.commute dvd_diff_nat dvd_imp_le le_diff_conv2 less_imp_le zero_less_diff)

text \<open>
  The words and the mask \<open>__reg_op\<close> computes describe the region: one word and a part of it,
  or whole words.
\<close>

lemma reg_cover:
  assumes "2 ^ order dvd pos" and "k < 64"
  shows "pos div 64 \<le> j \<and> j < pos div 64 + BITS_TO_LONGS (2 ^ order)
      \<and> bit (reg_mask (min (2 ^ order) 64) (pos - pos div 64 * 64)) k
    \<longleftrightarrow> pos \<le> 64 * j + k \<and> 64 * j + k < pos + 2 ^ order"
proof -
  define q r where "q = pos div 64" and "r = pos mod 64"
  have pos: "pos = 64 * q + r" "r < 64" and off: "pos - q * 64 = r"
    by (simp_all add: q_def r_def minus_div_mult_eq_mod)
  show ?thesis
  proof (cases "order < 6")
    case True
    then have small: "(2 :: nat) ^ order \<le> 2 ^ 5" by (intro power_increasing) auto
    have "(2 :: nat) ^ order dvd 2 ^ 6" using True by (intro le_imp_power_dvd) simp
    then have d: "(2 :: nat) ^ order dvd 64" by simp
    then have "2 ^ order dvd r" using assms(1) by (simp add: r_def dvd_mod)
    then have room: "r + 2 ^ order \<le> 64" using aligned_room [OF _ d pos(2)] by simp
    have "BITS_TO_LONGS (2 ^ order) = 1"
      unfolding BITS_TO_LONGS_def by (rule div_nat_eqI) (use small in simp_all)
    moreover have "pos \<le> 64 * j + k \<and> 64 * j + k < pos + 2 ^ order \<longleftrightarrow> j = q \<and> r \<le> k \<and> k < r + 2 ^ order"
    proof (cases "j = q")
      case False
      then consider "j < q" | "q < j" by linarith
      then show ?thesis using pos room assms(2) by cases linarith+
    qed (use pos in simp)
    moreover have "min (2 ^ order) 64 = (2 :: nat) ^ order" using small by simp
    ultimately show ?thesis
      using reg_mask_bit [of "2 ^ order" r k] room unfolding q_def [symmetric] off by auto
  next
    case False
    then obtain e where e: "order = 6 + e" using le_Suc_ex not_less by blast
    then have ord: "(2 :: nat) ^ order = 64 * 2 ^ e" by (simp add: power_add)
    then have "64 dvd pos" using assms(1) by (metis dvd_mult_left)
    then have r: "r = 0" by (simp add: r_def)
    have "BITS_TO_LONGS (2 ^ order) = 2 ^ e" by (simp add: ord BITS_TO_LONGS_def)
    moreover have "min (2 ^ order) 64 = (64 :: nat)" by (simp add: ord)
    ultimately show ?thesis
      using reg_mask_bit [of 64 0 k] pos r assms(2) ord unfolding q_def [symmetric] off
      by (auto simp: ord)
  qed
qed

lemma reg_write_spec:
  assumes "index + n \<le> length bm"
  shows "\<exists>bm'. reg_write f bm index i n = Some bm' \<and> length bm' = length bm
    \<and> (\<forall>j. bm' ! j = (if index + i \<le> j \<and> j < index + n then f (bm ! j) else bm ! j))"
  using assms
proof (induction "n - i" arbitrary: i bm)
  case 0
  then show ?case by (subst reg_write.simps) auto
next
  case (Suc d)
  let ?bm = "bm[index + i := f (bm ! (index + i))]"
  have "\<exists>bm'. reg_write f ?bm index (i + 1) n = Some bm' \<and> length bm' = length ?bm
      \<and> (\<forall>j. bm' ! j = (if index + (i + 1) \<le> j \<and> j < index + n then f (?bm ! j) else ?bm ! j))"
    by (rule Suc.hyps(1)) (use Suc.hyps(2) Suc.prems in auto)
  then obtain bm' where bm': "reg_write f ?bm index (i + 1) n = Some bm'" "length bm' = length bm"
    "\<And>j. bm' ! j = (if index + (i + 1) \<le> j \<and> j < index + n then f (?bm ! j) else ?bm ! j)" by auto
  have i: "i < n" "index + i < length bm" using Suc.hyps(2) Suc.prems by auto
  then have "reg_write f bm index i n = Some bm'"
    using bm'(1) by (subst reg_write.simps) (simp add: aget_Some aset_Some)
  moreover have "bm' ! j = (if index + i \<le> j \<and> j < index + n then f (bm ! j) else bm ! j)" for j
    using bm'(3) [of j] i by (cases "j = index + i") auto
  ultimately show ?case using bm'(2) by blast
qed

lemma reg_fits:
  assumes "2 ^ order dvd pos" and "pos + 2 ^ order \<le> 64 * length bm"
  shows "pos div 64 + BITS_TO_LONGS (2 ^ order) \<le> length bm"
proof -
  let ?j = "pos div 64 + BITS_TO_LONGS (2 ^ order) - 1" and ?k = "pos - pos div 64 * 64"
  have l: "0 < BITS_TO_LONGS (2 ^ order)" by (metis longs_bits mult_0_right neq0_conv power_not_zero zero_neq_numeral le_0_eq order_refl)
  have n: "min (2 ^ order) 64 \<noteq> (0::nat)" by simp
  have k: "?k < 64" by (simp add: minus_div_mult_eq_mod)
  have "bit (reg_mask (min (2 ^ order) 64) ?k) ?k"
  proof -
    have "2 ^ order dvd pos \<Longrightarrow> pos \<le> 64 * (pos div 64) + ?k \<and> 64 * (pos div 64) + ?k < pos + 2 ^ order"
      by (simp add: minus_div_mult_eq_mod)
    then show ?thesis using reg_cover [OF assms(1) k, of "pos div 64"] assms(1) by blast
  qed
  then have "64 * ?j + ?k < pos + 2 ^ order" using reg_cover [OF assms(1) k, of ?j] l by auto
  then have "64 * ?j < 64 * length bm" using assms(2) by linarith
  then show ?thesis using l by auto
qed

definition region :: "nat \<times> nat \<Rightarrow> nat set" where
  "region = (\<lambda>(pos, order). {pos..<pos + 2 ^ order})"

lemma reg_op_write_spec:
  assumes "2 ^ order dvd pos" and "pos + 2 ^ order \<le> 64 * length bm" and "writes_masked upd v"
  shows "\<exists>bm'. reg_write (\<lambda>w. upd w (reg_mask (min (2 ^ order) 64) (pos - pos div 64 * 64))) bm (pos div 64) 0
      (BITS_TO_LONGS (2 ^ order)) = Some bm' \<and> range_result bm pos (pos + 2 ^ order) v bm'"
proof -
  let ?m = "reg_mask (min (2 ^ order) 64) (pos - pos div 64 * 64)" and ?n = "BITS_TO_LONGS (2 ^ order)"
  obtain bm' where bm': "reg_write (\<lambda>w. upd w ?m) bm (pos div 64) 0 ?n = Some bm'" "length bm' = length bm"
    "\<And>j. bm' ! j = (if pos div 64 \<le> j \<and> j < pos div 64 + ?n then upd (bm ! j) ?m else bm ! j)"
    using reg_write_spec [OF reg_fits [OF assms(1,2)], of "\<lambda>w. upd w ?m" 0] by auto
  have "bitat bm' i = (if pos \<le> i \<and> i < pos + 2 ^ order then v else bitat bm i)" for i
  proof -
    have "64 * (i div 64) + i mod 64 = i" by simp
    with reg_cover [OF assms(1), of "i mod 64" "i div 64"] bm'(3) [of "i div 64"] assms(3) show ?thesis
      by (auto simp: bitat_def writes_masked_def)
  qed
  with bm' show ?thesis by (auto simp: range_result_def)
qed

lemma raw_reg_op_spec:
  assumes "2 ^ order dvd pos" and "pos + 2 ^ order \<le> 64 * length bm"
  shows "raw_reg_op bm pos order REG_OP_ISFREE = Some (\<forall>i \<in> region (pos, order). \<not> bitat bm i, bm)"
    and "\<exists>bm'. raw_reg_op bm pos order REG_OP_ALLOC = Some (False, bm') \<and> range_result bm pos (pos + 2 ^ order) True bm'"
    and "\<exists>bm'. raw_reg_op bm pos order REG_OP_RELEASE = Some (False, bm') \<and> range_result bm pos (pos + 2 ^ order) False bm'"
proof -
  let ?m = "reg_mask (min (2 ^ order) 64) (pos - pos div 64 * 64)" and ?n = "BITS_TO_LONGS (2 ^ order)"
  have "(\<exists>k < ?n. bm ! (pos div 64 + k) AND ?m \<noteq> 0) \<longleftrightarrow> (\<exists>i \<in> region (pos, order). bitat bm i)"
  proof
    assume "\<exists>k < ?n. bm ! (pos div 64 + k) AND ?m \<noteq> 0"
    then obtain k b where k: "k < ?n" "bit (bm ! (pos div 64 + k) AND ?m) b" using word_has_bit by blast
    then have b: "b < 64" "bit ?m b" "bit (bm ! (pos div 64 + k)) b" 
      using bit_word_less [OF k(2)] by (simp_all add: bit_and_iff)
    then have "64 * (pos div 64 + k) + b \<in> region (pos, order)"
      using reg_cover [OF assms(1) b(1), of "pos div 64 + k"] k(1) by (simp add: region_def)
    then show "\<exists>i \<in> region (pos, order). bitat bm i" using b by (metis bitat_word)
  next
    assume "\<exists>i \<in> region (pos, order). bitat bm i"
    then obtain i where i: "i \<in> region (pos, order)" "bitat bm i" by blast
    have "64 * (i div 64) + i mod 64 = i" by simp
    then have c: "pos div 64 \<le> i div 64" "i div 64 < pos div 64 + ?n" "bit ?m (i mod 64)"
      using reg_cover [OF assms(1), of "i mod 64" "i div 64"] i(1) by (auto simp: region_def)
    then have "bit (bm ! (pos div 64 + (i div 64 - pos div 64)) AND ?m) (i mod 64)"
      using i(2) by (simp add: bit_and_iff bitat_def)
    then have "bm ! (pos div 64 + (i div 64 - pos div 64)) AND ?m \<noteq> 0" by (metis bit_0_eq bot_apply bot_bool_def)
    then show "\<exists>k < ?n. bm ! (pos div 64 + k) AND ?m \<noteq> 0" using c by (metis less_diff_conv2 add.commute)
  qed
  moreover have "any_word (\<lambda>i. do { w \<leftarrow> aget bm (pos div 64 + i); Some (w AND ?m) }) 0 ?n
      = Some (\<exists>k. 0 \<le> k \<and> k < ?n \<and> bm ! (pos div 64 + k) AND ?m \<noteq> 0)"
    using reg_fits [OF assms] by (intro any_word_spec) (simp add: aget_Some)
  ultimately show "raw_reg_op bm pos order REG_OP_ISFREE = Some (\<forall>i \<in> region (pos, order). \<not> bitat bm i, bm)"
    by (auto simp: raw_reg_op_def Let_def)
  show "\<exists>bm'. raw_reg_op bm pos order REG_OP_ALLOC = Some (False, bm') \<and> range_result bm pos (pos + 2 ^ order) True bm'"
    using reg_op_write_spec [OF assms writes_masked_or] by (auto simp: raw_reg_op_def Let_def)
  show "\<exists>bm'. raw_reg_op bm pos order REG_OP_RELEASE = Some (False, bm') \<and> range_result bm pos (pos + 2 ^ order) False bm'"
    using reg_op_write_spec [OF assms writes_masked_andnot] by (auto simp: raw_reg_op_def Let_def)
qed

section \<open>The allocator of regions\<close>

definition region_alloc :: "nat \<Rightarrow> bitarray \<Rightarrow> nat \<Rightarrow> ((nat \<times> nat) \<times> bitarray) option" where
  "region_alloc bits bm order = do {
     (r, bm') \<leftarrow> bitmap_find_free_region bm bits order;
     if r < 0 then None else Some ((nat r, order), bm') }"

definition region_release :: "bitarray \<Rightarrow> nat \<times> nat \<Rightarrow> bitarray option" where
  "region_release bm = (\<lambda>(pos, order). bitmap_release_region bm pos order)"

definition held_bits :: "nat \<Rightarrow> bitarray \<Rightarrow> nat set" where
  "held_bits bits bm = {i. i < bits \<and> bitat bm i}"

definition region_ok :: "nat \<Rightarrow> nat \<times> nat \<Rightarrow> bool" where
  "region_ok bits = (\<lambda>(pos, order). 2 ^ order dvd pos \<and> pos + 2 ^ order \<le> bits)"

lemma range_result_held:
  assumes "range_result bm pos (pos + 2 ^ order) v bm'" and "pos + 2 ^ order \<le> bits" and "bits \<le> 64 * length bm"
  shows "held_bits bits bm' = (if v then held_bits bits bm \<union> region (pos, order) else held_bits bits bm - region (pos, order))"
proof -
  have "bitat bm' i = (if i \<in> region (pos, order) then v else bitat bm i)" if "i < bits" for i
    using assms that by (simp add: range_result_def region_def)
  moreover have "i < bits" if "i \<in> region (pos, order)" for i
    using that assms(2) by (simp add: region_def)
  ultimately show ?thesis by (auto simp: held_bits_def split: if_splits)
qed

text \<open>The first free region, or \<open>-ENOMEM\<close> when every region meets a set bit.\<close>

lemma find_free_loop_spec:
  assumes "bits \<le> 64 * length bm" and "2 ^ order dvd pos"
    and "\<forall>p. 2 ^ order dvd p \<longrightarrow> p < pos \<longrightarrow> region (p, order) \<inter> held_bits bits bm \<noteq> {}"
  shows "(\<exists>p bm'. find_free_loop bm bits order pos = Some (int p, bm') \<and> region_ok bits (p, order)
      \<and> region (p, order) \<inter> held_bits bits bm = {} \<and> range_result bm p (p + 2 ^ order) True bm'
      \<and> (\<forall>q. 2 ^ order dvd q \<longrightarrow> q < p \<longrightarrow> region (q, order) \<inter> held_bits bits bm \<noteq> {}))
    \<or> (find_free_loop bm bits order pos = Some (- ENOMEM, bm)
      \<and> (\<forall>p. region_ok bits (p, order) \<longrightarrow> region (p, order) \<inter> held_bits bits bm \<noteq> {}))"
  using assms(2-)
proof (induction "bits - pos" arbitrary: pos rule: less_induct)
  case less
  have pow: "(0 :: nat) < 2 ^ order" by simp
  show ?case
  proof (cases "pos + 2 ^ order \<le> bits")
    case False
    have "region (p, order) \<inter> held_bits bits bm \<noteq> {}" if "region_ok bits (p, order)" for p
      using that False less.prems(2) by (auto simp: region_ok_def)
    with False show ?thesis by (simp add: find_free_loop.simps [of bm bits order pos])
  next
    case True
    then have fit: "pos + 2 ^ order \<le> 64 * length bm" using assms(1) by simp
    note op = raw_reg_op_spec [OF less.prems(1) fit]
    have free: "(\<forall>i \<in> region (pos, order). \<not> bitat bm i) \<longleftrightarrow> region (pos, order) \<inter> held_bits bits bm = {}"
      using True by (auto simp: region_def held_bits_def)
    show ?thesis
    proof (cases "\<forall>i \<in> region (pos, order). \<not> bitat bm i")
      case avail: True
      obtain bm' where bm': "raw_reg_op bm pos order REG_OP_ALLOC = Some (False, bm')"
        "range_result bm pos (pos + 2 ^ order) True bm'" using op(2) by blast
      have "find_free_loop bm bits order pos = Some (int pos, bm')"
        using True op(1) avail bm'(1) by (subst find_free_loop.simps) simp
      with bm'(2) avail free True less.prems show ?thesis by (auto simp: region_ok_def)
    next
      case taken: False
      have "find_free_loop bm bits order pos = find_free_loop bm bits order (pos + 2 ^ order)"
        using True op(1) taken by (subst find_free_loop.simps) simp
      moreover have "region (p, order) \<inter> held_bits bits bm \<noteq> {}" if "2 ^ order dvd p" "p < pos + 2 ^ order" for p
      proof (cases "p < pos")
        case False
        then have "2 ^ order dvd p - pos" "p - pos < 2 ^ order" using that less.prems(1) by (auto intro: dvd_diff_nat)
        then have "p = pos" using False by (metis dvd_imp_le gr0I le_antisym not_less diff_is_0_eq)
        then show ?thesis using taken free by simp
      qed (use that less.prems(2) in blast)
      moreover have "bits - (pos + 2 ^ order) < bits - pos" using True pow by linarith
      ultimately show ?thesis
        using less.hyps [of "pos + 2 ^ order"] less.prems(1) by auto
    qed
  qed
qed

lemma region_alloc_spec:
  assumes "bits \<le> 64 * length bm" and "region_alloc bits bm order = Some (b, bm')"
  shows "b = (fst b, order) \<and> region_ok bits b \<and> region b \<inter> held_bits bits bm = {}
    \<and> held_bits bits bm' = held_bits bits bm \<union> region b \<and> length bm' = length bm"
proof -
  have "(\<exists>p bm'. find_free_loop bm bits order 0 = Some (int p, bm') \<and> region_ok bits (p, order)
      \<and> region (p, order) \<inter> held_bits bits bm = {} \<and> range_result bm p (p + 2 ^ order) True bm')
    \<or> find_free_loop bm bits order 0 = Some (- ENOMEM, bm)"
    using find_free_loop_spec [OF assms(1), of order 0] by auto
  then obtain p where p: "find_free_loop bm bits order 0 = Some (int p, bm')" "region_ok bits (p, order)"
    "region (p, order) \<inter> held_bits bits bm = {}" "range_result bm p (p + 2 ^ order) True bm'" "b = (p, order)"
    using assms(2) by (auto simp: region_alloc_def bitmap_find_free_region_def errno_defs)
  then show ?thesis
    using range_result_held [OF p(4) _ assms(1)] by (auto simp: region_ok_def range_result_def)
qed

lemma region_release_spec:
  assumes "bits \<le> 64 * length bm" and "region_ok bits b"
  shows "\<exists>bm'. region_release bm b = Some bm' \<and> held_bits bits bm' = held_bits bits bm - region b
    \<and> length bm' = length bm"
proof -
  obtain pos order where b: "b = (pos, order)" by (cases b)
  have al: "2 ^ order dvd pos" "pos + 2 ^ order \<le> 64 * length bm" using assms b by (auto simp: region_ok_def)
  obtain bm' where bm': "raw_reg_op bm pos order REG_OP_RELEASE = Some (False, bm')"
    "range_result bm pos (pos + 2 ^ order) False bm'" using raw_reg_op_spec(3) [OF al] by blast
  with range_result_held [OF bm'(2) _ assms(1)] assms(2) b show ?thesis
    by (auto simp: region_release_def bitmap_release_region_def region_ok_def range_result_def)
qed

interpretation bitmap_regions: releasing_allocator
  "\<lambda>bm. bits \<le> 64 * length bm" "held_bits bits" "\<lambda>_. True" "region_alloc bits" region
  region_release "\<lambda>bm b. region_ok bits b \<and> region b \<subseteq> held_bits bits bm" for bits
proof unfold_locales
  fix bm bm' :: bitarray and b c :: "nat \<times> nat" and order :: nat
  assume inv: "bits \<le> 64 * length bm"
  {
    assume "region_alloc bits bm order = Some (b, bm')"
    note spec = region_alloc_spec [OF inv this]
    show "bits \<le> 64 * length bm'" using spec inv by simp
    show "region b \<inter> held_bits bits bm = {}" using spec by simp
    show "held_bits bits bm' = held_bits bits bm \<union> region b" using spec by simp
    show "region_ok bits b \<and> region b \<subseteq> held_bits bits bm'" using spec by auto
    show "region_ok bits c \<and> region c \<subseteq> held_bits bits bm'"
      if "region_ok bits c \<and> region c \<subseteq> held_bits bits bm" using spec that by auto
  }
  {
    assume own: "region_ok bits b \<and> region b \<subseteq> held_bits bits bm" and rel: "region_release bm b = Some bm'"
    have spec: "held_bits bits bm' = held_bits bits bm - region b" "length bm' = length bm"
      using region_release_spec [OF inv conjunct1 [OF own]] rel by auto
    show "bits \<le> 64 * length bm'" using spec inv by simp
    show "held_bits bits bm' = held_bits bits bm - region b" by (rule spec(1))
    show "region_ok bits c \<and> region c \<subseteq> held_bits bits bm'"
      if "region_ok bits c \<and> region c \<subseteq> held_bits bits bm" and "region c \<inter> region b = {}"
      using spec that by auto
  }
qed auto

section \<open>The next zero area\<close>

text \<open>The aligned runs of \<open>nr\<close> zero bits of the first \<open>sz\<close>.\<close>

definition zero_area :: "bitarray \<Rightarrow> nat \<Rightarrow> nat \<Rightarrow> nat \<Rightarrow> nat \<Rightarrow> bool" where
  "zero_area bm sz a nr p \<longleftrightarrow> 2 ^ a dvd p \<and> p + nr \<le> sz \<and> (\<forall>i. p \<le> i \<longrightarrow> i < p + nr \<longrightarrow> \<not> bitat bm i)"

lemma unat_ALIGN_MASK:
  assumes "unat x + 2 ^ a < 2 ^ 64" and "a < 64"
  shows "unat (ALIGN_MASK x (mask a)) = (unat x + 2 ^ a - 1) div 2 ^ a * 2 ^ a"
proof -
  have m: "unat (mask a :: u64) = 2 ^ a - 1"
    using assms(2) by (simp add: mask_eq_exp_minus_1 unat_sub_1 unat_pow2)
  then have "unat (x + mask a) = unat x + (2 ^ a - 1)"
    using assms(1) by (subst unat_add_nowrap) simp_all
  then show ?thesis by (simp add: ALIGN_MASK_def unat_and_not_mask)
qed

lemma align_up:
  fixes x m :: nat
  assumes "0 < m"
  shows "m dvd (x + m - 1) div m * m" and "x \<le> (x + m - 1) div m * m" and "(x + m - 1) div m * m \<le> x + m - 1"
    and "m dvd p \<Longrightarrow> x \<le> p \<Longrightarrow> (x + m - 1) div m * m \<le> p"
proof -
  show "m dvd (x + m - 1) div m * m" by simp
  show le: "(x + m - 1) div m * m \<le> x + m - 1" by (rule div_times_less_eq_dividend)
  have "x + m - 1 = (x + m - 1) div m * m + (x + m - 1) mod m" by simp
  moreover have "(x + m - 1) mod m < m" using assms by simp
  ultimately show "x \<le> (x + m - 1) div m * m" by linarith
  assume "m dvd p" "x \<le> p"
  then obtain c where "p = m * c" "x \<le> m * c" by auto
  then have "x + m - 1 < (c + 1) * m" using assms by (simp add: algebra_simps)
  then have "(x + m - 1) div m < c + 1" by (rule less_mult_imp_div_less)
  then have "(x + m - 1) div m \<le> c" by simp
  then show "(x + m - 1) div m * m \<le> p" using \<open>p = m * c\<close> by (simp add: mult.commute)
qed

lemma find_next_zero_area_spec:
  assumes len: "unat sz \<le> 64 * length bm" and a: "a < 64" and nr: "0 < unat nr"
    and room: "unat sz + 2 ^ a + unat nr < 2 ^ 64"
  shows "\<exists>r. bitmap_find_next_zero_area bm sz start nr (mask a) = Some r
    \<and> (if unat r \<le> unat sz
       then unat start \<le> unat r \<and> zero_area bm (unat sz) a (unat nr) (unat r)
         \<and> (\<forall>p. unat start \<le> p \<longrightarrow> p < unat r \<longrightarrow> \<not> zero_area bm (unat sz) a (unat nr) p)
       else \<forall>p. unat start \<le> p \<longrightarrow> \<not> zero_area bm (unat sz) a (unat nr) p)"
proof (induction "unat sz - unat start" arbitrary: start rule: less_induct)
  case less
  let ?area = "zero_area bm (unat sz) a (unat nr)" and ?m = "(2 :: nat) ^ a"
  obtain i0 where i0: "find_next_zero_bit bm sz start = Some i0"
    "next_hit (\<lambda>i. \<not> bitat bm i) (min (unat start) (unat sz)) (unat sz) (unat i0)"
    using find_next_zero_bit_spec [OF len] by blast
  define ix where "ix = ALIGN_MASK i0 (mask a)"
  have i0_le: "unat i0 \<le> unat sz" using i0(2) by (simp add: next_hit_def)
  have ix_eq: "unat ix = (unat i0 + ?m - 1) div ?m * ?m"
    unfolding ix_def by (rule unat_ALIGN_MASK) (use i0_le room a in linarith)+
  have up: "?m dvd unat ix" "unat i0 \<le> unat ix" "unat ix \<le> unat i0 + ?m - 1"
    "\<And>p. ?m dvd p \<Longrightarrow> unat i0 \<le> p \<Longrightarrow> unat ix \<le> p"
    unfolding ix_eq by (rule align_up; simp)+
  have nr64: "unat (ucast nr :: u64) = unat nr" by simp
  define e where "e = ix + ucast nr"
  have e: "unat e = unat ix + unat nr"
  proof -
    have "unat ix + unat (ucast nr :: u64) < 2 ^ LENGTH(64)" using up(3) i0_le room by simp
    from unat_add_nowrap [OF this] show ?thesis by (simp only: e_def nr64)
  qed
  have first: "unat ix \<le> p" if "?area p" "unat start \<le> p" for p
  proof -
    have p: "?m dvd p" "p < unat sz" "\<not> bitat bm p" using that nr by (auto simp: zero_area_def)
    then have "unat i0 \<le> p" using i0(2) that(2) by (auto simp: next_hit_def not_less [symmetric])
    with up(4) p(1) show ?thesis by blast
  qed
  show ?case
  proof (cases "e > sz")
    case True
    have "\<not> ?area p" if "unat start \<le> p" for p
      using first [of p] that True e by (auto simp: zero_area_def word_less_nat_alt)
    moreover have "bitmap_find_next_zero_area bm sz start nr (mask a) = Some e"
      using i0(1) True by (subst bitmap_find_next_zero_area.simps) (simp add: ix_def [symmetric] e_def [symmetric] Let_def)
    ultimately show ?thesis using True by (simp add: word_less_nat_alt)
  next
    case False
    then have e_le: "unat e \<le> unat sz" by (simp add: word_less_nat_alt)
    then obtain i where i: "find_next_bit bm e ix = Some i"
      "next_hit (bitat bm) (min (unat ix) (unat e)) (unat e) (unat i)"
      using find_next_bit_spec [of e bm ix] len by auto
    have ix_e: "min (unat ix) (unat e) = unat ix" using e by simp
    have start_ix: "unat start \<le> unat ix" "unat start < unat sz"
      using i0(2) up(2) e e_le nr by (auto simp: next_hit_def min_def split: if_splits)
    have step: "bitmap_find_next_zero_area bm sz start nr (mask a)
        = (if i < e then bitmap_find_next_zero_area bm sz (i + 1) nr (mask a) else Some ix)"
      using i0(1) i(1) False
      by (subst bitmap_find_next_zero_area.simps) (simp add: ix_def [symmetric] e_def [symmetric] Let_def)
    show ?thesis
    proof (cases "i < e")
      case True
      then have hit: "bitat bm (unat i)" "unat ix \<le> unat i" "unat i < unat e"
        using i(2) ix_e by (auto simp: next_hit_def word_less_nat_alt)
      have i1: "unat (i + 1) = unat i + 1"
        using unat_add_nowrap [of i 1] hit(3) e_le room by simp
      have skip: "\<not> ?area p" if "unat start \<le> p" "p < unat (i + 1)" for p
      proof
        assume p: "?area p"
        then have "p \<le> unat i" "unat i < p + unat nr" using first [OF p that(1)] that(2) hit(3) e i1 by auto
        with p hit(1) show False by (auto simp: zero_area_def)
      qed
      have "\<exists>r. bitmap_find_next_zero_area bm sz (i + 1) nr (mask a) = Some r
        \<and> (if unat r \<le> unat sz
           then unat (i + 1) \<le> unat r \<and> ?area (unat r) \<and> (\<forall>p. unat (i + 1) \<le> p \<longrightarrow> p < unat r \<longrightarrow> \<not> ?area p)
           else \<forall>p. unat (i + 1) \<le> p \<longrightarrow> \<not> ?area p)"
        by (rule less.hyps) (use i1 hit(2) start_ix in linarith)
      then obtain r where r: "bitmap_find_next_zero_area bm sz (i + 1) nr (mask a) = Some r"
        "if unat r \<le> unat sz
         then unat (i + 1) \<le> unat r \<and> ?area (unat r) \<and> (\<forall>p. unat (i + 1) \<le> p \<longrightarrow> p < unat r \<longrightarrow> \<not> ?area p)
         else \<forall>p. unat (i + 1) \<le> p \<longrightarrow> \<not> ?area p" by blast
      have "unat start \<le> unat (i + 1)" using i1 hit(2) start_ix(1) by simp
      then have "if unat r \<le> unat sz
         then unat start \<le> unat r \<and> ?area (unat r) \<and> (\<forall>p. unat start \<le> p \<longrightarrow> p < unat r \<longrightarrow> \<not> ?area p)
         else \<forall>p. unat start \<le> p \<longrightarrow> \<not> ?area p"
        using r(2) skip by (auto split: if_splits simp: not_less [symmetric])
      with step True r(1) show ?thesis by auto
    next
      case no: False
      then have "\<forall>j. unat ix \<le> j \<longrightarrow> j < unat e \<longrightarrow> \<not> bitat bm j"
        using i(2) ix_e by (auto simp: next_hit_def word_less_nat_alt)
      then have "?area (unat ix)" using up(1) e e_le by (simp add: zero_area_def)
      moreover have "\<not> ?area p" if "unat start \<le> p" "p < unat ix" for p
        using first [of p] that by auto
      ultimately show ?thesis using step no start_ix(1) e e_le by auto
    qed
  qed
qed

section \<open>Properties\<close>

text \<open>
  \<open>bitmap_set\<close> and \<open>bitmap_clear\<close> give exactly the bits \<open>start .. start + nr - 1\<close>
  the value 1 or 0 and keep every other bit, for any alignment of the two ends and an empty range too,
  and never touch a word outside the array.
\<close>

theorem bitmap_set_clear_ok:
  assumes "start + nr \<le> 64 * length bm"
  shows "(\<exists>bm'. bitmap_set bm start nr = Some bm' \<and> range_result bm start (start + nr) True bm')
    \<and> (\<exists>bm'. bitmap_clear bm start nr = Some bm' \<and> range_result bm start (start + nr) False bm')"
  using bitmap_fill_spec [OF writes_masked_or assms] bitmap_fill_spec [OF writes_masked_andnot assms]
  by (simp add: bitmap_set_def bitmap_clear_def)

theorem bitmap_set_clear_ok_witness:
  "(\<exists>bm'. bitmap_set [0, 0, 0] 60 70 = Some bm' \<and> range_result [0, 0, 0] 60 (60 + 70) True bm')
    \<and> (\<exists>bm'. bitmap_clear [0, 0, 0] 60 70 = Some bm' \<and> range_result [0, 0, 0] 60 (60 + 70) False bm')"
  by (rule bitmap_set_clear_ok) simp

text \<open>
  \<open>bitmap_find_free_region\<close> is first fit: it takes the lowest aligned region of
  \<open>2\<close> to the power \<open>order\<close> bits that is entirely free, sets exactly its bits and returns its position; when
  there is none it returns \<open>-ENOMEM\<close> and leaves the bitmap alone.
\<close>

theorem bitmap_find_free_region_ok:
  assumes "bits \<le> 64 * length bm"
  shows "(\<exists>p bm'. bitmap_find_free_region bm bits order = Some (int p, bm') \<and> region_ok bits (p, order)
      \<and> region (p, order) \<inter> held_bits bits bm = {} \<and> range_result bm p (p + 2 ^ order) True bm'
      \<and> (\<forall>q. 2 ^ order dvd q \<longrightarrow> q < p \<longrightarrow> region (q, order) \<inter> held_bits bits bm \<noteq> {}))
    \<or> (bitmap_find_free_region bm bits order = Some (- ENOMEM, bm)
      \<and> (\<forall>p. region_ok bits (p, order) \<longrightarrow> region (p, order) \<inter> held_bits bits bm \<noteq> {}))"
  unfolding bitmap_find_free_region_def by (rule find_free_loop_spec [OF assms]) simp_all

theorem bitmap_find_free_region_ok_witness:
  "(\<exists>p bm'. bitmap_find_free_region [0x71] 64 2 = Some (int p, bm') \<and> region_ok 64 (p, 2)
      \<and> region (p, 2) \<inter> held_bits 64 [0x71] = {} \<and> range_result [0x71] p (p + 2 ^ 2) True bm'
      \<and> (\<forall>q. 2 ^ 2 dvd q \<longrightarrow> q < p \<longrightarrow> region (q, 2) \<inter> held_bits 64 [0x71] \<noteq> {}))
    \<or> (bitmap_find_free_region [0x71] 64 2 = Some (- ENOMEM, [0x71])
      \<and> (\<forall>p. region_ok 64 (p, 2) \<longrightarrow> region (p, 2) \<inter> held_bits 64 [0x71] \<noteq> {}))"
  by (rule bitmap_find_free_region_ok) simp

text \<open>
  C12.  Whatever sequence of \<open>bitmap_find_free_region\<close> and \<open>bitmap_release_region\<close> is run on an
  empty bitmap, each release naming a region that is out, the regions that are out never share a bit
  and the bits set in the bitmap are exactly theirs: nothing leaks and nothing is handed out twice.
\<close>

theorem bitmap_regions_exclusive:
  assumes "bits \<le> 64 * length bm" and "\<forall>i < bits. \<not> bitat bm i"
    and "run_history (region_alloc bits) region_release bm [] qs = Some (out, bm')"
  shows "exclusive region out \<and> held_bits bits bm' = (\<Union>b \<in> set out. region b)"
  using bitmap_regions.run_history_spec [OF assms(1), of "[]" "{}" qs out bm'] assms(2,3)
  by (auto simp: held_bits_def)

theorem bitmap_regions_exclusive_witness:
  "exclusive region [(0, 1), (4, 2)] \<and> held_bits 64 [0xF3] = (\<Union>b \<in> set [(0, 1), (4, 2)]. region b)"
proof (rule bitmap_regions_exclusive)
  show "run_history (region_alloc 64) region_release [0] [] [Take 0, Take 2, Give 1, Take 1] = Some ([(0, 1), (4, 2)], [0xF3])"
    by code_simp
qed (simp_all add: bitat_def)

text \<open>
  \<open>bitmap_find_next_zero_area\<close> always returns, and with the first aligned run of
  \<open>nr\<close> zero bits at or after \<open>start\<close>; if there is none the result is beyond \<open>size\<close>.
\<close>

theorem bitmap_find_next_zero_area_ok:
  assumes "unat sz \<le> 64 * length bm" and "a < 64" and "0 < unat nr"
    and "unat sz + 2 ^ a + unat nr < 2 ^ 64"
  shows "\<exists>r. bitmap_find_next_zero_area bm sz start nr (mask a) = Some r
    \<and> (if unat r \<le> unat sz
       then unat start \<le> unat r \<and> zero_area bm (unat sz) a (unat nr) (unat r)
         \<and> (\<forall>p. unat start \<le> p \<longrightarrow> p < unat r \<longrightarrow> \<not> zero_area bm (unat sz) a (unat nr) p)
       else \<forall>p. unat start \<le> p \<longrightarrow> \<not> zero_area bm (unat sz) a (unat nr) p)"
  by (rule find_next_zero_area_spec [OF assms])

theorem bitmap_find_next_zero_area_ok_witness:
  "\<exists>r. bitmap_find_next_zero_area [0x109] 64 0 5 (mask 2) = Some r
    \<and> (if unat r \<le> unat (64 :: u64)
       then unat (0 :: u64) \<le> unat r \<and> zero_area [0x109] (unat (64 :: u64)) 2 (unat (5 :: u32)) (unat r)
         \<and> (\<forall>p. unat (0 :: u64) \<le> p \<longrightarrow> p < unat r \<longrightarrow> \<not> zero_area [0x109] (unat (64 :: u64)) 2 (unat (5 :: u32)) p)
       else \<forall>p. unat (0 :: u64) \<le> p \<longrightarrow> \<not> zero_area [0x109] (unat (64 :: u64)) 2 (unat (5 :: u32)) p)"
  by (rule bitmap_find_next_zero_area_ok) simp_all

end
