(* ===== verification/Log2.thy ===== *)
theory Log2
  imports Bitops
begin

text \<open>
  \<open>include/linux/log2.h\<close>: binary logarithms and powers of two, in the variant the compiler folds
  for constants and in the variant built on \<open>fls\<close>.  Arguments are unsigned; \<open>____ilog2_NaN\<close>, which
  stops the build, is \<open>None\<close>.
\<close>

section \<open>Model\<close>

definition raw_ilog2_u32 :: "u32 \<Rightarrow> int" where
  "raw_ilog2_u32 n = fls n - 1"

definition raw_ilog2_u64 :: "u64 \<Rightarrow> int" where
  "raw_ilog2_u64 n = uint (fls64 n) - 1"

definition is_power_of_2 :: "u64 \<Rightarrow> bool" where
  "is_power_of_2 n \<longleftrightarrow> n \<noteq> 0 \<and> n AND (n - 1) = 0"

definition raw_roundup_pow_of_two :: "u64 \<Rightarrow> u64" where
  "raw_roundup_pow_of_two n = push_bit (unat (fls_long (n - 1))) 1"

definition raw_rounddown_pow_of_two :: "u64 \<Rightarrow> u64" where
  "raw_rounddown_pow_of_two n = push_bit (unat (fls_long n - 1)) 1"

text \<open>The tests \<open>(n) & (1ULL << k) ? k : ...\<close> of the macro, for \<open>k\<close> from the argument less one down to 0.\<close>

fun ilog2_tests :: "u64 \<Rightarrow> nat \<Rightarrow> int option" where
  "ilog2_tests n 0 = None"
| "ilog2_tests n (Suc k) = (if n AND push_bit k 1 \<noteq> 0 then Some (int k) else ilog2_tests n k)"

text \<open>\<open>const\<close> stands for \<open>__builtin_constant_p(n)\<close>, \<open>small\<close> for \<open>sizeof(n) <= 4\<close>.\<close>

definition ilog2 :: "bool \<Rightarrow> bool \<Rightarrow> u64 \<Rightarrow> int option" where
  "ilog2 const small n =
     (if const then (if n < 1 then None else ilog2_tests n 64)
      else if small then Some (raw_ilog2_u32 (ucast n))
      else Some (raw_ilog2_u64 n))"

definition roundup_pow_of_two :: "bool \<Rightarrow> bool \<Rightarrow> u64 \<Rightarrow> u64 option" where
  "roundup_pow_of_two const small n =
     (if const then (if n = 1 then Some 1 else do { k \<leftarrow> ilog2 const small (n - 1); Some (push_bit (nat (k + 1)) 1) })
      else Some (raw_roundup_pow_of_two n))"

definition rounddown_pow_of_two :: "bool \<Rightarrow> bool \<Rightarrow> u64 \<Rightarrow> u64 option" where
  "rounddown_pow_of_two const small n =
     (if const then (if n = 1 then Some 0 else do { k \<leftarrow> ilog2 const small n; Some (push_bit (nat k) 1) })
      else Some (raw_rounddown_pow_of_two n))"

definition order_base_2 :: "bool \<Rightarrow> bool \<Rightarrow> u64 \<Rightarrow> int option" where
  "order_base_2 const small n = do { r \<leftarrow> roundup_pow_of_two const small n; ilog2 const small r }"

section \<open>Logarithms\<close>

definition is_log2 :: "nat \<Rightarrow> nat \<Rightarrow> bool" where
  "is_log2 n k \<longleftrightarrow> 2 ^ k \<le> n \<and> n < 2 ^ (k + 1)"

lemma is_msb_log2:
  assumes "is_msb w k"
  shows "is_log2 (unat w) k"
proof -
  have k: "bit (unat w) k" using assms by (auto simp: is_msb_def bit_unsigned_iff dest: bit_imp_le_length)
  then have "odd (unat w div 2 ^ k)" by (simp add: bit_iff_odd)
  then have "2 ^ k \<le> unat w" by (metis div_less dvd_0_right not_less)
  moreover have "take_bit (k + 1) (unat w) = unat w"
    using assms by (intro bit_eqI) (auto simp: is_msb_def bit_simps less_Suc_eq_le not_less [symmetric])
  then have "unat w < 2 ^ (k + 1)" by (metis take_bit_nat_less_exp)
  ultimately show ?thesis by (simp add: is_log2_def)
qed

lemma is_log2_unique: "is_log2 n j \<Longrightarrow> is_log2 n k \<Longrightarrow> j = k"
proof -
  have "\<not> (is_log2 n j \<and> is_log2 n k \<and> j < k)" for j k
  proof
    assume a: "is_log2 n j \<and> is_log2 n k \<and> j < k"
    then have "(2 :: nat) ^ (j + 1) \<le> 2 ^ k" by (intro power_increasing) auto
    with a show False by (simp add: is_log2_def)
  qed
  then show "is_log2 n j \<Longrightarrow> is_log2 n k \<Longrightarrow> j = k" by (meson linorder_neqE_nat)
qed

lemma fls64_log2:
  assumes "n \<noteq> 0"
  shows "is_log2 (unat n) (unat (fls64 n) - 1)" and "0 < unat (fls64 n)" and "unat (fls64 n) \<le> 64"
proof -
  note m = raw_fls_spec [OF assms]
  then have "unat (raw_fls n) < 64" by (auto simp: is_msb_def dest: bit_word_less)
  then have "unat (fls64 n) = unat (raw_fls n) + 1"
    using assms unat_add_nowrap [of "raw_fls n" 1] by (simp add: fls64_def)
  with is_msb_log2 [OF m] \<open>unat (raw_fls n) < 64\<close>
  show "is_log2 (unat n) (unat (fls64 n) - 1)" "0 < unat (fls64 n)" "unat (fls64 n) \<le> 64" by simp_all
qed

lemma ilog2_tests_spec:
  assumes "n \<noteq> 0" and "\<forall>m \<ge> j. \<not> bit n m" and "j \<le> 64"
  shows "\<exists>k. ilog2_tests n j = Some (int k) \<and> is_msb n k"
  using assms(2,3)
proof (induction j)
  case 0
  then show ?case using assms(1) word_has_bit by blast
next
  case (Suc j)
  have "n AND push_bit j 1 \<noteq> 0 \<longleftrightarrow> bit n j"
    using Suc.prems by (simp add: bit_iff_and_push_bit_not_eq_0)
  note test = this
  show ?case
  proof (cases "bit n j")
    case True
    then show ?thesis using test Suc.prems by (auto simp: is_msb_def Suc_le_eq)
  next
    case False
    then have "\<forall>m \<ge> j. \<not> bit n m" using Suc.prems(1) by (metis le_less Suc_le_eq)
    with Suc.IH Suc.prems False test show ?thesis by simp
  qed
qed

lemma ilog2_spec:
  assumes "n \<noteq> 0" and "small \<longrightarrow> unat n < 2 ^ 32"
  shows "\<exists>k. ilog2 const small n = Some (int k) \<and> is_log2 (unat n) k"
proof -
  consider "const" | "\<not> const" "small" | "\<not> const" "\<not> small" by blast
  then show ?thesis
  proof cases
    case 1
    have "\<not> n < 1" using assms(1) by (simp add: word_less_1)
    moreover obtain k where "ilog2_tests n 64 = Some (int k)" "is_msb n k"
      using ilog2_tests_spec [OF assms(1), of 64] bit_word_less [of n] by fastforce
    ultimately show ?thesis using 1 is_msb_log2 by (auto simp: ilog2_def)
  next
    case 2
    then have u: "unat (ucast n :: u32) = unat n" using assms(2) by (simp add: unsigned_ucast_eq take_bit_nat_eq_self)
    then have "(ucast n :: u32) \<noteq> 0" using assms(1) by (metis unsigned_0 unat_eq_zero)
    from fls_spec [OF this] is_msb_log2 u
    have "is_log2 (unat n) (nat (fls (ucast n) - 1))" "1 \<le> fls (ucast n :: u32)" by fastforce+
    then show ?thesis using 2 by (intro exI [of _ "nat (fls (ucast n) - 1)"]) (simp add: ilog2_def raw_ilog2_u32_def)
  next
    case 3
    then show ?thesis using fls64_log2 [OF assms(1)]
      by (intro exI [of _ "unat (fls64 n) - 1"]) (simp add: ilog2_def raw_ilog2_u64_def of_nat_diff)
  qed
qed

section \<open>Powers of two\<close>

lemma log2_bit: "is_log2 (unat w) k \<Longrightarrow> bit w k"
proof -
  assume "is_log2 (unat w) k"
  then have "unat w div 2 ^ k = 1" by (intro div_nat_eqI) (simp_all add: is_log2_def)
  then have "bit (unat w) k" by (simp add: bit_iff_odd)
  then show ?thesis by (simp add: bit_unsigned_iff)
qed

lemma is_power_of_2_iff: "is_power_of_2 n \<longleftrightarrow> (\<exists>k < 64. n = 2 ^ k)"
proof
  assume p: "is_power_of_2 n"
  then have n: "n \<noteq> 0" by (simp add: is_power_of_2_def)
  obtain k where k: "is_msb n k" using msb_exists [OF n] by blast
  then have k64: "k < 64" using bit_word_less [of n k] by (simp add: is_msb_def)
  note l = is_msb_log2 [OF k]
  have pos: "0 < unat n" using n by (simp add: unat_gt_0)
  have "unat n = 2 ^ k"
  proof (rule ccontr)
    assume "unat n \<noteq> 2 ^ k"
    then have "is_log2 (unat (n - 1)) k" using l by (auto simp: unat_sub_1 [OF pos] is_log2_def)
    then have "bit (n AND (n - 1)) k" using k log2_bit by (simp add: bit_and_iff is_msb_def)
    with p show False by (simp add: is_power_of_2_def)
  qed
  then have "n = 2 ^ k" using k64 by (simp add: word_unat_eq_iff unat_pow2)
  with k64 show "\<exists>k < 64. n = 2 ^ k" by blast
next
  assume "\<exists>k < 64. n = 2 ^ k"
  then obtain k where k: "k < 64" "n = 2 ^ k" by blast
  have "n AND (n - 1) = 0"
    unfolding k(2) mask_eq_exp_minus_1 [symmetric] by (rule bit_eqI) (auto simp: bit_simps)
  then show "is_power_of_2 n" using k by (simp add: is_power_of_2_def unat_eq_zero [symmetric] unat_pow2)
qed

text \<open>The least power of two that is not below \<open>n\<close>, and the greatest that is not above it.\<close>

definition is_roundup :: "nat \<Rightarrow> nat \<Rightarrow> bool" where
  "is_roundup n r \<longleftrightarrow> (\<exists>k. r = 2 ^ k \<and> n \<le> 2 ^ k \<and> (k = 0 \<or> 2 ^ (k - 1) < n))"

definition is_rounddown :: "nat \<Rightarrow> nat \<Rightarrow> bool" where
  "is_rounddown n r \<longleftrightarrow> (\<exists>k. r = 2 ^ k \<and> is_log2 n k)"

lemma raw_roundup_spec:
  assumes "0 < unat n" and "unat n \<le> 2 ^ 63"
  shows "is_roundup (unat n) (unat (raw_roundup_pow_of_two n))"
proof (cases "n = 1")
  case True
  then show ?thesis
    by (auto simp: raw_roundup_pow_of_two_def fls_long_def fls64_def is_roundup_def intro: exI [of _ 0])
next
  case False
  let ?k = "unat (fls64 (n - 1))"
  have n1: "unat (n - 1) = unat n - 1" by (rule unat_sub_1 [OF assms(1)])
  have nz: "n - 1 \<noteq> 0" using False by simp
  note f = fls64_log2 [OF nz]
  have "(2 :: nat) ^ (?k - 1) < 2 ^ 63"
    using f(1) n1 assms unfolding is_log2_def by linarith
  then have "?k - 1 < 63" by (rule power_less_imp_less_exp [rotated]) simp
  then have k: "?k < 64" by linarith
  have "unat (raw_roundup_pow_of_two n) = 2 ^ ?k"
    using k by (simp add: raw_roundup_pow_of_two_def fls_long_def unat_pow2)
  moreover have "unat n \<le> 2 ^ ?k \<and> 2 ^ (?k - 1) < unat n"
    using f(1,2) n1 assms(1) by (auto simp: is_log2_def)
  ultimately show ?thesis unfolding is_roundup_def by blast
qed

lemma roundup_pow_of_two_eq:
  assumes "0 < unat n" and "small \<longrightarrow> unat n \<le> 2 ^ 32"
  shows "roundup_pow_of_two const small n = Some (raw_roundup_pow_of_two n)"
proof (cases "const \<and> n \<noteq> 1")
  case True
  then have nz: "n - 1 \<noteq> 0" by simp
  have "small \<longrightarrow> unat (n - 1) < 2 ^ 32" using assms by (auto simp: unat_sub_1)
  from ilog2_spec [OF nz this, of const] obtain k where k: "ilog2 const small (n - 1) = Some (int k)"
    "is_log2 (unat (n - 1)) k" by blast
  have "k = unat (fls64 (n - 1)) - 1" by (rule is_log2_unique [OF k(2) fls64_log2(1) [OF nz]])
  then have "nat (int k + 1) = unat (fls64 (n - 1))" using fls64_log2(2) [OF nz] by simp
  with True k(1) show ?thesis
    by (simp add: roundup_pow_of_two_def raw_roundup_pow_of_two_def fls_long_def)
next
  case False
  then show ?thesis by (auto simp: roundup_pow_of_two_def raw_roundup_pow_of_two_def fls_long_def fls64_def)
qed

lemma raw_rounddown_spec:
  assumes "n \<noteq> 0"
  shows "is_rounddown (unat n) (unat (raw_rounddown_pow_of_two n))"
proof -
  note f = fls64_log2 [OF assms]
  have "unat (fls64 n - 1) = unat (fls64 n) - 1" by (rule unat_sub_1 [OF f(2)])
  then have "unat (raw_rounddown_pow_of_two n) = 2 ^ (unat (fls64 n) - 1)"
    using f(2,3) by (simp add: raw_rounddown_pow_of_two_def fls_long_def unat_pow2)
  with f(1) show ?thesis by (auto simp: is_rounddown_def)
qed

lemma rounddown_pow_of_two_eq:
  assumes "n \<noteq> 0" and "n \<noteq> 1" and "small \<longrightarrow> unat n < 2 ^ 32"
  shows "rounddown_pow_of_two const small n = Some (raw_rounddown_pow_of_two n)"
proof -
  obtain k where k: "ilog2 const small n = Some (int k)" "is_log2 (unat n) k"
    using ilog2_spec [OF assms(1,3), of const] by blast
  have "k = unat (fls64 n) - 1" by (rule is_log2_unique [OF k(2) fls64_log2(1) [OF assms(1)]])
  then have "k = unat (fls64 n - 1)" by (simp add: unat_sub_1 [OF fls64_log2(2) [OF assms(1)]])
  then have "nat (int k) = unat (fls64 n - 1)" by simp
  with k(1) assms(2) show ?thesis
    by (cases const) (simp_all add: rounddown_pow_of_two_def raw_rounddown_pow_of_two_def fls_long_def)
qed

section \<open>Properties\<close>

text \<open>
  The macros of \<open>log2.h\<close> that are folded for constants and the functions built on
  \<open>fls\<close> agree: \<open>ilog2\<close> is the integer logarithm, \<open>is_power_of_2\<close> recognises the powers of two,
  \<open>roundup_pow_of_two\<close> is the least power of two that is not smaller, and \<open>rounddown_pow_of_two\<close>
  the greatest that is not larger (for a constant argument above 1).
\<close>

theorem log2_ok:
  assumes "0 < unat n" and "unat n \<le> 2 ^ 63" and "small \<longrightarrow> unat n < 2 ^ 32"
  shows "(\<exists>k. \<forall>const. ilog2 const small n = Some (int k) \<and> is_log2 (unat n) k)
    \<and> (is_power_of_2 n \<longleftrightarrow> (\<exists>k < 64. n = 2 ^ k))
    \<and> (\<exists>r. (\<forall>const. roundup_pow_of_two const small n = Some r) \<and> is_roundup (unat n) (unat r))
    \<and> (\<exists>r. (\<forall>const. const \<longrightarrow> n \<noteq> 1 \<longrightarrow> rounddown_pow_of_two const small n = Some r)
         \<and> rounddown_pow_of_two False small n = Some r \<and> is_rounddown (unat n) (unat r))"
proof (intro conjI)
  have nz: "n \<noteq> 0" using assms(1) by auto
  have "\<forall>const. \<exists>k. ilog2 const small n = Some (int k) \<and> is_log2 (unat n) k"
    using ilog2_spec [OF nz assms(3)] by blast
  then show "\<exists>k. \<forall>const. ilog2 const small n = Some (int k) \<and> is_log2 (unat n) k"
    using is_log2_unique by metis
  show "is_power_of_2 n \<longleftrightarrow> (\<exists>k < 64. n = 2 ^ k)" by (rule is_power_of_2_iff)
  have "small \<longrightarrow> unat n \<le> 2 ^ 32" using assms(3) by auto
  then show "\<exists>r. (\<forall>const. roundup_pow_of_two const small n = Some r) \<and> is_roundup (unat n) (unat r)"
    using raw_roundup_spec [OF assms(1,2)] roundup_pow_of_two_eq [OF assms(1)] by blast
  show "\<exists>r. (\<forall>const. const \<longrightarrow> n \<noteq> 1 \<longrightarrow> rounddown_pow_of_two const small n = Some r)
      \<and> rounddown_pow_of_two False small n = Some r \<and> is_rounddown (unat n) (unat r)"
  proof (intro exI conjI)
    show "\<forall>const. const \<longrightarrow> n \<noteq> 1 \<longrightarrow> rounddown_pow_of_two const small n = Some (raw_rounddown_pow_of_two n)"
      using rounddown_pow_of_two_eq [OF nz _ assms(3)] by blast
    show "rounddown_pow_of_two False small n = Some (raw_rounddown_pow_of_two n)" by (simp add: rounddown_pow_of_two_def)
  qed (rule raw_rounddown_spec [OF nz])
qed

theorem log2_ok_witness:
  "(\<exists>k. \<forall>const. ilog2 const True 1000 = Some (int k) \<and> is_log2 (unat (1000 :: u64)) k)
    \<and> (is_power_of_2 1000 \<longleftrightarrow> (\<exists>k < 64. (1000 :: u64) = 2 ^ k))
    \<and> (\<exists>r. (\<forall>const. roundup_pow_of_two const True 1000 = Some r) \<and> is_roundup (unat (1000 :: u64)) (unat r))
    \<and> (\<exists>r. (\<forall>const. const \<longrightarrow> (1000 :: u64) \<noteq> 1 \<longrightarrow> rounddown_pow_of_two const True 1000 = Some r)
         \<and> rounddown_pow_of_two False True 1000 = Some r \<and> is_rounddown (unat (1000 :: u64)) (unat r))"
  by (rule log2_ok) simp_all

text \<open>The macro gives 0 for the constant 1, where the function gives 1.\<close>

lemma rounddown_pow_of_two_constant_1_bug:
  "rounddown_pow_of_two True True 1 = Some 0 \<and> rounddown_pow_of_two False True 1 = Some 1"
  by code_simp

text \<open>
  The comment promises \<open>ob2(0) = 0\<close>, but \<open>__roundup_pow_of_two(0)\<close> shifts by the width of the
  word, which has no defined result.
\<close>

lemma roundup_pow_of_two_0: "fls_long (0 - 1) = 64"
  by code_simp

end
