(* ===== verification/Kfifo.thy ===== *)
theory Kfifo
  imports Log2
begin

text \<open>
  The byte queue of \<open>kernel/kfifo.c\<close> and \<open>include/linux/kfifo.h\<close>: a ring buffer whose two
  indices are free-running 32-bit counters.  A call that would touch memory outside the buffer or
  outside the caller's objects is \<open>None\<close>.  The memory barriers have no counterpart in this sequential
  model.  \<open>copy_from_user\<close>, \<open>copy_to_user\<close> and \<open>kmalloc\<close> are parameters.
\<close>

section \<open>State\<close>

record kfifo =
  buffer :: "u8 list option"
  ksize :: u32
  k_in :: u32
  k_out :: u32

text \<open>The bytes behind the buffer pointer; none behind \<open>NULL\<close>.\<close>

definition kbuf :: "kfifo \<Rightarrow> u8 list" where
  "kbuf f = (case buffer f of None \<Rightarrow> [] | Some b \<Rightarrow> b)"

definition set_kbuf :: "u8 list \<Rightarrow> kfifo \<Rightarrow> kfifo" where
  "set_kbuf b f = f\<lparr>buffer := map_option (\<lambda>_. b) (buffer f)\<rparr>"

definition raw_kfifo_initializer :: "u32 \<Rightarrow> u8 list \<Rightarrow> kfifo" where
  "raw_kfifo_initializer s b = \<lparr>buffer = Some b, ksize = s, k_in = 0, k_out = 0\<rparr>"

section \<open>Inline functions of the header\<close>

definition kfifo_initialized :: "kfifo \<Rightarrow> bool" where
  "kfifo_initialized f \<longleftrightarrow> buffer f \<noteq> None"

definition kfifo_reset :: "kfifo \<Rightarrow> kfifo" where
  "kfifo_reset f = f\<lparr>k_in := 0, k_out := 0\<rparr>"

definition kfifo_reset_out :: "kfifo \<Rightarrow> kfifo" where
  "kfifo_reset_out f = f\<lparr>k_out := k_in f\<rparr>"

definition kfifo_size :: "kfifo \<Rightarrow> u32" where
  "kfifo_size f = ksize f"

definition kfifo_len :: "kfifo \<Rightarrow> u32" where
  "kfifo_len f = k_in f - k_out f"

definition kfifo_is_empty :: "kfifo \<Rightarrow> bool" where
  "kfifo_is_empty f \<longleftrightarrow> k_in f = k_out f"

definition kfifo_is_full :: "kfifo \<Rightarrow> bool" where
  "kfifo_is_full f \<longleftrightarrow> kfifo_len f = kfifo_size f"

definition kfifo_avail :: "kfifo \<Rightarrow> u32" where
  "kfifo_avail f = kfifo_size f - kfifo_len f"

definition raw_kfifo_add_out :: "u32 \<Rightarrow> kfifo \<Rightarrow> kfifo" where
  "raw_kfifo_add_out off f = f\<lparr>k_out := k_out f + off\<rparr>"

definition raw_kfifo_add_in :: "u32 \<Rightarrow> kfifo \<Rightarrow> kfifo" where
  "raw_kfifo_add_in off f = f\<lparr>k_in := k_in f + off\<rparr>"

definition raw_kfifo_off :: "kfifo \<Rightarrow> u32 \<Rightarrow> u32" where
  "raw_kfifo_off f off = off AND (ksize f - 1)"

text \<open>\<open>if (--recsize)\<close> tests the decremented value, so 0 counts as two bytes.\<close>

definition raw_kfifo_peek_n :: "kfifo \<Rightarrow> u32 \<Rightarrow> u32 option" where
  "raw_kfifo_peek_n f recsize = do {
     b0 \<leftarrow> aget (kbuf f) (unat (raw_kfifo_off f (k_out f + 0)));
     if recsize - 1 \<noteq> 0
     then do { b1 \<leftarrow> aget (kbuf f) (unat (raw_kfifo_off f (k_out f + 1)));
               Some (ucast b0 OR push_bit 8 (ucast b1)) }
     else Some (ucast b0) }"

definition raw_kfifo_poke_n :: "kfifo \<Rightarrow> u32 \<Rightarrow> u32 \<Rightarrow> kfifo option" where
  "raw_kfifo_poke_n f recsize n = do {
     b \<leftarrow> aset (kbuf f) (unat (raw_kfifo_off f (k_in f + 0))) (ucast n);
     b \<leftarrow> (if recsize - 1 \<noteq> 0 then aset b (unat (raw_kfifo_off f (k_in f + 1))) (ucast (drop_bit 8 n)) else Some b);
     Some (set_kbuf b f) }"

definition kfifo_avail_rec :: "kfifo \<Rightarrow> u32 \<Rightarrow> u32" where
  "kfifo_avail_rec f recsize = (let l = kfifo_size f - kfifo_len f in if l > recsize then l - recsize else 0)"

section \<open>Setting up\<close>

definition raw_kfifo_init :: "u8 list option \<Rightarrow> u32 \<Rightarrow> kfifo \<Rightarrow> kfifo" where
  "raw_kfifo_init b s f = kfifo_reset (f\<lparr>buffer := b, ksize := s\<rparr>)"

definition kfifo_init :: "u8 list \<Rightarrow> u32 \<Rightarrow> kfifo \<Rightarrow> kfifo option" where
  "kfifo_init b s f = (if \<not> is_power_of_2 (ucast s) then None else Some (raw_kfifo_init (Some b) s f))"

text \<open>\<open>roundup_pow_of_two(0)\<close> is undefined, hence a fault.\<close>

definition kfifo_alloc :: "(u32 \<Rightarrow> u8 list option) \<Rightarrow> u32 \<Rightarrow> kfifo \<Rightarrow> (int \<times> kfifo) option" where
  "kfifo_alloc kmalloc s f = do {
     s \<leftarrow> (if \<not> is_power_of_2 (ucast s)
           then (if s > 0x80000000 \<or> s = 0 then None else Some (ucast (raw_roundup_pow_of_two (ucast s))))
           else Some s);
     case kmalloc s of
       None \<Rightarrow> Some (- ENOMEM, raw_kfifo_init None 0 f)
     | Some b \<Rightarrow> Some (0, raw_kfifo_init (Some b) s f) }"

definition kfifo_free :: "kfifo \<Rightarrow> kfifo" where
  "kfifo_free f = raw_kfifo_init None 0 f"

section \<open>Copying\<close>

definition raw_kfifo_in_data :: "kfifo \<Rightarrow> u8 list \<Rightarrow> u32 \<Rightarrow> u32 \<Rightarrow> kfifo option" where
  "raw_kfifo_in_data f src len off = do {
     let off = raw_kfifo_off f (k_in f + off);
     let l = min len (ksize f - off);
     d \<leftarrow> mem_read src 0 (unat l);
     b \<leftarrow> mem_write (kbuf f) (unat off) d;
     d \<leftarrow> mem_read src (unat l) (unat (len - l));
     b \<leftarrow> mem_write b 0 d;
     Some (set_kbuf b f) }"

definition raw_kfifo_out_data :: "kfifo \<Rightarrow> u8 list \<Rightarrow> u32 \<Rightarrow> u32 \<Rightarrow> u8 list option" where
  "raw_kfifo_out_data f dst len off = do {
     let off = raw_kfifo_off f (k_out f + off);
     let l = min len (ksize f - off);
     d \<leftarrow> mem_read (kbuf f) (unat off) (unat l);
     dst \<leftarrow> mem_write dst 0 d;
     d \<leftarrow> mem_read (kbuf f) 0 (unat (len - l));
     mem_write dst (unat l) d }"

text \<open>
  \<open>copy_from_user pos n\<close> gives the number of bytes that could not be read at offset \<open>pos\<close> of the
  user's buffer and the bytes that were stored; the result is the return value, \<open>*lenout\<close> and the queue.
\<close>

definition raw_kfifo_from_user_data ::
  "(nat \<Rightarrow> nat \<Rightarrow> nat \<times> u8 list) \<Rightarrow> kfifo \<Rightarrow> u32 \<Rightarrow> u32 \<Rightarrow> (int \<times> u32 \<times> kfifo) option" where
  "raw_kfifo_from_user_data copy_from_user f len off = do {
     let off = raw_kfifo_off f (k_in f + off);
     let l = min len (ksize f - off);
     let (ret, d) = copy_from_user 0 (unat l);
     b \<leftarrow> mem_write (kbuf f) (unat off) d;
     if ret \<noteq> 0 then Some (- EFAULT, of_nat ret, set_kbuf b f)
     else do {
       let (ret, d) = copy_from_user (unat l) (unat (len - l));
       b \<leftarrow> mem_write b 0 d;
       Some (if ret \<noteq> 0 then - EFAULT else 0, l + (if ret \<noteq> 0 then of_nat ret else len - l), set_kbuf b f) } }"

text \<open>\<open>copy_to_user u pos d\<close> gives the number of bytes of \<open>d\<close> not written and the user's memory.\<close>

definition raw_kfifo_to_user_data ::
  "('u \<Rightarrow> nat \<Rightarrow> u8 list \<Rightarrow> nat \<times> 'u) \<Rightarrow> kfifo \<Rightarrow> 'u \<Rightarrow> u32 \<Rightarrow> u32 \<Rightarrow> (int \<times> u32 \<times> 'u) option" where
  "raw_kfifo_to_user_data copy_to_user f u len off = do {
     let off = raw_kfifo_off f (k_out f + off);
     let l = min len (ksize f - off);
     d \<leftarrow> mem_read (kbuf f) (unat off) (unat l);
     let (ret, u) = copy_to_user u 0 d;
     if ret \<noteq> 0 then Some (- EFAULT, l - of_nat ret, u)
     else do {
       let len = len - l;
       d \<leftarrow> mem_read (kbuf f) 0 (unat len);
       let (ret, u) = copy_to_user u (unat l) d;
       if ret \<noteq> 0 then Some (- EFAULT, l + (len - of_nat ret), u)
       else Some (0, l + len, u) } }"

section \<open>Byte queue\<close>

definition kfifo_skip :: "kfifo \<Rightarrow> u32 \<Rightarrow> kfifo" where
  "kfifo_skip f len = (if len < kfifo_len f then raw_kfifo_add_out len f else kfifo_reset_out f)"

definition kfifo_in :: "kfifo \<Rightarrow> u8 list \<Rightarrow> u32 \<Rightarrow> (u32 \<times> kfifo) option" where
  "kfifo_in f src len = do {
     let len = min (kfifo_avail f) len;
     f \<leftarrow> raw_kfifo_in_data f src len 0;
     Some (len, raw_kfifo_add_in len f) }"

definition kfifo_out :: "kfifo \<Rightarrow> u8 list \<Rightarrow> u32 \<Rightarrow> (u32 \<times> u8 list \<times> kfifo) option" where
  "kfifo_out f dst len = do {
     let len = min (kfifo_len f) len;
     dst \<leftarrow> raw_kfifo_out_data f dst len 0;
     Some (len, dst, raw_kfifo_add_out len f) }"

definition kfifo_out_peek :: "kfifo \<Rightarrow> u8 list \<Rightarrow> u32 \<Rightarrow> u32 \<Rightarrow> (u32 \<times> u8 list) option" where
  "kfifo_out_peek f dst len offset = do {
     let len = min (kfifo_len f) (len + offset);
     dst \<leftarrow> raw_kfifo_out_data f dst len offset;
     Some (len, dst) }"

definition kfifo_from_user ::
  "(nat \<Rightarrow> nat \<Rightarrow> nat \<times> u8 list) \<Rightarrow> kfifo \<Rightarrow> u32 \<Rightarrow> (int \<times> u32 \<times> kfifo) option" where
  "kfifo_from_user copy_from_user f len = do {
     let len = min (kfifo_avail f) len;
     (ret, total, f) \<leftarrow> raw_kfifo_from_user_data copy_from_user f len 0;
     Some (if ret \<noteq> 0 then (ret, total, f) else (0, total, raw_kfifo_add_in len f)) }"

definition kfifo_to_user ::
  "('u \<Rightarrow> nat \<Rightarrow> u8 list \<Rightarrow> nat \<times> 'u) \<Rightarrow> kfifo \<Rightarrow> 'u \<Rightarrow> u32 \<Rightarrow> (int \<times> u32 \<times> 'u \<times> kfifo) option" where
  "kfifo_to_user copy_to_user f u len = do {
     let len = min (kfifo_len f) len;
     (ret, lenout, u) \<leftarrow> raw_kfifo_to_user_data copy_to_user f u len 0;
     Some (ret, lenout, u, raw_kfifo_add_out lenout f) }"

section \<open>Record queue\<close>

definition raw_kfifo_in_n :: "kfifo \<Rightarrow> u8 list \<Rightarrow> u32 \<Rightarrow> u32 \<Rightarrow> (u32 \<times> kfifo) option" where
  "raw_kfifo_in_n f src len recsize =
     (if kfifo_avail f < len + recsize then Some (len + 1, f)
      else do { f \<leftarrow> raw_kfifo_in_data f src len recsize; Some (0, f) })"

definition raw_kfifo_in_rec :: "kfifo \<Rightarrow> u8 list \<Rightarrow> u32 \<Rightarrow> u32 \<Rightarrow> (u32 \<times> kfifo) option" where
  "raw_kfifo_in_rec f src n recsize = do {
     (ret, f) \<leftarrow> raw_kfifo_in_n f src n recsize;
     if ret = 0
     then do { f \<leftarrow> (if recsize \<noteq> 0 then raw_kfifo_poke_n f recsize n else Some f);
               Some (ret, raw_kfifo_add_in (n + recsize) f) }
     else Some (ret, f) }"

definition raw_kfifo_in_generic :: "kfifo \<Rightarrow> u8 list \<Rightarrow> u32 \<Rightarrow> u32 \<Rightarrow> (u32 \<times> kfifo) option" where
  "raw_kfifo_in_generic = raw_kfifo_in_rec"

text \<open>\<open>const\<close> is \<open>__builtin_constant_p(recsize)\<close>, here and below.\<close>

definition kfifo_in_rec :: "bool \<Rightarrow> kfifo \<Rightarrow> u8 list \<Rightarrow> u32 \<Rightarrow> u32 \<Rightarrow> (u32 \<times> kfifo) option" where
  "kfifo_in_rec const f src n recsize =
     (if \<not> const then raw_kfifo_in_generic f src n recsize else raw_kfifo_in_rec f src n recsize)"

definition raw_kfifo_out_n :: "kfifo \<Rightarrow> u8 list \<Rightarrow> u32 \<Rightarrow> u32 \<Rightarrow> (u32 \<times> u8 list \<times> kfifo) option" where
  "raw_kfifo_out_n f dst len recsize =
     (if kfifo_len f < len + recsize then Some (len, dst, f)
      else do { dst \<leftarrow> raw_kfifo_out_data f dst len recsize;
                Some (0, dst, raw_kfifo_add_out (len + recsize) f) })"

text \<open>The result is the return value, \<open>*total\<close>, the destination and the queue.\<close>

definition raw_kfifo_out_rec ::
  "kfifo \<Rightarrow> u8 list \<Rightarrow> u32 \<Rightarrow> u32 \<Rightarrow> (u32 \<times> u32 \<times> u8 list \<times> kfifo) option" where
  "raw_kfifo_out_rec f dst n recsize = do {
     l \<leftarrow> (if recsize = 0 then Some n else raw_kfifo_peek_n f recsize);
     if recsize \<noteq> 0 \<and> n < l then Some (l, l, dst, f)
     else do { (ret, dst, f) \<leftarrow> raw_kfifo_out_n f dst l recsize; Some (ret, l, dst, f) } }"

definition raw_kfifo_out_generic ::
  "kfifo \<Rightarrow> u8 list \<Rightarrow> u32 \<Rightarrow> u32 \<Rightarrow> (u32 \<times> u32 \<times> u8 list \<times> kfifo) option" where
  "raw_kfifo_out_generic = raw_kfifo_out_rec"

definition kfifo_out_rec ::
  "bool \<Rightarrow> kfifo \<Rightarrow> u8 list \<Rightarrow> u32 \<Rightarrow> u32 \<Rightarrow> (u32 \<times> u32 \<times> u8 list \<times> kfifo) option" where
  "kfifo_out_rec const f dst n recsize =
     (if \<not> const then raw_kfifo_out_generic f dst n recsize else raw_kfifo_out_rec f dst n recsize)"

definition raw_kfifo_from_user_n ::
  "(nat \<Rightarrow> nat \<Rightarrow> nat \<times> u8 list) \<Rightarrow> kfifo \<Rightarrow> u32 \<Rightarrow> u32 \<Rightarrow> (u32 \<times> kfifo) option" where
  "raw_kfifo_from_user_n copy_from_user f len recsize =
     (if kfifo_avail f < len + recsize then Some (len + 1, f)
      else do { (_, total, f) \<leftarrow> raw_kfifo_from_user_data copy_from_user f len recsize; Some (total, f) })"

definition raw_kfifo_from_user_rec ::
  "(nat \<Rightarrow> nat \<Rightarrow> nat \<times> u8 list) \<Rightarrow> kfifo \<Rightarrow> u32 \<Rightarrow> u32 \<Rightarrow> (u32 \<times> kfifo) option" where
  "raw_kfifo_from_user_rec copy_from_user f n recsize = do {
     (ret, f) \<leftarrow> raw_kfifo_from_user_n copy_from_user f n recsize;
     if ret = 0
     then do { f \<leftarrow> (if recsize \<noteq> 0 then raw_kfifo_poke_n f recsize n else Some f);
               Some (ret, raw_kfifo_add_in (n + recsize) f) }
     else Some (ret, f) }"

definition raw_kfifo_from_user_generic ::
  "(nat \<Rightarrow> nat \<Rightarrow> nat \<times> u8 list) \<Rightarrow> kfifo \<Rightarrow> u32 \<Rightarrow> u32 \<Rightarrow> (u32 \<times> kfifo) option" where
  "raw_kfifo_from_user_generic = raw_kfifo_from_user_rec"

definition kfifo_from_user_rec ::
  "bool \<Rightarrow> (nat \<Rightarrow> nat \<Rightarrow> nat \<times> u8 list) \<Rightarrow> kfifo \<Rightarrow> u32 \<Rightarrow> u32 \<Rightarrow> (u32 \<times> kfifo) option" where
  "kfifo_from_user_rec const copy_from_user f n recsize =
     (if \<not> const then raw_kfifo_from_user_generic copy_from_user f n recsize
      else raw_kfifo_from_user_rec copy_from_user f n recsize)"

definition raw_kfifo_to_user_n ::
  "('u \<Rightarrow> nat \<Rightarrow> u8 list \<Rightarrow> nat \<times> 'u) \<Rightarrow> kfifo \<Rightarrow> 'u \<Rightarrow> u32 \<Rightarrow> u32 \<Rightarrow> u32 \<Rightarrow> (u32 \<times> 'u \<times> kfifo) option" where
  "raw_kfifo_to_user_n copy_to_user f u len reclen recsize =
     (if kfifo_len f < reclen + recsize then Some (len, u, f)
      else do { (ret, total, u) \<leftarrow> raw_kfifo_to_user_data copy_to_user f u reclen recsize;
                Some (total, u, if ret = 0 then raw_kfifo_add_out (reclen + recsize) f else f) })"

definition raw_kfifo_to_user_rec ::
  "('u \<Rightarrow> nat \<Rightarrow> u8 list \<Rightarrow> nat \<times> 'u) \<Rightarrow> kfifo \<Rightarrow> 'u \<Rightarrow> u32 \<Rightarrow> u32 \<Rightarrow> (u32 \<times> u32 \<times> 'u \<times> kfifo) option" where
  "raw_kfifo_to_user_rec copy_to_user f u n recsize = do {
     l \<leftarrow> (if recsize = 0 then Some n else raw_kfifo_peek_n f recsize);
     if recsize \<noteq> 0 \<and> n < l then Some (l, l, u, f)
     else do { (ret, u, f) \<leftarrow> raw_kfifo_to_user_n copy_to_user f u n l recsize; Some (ret, l, u, f) } }"

definition raw_kfifo_to_user_generic ::
  "('u \<Rightarrow> nat \<Rightarrow> u8 list \<Rightarrow> nat \<times> 'u) \<Rightarrow> kfifo \<Rightarrow> 'u \<Rightarrow> u32 \<Rightarrow> u32 \<Rightarrow> (u32 \<times> u32 \<times> 'u \<times> kfifo) option" where
  "raw_kfifo_to_user_generic = raw_kfifo_to_user_rec"

definition kfifo_to_user_rec ::
  "bool \<Rightarrow> ('u \<Rightarrow> nat \<Rightarrow> u8 list \<Rightarrow> nat \<times> 'u) \<Rightarrow> kfifo \<Rightarrow> 'u \<Rightarrow> u32 \<Rightarrow> u32
   \<Rightarrow> (u32 \<times> u32 \<times> 'u \<times> kfifo) option" where
  "kfifo_to_user_rec const copy_to_user f u n recsize =
     (if \<not> const then raw_kfifo_to_user_generic copy_to_user f u n recsize
      else raw_kfifo_to_user_rec copy_to_user f u n recsize)"

definition raw_kfifo_peek_generic :: "kfifo \<Rightarrow> u32 \<Rightarrow> u32 option" where
  "raw_kfifo_peek_generic f recsize = (if recsize = 0 then Some (kfifo_avail f) else raw_kfifo_peek_n f recsize)"

definition kfifo_peek_rec :: "bool \<Rightarrow> kfifo \<Rightarrow> u32 \<Rightarrow> u32 option" where
  "kfifo_peek_rec const f recsize =
     (if \<not> const then raw_kfifo_peek_generic f recsize
      else if recsize = 0 then Some (kfifo_len f)
      else raw_kfifo_peek_n f recsize)"

definition raw_kfifo_skip_rec :: "kfifo \<Rightarrow> u32 \<Rightarrow> kfifo option" where
  "raw_kfifo_skip_rec f recsize =
     (if recsize \<noteq> 0
      then do { l \<leftarrow> raw_kfifo_peek_n f recsize;
                Some (if l + recsize \<le> kfifo_len f then raw_kfifo_add_out (l + recsize) f else kfifo_reset_out f) }
      else Some (kfifo_reset_out f))"

definition raw_kfifo_skip_generic :: "kfifo \<Rightarrow> u32 \<Rightarrow> kfifo option" where
  "raw_kfifo_skip_generic = raw_kfifo_skip_rec"

definition kfifo_skip_rec :: "bool \<Rightarrow> kfifo \<Rightarrow> u32 \<Rightarrow> kfifo option" where
  "kfifo_skip_rec const f recsize =
     (if \<not> const then raw_kfifo_skip_generic f recsize else raw_kfifo_skip_rec f recsize)"

end
