(* ===== verification/Kfifo_Queue.thy ===== *)
theory Kfifo_Queue
  imports Kfifo
begin

text \<open>
  The ring buffer of \<open>kernel/kfifo.c\<close> refines a queue of bytes of bounded length: every operation is
  described by what it does to the list of the queued bytes, for all values of the two
  counters, including those where they, or the position in the buffer, wrap around.
\<close>

section \<open>Rings\<close>

lemma ring_index:
  assumes "p < N" and "i < N"
  shows "(p + i) mod N = (if p + i < N then p + i else p + i - (N :: nat))"
  using assms by (auto simp: mod_if not_less)

text \<open>Reading \<open>n\<close> bytes from position \<open>p\<close> with one wrap.\<close>

lemma ring_read:
  assumes "off + n \<le> length b" and "p = (s + off) mod length b" and "l = min n (length b - p)" and "0 < length b"
  shows "take l (drop p b) @ take (n - l) b = take n (drop off (rotate s b))"
proof (rule nth_equalityI)
  have p: "p < length b" using assms by simp
  show len: "length (take l (drop p b) @ take (n - l) b) = length (take n (drop off (rotate s b)))"
    using assms by auto
  fix i assume "i < length (take l (drop p b) @ take (n - l) b)"
  then have i: "i < n" using len assms(1) by simp
  have "take n (drop off (rotate s b)) ! i = b ! ((s + (off + i)) mod length b)"
    using i assms(1) by (simp add: nth_rotate)
  also have "(s + (off + i)) mod length b = (p + i) mod length b"
    unfolding assms(2) by (simp add: mod_add_left_eq add.assoc)
  also have "\<dots> = (if p + i < length b then p + i else p + i - length b)"
    by (rule ring_index [OF p]) (use i assms(1) in simp)
  finally show "(take l (drop p b) @ take (n - l) b) ! i = take n (drop off (rotate s b)) ! i"
    using i p assms(1,3) by (auto simp: nth_append add.commute)
qed

text \<open>The ring seen from \<open>s\<close> after bytes were written \<open>off\<close> positions behind \<open>s\<close>.\<close>

definition ring_upd :: "nat \<Rightarrow> nat \<Rightarrow> 'a list \<Rightarrow> 'a list \<Rightarrow> 'a list \<Rightarrow> bool" where
  "ring_upd s off d b b' \<longleftrightarrow> length b' = length b
     \<and> rotate s b' = take off (rotate s b) @ d @ drop (off + length d) (rotate s b)"

lemma ring_write:
  assumes fit: "off + length d \<le> length b" and p: "p = (s + off) mod length b" and l: "l = min (length d) (length b - p)"
    and N: "0 < length b"
    and b': "\<And>j. b' ! j = (if p \<le> j \<and> j < p + l then d ! (j - p) else if j < length d - l then d ! (l + j) else b ! j)"
    and len: "length b' = length b"
  shows "ring_upd s off d b b'"
proof -
  have pl: "p < length b" using p N by simp
  have "rotate s b' ! i = (take off (rotate s b) @ d @ drop (off + length d) (rotate s b)) ! i" if i: "i < length b" for i
  proof -
    let ?N = "length b" and ?j = "(s + i) mod length b"
    have r: "rotate s b' ! i = b' ! ?j" "rotate s b ! i = b ! ?j" using i len by (simp_all add: nth_rotate)
    define t where "t = (if off \<le> i then i - off else ?N + i - off)"
    have t: "t < ?N" using i fit by (auto simp: t_def)
    have "(s + off + t) mod ?N = ?j"
    proof (cases "off \<le> i")
      case False
      then have "s + off + t = s + i + ?N" using fit by (simp add: t_def)
      then show ?thesis by (simp only: mod_add_self2)
    qed (simp add: t_def)
    then have "?j = (p + t) mod ?N" unfolding p by (simp only: mod_add_left_eq)
    then have j: "?j = (if p + t < ?N then p + t else p + t - ?N)" using ring_index [OF pl t] by simp
    have "b' ! ?j = (if t < length d then d ! t else b ! ?j)"
    proof (cases "p + t < ?N")
      case True
      then have "?j = p + t" "t < l \<longleftrightarrow> t < length d" "\<not> t < l \<Longrightarrow> \<not> p + t < length d - l"
        using j l by auto
      then show ?thesis unfolding b' by (cases "t < l") auto
    next
      case False
      then have j': "?j = p + t - ?N" "?j < p" using j t pl by auto
      have "?j < length d - l \<longleftrightarrow> t < length d" "l + ?j = t \<or> \<not> t < length d"
        using False j'(1) l pl by (auto simp: min_def)
      with j'(2) show ?thesis unfolding b' by auto
    qed
    moreover have "t < length d \<longleftrightarrow> off \<le> i \<and> i < off + length d"
      using i fit by (auto simp: t_def)
    ultimately show ?thesis using r i fit by (auto simp: nth_append t_def)
  qed
  with len fit show ?thesis by (auto simp: ring_upd_def intro: nth_equalityI)
qed

lemma ring_upd_trans:
  assumes "ring_upd s off d b b'" and "ring_upd s off' d' b' b''" and "off + length d = off'" and "off' + length d' \<le> length b"
  shows "ring_upd s off (d @ d') b b''"
  using assms by (auto simp: ring_upd_def ac_simps)

lemma ring_upd_trans_front:
  assumes "ring_upd s off' d' b b'" and "ring_upd s off d b' b''" and "off + length d = off'" and "off' + length d' \<le> length b"
  shows "ring_upd s off (d @ d') b b''"
  using assms by (auto simp: ring_upd_def ac_simps)

lemma ring_upd_single:
  assumes "off < length b" and "p = (s + off) mod length b"
  shows "ring_upd s off [x] b (b[p := x])"
proof (rule ring_write)
  have p: "p < length b" unfolding assms(2) by (rule mod_less_divisor) (use assms(1) in linarith)
  show "0 < length b" using assms(1) by (cases b) simp_all
  show "off + length [x] \<le> length b" "length (b[p := x]) = length b" using assms(1) by simp_all
  show "1 = min (length [x]) (length b - p)" using p by simp
  show "b[p := x] ! j = (if p \<le> j \<and> j < p + 1 then [x] ! (j - p) else if j < length [x] - 1 then [x] ! (1 + j) else b ! j)" for j
    using p by (cases "j = p") auto
qed (rule assms(2))

section \<open>The abstract queue\<close>

definition kfifo_ok :: "kfifo \<Rightarrow> bool" where
  "kfifo_ok f \<longleftrightarrow> (\<exists>b k. buffer f = Some b \<and> k < 32 \<and> ksize f = 2 ^ k \<and> length b = 2 ^ k
     \<and> unat (k_in f - k_out f) \<le> 2 ^ k)"

definition contents :: "kfifo \<Rightarrow> u8 list" where
  "contents f = take (unat (kfifo_len f)) (rotate (unat (k_out f)) (kbuf f))"

lemma kfifo_okE:
  assumes "kfifo_ok f"
  obtains k where "k < 32" "ksize f = 2 ^ k" "length (kbuf f) = 2 ^ k" "unat (ksize f) = 2 ^ k"
    "unat (kfifo_len f) \<le> 2 ^ k" "buffer f = Some (kbuf f)"
proof -
  obtain b k where k: "buffer f = Some b" "k < 32" "ksize f = 2 ^ k" "length b = 2 ^ k" "unat (k_in f - k_out f) \<le> 2 ^ k"
    using assms unfolding kfifo_ok_def by blast
  moreover have "kbuf f = b" using k(1) by (simp add: kbuf_def)
  moreover have "unat (ksize f) = 2 ^ k" unfolding k(3) by (rule unat_pow2) (use k(2) in simp)
  ultimately show thesis using that by (simp add: kfifo_len_def)
qed

lemma length_contents: "kfifo_ok f \<Longrightarrow> length (contents f) = unat (kfifo_len f)"
  by (auto simp: contents_def elim: kfifo_okE)

lemma kfifo_off:
  assumes "k < 32" and "ksize f = 2 ^ k"
  shows "unat (raw_kfifo_off f x) = unat x mod 2 ^ k"
proof -
  have "raw_kfifo_off f x = take_bit k x"
    by (simp add: raw_kfifo_off_def assms(2) mask_eq_exp_minus_1 [symmetric] take_bit_eq_mask)
  then have "unat (raw_kfifo_off f x) = take_bit k (unat x)" by (simp add: unsigned_take_bit_eq)
  then show ?thesis by (simp add: take_bit_eq_mod)
qed

lemma unat_add_mod_pow:
  assumes "k < 32"
  shows "unat (x + y :: u32) mod 2 ^ k = (unat x + unat y) mod 2 ^ k"
proof -
  have "(2 :: nat) ^ k dvd 2 ^ 32" using assms by (intro le_imp_power_dvd) simp
  moreover have "unat (x + y) = (unat x + unat y) mod 2 ^ 32" by (simp add: unat_word_ariths)
  ultimately show ?thesis by (simp only: mod_mod_cancel)
qed

lemma kfifo_in_pos:
  assumes "k < 32" and "ksize f = 2 ^ k"
  shows "unat (raw_kfifo_off f (k_in f + x)) = (unat (k_out f) + (unat (kfifo_len f) + unat x)) mod 2 ^ k"
proof -
  have "k_in f + x = k_out f + (kfifo_len f + x)" by (simp add: kfifo_len_def)
  then have "unat (raw_kfifo_off f (k_in f + x)) = (unat (k_out f) + unat (kfifo_len f + x)) mod 2 ^ k"
    by (simp only: kfifo_off [OF assms] unat_add_mod_pow [OF assms(1)])
  also have "\<dots> = (unat (k_out f) + unat (kfifo_len f + x) mod 2 ^ k) mod 2 ^ k"
    by (simp only: mod_add_right_eq)
  finally show ?thesis by (simp only: unat_add_mod_pow [OF assms(1)] mod_add_right_eq)
qed

lemma kfifo_out_pos:
  assumes "k < 32" and "ksize f = 2 ^ k"
  shows "unat (raw_kfifo_off f (k_out f + x)) = (unat (k_out f) + unat x) mod 2 ^ k"
  by (simp only: kfifo_off [OF assms] unat_add_mod_pow [OF assms(1)])

section \<open>Copying in and out\<close>

lemma kfifo_in_data_spec:
  assumes ok: "kfifo_ok f" and fit: "unat (kfifo_len f) + unat off + unat len \<le> length (kbuf f)" and src: "unat len \<le> length src"
  shows "\<exists>b'. raw_kfifo_in_data f src len off = Some (set_kbuf b' f)
    \<and> ring_upd (unat (k_out f)) (unat (kfifo_len f) + unat off) (take (unat len) src) (kbuf f) b'"
proof -
  obtain k where k: "k < 32" "ksize f = 2 ^ k" "length (kbuf f) = 2 ^ k" "unat (ksize f) = 2 ^ k" using ok by (rule kfifo_okE)
  define p where "p = raw_kfifo_off f (k_in f + off)"
  have p: "unat p = (unat (k_out f) + (unat (kfifo_len f) + unat off)) mod 2 ^ k"
    unfolding p_def by (rule kfifo_in_pos [OF k(1,2)])
  then have p_less: "unat p < 2 ^ k" by simp
  define l where "l = min len (ksize f - p)"
  have l: "unat l = min (unat len) (2 ^ k - unat p)"
    using p_less k(4) by (simp add: l_def min_def word_le_nat_alt unat_sub)
  have ll: "unat p + unat l \<le> 2 ^ k" "unat l \<le> unat len" using l p_less by linarith+
  have rest: "unat (len - l) = unat len - unat l" using ll(2) by (simp add: unat_sub word_le_nat_alt)
  let ?d = "take (unat len) src"
  define b1 where "b1 = take (unat p) (kbuf f) @ take (unat l) src @ drop (unat p + unat l) (kbuf f)"
  let ?b2 = "take (unat len - unat l) (drop (unat l) src) @ drop (unat len - unat l) b1"
  have r1: "mem_read src 0 (unat l) = Some (take (unat l) src)" using ll src by (simp add: mem_read_def)
  have w1: "mem_write (kbuf f) (unat p) (take (unat l) src) = Some b1"
    using ll src k(3) by (simp add: mem_write_def b1_def)
  have r2: "mem_read src (unat l) (unat (len - l)) = Some (take (unat len - unat l) (drop (unat l) src))"
    using ll src rest by (simp add: mem_read_def)
  have len1: "length b1 = 2 ^ k" using ll src k(3) by (simp add: b1_def)
  have fit2: "unat len - unat l \<le> 2 ^ k" using fit k(3) by linarith
  have w2: "mem_write b1 0 (take (unat len - unat l) (drop (unat l) src)) = Some ?b2"
    using src fit2 len1 by (simp add: mem_write_def)
  have run: "raw_kfifo_in_data f src len off = Some (set_kbuf ?b2 f)"
    unfolding raw_kfifo_in_data_def Let_def p_def [symmetric] l_def [symmetric]
    by (simp only: r1 w1 r2 w2 Option.bind.simps)
  have "ring_upd (unat (k_out f)) (unat (kfifo_len f) + unat off) ?d (kbuf f) ?b2"
  proof (rule ring_write)
    show "unat (kfifo_len f) + unat off + length ?d \<le> length (kbuf f)" using fit src by simp
    show "unat p = (unat (k_out f) + (unat (kfifo_len f) + unat off)) mod length (kbuf f)" using p k(3) by simp
    show "unat l = min (length ?d) (length (kbuf f) - unat p)" using l src k(3) by simp
    show "0 < length (kbuf f)" using k(3) by simp
    show "length ?b2 = length (kbuf f)" using len1 src k(3) fit2 by simp
    have b1: "b1 ! j = (if unat p \<le> j \<and> j < unat p + unat l then src ! (j - unat p) else kbuf f ! j)" for j
      using nth_mem_write [of "unat p" "take (unat l) src" "kbuf f" j] ll src k(3) by (auto simp: b1_def)
    show "?b2 ! j = (if unat p \<le> j \<and> j < unat p + unat l then ?d ! (j - unat p)
        else if j < length ?d - unat l then ?d ! (unat l + j) else kbuf f ! j)" for j
    proof (cases "j < unat len - unat l")
      case True
      then have "j < unat p" using l fit k(3) by linarith
      with True src show ?thesis by (simp add: nth_append)
    next
      case False
      have "?b2 ! j = b1 ! j" using False src len1 fit2 by (simp add: nth_append nth_drop)
      moreover have "take (unat len) src ! (j - unat p) = src ! (j - unat p)" if "unat p \<le> j" "j < unat p + unat l"
        using that ll by (intro nth_take) linarith
      ultimately show ?thesis using b1 [of j] False src by simp
    qed
  qed
  with run show ?thesis by blast
qed

lemma kfifo_out_data_spec:
  assumes ok: "kfifo_ok f" and fit: "unat off + unat len \<le> length (kbuf f)" and dst: "unat len \<le> length dst"
  shows "raw_kfifo_out_data f dst len off
    = Some (take (unat len) (drop (unat off) (rotate (unat (k_out f)) (kbuf f))) @ drop (unat len) dst)"
proof -
  obtain k where k: "k < 32" "ksize f = 2 ^ k" "length (kbuf f) = 2 ^ k" "unat (ksize f) = 2 ^ k" using ok by (rule kfifo_okE)
  define p where "p = raw_kfifo_off f (k_out f + off)"
  have p: "unat p = (unat (k_out f) + unat off) mod 2 ^ k"
    unfolding p_def by (rule kfifo_out_pos [OF k(1,2)])
  then have p_less: "unat p < 2 ^ k" by simp
  define l where "l = min len (ksize f - p)"
  have l: "unat l = min (unat len) (2 ^ k - unat p)"
    using p_less k(4) by (simp add: l_def min_def word_le_nat_alt unat_sub)
  have ll: "unat p + unat l \<le> 2 ^ k" "unat l \<le> unat len" using l p_less by linarith+
  have rest: "unat (len - l) = unat len - unat l" using ll(2) by (simp add: unat_sub word_le_nat_alt)
  let ?d1 = "take (unat l) (drop (unat p) (kbuf f))" and ?d2 = "take (unat len - unat l) (kbuf f)"
  have r1: "mem_read (kbuf f) (unat p) (unat l) = Some ?d1" using ll k(3) by (simp add: mem_read_def)
  have w1: "mem_write dst 0 ?d1 = Some (?d1 @ drop (unat l) dst)"
    using ll k(3) dst by (simp add: mem_write_def)
  have r2: "mem_read (kbuf f) 0 (unat (len - l)) = Some ?d2" using fit rest by (simp add: mem_read_def)
  have w2: "mem_write (?d1 @ drop (unat l) dst) (unat l) ?d2 = Some (?d1 @ ?d2 @ drop (unat len) dst)"
    using ll k(3) dst fit by (simp add: mem_write_def)
  have "raw_kfifo_out_data f dst len off = Some ((?d1 @ ?d2) @ drop (unat len) dst)"
    unfolding raw_kfifo_out_data_def Let_def p_def [symmetric] l_def [symmetric]
    by (simp only: r1 w1 r2 w2 Option.bind.simps append_assoc)
  also have "?d1 @ ?d2 = take (unat len) (drop (unat off) (rotate (unat (k_out f)) (kbuf f)))"
    by (rule ring_read) (use fit p l k(3) in simp_all)
  finally show ?thesis .
qed

section \<open>The byte queue\<close>

lemma kbuf_set_kbuf: "kfifo_ok f \<Longrightarrow> kbuf (set_kbuf b f) = b"
  by (auto simp: kfifo_ok_def kbuf_def set_kbuf_def)

lemma kfifo_avail_eq:
  assumes "kfifo_ok f"
  shows "unat (kfifo_avail f) = length (kbuf f) - length (contents f)"
proof -
  obtain k where k: "length (kbuf f) = 2 ^ k" "unat (ksize f) = 2 ^ k" "unat (kfifo_len f) \<le> 2 ^ k" using assms by (rule kfifo_okE)
  then show ?thesis
    by (simp add: kfifo_avail_def kfifo_size_def unat_sub word_le_nat_alt length_contents [OF assms])
qed

text \<open>Publishing bytes that were written behind the queued ones.\<close>

lemma kfifo_publish:
  assumes ok: "kfifo_ok f" and upd: "ring_upd (unat (k_out f)) (unat (kfifo_len f)) d (kbuf f) b'"
    and fit: "unat (kfifo_len f) + length d \<le> length (kbuf f)" and n: "unat n = length d"
  shows "kfifo_ok (raw_kfifo_add_in n (set_kbuf b' f))
    \<and> contents (raw_kfifo_add_in n (set_kbuf b' f)) = contents f @ d
    \<and> ksize (raw_kfifo_add_in n (set_kbuf b' f)) = ksize f"
proof -
  let ?f = "raw_kfifo_add_in n (set_kbuf b' f)"
  obtain k where k: "k < 32" "ksize f = 2 ^ k" "length (kbuf f) = 2 ^ k" "unat (kfifo_len f) \<le> 2 ^ k" "buffer f = Some (kbuf f)"
    using ok by (rule kfifo_okE)
  have small: "(2 :: nat) ^ k < 2 ^ 32" using k(1) by (rule power_strict_increasing) simp
  have "kfifo_len ?f = kfifo_len f + n" by (simp add: kfifo_len_def raw_kfifo_add_in_def set_kbuf_def)
  then have len: "unat (kfifo_len ?f) = unat (kfifo_len f) + length d"
    using fit n k(3) small unat_add_nowrap [of "kfifo_len f" n] by simp
  have buf: "kbuf ?f = b'" "k_out ?f = k_out f" "ksize ?f = ksize f"
    using kbuf_set_kbuf [OF ok] by (simp_all add: raw_kfifo_add_in_def set_kbuf_def kbuf_def)
  have "buffer ?f = Some b'" using k(5) by (simp add: raw_kfifo_add_in_def set_kbuf_def)
  then have "kfifo_ok ?f"
    using k upd len fit buf by (auto simp: kfifo_ok_def ring_upd_def kfifo_len_def intro!: exI [of _ k])
  moreover have "contents ?f = contents f @ d"
    using upd k(3,4) unfolding contents_def len buf by (simp add: ring_upd_def)
  ultimately show ?thesis using buf by blast
qed

lemma rotate_out:
  assumes "kfifo_ok f"
  shows "rotate (unat (k_out f + n)) (kbuf f) = rotate (unat n) (rotate (unat (k_out f)) (kbuf f))"
proof -
  obtain k where k: "k < 32" "length (kbuf f) = 2 ^ k" using assms by (rule kfifo_okE)
  have "rotate (unat (k_out f + n)) (kbuf f) = rotate (unat (k_out f) + unat n) (kbuf f)"
    using unat_add_mod_pow [OF k(1), of "k_out f" n] k(2) by (metis rotate_conv_mod)
  then show ?thesis by (simp add: rotate_rotate add.commute)
qed

text \<open>Dropping bytes from the front.\<close>

lemma kfifo_consume:
  assumes ok: "kfifo_ok f" and n: "unat n \<le> length (contents f)"
  shows "kfifo_ok (raw_kfifo_add_out n f) \<and> contents (raw_kfifo_add_out n f) = drop (unat n) (contents f)
    \<and> ksize (raw_kfifo_add_out n f) = ksize f"
proof -
  let ?f = "raw_kfifo_add_out n f"
  obtain k where k: "k < 32" "ksize f = 2 ^ k" "length (kbuf f) = 2 ^ k" "unat (kfifo_len f) \<le> 2 ^ k" "buffer f = Some (kbuf f)"
    using ok by (rule kfifo_okE)
  have buf: "kbuf ?f = kbuf f" "k_out ?f = k_out f + n" "ksize ?f = ksize f" "buffer ?f = buffer f"
    by (simp_all add: raw_kfifo_add_out_def kbuf_def)
  have "kfifo_len ?f = kfifo_len f - n" by (simp add: kfifo_len_def raw_kfifo_add_out_def)
  then have len: "unat (kfifo_len ?f) = unat (kfifo_len f) - unat n"
    using n by (simp add: length_contents [OF ok] unat_sub word_le_nat_alt)
  then have "kfifo_ok ?f"
    using k buf by (auto simp: kfifo_ok_def kfifo_len_def intro!: exI [of _ k])
  moreover have "contents ?f = drop (unat n) (contents f)"
  proof -
    have "rotate (unat (k_out f + n)) (kbuf f) = rotate (unat n) (rotate (unat (k_out f)) (kbuf f))"
      by (rule rotate_out [OF ok])
    also have "take (unat (kfifo_len f) - unat n) \<dots> = drop (unat n) (contents f)"
    proof (rule nth_equalityI)
      let ?r = "rotate (unat (k_out f)) (kbuf f)"
      show "length (take (unat (kfifo_len f) - unat n) (rotate (unat n) ?r)) = length (drop (unat n) (contents f))"
        using k(3,4) by (simp add: length_contents [OF ok])
      fix i assume "i < length (take (unat (kfifo_len f) - unat n) (rotate (unat n) ?r))"
      then have i: "unat n + i < unat (kfifo_len f)" "i < length ?r" by auto
      then have "(unat n + i) mod length ?r = unat n + i" using k(3,4) by simp
      with i show "take (unat (kfifo_len f) - unat n) (rotate (unat n) ?r) ! i = drop (unat n) (contents f) ! i"
        using n by (simp add: nth_rotate contents_def nth_drop)
    qed
    finally show ?thesis unfolding contents_def [of ?f] len buf .
  qed
  ultimately show ?thesis using buf by blast
qed

lemma kfifo_in_spec:
  assumes ok: "kfifo_ok f" and src: "unat len \<le> length src"
  shows "\<exists>n f'. kfifo_in f src len = Some (n, f') \<and> unat n = min (length (kbuf f) - length (contents f)) (unat len)
    \<and> kfifo_ok f' \<and> contents f' = contents f @ take (unat n) src \<and> ksize f' = ksize f"
proof -
  define n where "n = min (kfifo_avail f) len"
  have n: "unat n = min (length (kbuf f) - length (contents f)) (unat len)"
    using kfifo_avail_eq [OF ok] by (simp add: n_def min_def word_le_nat_alt)
  have c: "length (contents f) \<le> length (kbuf f)" by (simp add: contents_def)
  then have fit: "unat (kfifo_len f) + unat n \<le> length (kbuf f)" using n length_contents [OF ok] by linarith
  have src': "unat n \<le> length src" using n src by linarith
  obtain b' where b': "raw_kfifo_in_data f src n 0 = Some (set_kbuf b' f)"
    "ring_upd (unat (k_out f)) (unat (kfifo_len f)) (take (unat n) src) (kbuf f) b'"
    using kfifo_in_data_spec [OF ok _ src', of 0] fit by auto
  have "kfifo_in f src len = Some (n, raw_kfifo_add_in n (set_kbuf b' f))"
    by (simp add: kfifo_in_def Let_def n_def [symmetric] b'(1))
  with kfifo_publish [OF ok b'(2), of n] fit src' n show ?thesis by auto
qed

lemma kfifo_out_spec:
  assumes ok: "kfifo_ok f" and dst: "unat len \<le> length dst"
  shows "\<exists>n f'. kfifo_out f dst len = Some (n, take (unat n) (contents f) @ drop (unat n) dst, f')
    \<and> unat n = min (length (contents f)) (unat len)
    \<and> kfifo_ok f' \<and> contents f' = drop (unat n) (contents f) \<and> ksize f' = ksize f"
proof -
  define n where "n = min (kfifo_len f) len"
  have n: "unat n = min (length (contents f)) (unat len)"
    using length_contents [OF ok] by (simp add: n_def min_def word_le_nat_alt)
  have c: "length (contents f) \<le> length (kbuf f)" by (simp add: contents_def)
  have "raw_kfifo_out_data f dst n 0 = Some (take (unat n) (rotate (unat (k_out f)) (kbuf f)) @ drop (unat n) dst)"
    using kfifo_out_data_spec [OF ok, of 0 n dst] n c dst by auto
  moreover have "take (unat n) (rotate (unat (k_out f)) (kbuf f)) = take (unat n) (contents f)"
    using n length_contents [OF ok] by (simp add: contents_def)
  ultimately have "kfifo_out f dst len = Some (n, take (unat n) (contents f) @ drop (unat n) dst, raw_kfifo_add_out n f)"
    by (simp add: kfifo_out_def Let_def n_def [symmetric])
  with kfifo_consume [OF ok, of n] n show ?thesis by auto
qed

lemma kfifo_reset_out_spec:
  assumes "kfifo_ok f"
  shows "kfifo_ok (kfifo_reset_out f) \<and> contents (kfifo_reset_out f) = []"
  using assms by (auto simp: kfifo_ok_def kfifo_reset_out_def contents_def kfifo_len_def)

lemma kfifo_skip_spec:
  assumes ok: "kfifo_ok f"
  shows "kfifo_ok (kfifo_skip f len) \<and> contents (kfifo_skip f len) = drop (unat len) (contents f)"
proof (cases "len < kfifo_len f")
  case True
  then show ?thesis
    using kfifo_consume [OF ok, of len] by (simp add: kfifo_skip_def length_contents [OF ok] word_less_nat_alt)
next
  case False
  then have "drop (unat len) (contents f) = []" by (simp add: length_contents [OF ok] word_less_nat_alt)
  with False show ?thesis using kfifo_reset_out_spec [OF ok] by (simp add: kfifo_skip_def)
qed

section \<open>Bounded queues\<close>

text \<open>
  What a client of a byte queue relies on: a put appends a prefix of the bytes offered, as many as
  there is room for, and a get removes a prefix of the queued bytes.
\<close>

datatype 'a queue_op = Put "'a list" | Get nat

text \<open>Run a list of operations; collect the bytes accepted and the bytes taken out.\<close>

fun run_queue ::
  "('s \<Rightarrow> 'a list \<Rightarrow> (nat \<times> 's) option) \<Rightarrow> ('s \<Rightarrow> nat \<Rightarrow> ('a list \<times> 's) option) \<Rightarrow> 's \<Rightarrow> 'a queue_op list
   \<Rightarrow> ('a list \<times> 'a list \<times> 's) option" where
  "run_queue put get s [] = Some ([], [], s)"
| "run_queue put get s (Put xs # ops) = do {
     (n, s') \<leftarrow> put s xs; (acc, out, s'') \<leftarrow> run_queue put get s' ops; Some (take n xs @ acc, out, s'') }"
| "run_queue put get s (Get n # ops) = do {
     (xs, s') \<leftarrow> get s n; (acc, out, s'') \<leftarrow> run_queue put get s' ops; Some (acc, xs @ out, s'') }"

locale bounded_queue =
  fixes invar :: "'s \<Rightarrow> bool"
    and items :: "'s \<Rightarrow> 'a list"
    and capacity :: "'s \<Rightarrow> nat"
    and ok_op :: "'a queue_op \<Rightarrow> bool"
    and put :: "'s \<Rightarrow> 'a list \<Rightarrow> (nat \<times> 's) option"
    and get :: "'s \<Rightarrow> nat \<Rightarrow> ('a list \<times> 's) option"
  assumes put_spec: "invar s \<Longrightarrow> ok_op (Put xs) \<Longrightarrow>
      \<exists>n s'. put s xs = Some (n, s') \<and> n = min (capacity s - length (items s)) (length xs)
        \<and> invar s' \<and> items s' = items s @ take n xs \<and> capacity s' = capacity s"
    and get_spec: "invar s \<Longrightarrow> ok_op (Get n) \<Longrightarrow>
      \<exists>xs s'. get s n = Some (xs, s') \<and> xs = take n (items s) \<and> invar s' \<and> items s' = drop n (items s)
        \<and> capacity s' = capacity s"
    and items_bound: "invar s \<Longrightarrow> length (items s) \<le> capacity s"
begin

lemma run_queue_spec:
  assumes "invar s" and "\<forall>p \<in> set ops. ok_op p"
  shows "\<exists>acc out s'. run_queue put get s ops = Some (acc, out, s') \<and> invar s' \<and> out @ items s' = items s @ acc
    \<and> length (items s') \<le> capacity s"
  using assms
proof (induction ops arbitrary: s)
  case Nil
  then show ?case using items_bound by simp
next
  case (Cons p ops)
  show ?case
  proof (cases p)
    case (Put xs)
    obtain n s1 where s1: "put s xs = Some (n, s1)" "invar s1" "items s1 = items s @ take n xs" "capacity s1 = capacity s"
      using put_spec [OF Cons.prems(1), of xs] Cons.prems(2) Put by auto
    obtain acc out s' where "run_queue put get s1 ops = Some (acc, out, s')" "invar s'" "out @ items s' = items s1 @ acc"
      "length (items s') \<le> capacity s1" using Cons.IH [OF s1(2)] Cons.prems(2) by auto
    with s1 Put show ?thesis by auto
  next
    case (Get n)
    obtain s1 where s1: "get s n = Some (take n (items s), s1)" "invar s1" "items s1 = drop n (items s)" "capacity s1 = capacity s"
      using get_spec [OF Cons.prems(1), of n] Cons.prems(2) Get by auto
    obtain acc out s' where r: "run_queue put get s1 ops = Some (acc, out, s')" "invar s'" "out @ items s' = items s1 @ acc"
      "length (items s') \<le> capacity s1" using Cons.IH [OF s1(2)] Cons.prems(2) by auto
    have "take n (items s) @ out @ items s' = items s @ acc" unfolding r(3) s1(3) by simp
    with s1 r Get show ?thesis by auto
  qed
qed

end

text \<open>\<open>kfifo_in\<close> and \<open>kfifo_out\<close> as such operations; a get is given a destination of the size it asks for.\<close>

definition kfifo_put :: "kfifo \<Rightarrow> u8 list \<Rightarrow> (nat \<times> kfifo) option" where
  "kfifo_put f xs = do { (n, f) \<leftarrow> kfifo_in f xs (of_nat (length xs)); Some (unat n, f) }"

definition kfifo_get :: "kfifo \<Rightarrow> nat \<Rightarrow> (u8 list \<times> kfifo) option" where
  "kfifo_get f n = do { (m, dst, f) \<leftarrow> kfifo_out f (replicate n 0) (of_nat n); Some (take (unat m) dst, f) }"

fun u32_op :: "u8 queue_op \<Rightarrow> bool" where
  "u32_op (Put xs) \<longleftrightarrow> length xs < 2 ^ 32"
| "u32_op (Get n) \<longleftrightarrow> n < 2 ^ 32"

lemma unat_of_nat_u32: "n < 2 ^ 32 \<Longrightarrow> unat (of_nat n :: u32) = n"
  by (simp add: unsigned_of_nat take_bit_nat_eq_self)

interpretation kq: bounded_queue kfifo_ok contents "\<lambda>f. length (kbuf f)" u32_op kfifo_put kfifo_get
proof
  have cap: "length (kbuf f') = length (kbuf f)" if "kfifo_ok f" "kfifo_ok f'" "ksize f' = ksize f" for f f'
    using that by (metis kfifo_okE)
  show "\<exists>n s'. kfifo_put f xs = Some (n, s') \<and> n = min (length (kbuf f) - length (contents f)) (length xs)
      \<and> kfifo_ok s' \<and> contents s' = contents f @ take n xs \<and> length (kbuf s') = length (kbuf f)"
    if ok: "kfifo_ok f" and "u32_op (Put xs)" for f xs
  proof -
    have u: "unat (of_nat (length xs) :: u32) = length xs" using that by (simp add: unat_of_nat_u32)
    obtain n f' where "kfifo_in f xs (of_nat (length xs)) = Some (n, f')"
      "unat n = min (length (kbuf f) - length (contents f)) (length xs)"
      "kfifo_ok f'" "contents f' = contents f @ take (unat n) xs" "ksize f' = ksize f"
      using kfifo_in_spec [OF ok, of "of_nat (length xs)" xs] unfolding u by auto
    with cap [OF ok] show ?thesis by (auto simp: kfifo_put_def)
  qed
  show "\<exists>xs s'. kfifo_get f n = Some (xs, s') \<and> xs = take n (contents f) \<and> kfifo_ok s' \<and> contents s' = drop n (contents f)
      \<and> length (kbuf s') = length (kbuf f)"
    if ok: "kfifo_ok f" and "u32_op (Get n)" for f n
  proof -
    have u: "unat (of_nat n :: u32) = n" using that by (simp add: unat_of_nat_u32)
    obtain m f' where m: "kfifo_out f (replicate n 0) (of_nat n) = Some (m, take (unat m) (contents f) @ drop (unat m) (replicate n 0), f')"
      "unat m = min (length (contents f)) n" "kfifo_ok f'" "contents f' = drop (unat m) (contents f)" "ksize f' = ksize f"
      using kfifo_out_spec [OF ok, of "of_nat n" "replicate n 0"] unfolding u by auto
    have "take (unat m) (contents f) = take n (contents f)" "drop (unat m) (contents f) = drop n (contents f)"
      using m(2) by (auto simp: min_def)
    with m cap [OF ok] show ?thesis by (auto simp: kfifo_get_def)
  qed
  show "length (contents f) \<le> length (kbuf f)" if "kfifo_ok f" for f by (simp add: contents_def)
qed

section \<open>Records\<close>

text \<open>The header of a record: its length in one byte or in two, low byte first.\<close>

definition rec_header :: "u32 \<Rightarrow> u32 \<Rightarrow> u8 list" where
  "rec_header recsize n = (if recsize = 1 then [ucast n] else [ucast n, ucast (drop_bit 8 n)])"

lemma length_rec_header: "recsize = 1 \<or> recsize = 2 \<Longrightarrow> length (rec_header recsize n) = unat recsize"
  by (auto simp: rec_header_def)

lemma kfifo_poke_spec:
  assumes ok: "kfifo_ok f" and r: "recsize = 1 \<or> recsize = 2" and fit: "unat (kfifo_len f) + unat recsize \<le> length (kbuf f)"
  shows "\<exists>b'. raw_kfifo_poke_n f recsize n = Some (set_kbuf b' f)
    \<and> ring_upd (unat (k_out f)) (unat (kfifo_len f)) (rec_header recsize n) (kbuf f) b'"
proof -
  obtain k where k: "k < 32" "ksize f = 2 ^ k" "length (kbuf f) = 2 ^ k" using ok by (rule kfifo_okE)
  let ?p0 = "unat (raw_kfifo_off f (k_in f + 0))" and ?p1 = "unat (raw_kfifo_off f (k_in f + 1))"
  note p = kfifo_in_pos [OF k(1,2)]
  have p_less: "?p0 < 2 ^ k" "?p1 < 2 ^ k" unfolding p by simp_all
  let ?b1 = "(kbuf f)[?p0 := ucast n]"
  have a0: "aset (kbuf f) ?p0 (ucast n) = Some ?b1" using p_less k(3) by (simp add: aset_def)
  have u0: "ring_upd (unat (k_out f)) (unat (kfifo_len f)) [ucast n] (kbuf f) ?b1"
    by (rule ring_upd_single) (use fit r p [of 0] k(3) in auto)
  show ?thesis
  proof (cases "recsize = 1")
    case True
    then have "raw_kfifo_poke_n f recsize n = Some (set_kbuf ?b1 f)"
      unfolding raw_kfifo_poke_n_def a0 by simp
    with u0 True show ?thesis by (auto simp: rec_header_def)
  next
    case False
    then have r2: "recsize = 2" using r by simp
    let ?b2 = "?b1[?p1 := ucast (drop_bit 8 n)]"
    have "ring_upd (unat (k_out f)) (unat (kfifo_len f) + 1) [ucast (drop_bit 8 n)] ?b1 ?b2"
      by (rule ring_upd_single) (use fit r2 p [of 1] k(3) in auto)
    with u0 have "ring_upd (unat (k_out f)) (unat (kfifo_len f)) ([ucast n] @ [ucast (drop_bit 8 n)]) (kbuf f) ?b2"
      by (rule ring_upd_trans) (use fit r2 in auto)
    moreover have a1: "aset ?b1 ?p1 (ucast (drop_bit 8 n)) = Some ?b2" using p_less k(3) by (simp add: aset_def)
    have "raw_kfifo_poke_n f recsize n = Some (set_kbuf ?b2 f)"
      unfolding raw_kfifo_poke_n_def a0 Option.bind.simps using r2 a1 by simp
    ultimately show ?thesis using r2 by (auto simp: rec_header_def)
  qed
qed

lemma kfifo_in_rec_spec:
  assumes ok: "kfifo_ok f" and r: "recsize = 1 \<or> recsize = 2" and src: "unat n \<le> length src"
    and wrap: "unat n + unat recsize < 2 ^ 32"
  shows "if length (contents f) + unat recsize + unat n \<le> length (kbuf f)
    then \<exists>f'. raw_kfifo_in_rec f src n recsize = Some (0, f') \<and> kfifo_ok f'
      \<and> contents f' = contents f @ rec_header recsize n @ take (unat n) src \<and> ksize f' = ksize f
    else raw_kfifo_in_rec f src n recsize = Some (n + 1, f)"
proof -
  let ?L = "unat (kfifo_len f)" and ?s = "unat (k_out f)"
  note L = length_contents [OF ok]
  have nr: "unat (n + recsize) = unat n + unat recsize" by (rule unat_add_nowrap) (use wrap in simp)
  have "?L \<le> length (kbuf f)" by (rule kfifo_okE [OF ok]) simp
  then have test: "kfifo_avail f < n + recsize \<longleftrightarrow> \<not> ?L + unat recsize + unat n \<le> length (kbuf f)"
    using kfifo_avail_eq [OF ok] nr L by (auto simp: word_less_nat_alt)
  have n1: "n + 1 \<noteq> 0"
  proof
    assume "n + 1 = 0"
    moreover have "unat (n + 1) = unat n + 1" by (subst unat_add_nowrap) (use wrap r in auto)
    ultimately show False by simp
  qed
  show ?thesis
  proof (cases "?L + unat recsize + unat n \<le> length (kbuf f)")
    case False
    then have "raw_kfifo_in_rec f src n recsize = Some (n + 1, f)"
      using test n1 by (simp add: raw_kfifo_in_rec_def raw_kfifo_in_n_def)
    with False show ?thesis by (simp add: L)
  next
    case fit: True
    obtain b1 where b1: "raw_kfifo_in_data f src n recsize = Some (set_kbuf b1 f)"
      "ring_upd ?s (?L + unat recsize) (take (unat n) src) (kbuf f) b1"
      using kfifo_in_data_spec [OF ok _ src, of recsize] fit by (auto simp: ac_simps)
    let ?f1 = "set_kbuf b1 f"
    have f1: "kbuf ?f1 = b1" "k_out ?f1 = k_out f" "kfifo_len ?f1 = kfifo_len f"
      using kbuf_set_kbuf [OF ok] by (simp_all add: set_kbuf_def kfifo_len_def)
    have l1: "length b1 = length (kbuf f)" using b1(2) by (simp add: ring_upd_def)
    have ok1: "kfifo_ok ?f1" using ok l1 by (auto simp: kfifo_ok_def set_kbuf_def kbuf_def)
    obtain b2 where b2: "raw_kfifo_poke_n ?f1 recsize n = Some (set_kbuf b2 ?f1)"
      "ring_upd ?s ?L (rec_header recsize n) b1 b2"
      using kfifo_poke_spec [OF ok1 r, of n] fit unfolding f1 l1 by auto
    have upd: "ring_upd ?s ?L (rec_header recsize n @ take (unat n) src) (kbuf f) b2"
      by (rule ring_upd_trans_front [OF b1(2) b2(2)]) (use fit src length_rec_header [OF r] in \<open>auto simp: ac_simps\<close>)
    have "set_kbuf b2 ?f1 = set_kbuf b2 f" by (cases "buffer f") (simp_all add: set_kbuf_def)
    then have run: "raw_kfifo_in_rec f src n recsize = Some (0, raw_kfifo_add_in (n + recsize) (set_kbuf b2 f))"
      using r test fit b1(1) b2(1) by (auto simp: raw_kfifo_in_rec_def raw_kfifo_in_n_def)
    have "kfifo_ok (raw_kfifo_add_in (n + recsize) (set_kbuf b2 f))
      \<and> contents (raw_kfifo_add_in (n + recsize) (set_kbuf b2 f)) = contents f @ rec_header recsize n @ take (unat n) src
      \<and> ksize (raw_kfifo_add_in (n + recsize) (set_kbuf b2 f)) = ksize f"
      by (rule kfifo_publish [OF ok upd]) (use fit src nr length_rec_header [OF r] in \<open>auto simp: ac_simps\<close>)
    with run fit show ?thesis by (simp add: L)
  qed
qed

lemma kfifo_contents_nth:
  assumes ok: "kfifo_ok f" and i: "unat i < length (contents f)"
  shows "aget (kbuf f) (unat (raw_kfifo_off f (k_out f + i))) = Some (contents f ! unat i)"
proof -
  obtain k where k: "k < 32" "ksize f = 2 ^ k" "length (kbuf f) = 2 ^ k" "unat (kfifo_len f) \<le> 2 ^ k" using ok by (rule kfifo_okE)
  have "unat i < length (kbuf f)" using i k length_contents [OF ok] by simp
  then have "rotate (unat (k_out f)) (kbuf f) ! unat i = kbuf f ! unat (raw_kfifo_off f (k_out f + i))"
    using k(3) by (simp only: nth_rotate kfifo_out_pos [OF k(1,2)])
  moreover have "unat (raw_kfifo_off f (k_out f + i)) < length (kbuf f)"
    unfolding kfifo_out_pos [OF k(1,2)] using k(3) by simp
  ultimately show ?thesis using i by (simp add: aget_def contents_def)
qed

lemma take_bit_small: "unat (n :: u32) < 2 ^ m \<Longrightarrow> take_bit m n = n"
  by (simp add: word_unat_eq_iff unsigned_take_bit_eq take_bit_nat_eq_self)

lemma header_decode:
  assumes "unat n < 2 ^ 16"
  shows "ucast (ucast n :: u8) OR push_bit 8 (ucast (ucast (drop_bit 8 n) :: u8)) = (n :: u32)"
proof (rule bit_word_eqI)
  fix i assume i: "i < LENGTH(32)"
  have "bit n i \<Longrightarrow> i < 16" using take_bit_small [OF assms] by (metis bit_take_bit_iff)
  then show "bit (ucast (ucast n :: u8) OR push_bit 8 (ucast (ucast (drop_bit 8 n) :: u8)) :: u32) i = bit n i"
    using i by (auto simp: bit_simps)
qed

lemma kfifo_peek_spec:
  assumes ok: "kfifo_ok f" and r: "recsize = 1 \<or> recsize = 2" and c: "contents f = rec_header recsize n @ rest"
    and n: "unat n < 256 ^ unat recsize"
  shows "raw_kfifo_peek_n f recsize = Some n"
proof -
  have b0: "aget (kbuf f) (unat (raw_kfifo_off f (k_out f + 0))) = Some (ucast n)"
    using kfifo_contents_nth [OF ok, of 0] c by (auto simp: rec_header_def split: if_splits)
  show ?thesis
  proof (cases "recsize = 1")
    case True
    then have "unat n < 2 ^ 8" using n by simp
    from take_bit_small [OF this] have "ucast (ucast n :: u8) = n" by (simp add: unsigned_ucast_eq word_unat_eq_iff)
    with True b0 show ?thesis unfolding raw_kfifo_peek_n_def by simp
  next
    case False
    with r have r2: "recsize = 2" by simp
    then have "aget (kbuf f) (unat (raw_kfifo_off f (k_out f + 1))) = Some (ucast (drop_bit 8 n))"
      using kfifo_contents_nth [OF ok, of 1] c by (simp add: rec_header_def)
    moreover have "unat n < 2 ^ 16" using n r2 by simp
    ultimately show ?thesis using b0 r2 header_decode [of n] unfolding raw_kfifo_peek_n_def by simp
  qed
qed

lemma kfifo_out_rec_spec:
  assumes ok: "kfifo_ok f" and r: "recsize = 1 \<or> recsize = 2"
    and c: "contents f = rec_header recsize n @ d @ rest" and d: "length d = unat n"
    and n: "unat n < 256 ^ unat recsize" and dst: "unat room \<le> length dst"
  shows "if n \<le> room
    then \<exists>f'. raw_kfifo_out_rec f dst room recsize = Some (0, n, d @ drop (unat n) dst, f')
      \<and> kfifo_ok f' \<and> contents f' = rest \<and> ksize f' = ksize f
    else raw_kfifo_out_rec f dst room recsize = Some (n, n, dst, f)"
proof (cases "n \<le> room")
  case False
  then show ?thesis using kfifo_peek_spec [OF ok r c n] r by (auto simp: raw_kfifo_out_rec_def)
next
  case True
  note h = length_rec_header [OF r, of n]
  have L: "unat (kfifo_len f) = unat recsize + unat n + length rest" using length_contents [OF ok] c d h by simp
  have le: "length (contents f) \<le> length (kbuf f)" by (simp add: contents_def)
  have "unat n < 2 ^ 16" using n r by auto
  then have nr: "unat (n + recsize) = unat n + unat recsize" using r by (intro unat_add_nowrap) auto
  have "take (unat n) (drop (unat recsize) (rotate (unat (k_out f)) (kbuf f))) = take (unat n) (drop (unat recsize) (contents f))"
    using L by (simp add: contents_def drop_take)
  also have "\<dots> = d" using c h d by simp
  finally have data: "raw_kfifo_out_data f dst n recsize = Some (d @ drop (unat n) dst)"
    using kfifo_out_data_spec [OF ok, of recsize n dst] le c h d dst True by (simp add: word_le_nat_alt)
  have "\<not> kfifo_len f < n + recsize" using L nr by (simp add: word_less_nat_alt)
  then have "raw_kfifo_out_rec f dst room recsize = Some (0, n, d @ drop (unat n) dst, raw_kfifo_add_out (n + recsize) f)"
    using kfifo_peek_spec [OF ok r c n] r True data by (auto simp: raw_kfifo_out_rec_def raw_kfifo_out_n_def)
  moreover have "drop (unat (n + recsize)) (contents f) = rest" unfolding nr c using h d by simp
  ultimately show ?thesis using kfifo_consume [OF ok, of "n + recsize"] nr c h d True by auto
qed

section \<open>User space\<close>

text \<open>
  What the callers rely on: \<open>copy_from_user\<close> stores as many bytes as it was asked for, and the user's
  bytes if it reports that none is missing.
\<close>

definition reads_user :: "(nat \<Rightarrow> nat \<Rightarrow> nat \<times> u8 list) \<Rightarrow> u8 list \<Rightarrow> bool" where
  "reads_user copy_from_user src \<longleftrightarrow>
     (\<forall>pos n. pos + n \<le> length src \<longrightarrow> copy_from_user pos n = (0, take n (drop pos src)))"

lemma kfifo_from_user_data_eq:
  assumes "reads_user cfu src" and "unat len \<le> length src"
  shows "raw_kfifo_from_user_data cfu f len off
    = (case raw_kfifo_in_data f src len off of None \<Rightarrow> None | Some f' \<Rightarrow> Some (0, len, f'))"
proof -
  define p where "p = raw_kfifo_off f (k_in f + off)"
  define l where "l = min len (ksize f - p)"
  have l: "l \<le> len" by (simp add: l_def)
  then have u: "unat (len - l) = unat len - unat l" "unat l \<le> unat len" by (simp_all add: unat_sub word_le_nat_alt)
  have c1: "cfu 0 (unat l) = (0, take (unat l) src)" using assms u by (simp add: reads_user_def)
  have c2: "cfu (unat l) (unat (len - l)) = (0, take (unat (len - l)) (drop (unat l) src))"
    using assms u by (simp add: reads_user_def)
  have r: "mem_read src 0 (unat l) = Some (take (unat l) src)"
    "mem_read src (unat l) (unat (len - l)) = Some (take (unat (len - l)) (drop (unat l) src))"
    using assms u by (simp_all add: mem_read_def)
  show ?thesis
    unfolding raw_kfifo_from_user_data_def raw_kfifo_in_data_def Let_def p_def [symmetric] l_def [symmetric] c1 c2 r
    by (auto split: option.splits bind_splits)
qed

section \<open>Properties\<close>

text \<open>
  C8.  The ring buffer of \<open>kernel/kfifo.c\<close> implements a bounded queue of bytes.  \<open>kfifo_in\<close>
  appends as many bytes as there is room for, \<open>kfifo_out\<close> hands over and removes a prefix and leaves the
  rest of the destination alone, \<open>kfifo_skip\<close> and \<open>kfifo_reset_out\<close> remove bytes; the structural invariant
  is kept, no access leaves the buffer, and all of it for every value of the wrapping counters.
\<close>

theorem kfifo_refines_queue:
  assumes "kfifo_ok f" and "unat len \<le> length src" and "unat room \<le> length dst"
  shows "(\<exists>n f'. kfifo_in f src len = Some (n, f') \<and> unat n = min (length (kbuf f) - length (contents f)) (unat len)
      \<and> kfifo_ok f' \<and> contents f' = contents f @ take (unat n) src \<and> ksize f' = ksize f)
    \<and> (\<exists>n f'. kfifo_out f dst room = Some (n, take (unat n) (contents f) @ drop (unat n) dst, f')
      \<and> unat n = min (length (contents f)) (unat room)
      \<and> kfifo_ok f' \<and> contents f' = drop (unat n) (contents f) \<and> ksize f' = ksize f)
    \<and> kfifo_ok (kfifo_skip f m) \<and> contents (kfifo_skip f m) = drop (unat m) (contents f)
    \<and> kfifo_ok (kfifo_reset_out f) \<and> contents (kfifo_reset_out f) = []
    \<and> (kfifo_is_empty f \<longleftrightarrow> contents f = [])
    \<and> (kfifo_is_full f \<longleftrightarrow> length (contents f) = length (kbuf f))"
proof -
  have "kfifo_is_empty f \<longleftrightarrow> contents f = []"
  proof -
    have "contents f = [] \<longleftrightarrow> unat (kfifo_len f) = 0" using length_contents [OF assms(1)] by (metis length_0_conv)
    also have "\<dots> \<longleftrightarrow> k_in f - k_out f = 0" by (simp only: unat_eq_zero kfifo_len_def)
    finally show ?thesis by (simp add: kfifo_is_empty_def)
  qed
  moreover have "kfifo_is_full f \<longleftrightarrow> length (contents f) = length (kbuf f)"
    using length_contents [OF assms(1)]
    by (rule_tac kfifo_okE [OF assms(1)]) (simp add: kfifo_is_full_def kfifo_size_def word_unat_eq_iff)
  ultimately show ?thesis
    using kfifo_in_spec [OF assms(1,2)] kfifo_out_spec [OF assms(1,3)] kfifo_skip_spec [OF assms(1)]
      kfifo_reset_out_spec [OF assms(1)] by blast
qed

text \<open>A queue of four bytes whose counters are about to wrap.\<close>

definition kfifo_example :: kfifo where
  "kfifo_example = \<lparr>buffer = Some [1, 2, 3, 4], ksize = 4, k_in = 1, k_out = 0xFFFFFFFE\<rparr>"

lemma kfifo_example_ok: "kfifo_ok kfifo_example"
  unfolding kfifo_ok_def
  by (rule exI [of _ "[1, 2, 3, 4]"], rule exI [of _ 2]) (simp add: kfifo_example_def)

theorem kfifo_refines_queue_witness:
  "(\<exists>n f'. kfifo_in kfifo_example [7, 8] 2 = Some (n, f')
      \<and> unat n = min (length (kbuf kfifo_example) - length (contents kfifo_example)) (unat (2 :: u32))
      \<and> kfifo_ok f' \<and> contents f' = contents kfifo_example @ take (unat n) [7, 8] \<and> ksize f' = ksize kfifo_example)
    \<and> (\<exists>n f'. kfifo_out kfifo_example [0, 0] 2 = Some (n, take (unat n) (contents kfifo_example) @ drop (unat n) [0, 0], f')
      \<and> unat n = min (length (contents kfifo_example)) (unat (2 :: u32))
      \<and> kfifo_ok f' \<and> contents f' = drop (unat n) (contents kfifo_example) \<and> ksize f' = ksize kfifo_example)
    \<and> kfifo_ok (kfifo_skip kfifo_example 1) \<and> contents (kfifo_skip kfifo_example 1) = drop (unat (1 :: u32)) (contents kfifo_example)
    \<and> kfifo_ok (kfifo_reset_out kfifo_example) \<and> contents (kfifo_reset_out kfifo_example) = []
    \<and> (kfifo_is_empty kfifo_example \<longleftrightarrow> contents kfifo_example = [])
    \<and> (kfifo_is_full kfifo_example \<longleftrightarrow> length (contents kfifo_example) = length (kbuf kfifo_example))"
  by (rule kfifo_refines_queue [OF kfifo_example_ok]) simp_all

text \<open>
  First in, first out over any run: for every sequence of \<open>kfifo_in\<close> and \<open>kfifo_out\<close>
  calls, the bytes that came out followed by those still queued are the bytes that were queued at the
  start followed by those accepted, in the same order, and no call faults.
\<close>

theorem kfifo_fifo_order:
  assumes "kfifo_ok f" and "\<forall>p \<in> set ops. u32_op p"
  shows "\<exists>acc out f'. run_queue kfifo_put kfifo_get f ops = Some (acc, out, f') \<and> kfifo_ok f'
    \<and> out @ contents f' = contents f @ acc \<and> length (contents f') \<le> length (kbuf f)"
  by (rule kq.run_queue_spec [OF assms])

theorem kfifo_fifo_order_witness:
  "\<exists>acc out f'. run_queue kfifo_put kfifo_get kfifo_example [Put [5, 6], Get 2, Put [7, 8, 9], Get 9] = Some (acc, out, f')
    \<and> kfifo_ok f' \<and> out @ contents f' = contents kfifo_example @ acc \<and> length (contents f') \<le> length (kbuf kfifo_example)"
  by (rule kfifo_fifo_order [OF kfifo_example_ok]) simp

text \<open>The queue holds the given records, each with a length that fits the length field.\<close>

definition holds_records :: "u32 \<Rightarrow> kfifo \<Rightarrow> u8 list list \<Rightarrow> bool" where
  "holds_records recsize f recs \<longleftrightarrow> kfifo_ok f \<and> (\<forall>d \<in> set recs. length d < 256 ^ unat recsize)
     \<and> contents f = concat (map (\<lambda>d. rec_header recsize (of_nat (length d)) @ d) recs)"



text \<open>
  \<open>kfifo_from_user_rec\<close> loses the record it has just copied: when every byte
  could be read, \<open>__kfifo_from_user_n\<close> returns the number of bytes copied, not the number missing, so
  for a record that is not empty the call reports the length as missing and never advances the input
  counter; the queue still holds what it held.
\<close>

theorem kfifo_from_user_rec_loses:
  assumes "kfifo_ok f" and "recsize = 1 \<or> recsize = 2" and "reads_user copy_from_user src" and "unat n \<le> length src"
    and "0 < unat n" and "length (contents f) + unat recsize + unat n \<le> length (kbuf f)"
    and "unat n + unat recsize < 2 ^ 32"
  shows "\<exists>f'. kfifo_from_user_rec const copy_from_user f n recsize = Some (n, f') \<and> contents f' = contents f"
proof -
  note L = length_contents [OF assms(1)]
  have nr: "unat (n + recsize) = unat n + unat recsize" by (rule unat_add_nowrap) (use assms(7) in simp)
  have test: "\<not> kfifo_avail f < n + recsize"
    using kfifo_avail_eq [OF assms(1)] nr assms(6) by (simp add: word_less_nat_alt)
  obtain b' where b': "raw_kfifo_in_data f src n recsize = Some (set_kbuf b' f)"
    "ring_upd (unat (k_out f)) (unat (kfifo_len f) + unat recsize) (take (unat n) src) (kbuf f) b'"
    using kfifo_in_data_spec [OF assms(1) _ assms(4), of recsize] assms(6) L by auto
  have "n \<noteq> 0" using assms(5) by auto
  then have "kfifo_from_user_rec const copy_from_user f n recsize = Some (n, set_kbuf b' f)"
    using test b'(1) kfifo_from_user_data_eq [OF assms(3,4), of f recsize]
    by (simp add: kfifo_from_user_rec_def raw_kfifo_from_user_generic_def raw_kfifo_from_user_rec_def
        raw_kfifo_from_user_n_def)
  moreover have "kfifo_len (set_kbuf b' f) = kfifo_len f" "k_out (set_kbuf b' f) = k_out f" "kbuf (set_kbuf b' f) = b'"
    using kbuf_set_kbuf [OF assms(1)] by (simp_all add: set_kbuf_def kfifo_len_def)
  then have "contents (set_kbuf b' f) = contents f"
    using b'(2) L assms(6) by (simp add: contents_def ring_upd_def)
  ultimately show ?thesis by blast
qed

theorem kfifo_from_user_rec_loses_witness:
  "\<exists>f'. kfifo_from_user_rec True (\<lambda>pos n. (0, take n (drop pos [9, 8, 7]))) (kfifo_reset_out kfifo_example) 2 1 = Some (2, f')
    \<and> contents f' = contents (kfifo_reset_out kfifo_example)"
  by (rule kfifo_from_user_rec_loses [where src = "[9, 8, 7]"])
    (use kfifo_reset_out_spec [OF kfifo_example_ok] in
      \<open>simp_all add: reads_user_def kfifo_example_def kfifo_reset_out_def kbuf_def\<close>)

text \<open>
  \<open>kfifo_out_peek\<close> adds the offset to the number of bytes to copy: asked for one byte at offset
  1 with a destination of one byte, it writes two.
\<close>

lemma kfifo_out_peek_overruns: "kfifo_out_peek kfifo_example [0] 1 1 = None"
  by code_simp

text \<open>For a record size of 0 the generic variant of \<open>kfifo_peek_rec\<close> gives the free space instead of the length.\<close>

lemma kfifo_peek_rec_variants_differ:
  "kfifo_peek_rec True kfifo_example 0 = Some 3 \<and> kfifo_peek_rec False kfifo_example 0 = Some 1"
  by code_simp

end
