(* ===== verification/Kfifo_Spsc.thy ===== *)
theory Kfifo_Spsc
  imports Kfifo_Queue
begin

text \<open>
  One writer and one reader on the same queue without a lock.  The comments of
  \<open>kernel/kfifo.c\<close> promise that \<open>kfifo_in\<close> and \<open>kfifo_out\<close> need no extra locking then.  Each of the two calls
  is split at its memory barriers into three steps, sampling the other side's counter, copying, and
  moving its own counter, and the steps of the two threads interleave in any order.
\<close>

section \<open>Steps\<close>

datatype writer = W_idle | W_sampled "u8 list" u32 | W_copied "u8 list" u32

datatype reader = R_idle | R_sampled u32 | R_copied u32 "u8 list"

text \<open>\<open>written\<close> and \<open>taken\<close> record the bytes that went in and came out since the start.\<close>

record spsc =
  fifo :: kfifo
  wpc :: writer
  rpc :: reader
  written :: "u8 list"
  taken :: "u8 list"

inductive spsc_step :: "spsc \<Rightarrow> spsc \<Rightarrow> bool" where
  w_sample: "wpc s = W_idle \<Longrightarrow> length src < 2 ^ 32 \<Longrightarrow>
    spsc_step s (s\<lparr>wpc := W_sampled src (min (kfifo_avail (fifo s)) (of_nat (length src)))\<rparr>)"
| w_copy: "wpc s = W_sampled src n \<Longrightarrow> raw_kfifo_in_data (fifo s) src n 0 = Some f \<Longrightarrow>
    spsc_step s (s\<lparr>fifo := f, wpc := W_copied (take (unat n) src) n\<rparr>)"
| w_publish: "wpc s = W_copied d n \<Longrightarrow>
    spsc_step s (s\<lparr>fifo := raw_kfifo_add_in n (fifo s), wpc := W_idle, written := written s @ d\<rparr>)"
| r_sample: "rpc s = R_idle \<Longrightarrow>
    spsc_step s (s\<lparr>rpc := R_sampled (min (kfifo_len (fifo s)) len)\<rparr>)"
| r_copy: "rpc s = R_sampled n \<Longrightarrow> unat n \<le> length dst \<Longrightarrow> raw_kfifo_out_data (fifo s) dst n 0 = Some dst' \<Longrightarrow>
    spsc_step s (s\<lparr>rpc := R_copied n (take (unat n) dst')\<rparr>)"
| r_publish: "rpc s = R_copied n d \<Longrightarrow>
    spsc_step s (s\<lparr>fifo := raw_kfifo_add_out n (fifo s), rpc := R_idle, taken := taken s @ d\<rparr>)"

inductive spsc_reachable :: "kfifo \<Rightarrow> spsc \<Rightarrow> bool" for f0 where
  init: "spsc_reachable f0 \<lparr>fifo = f0, wpc = W_idle, rpc = R_idle, written = [], taken = []\<rparr>"
| step: "spsc_reachable f0 s \<Longrightarrow> spsc_step s s' \<Longrightarrow> spsc_reachable f0 s'"

section \<open>Invariant\<close>

text \<open>The bytes behind the queued ones, where a copy has been made that is not published yet.\<close>

definition tail_bytes :: "kfifo \<Rightarrow> u8 list" where
  "tail_bytes f = drop (length (contents f)) (rotate (unat (k_out f)) (kbuf f))"

fun writer_inv :: "kfifo \<Rightarrow> writer \<Rightarrow> bool" where
  "writer_inv f W_idle \<longleftrightarrow> True"
| "writer_inv f (W_sampled src n) \<longleftrightarrow> unat n \<le> length src \<and> length (contents f) + unat n \<le> length (kbuf f)"
| "writer_inv f (W_copied d n) \<longleftrightarrow> length d = unat n \<and> length (contents f) + unat n \<le> length (kbuf f)
     \<and> take (unat n) (tail_bytes f) = d"

fun reader_inv :: "kfifo \<Rightarrow> reader \<Rightarrow> bool" where
  "reader_inv f R_idle \<longleftrightarrow> True"
| "reader_inv f (R_sampled n) \<longleftrightarrow> unat n \<le> length (contents f)"
| "reader_inv f (R_copied n d) \<longleftrightarrow> unat n \<le> length (contents f) \<and> d = take (unat n) (contents f)"

definition spsc_inv :: "kfifo \<Rightarrow> spsc \<Rightarrow> bool" where
  "spsc_inv f0 s \<longleftrightarrow> kfifo_ok (fifo s) \<and> writer_inv (fifo s) (wpc s) \<and> reader_inv (fifo s) (rpc s)
     \<and> contents f0 @ written s = taken s @ contents (fifo s)"

lemma contents_tail:
  assumes "kfifo_ok f"
  shows "rotate (unat (k_out f)) (kbuf f) = contents f @ tail_bytes f"
  using length_contents [OF assms] by (simp add: tail_bytes_def contents_def)

text \<open>Copying in leaves the queued bytes alone and puts the new ones behind them.\<close>

lemma copy_in:
  assumes ok: "kfifo_ok f" and n: "unat n \<le> length src" "length (contents f) + unat n \<le> length (kbuf f)"
  shows "\<exists>f'. raw_kfifo_in_data f src n 0 = Some f' \<and> kfifo_ok f' \<and> contents f' = contents f
    \<and> take (unat n) (tail_bytes f') = take (unat n) src \<and> length (kbuf f') = length (kbuf f)"
proof -
  note L = length_contents [OF ok]
  obtain b' where b': "raw_kfifo_in_data f src n 0 = Some (set_kbuf b' f)"
    "ring_upd (unat (k_out f)) (unat (kfifo_len f)) (take (unat n) src) (kbuf f) b'"
    using kfifo_in_data_spec [OF ok _ n(1), of 0] n(2) L by auto
  let ?f = "set_kbuf b' f"
  have f: "kbuf ?f = b'" "k_out ?f = k_out f" "kfifo_len ?f = kfifo_len f"
    using kbuf_set_kbuf [OF ok] by (simp_all add: set_kbuf_def kfifo_len_def)
  have len: "length b' = length (kbuf f)" using b'(2) by (simp add: ring_upd_def)
  have ok': "kfifo_ok ?f" using ok len by (auto simp: kfifo_ok_def set_kbuf_def kbuf_def)
  have "rotate (unat (k_out f)) b' = contents f @ take (unat n) src @ drop (unat n) (tail_bytes f)"
    using b'(2) n(1) L by (simp add: ring_upd_def contents_def [symmetric] tail_bytes_def add.commute)
  with n(1) L len f b'(1) ok' show ?thesis
    by (intro exI [of _ ?f]) (simp add: contents_def [of ?f] tail_bytes_def [of ?f])
qed

text \<open>Moving the input counter over bytes that are already in place.\<close>

lemma publish_in:
  assumes ok: "kfifo_ok f" and d: "take (unat n) (tail_bytes f) = d" "length d = unat n"
    and fit: "length (contents f) + unat n \<le> length (kbuf f)"
  shows "kfifo_ok (raw_kfifo_add_in n f) \<and> contents (raw_kfifo_add_in n f) = contents f @ d"
proof -
  have "d @ drop (unat n) (tail_bytes f) = tail_bytes f" unfolding d(1) [symmetric] by (rule append_take_drop_id)
  then have r: "rotate (unat (k_out f)) (kbuf f) = contents f @ d @ drop (unat n) (tail_bytes f)"
    by (simp only: contents_tail [OF ok])
  have upd: "ring_upd (unat (k_out f)) (unat (kfifo_len f)) d (kbuf f) (kbuf f)"
    unfolding ring_upd_def r using d(2) length_contents [OF ok] by simp
  have same: "set_kbuf (kbuf f) f = f" using ok by (auto simp: kfifo_ok_def set_kbuf_def kbuf_def)
  have room: "unat (kfifo_len f) + length d \<le> length (kbuf f)" using fit d(2) length_contents [OF ok] by simp
  from kfifo_publish [OF ok upd room d(2) [symmetric]] show ?thesis unfolding same by blast
qed

lemma rotate_short: "n \<le> length xs \<Longrightarrow> rotate n xs = drop n xs @ take n xs"
  by (cases "n = length xs") (simp_all add: rotate_id rotate_drop_take)

text \<open>Moving the output counter leaves the bytes behind the queue where the writer put them.\<close>

lemma publish_out:
  assumes ok: "kfifo_ok f" and n: "unat n \<le> length (contents f)"
  shows "tail_bytes (raw_kfifo_add_out n f) = tail_bytes f @ take (unat n) (contents f)"
proof -
  let ?f = "raw_kfifo_add_out n f" and ?r = "rotate (unat (k_out f)) (kbuf f)"
  have f: "kbuf ?f = kbuf f" "k_out ?f = k_out f + n" by (simp_all add: raw_kfifo_add_out_def kbuf_def)
  have c: "contents ?f = drop (unat n) (contents f)" using kfifo_consume [OF ok n] by simp
  have le: "length (contents f) \<le> length ?r" by (simp add: contents_def)
  have "rotate (unat (k_out f + n)) (kbuf f) = rotate (unat n) ?r" by (rule rotate_out [OF ok])
  also have "\<dots> = drop (unat n) ?r @ take (unat n) ?r" by (rule rotate_short) (use n le in simp)
  finally show ?thesis
    using contents_tail [OF ok] n by (simp add: tail_bytes_def [of ?f] f c)
qed

lemma copy_out:
  assumes ok: "kfifo_ok f" and n: "unat n \<le> length (contents f)" and dst: "unat n \<le> length dst"
  shows "\<exists>dst'. raw_kfifo_out_data f dst n 0 = Some dst' \<and> take (unat n) dst' = take (unat n) (contents f)"
proof -
  have "length (contents f) \<le> length (kbuf f)" by (simp add: contents_def)
  then have "raw_kfifo_out_data f dst n 0
      = Some (take (unat n) (rotate (unat (k_out f)) (kbuf f)) @ drop (unat n) dst)"
    using kfifo_out_data_spec [OF ok, of 0 n dst] n dst by simp
  then show ?thesis using contents_tail [OF ok] n by simp
qed

lemma spsc_step_inv:
  assumes "spsc_step s s'" and "spsc_inv f0 s"
  shows "spsc_inv f0 s'"
  using assms
proof (cases rule: spsc_step.cases)
  case (w_sample src)
  have ok: "kfifo_ok (fifo s)" using assms(2) by (simp add: spsc_inv_def)
  have "unat (min (kfifo_avail (fifo s)) (of_nat (length src))) = min (unat (kfifo_avail (fifo s))) (length src)"
    using unat_of_nat_u32 [OF w_sample(3)] by (simp add: min_def word_le_nat_alt)
  moreover have "length (contents (fifo s)) \<le> length (kbuf (fifo s))" by (simp add: contents_def)
  ultimately show ?thesis using w_sample assms(2) kfifo_avail_eq [OF ok] by (auto simp: spsc_inv_def)
next
  case (w_copy src n f)
  then have inv: "kfifo_ok (fifo s)" "unat n \<le> length src" "length (contents (fifo s)) + unat n \<le> length (kbuf (fifo s))"
    using assms(2) by (simp_all add: spsc_inv_def)
  from copy_in [OF inv] w_copy(3)
  have f: "kfifo_ok f" "contents f = contents (fifo s)" "take (unat n) (tail_bytes f) = take (unat n) src"
    "length (kbuf f) = length (kbuf (fifo s))" by auto
  have "reader_inv f (rpc s)" using assms(2) f(2) by (cases "rpc s") (auto simp: spsc_inv_def)
  then show ?thesis using w_copy f inv assms(2) by (simp add: spsc_inv_def)
next
  case (w_publish d n)
  then have inv: "kfifo_ok (fifo s)" "take (unat n) (tail_bytes (fifo s)) = d" "length d = unat n"
    "length (contents (fifo s)) + unat n \<le> length (kbuf (fifo s))"
    using assms(2) by (simp_all add: spsc_inv_def)
  note p = publish_in [OF inv]
  have "reader_inv (raw_kfifo_add_in n (fifo s)) (rpc s)" using assms(2) p by (cases "rpc s") (auto simp: spsc_inv_def)
  then show ?thesis using w_publish p assms(2) by (simp add: spsc_inv_def)
next
  case (r_sample len)
  have ok: "kfifo_ok (fifo s)" using assms(2) by (simp add: spsc_inv_def)
  then show ?thesis using r_sample assms(2) length_contents [OF ok] by (simp add: spsc_inv_def min_def word_le_nat_alt)
next
  case (r_copy n dst dst')
  then have inv: "kfifo_ok (fifo s)" "unat n \<le> length (contents (fifo s))" "unat n \<le> length dst"
    using assms(2) by (simp_all add: spsc_inv_def)
  from copy_out [OF inv] r_copy show ?thesis using assms(2) inv by (simp add: spsc_inv_def)
next
  case (r_publish n d)
  then have inv: "kfifo_ok (fifo s)" "unat n \<le> length (contents (fifo s))" "d = take (unat n) (contents (fifo s))"
    using assms(2) by (simp_all add: spsc_inv_def)
  note c = kfifo_consume [OF inv(1,2)] and t = publish_out [OF inv(1,2)]
  have "kbuf (raw_kfifo_add_out n (fifo s)) = kbuf (fifo s)" by (simp add: raw_kfifo_add_out_def kbuf_def)
  then have "writer_inv (raw_kfifo_add_out n (fifo s)) (wpc s)"
    using assms(2) c t by (cases "wpc s") (auto simp: spsc_inv_def)
  then show ?thesis using r_publish c inv assms(2) by (simp add: spsc_inv_def)
qed

lemma spsc_reachable_inv:
  assumes "spsc_reachable f0 s" and "kfifo_ok f0"
  shows "spsc_inv f0 s"
  using assms(1)
proof induction
  case init
  then show ?case using assms(2) by (simp add: spsc_inv_def)
next
  case (step s s')
  then show ?case using spsc_step_inv by blast
qed

section \<open>Property\<close>

text \<open>
  C3.  With one writer and one reader no lock is needed: in every interleaving of the steps of
  \<open>kfifo_in\<close> and \<open>kfifo_out\<close>, the bytes taken out followed by those queued are the bytes queued at the start
  followed by those written, the structure stays intact, and a thread that has sampled the other side's
  counter can always copy without leaving the buffer.
\<close>

theorem kfifo_spsc_safe:
  assumes "kfifo_ok f0" and "spsc_reachable f0 s"
  shows "kfifo_ok (fifo s) \<and> contents f0 @ written s = taken s @ contents (fifo s)
    \<and> (\<forall>src n. wpc s = W_sampled src n \<longrightarrow> raw_kfifo_in_data (fifo s) src n 0 \<noteq> None)
    \<and> (\<forall>n dst. rpc s = R_sampled n \<longrightarrow> unat n \<le> length dst \<longrightarrow> raw_kfifo_out_data (fifo s) dst n 0 \<noteq> None)"
proof -
  note inv = spsc_reachable_inv [OF assms(2,1)]
  have ok: "kfifo_ok (fifo s)" using inv by (simp add: spsc_inv_def)
  have "raw_kfifo_in_data (fifo s) src n 0 \<noteq> None" if "wpc s = W_sampled src n" for src n
    using copy_in [OF ok, of n src] inv that by (auto simp: spsc_inv_def)
  moreover have "raw_kfifo_out_data (fifo s) dst n 0 \<noteq> None" if "rpc s = R_sampled n" "unat n \<le> length dst" for n dst
    using copy_out [OF ok, of n dst] inv that by (auto simp: spsc_inv_def)
  ultimately show ?thesis using inv by (simp add: spsc_inv_def)
qed

theorem kfifo_spsc_safe_witness:
  "\<exists>s. spsc_reachable kfifo_example s \<and> wpc s = W_sampled [7, 8] 1 \<and> rpc s = R_sampled 2
    \<and> (kfifo_ok (fifo s) \<and> contents kfifo_example @ written s = taken s @ contents (fifo s)
    \<and> (\<forall>src n. wpc s = W_sampled src n \<longrightarrow> raw_kfifo_in_data (fifo s) src n 0 \<noteq> None)
    \<and> (\<forall>n dst. rpc s = R_sampled n \<longrightarrow> unat n \<le> length dst \<longrightarrow> raw_kfifo_out_data (fifo s) dst n 0 \<noteq> None))"
proof -
  let ?s0 = "\<lparr>fifo = kfifo_example, wpc = W_idle, rpc = R_idle, written = [], taken = []\<rparr>"
  let ?s1 = "?s0\<lparr>wpc := W_sampled [7, 8] (min (kfifo_avail (fifo ?s0)) (of_nat (length [7, 8 :: u8])))\<rparr>"
  let ?s2 = "?s1\<lparr>rpc := R_sampled (min (kfifo_len (fifo ?s1)) 2)\<rparr>"
  have "spsc_reachable kfifo_example ?s1" by (rule spsc_reachable.step [OF spsc_reachable.init spsc_step.w_sample]) simp_all
  then have r: "spsc_reachable kfifo_example ?s2" by (rule spsc_reachable.step [OF _ spsc_step.r_sample]) simp
  have "min (kfifo_avail (fifo ?s0)) (of_nat (length [7, 8 :: u8])) = 1" "min (kfifo_len (fifo ?s1)) 2 = 2"
    by (simp_all add: kfifo_avail_def kfifo_size_def kfifo_len_def kfifo_example_def)
  then have "wpc ?s2 = W_sampled [7, 8] 1" "rpc ?s2 = R_sampled 2" by simp_all
  with r kfifo_spsc_safe [OF kfifo_example_ok r] show ?thesis by blast
qed

end
