(* ===== verification/Semaphore.thy ===== *)
theory Semaphore
  imports Kernel_Prelude
begin

text \<open>
  The counting semaphores of \<open>kernel/semaphore.c\<close>.  Every section under the spin lock is one
  function on the state; a call that sleeps ends in the outcome \<open>Sleep\<close>, and \<open>down_resume\<close> is the section after
  \<open>schedule_timeout\<close> has returned.  Tasks are numbered.  A system of any number of tasks
  interleaves these sections.
\<close>

section \<open>State\<close>

text \<open>
  \<open>wait_list\<close> holds the waiters, each named by its task: a waiter lives on the stack of the
  task that sleeps.  \<open>waiter_up\<close> is the field \<open>up\<close> of the waiter of each task.
\<close>

record semaphore =
  count :: u32
  wait_list :: "nat list"
  waiter_up :: "nat \<Rightarrow> bool"

definition sema_init :: "int \<Rightarrow> semaphore" where
  "sema_init val = \<lparr>count = word_of_int val, wait_list = [], waiter_up = (\<lambda>_. False)\<rparr>"

definition TASK_INTERRUPTIBLE :: u64 where "TASK_INTERRUPTIBLE = 1"
definition TASK_UNINTERRUPTIBLE :: u64 where "TASK_UNINTERRUPTIBLE = 2"
definition TASK_WAKEKILL :: u64 where "TASK_WAKEKILL = 128"
definition TASK_KILLABLE :: u64 where "TASK_KILLABLE = TASK_WAKEKILL OR TASK_UNINTERRUPTIBLE"
definition MAX_SCHEDULE_TIMEOUT :: int where "MAX_SCHEDULE_TIMEOUT = 2 ^ 63 - 1"

lemmas task_state_defs = TASK_INTERRUPTIBLE_def TASK_UNINTERRUPTIBLE_def TASK_WAKEKILL_def TASK_KILLABLE_def

text \<open>The signals pending for a task: none, an ordinary one, or a fatal one.\<close>

datatype signals = No_signal | Signal | Fatal_signal

definition signal_pending_state :: "u64 \<Rightarrow> signals \<Rightarrow> bool" where
  "signal_pending_state state sg =
     (if state AND (TASK_INTERRUPTIBLE OR TASK_WAKEKILL) = 0 then False
      else if sg = No_signal then False
      else state AND TASK_INTERRUPTIBLE \<noteq> 0 \<or> sg = Fatal_signal)"

section \<open>Sections under the lock\<close>

datatype outcome = Return int | Sleep u64 int

text \<open>One pass through the loop of \<open>__down_common\<close>, up to the call of \<open>schedule_timeout\<close>.\<close>

definition down_pass :: "semaphore \<Rightarrow> nat \<Rightarrow> u64 \<Rightarrow> int \<Rightarrow> signals \<Rightarrow> outcome \<times> semaphore" where
  "down_pass s t state timeout sg =
     (if signal_pending_state state sg then (Return (- EINTR), s\<lparr>wait_list := remove1 t (wait_list s)\<rparr>)
      else if timeout \<le> 0 then (Return (- ETIME), s\<lparr>wait_list := remove1 t (wait_list s)\<rparr>)
      else (Sleep state timeout, s))"

definition raw_down_common :: "semaphore \<Rightarrow> nat \<Rightarrow> u64 \<Rightarrow> int \<Rightarrow> signals \<Rightarrow> outcome \<times> semaphore" where
  "raw_down_common s t state timeout sg =
     down_pass (s\<lparr>wait_list := wait_list s @ [t], waiter_up := (waiter_up s)(t := False)\<rparr>) t state timeout sg"

definition down_resume :: "semaphore \<Rightarrow> nat \<Rightarrow> u64 \<Rightarrow> int \<Rightarrow> signals \<Rightarrow> outcome \<times> semaphore" where
  "down_resume s t state timeout sg =
     (if waiter_up s t then (Return 0, s) else down_pass s t state timeout sg)"

definition raw_down :: "semaphore \<Rightarrow> nat \<Rightarrow> signals \<Rightarrow> outcome \<times> semaphore" where
  "raw_down s t sg = raw_down_common s t TASK_UNINTERRUPTIBLE MAX_SCHEDULE_TIMEOUT sg"

definition raw_down_interruptible :: "semaphore \<Rightarrow> nat \<Rightarrow> signals \<Rightarrow> outcome \<times> semaphore" where
  "raw_down_interruptible s t sg = raw_down_common s t TASK_INTERRUPTIBLE MAX_SCHEDULE_TIMEOUT sg"

definition raw_down_killable :: "semaphore \<Rightarrow> nat \<Rightarrow> signals \<Rightarrow> outcome \<times> semaphore" where
  "raw_down_killable s t sg = raw_down_common s t TASK_KILLABLE MAX_SCHEDULE_TIMEOUT sg"

definition raw_down_timeout :: "semaphore \<Rightarrow> nat \<Rightarrow> int \<Rightarrow> signals \<Rightarrow> outcome \<times> semaphore" where
  "raw_down_timeout s t jiffies sg = raw_down_common s t TASK_UNINTERRUPTIBLE jiffies sg"

definition down :: "semaphore \<Rightarrow> nat \<Rightarrow> signals \<Rightarrow> outcome \<times> semaphore" where
  "down s t sg = (if count s > 0 then (Return 0, s\<lparr>count := count s - 1\<rparr>) else raw_down s t sg)"

definition down_interruptible :: "semaphore \<Rightarrow> nat \<Rightarrow> signals \<Rightarrow> outcome \<times> semaphore" where
  "down_interruptible s t sg =
     (if count s > 0 then (Return 0, s\<lparr>count := count s - 1\<rparr>) else raw_down_interruptible s t sg)"

definition down_killable :: "semaphore \<Rightarrow> nat \<Rightarrow> signals \<Rightarrow> outcome \<times> semaphore" where
  "down_killable s t sg =
     (if count s > 0 then (Return 0, s\<lparr>count := count s - 1\<rparr>) else raw_down_killable s t sg)"

definition down_timeout :: "semaphore \<Rightarrow> nat \<Rightarrow> int \<Rightarrow> signals \<Rightarrow> outcome \<times> semaphore" where
  "down_timeout s t jiffies sg =
     (if count s > 0 then (Return 0, s\<lparr>count := count s - 1\<rparr>) else raw_down_timeout s t jiffies sg)"

text \<open>The difference is unsigned and then stored in an \<open>int\<close>; the result is true if the semaphore was not taken.\<close>

definition down_trylock :: "semaphore \<Rightarrow> bool \<times> semaphore" where
  "down_trylock s =
     (let c = sint (count s - 1) in (c < 0, if c \<ge> 0 then s\<lparr>count := word_of_int c\<rparr> else s))"

definition raw_up :: "semaphore \<Rightarrow> semaphore option" where
  "raw_up s =
     (case wait_list s of [] \<Rightarrow> None
      | t # ts \<Rightarrow> Some (s\<lparr>wait_list := ts, waiter_up := (waiter_up s)(t := True)\<rparr>))"

definition up :: "semaphore \<Rightarrow> semaphore option" where
  "up s = (if wait_list s = [] then Some (s\<lparr>count := count s + 1\<rparr>) else raw_up s)"

section \<open>Systems of tasks\<close>

datatype pc = Idle | Asleep u64 int | Holder

datatype down_kind = Down | Down_interruptible | Down_killable | Down_timeout int

fun down_by :: "down_kind \<Rightarrow> semaphore \<Rightarrow> nat \<Rightarrow> signals \<Rightarrow> outcome \<times> semaphore" where
  "down_by Down s t sg = down s t sg"
| "down_by Down_interruptible s t sg = down_interruptible s t sg"
| "down_by Down_killable s t sg = down_killable s t sg"
| "down_by (Down_timeout j) s t sg = down_timeout s t j sg"

fun after :: "outcome \<Rightarrow> pc" where
  "after (Return r) = (if r = 0 then Holder else Idle)"
| "after (Sleep state timeout) = Asleep state timeout"

text \<open>What \<open>schedule_timeout\<close> promises about its result.\<close>

definition schedule_timeout_ok :: "int \<Rightarrow> int \<Rightarrow> bool" where
  "schedule_timeout_ok timeout remaining \<longleftrightarrow>
     0 \<le> remaining \<and> (timeout = MAX_SCHEDULE_TIMEOUT \<longrightarrow> remaining = MAX_SCHEDULE_TIMEOUT)"

record world =
  sem :: semaphore
  pcs :: "nat \<Rightarrow> pc"

datatype event = Call nat down_kind | Try nat | Wake nat | Up nat

text \<open>
  A task that does not hold the semaphore asks for it; a sleeping task wakes up, for whatever reason
  and with whatever signals; a holder releases.
\<close>

inductive sem_step :: "world \<Rightarrow> event \<Rightarrow> world \<Rightarrow> bool" where
  call: "pcs w t = Idle \<Longrightarrow> down_by k (sem w) t sg = (r, s) \<Longrightarrow>
    sem_step w (Call t k) (w\<lparr>sem := s, pcs := (pcs w)(t := after r)\<rparr>)"
| try_lock: "pcs w t = Idle \<Longrightarrow> down_trylock (sem w) = (failed, s) \<Longrightarrow>
    sem_step w (Try t) (w\<lparr>sem := s, pcs := (pcs w)(t := (if failed then Idle else Holder))\<rparr>)"
| wake: "pcs w t = Asleep state timeout \<Longrightarrow> schedule_timeout_ok timeout remaining \<Longrightarrow>
    down_resume (sem w) t state remaining sg = (r, s) \<Longrightarrow>
    sem_step w (Wake t) (w\<lparr>sem := s, pcs := (pcs w)(t := after r)\<rparr>)"
| release: "pcs w t = Holder \<Longrightarrow> up (sem w) = Some s \<Longrightarrow>
    sem_step w (Up t) (w\<lparr>sem := s, pcs := (pcs w)(t := Idle)\<rparr>)"

inductive sem_run :: "world \<Rightarrow> event list \<Rightarrow> world \<Rightarrow> bool" where
  stop: "sem_run w [] w"
| go: "sem_step w e w' \<Longrightarrow> sem_run w' es w'' \<Longrightarrow> sem_run w (e # es) w''"

definition sem_start :: "int \<Rightarrow> world" where
  "sem_start n = \<lparr>sem = sema_init n, pcs = (\<lambda>_. Idle)\<rparr>"

section \<open>Invariant\<close>

text \<open>Tasks that sleep, tasks that have been given the semaphore.\<close>

definition asleep :: "(nat \<Rightarrow> pc) \<Rightarrow> nat \<Rightarrow> bool" where
  "asleep p t \<longleftrightarrow> (\<exists>state timeout. p t = Asleep state timeout)"

definition granted :: "semaphore \<Rightarrow> (nat \<Rightarrow> pc) \<Rightarrow> nat set" where
  "granted s p = {t. p t = Holder \<or> asleep p t \<and> waiter_up s t}"

definition sem_inv :: "nat \<Rightarrow> semaphore \<Rightarrow> (nat \<Rightarrow> pc) \<Rightarrow> bool" where
  "sem_inv n s p \<longleftrightarrow> distinct (wait_list s)
     \<and> (\<forall>t. t \<in> set (wait_list s) \<longleftrightarrow> asleep p t \<and> \<not> waiter_up s t)
     \<and> (count s \<noteq> 0 \<longrightarrow> wait_list s = [])
     \<and> finite (granted s p) \<and> unat (count s) + card (granted s p) = n"

lemma asleep_upd: "asleep (p(t := x)) u \<longleftrightarrow> (if u = t then \<exists>st T. x = Asleep st T else asleep p u)"
  by (simp add: asleep_def)

lemma down_pass_cases:
  "down_pass s t st T sg = (r, s') \<Longrightarrow>
     (\<exists>e. e \<noteq> 0 \<and> r = Return e \<and> s' = s\<lparr>wait_list := remove1 t (wait_list s)\<rparr>) \<or> r = Sleep st T \<and> s' = s"
  by (auto simp: down_pass_def errno_defs split: if_splits)

text \<open>The four ways to ask differ in the state and the time a task sleeps with.\<close>

lemma down_by_cases:
  "down_by k s t sg = (r, s') \<Longrightarrow>
     (if count s \<noteq> 0 then r = Return 0 \<and> s' = s\<lparr>count := count s - 1\<rparr>
      else \<exists>st T. raw_down_common s t st T sg = (r, s'))"
  by (cases k)
    (auto simp: down_def down_interruptible_def down_killable_def down_timeout_def raw_down_def
      raw_down_interruptible_def raw_down_killable_def raw_down_timeout_def word_neq_0_conv split: if_splits)

lemma inv_take:
  assumes "sem_inv n s p" and "p t = Idle" and "count s \<noteq> 0"
  shows "sem_inv n (s\<lparr>count := count s - 1\<rparr>) (p(t := Holder))"
proof -
  have wl: "wait_list s = []" and none: "\<not> (asleep p u \<and> \<not> waiter_up s u)" for u
    using assms by (auto simp: sem_inv_def)
  have "granted (s\<lparr>count := count s - 1\<rparr>) (p(t := Holder)) = insert t (granted s p)" "t \<notin> granted s p"
    using assms(2) by (auto simp: granted_def asleep_upd asleep_def)
  moreover have "unat (count s - 1) = unat (count s) - 1" "0 < unat (count s)"
    using assms(3) by (simp_all add: unat_sub_1 unat_gt_0)
  ultimately show ?thesis using assms(1) wl none by (auto simp: sem_inv_def asleep_upd)
qed

lemma inv_ask:
  assumes "sem_inv n s p" and "p t = Idle" and "count s = 0" and "raw_down_common s t st T sg = (r, s')"
  shows "sem_inv n s' (p(t := after r))"
proof -
  let ?s = "s\<lparr>wait_list := wait_list s @ [t], waiter_up := (waiter_up s)(t := False)\<rparr>"
  have na: "\<not> asleep p t" using assms(2) by (simp add: asleep_def)
  then have t: "t \<notin> set (wait_list s)" using assms(1) by (auto simp: sem_inv_def)
  consider (fail) e where "e \<noteq> 0" "r = Return e" "s' = ?s\<lparr>wait_list := remove1 t (wait_list ?s)\<rparr>"
    | (block) "r = Sleep st T" "s' = ?s"
    using down_pass_cases [of ?s t st T sg r s'] assms(4) unfolding raw_down_common_def by blast
  then show ?thesis
  proof cases
    case fail
    have "remove1 t (wait_list s @ [t]) = wait_list s" using t by (simp add: remove1_append)
    moreover have "p(t := after r) = p" using fail(1,2) assms(2) by (simp add: fun_upd_idem)
    moreover have "granted s' p = granted s p" using fail(3) na assms(2) by (auto simp: granted_def)
    ultimately show ?thesis using assms(1) fail(3) na by (auto simp: sem_inv_def)
  next
    case block
    have "granted s' (p(t := after r)) = granted s p" using block na assms(2) by (auto simp: granted_def asleep_upd)
    then show ?thesis using assms(1,3) block t by (auto simp: sem_inv_def asleep_upd)
  qed
qed

lemma inv_wake:
  assumes "sem_inv n s p" and "asleep p t" and "down_resume s t st T sg = (r, s')"
  shows "sem_inv n s' (p(t := after r))"
proof -
  consider (got) "waiter_up s t" "r = Return 0" "s' = s"
    | (fail) e where "\<not> waiter_up s t" "e \<noteq> 0" "r = Return e" "s' = s\<lparr>wait_list := remove1 t (wait_list s)\<rparr>"
    | (again) "\<not> waiter_up s t" "r = Sleep st T" "s' = s"
    using assms(3) down_pass_cases [of s t st T sg r s'] by (auto simp: down_resume_def split: if_splits)
  then show ?thesis
  proof cases
    case got
    then have "granted s' (p(t := after r)) = granted s p" using assms(2) by (auto simp: granted_def asleep_upd)
    then show ?thesis using assms(1) got by (auto simp: sem_inv_def asleep_upd)
  next
    case fail
    then have "granted s' (p(t := after r)) = granted s p"
      using assms(2) by (auto simp: granted_def asleep_upd) (auto simp: asleep_def)
    then show ?thesis using assms(1) fail by (auto simp: sem_inv_def asleep_upd)
  next
    case again
    then have "granted s' (p(t := after r)) = granted s p"
      using assms(2) by (auto simp: granted_def asleep_upd) (auto simp: asleep_def)
    then show ?thesis using assms(1,2) again by (auto simp: sem_inv_def asleep_upd)
  qed
qed

lemma inv_up:
  assumes "sem_inv n s p" and "p t = Holder" and "up s = Some s'" and "n < 2 ^ 32"
  shows "sem_inv n s' (p(t := Idle))"
proof -
  have t: "t \<in> granted s p" "\<not> asleep p t" using assms(2) by (simp_all add: granted_def asleep_def)
  then have a: "asleep (p(t := Idle)) u \<longleftrightarrow> asleep p u" for u by (auto simp: asleep_upd)
  have fin: "finite (granted s p)" and n: "unat (count s) + card (granted s p) = n"
    using assms(1) by (simp_all add: sem_inv_def)
  have pos: "0 < card (granted s p)" using t(1) fin card_gt_0_iff by blast
  show ?thesis
  proof (cases "wait_list s")
    case Nil
    then have s: "s' = s\<lparr>count := count s + 1\<rparr>" using assms(3) by (simp add: up_def)
    have g: "granted s' (p(t := Idle)) = granted s p - {t}" using t by (auto simp: granted_def a s)
    moreover have "card (granted s p - {t}) = card (granted s p) - 1" using t(1) fin by simp
    moreover have "unat (count s + 1) = unat (count s) + 1"
      using unat_add_nowrap [of "count s" 1] n pos assms(4) by simp
    ultimately show ?thesis using assms(1) n pos Nil a by (auto simp: sem_inv_def s)
  next
    case (Cons u us)
    then have s: "s' = s\<lparr>wait_list := us, waiter_up := (waiter_up s)(u := True)\<rparr>"
      using assms(3) by (simp add: up_def raw_up_def)
    have u: "asleep p u" "\<not> waiter_up s u" "u \<notin> set us" "count s = 0"
      using assms(1) Cons by (auto simp: sem_inv_def)
    have ut: "u \<noteq> t" using u(1) t(2) by blast
    have g: "granted s' (p(t := Idle)) = insert u (granted s p - {t})" using t u ut by (auto simp: granted_def a s)
    have "u \<notin> granted s p" using u by (auto simp: granted_def asleep_def)
    then have "card (insert u (granted s p - {t})) = card (granted s p)" using t(1) fin pos by simp
    moreover have "v \<in> set us \<longleftrightarrow> asleep p v \<and> \<not> waiter_up s' v" for v
      using assms(1) Cons u(3) by (auto simp: sem_inv_def s)
    ultimately show ?thesis using assms(1) Cons u fin g a by (auto simp: sem_inv_def s)
  qed
qed

lemma down_trylock_cases:
  "down_trylock s = (failed, s') \<Longrightarrow>
     (if failed then s' = s else count s \<noteq> 0 \<and> s' = s\<lparr>count := count s - 1\<rparr>)"
  by (auto simp: down_trylock_def Let_def)

lemma sem_step_inv:
  assumes "sem_step w e w'" and "sem_inv n (sem w) (pcs w)" and "n < 2 ^ 32"
  shows "sem_inv n (sem w') (pcs w')"
  using assms(1)
proof cases
  case (call t k sg r s)
  then show ?thesis
    using down_by_cases [OF call(4)] inv_take [OF assms(2), of t] inv_ask [OF assms(2), of t]
    by (cases "count (sem w) = 0") auto
next
  case (try_lock t failed s)
  then show ?thesis
    using down_trylock_cases [OF try_lock(4)] inv_take [OF assms(2), of t] assms(2)
    by (cases failed) (simp_all add: fun_upd_idem)
next
  case (wake t state timeout remaining sg r s)
  then show ?thesis using inv_wake [OF assms(2), of t] by (auto simp: asleep_def)
next
  case (release t s)
  then show ?thesis using inv_up [OF assms(2) _ _ assms(3)] by simp
qed

lemma sem_run_inv:
  assumes "sem_run w es w'" and "sem_inv n (sem w) (pcs w)" and "n < 2 ^ 32"
  shows "sem_inv n (sem w') (pcs w')"
  using assms(1,2) by induction (auto intro: sem_step_inv [OF _ _ assms(3)])

lemma sem_start_inv: "n < 2 ^ 31 \<Longrightarrow> sem_inv n (sem (sem_start (int n))) (pcs (sem_start (int n)))"
  by (auto simp: sem_inv_def sem_start_def sema_init_def granted_def asleep_def unsigned_of_nat take_bit_nat_eq_self)

section \<open>Waiting in line\<close>

text \<open>A task that called \<open>down\<close> and was put to sleep, waiting behind \<open>k\<close> others.\<close>

definition waits_behind :: "world \<Rightarrow> nat \<Rightarrow> nat \<Rightarrow> bool" where
  "waits_behind w t k \<longleftrightarrow> pcs w t = Asleep TASK_UNINTERRUPTIBLE MAX_SCHEDULE_TIMEOUT
     \<and> (\<exists>xs ys. wait_list (sem w) = xs @ t # ys \<and> length xs = k)"

fun is_up :: "event \<Rightarrow> bool" where
  "is_up (Up t) = True"
| "is_up _ = False"

lemma uninterruptible: "\<not> signal_pending_state TASK_UNINTERRUPTIBLE sg"
  by (simp add: signal_pending_state_def task_state_defs)

lemma remove1_before:
  assumes "t \<noteq> u" and "distinct (xs @ t # ys)"
  shows "\<exists>xs' ys'. remove1 u (xs @ t # ys) = xs' @ t # ys' \<and> length xs' \<le> length xs"
proof (cases "u \<in> set xs")
  case True
  then show ?thesis by (intro exI [of _ "remove1 u xs"] exI [of _ ys]) (simp add: remove1_append length_remove1)
next
  case False
  then show ?thesis using assms(1) by (intro exI [of _ xs] exI [of _ "remove1 u ys"]) (simp add: remove1_append)
qed

text \<open>Nothing but the semaphore itself takes such a task out of the line, and every release moves it up.\<close>

lemma waits_step:
  assumes "sem_step w e w'" and "sem_inv n (sem w) (pcs w)" and "waits_behind w t k"
  shows "if is_up e \<and> k = 0 then t \<in> granted (sem w') (pcs w')
    else \<exists>k'. waits_behind w' t k' \<and> k' + (if is_up e then 1 else 0) \<le> k"
proof -
  obtain xs ys where wl: "wait_list (sem w) = xs @ t # ys" "length xs = k"
    and pc: "pcs w t = Asleep TASK_UNINTERRUPTIBLE MAX_SCHEDULE_TIMEOUT"
    using assms(3) by (auto simp: waits_behind_def)
  have up: "\<not> waiter_up (sem w) t" and d: "distinct (xs @ t # ys)" and c: "count (sem w) = 0"
    using assms(2) wl(1) by (auto simp: sem_inv_def)
  show ?thesis
    using assms(1)
  proof cases
    case (call u m sg r s)
    then have ne: "u \<noteq> t" using pc by auto
    obtain st T where r: "raw_down_common (sem w) u st T sg = (r, s)" using down_by_cases [OF call(4)] c by auto
    have u: "u \<notin> set (xs @ t # ys)" using assms(2) call(3) wl(1) by (auto simp: sem_inv_def asleep_def)
    from r have "wait_list s = xs @ t # ys \<or> wait_list s = xs @ t # (ys @ [u])"
      using down_pass_cases u wl(1) unfolding raw_down_common_def by (fastforce simp: remove1_append)
    then have "waits_behind w' t k" using call(2) ne pc wl(2) by (auto simp: waits_behind_def)
    then show ?thesis using call(1) by auto
  next
    case (try_lock u failed s)
    then have "failed" "s = sem w" "u \<noteq> t" using down_trylock_cases [OF try_lock(4)] c pc by (auto split: if_splits)
    then have "waits_behind w' t k" using assms(3) try_lock(2) by (simp add: waits_behind_def)
    then show ?thesis using try_lock(1) by auto
  next
    case (wake u st T T' sg r s)
    show ?thesis
    proof (cases "u = t")
      case True
      then have "st = TASK_UNINTERRUPTIBLE" "T' = MAX_SCHEDULE_TIMEOUT"
        using wake(3,4) pc by (auto simp: schedule_timeout_ok_def)
      then have "r = Sleep st T'" "s = sem w"
        using wake(5) up True uninterruptible by (auto simp: down_resume_def down_pass_def MAX_SCHEDULE_TIMEOUT_def)
      then have "w' = w" using wake(2,3) True \<open>T' = _\<close> \<open>st = _\<close> pc by (simp add: fun_upd_idem)
      then show ?thesis using wake(1) assms(3) by auto
    next
      case False
      have "s = sem w \<or> wait_list s = remove1 u (xs @ t # ys)"
        using wake(5) down_pass_cases [of "sem w" u st T' sg r s] wl(1) by (auto simp: down_resume_def split: if_splits)
      then obtain xs' ys' where "wait_list s = xs' @ t # ys'" "length xs' \<le> k"
        using remove1_before [OF False [symmetric] d] wl by auto
      then have "waits_behind w' t (length xs')" using wake(2) False pc by (auto simp: waits_behind_def)
      then show ?thesis using wake(1) \<open>length xs' \<le> k\<close> by auto
    qed
  next
    case (release u s)
    then have ne: "u \<noteq> t" using pc by auto
    show ?thesis
    proof (cases xs)
      case Nil
      then show ?thesis using release ne pc wl by (auto simp: up_def raw_up_def granted_def asleep_def)
    next
      case (Cons v vs)
      then have "wait_list (sem w') = vs @ t # ys" "pcs w' t = pcs w t"
        using release(2,4) ne wl(1) by (auto simp: up_def raw_up_def)
      then have "waits_behind w' t (length vs)" using pc unfolding waits_behind_def by auto
      then show ?thesis using release(1) wl(2) Cons by auto
    qed
  qed
qed

lemma waits_run:
  assumes "sem_run w es w'" and "sem_inv n (sem w) (pcs w)" and "n < 2 ^ 32" and "waits_behind w t k"
    and "k < length (filter is_up es)"
  shows "\<exists>es1 es2 w1. es = es1 @ es2 \<and> sem_run w es1 w1 \<and> sem_run w1 es2 w' \<and> t \<in> granted (sem w1) (pcs w1)
    \<and> length (filter is_up es1) \<le> k + 1"
  using assms(1,2,4,5)
proof (induction arbitrary: k rule: sem_run.induct)
  case (stop w)
  then show ?case by simp
next
  case (go w e w1 es w')
  note step = waits_step [OF go.hyps(1) go.prems(1,2)]
  show ?case
  proof (cases "is_up e \<and> k = 0")
    case True
    then have "t \<in> granted (sem w1) (pcs w1)" using step by simp
    then show ?thesis
      using go.hyps True by (intro exI [of _ "[e]"] exI [of _ es] exI [of _ w1]) (auto intro: sem_run.intros)
  next
    case False
    then obtain k' where k': "waits_behind w1 t k'" "k' + (if is_up e then 1 else 0) \<le> k" using step by auto
    obtain es1 es2 w2 where r: "es = es1 @ es2" "sem_run w1 es1 w2" "sem_run w2 es2 w'" "t \<in> granted (sem w2) (pcs w2)"
      "length (filter is_up es1) \<le> k' + 1"
      using go.IH [OF sem_step_inv [OF go.hyps(1) go.prems(1) assms(3)] k'(1)] k'(2) go.prems(3)
      by (auto split: if_splits)
    then show ?thesis
      using go.hyps(1) k'(2) by (intro exI [of _ "e # es1"] exI [of _ es2] exI [of _ w2]) (auto intro: sem_run.intros split: if_splits)
  qed
qed

section \<open>Properties\<close>


text \<open>Two tasks on a semaphore of one: the second has to sleep, then gets it.\<close>

lemma sem_example_run:
  "\<exists>w. sem_run (sem_start 1) [Call 0 Down, Call 1 Down] w \<and> waits_behind w 1 0 \<and> pcs w 0 = Holder"
proof -
  let ?w0 = "sem_start 1"
  let ?w1 = "?w0\<lparr>sem := (sem ?w0)\<lparr>count := 0\<rparr>, pcs := (pcs ?w0)(0 := after (Return 0))\<rparr>"
  let ?s2 = "(sem ?w1)\<lparr>wait_list := [1], waiter_up := (waiter_up (sem ?w1))(1 := False)\<rparr>"
  let ?w2 = "?w1\<lparr>sem := ?s2, pcs := (pcs ?w1)(1 := after (Sleep TASK_UNINTERRUPTIBLE MAX_SCHEDULE_TIMEOUT))\<rparr>"
  have s1: "sem_step ?w0 (Call 0 Down) ?w1"
    by (rule sem_step.call [where sg = No_signal]) (simp_all add: sem_start_def sema_init_def down_def)
  have s2: "sem_step ?w1 (Call 1 Down) ?w2"
    by (rule sem_step.call [where sg = No_signal])
      (simp_all add: sem_start_def sema_init_def down_def raw_down_def raw_down_common_def down_pass_def
        uninterruptible MAX_SCHEDULE_TIMEOUT_def)
  have "waits_behind ?w2 1 0" "pcs ?w2 0 = Holder" by (simp_all add: waits_behind_def)
  with sem_run.go [OF s1 sem_run.go [OF s2 sem_run.stop]] show ?thesis by blast
qed


text \<open>
  C11.  Nobody starves: a task that called \<open>down\<close> and sleeps behind \<open>k\<close> others is handed the
  semaphore by the time of the \<open>k + 1\<close>-st release, whatever else happens in between; waiters are
  served first come, first served, and later callers cannot overtake.
\<close>

theorem semaphore_no_starvation:
  assumes "n < 2 ^ 31" and "sem_run (sem_start (int n)) es0 w" and "waits_behind w t k"
    and "sem_run w es w'" and "k < length (filter is_up es)"
  shows "\<exists>es1 es2 w1. es = es1 @ es2 \<and> sem_run w es1 w1 \<and> sem_run w1 es2 w' \<and> t \<in> granted (sem w1) (pcs w1)
    \<and> length (filter is_up es1) \<le> k + 1"
proof -
  have n: "n < 2 ^ 32" using assms(1) by simp
  have "sem_inv n (sem w) (pcs w)" by (rule sem_run_inv [OF assms(2) sem_start_inv [OF assms(1)] n])
  from waits_run [OF assms(4) this n assms(3,5)] show ?thesis .
qed

theorem semaphore_no_starvation_witness:
  "\<exists>w w'. sem_run (sem_start (int 1)) [Call 0 Down, Call 1 Down] w \<and> waits_behind w 1 0 \<and> sem_run w [Up 0] w'
    \<and> (\<exists>es1 es2 w1. [Up 0] = es1 @ es2 \<and> sem_run w es1 w1 \<and> sem_run w1 es2 w' \<and> 1 \<in> granted (sem w1) (pcs w1)
      \<and> length (filter is_up es1) \<le> 0 + 1)"
proof -
  obtain w where w: "sem_run (sem_start (int 1)) [Call 0 Down, Call 1 Down] w" "waits_behind w 1 0" "pcs w 0 = Holder"
    using sem_example_run by auto
  obtain s where "up (sem w) = Some s" using w(2) by (auto simp: waits_behind_def up_def raw_up_def)
  from sem_run.go [OF sem_step.release [of w 0 s] sem_run.stop] w(3) this
  obtain w' where w': "sem_run w [Up 0] w'" by blast
  have "\<exists>es1 es2 w1. [Up 0] = es1 @ es2 \<and> sem_run w es1 w1 \<and> sem_run w1 es2 w' \<and> 1 \<in> granted (sem w1) (pcs w1)
      \<and> length (filter is_up es1) \<le> 0 + 1"
    by (rule semaphore_no_starvation [OF _ w(1,2) w']) simp_all
  with w(1,2) w' show ?thesis by blast
qed

end
