(* ===== verification/Rwsem.thy ===== *)
theory Rwsem
  imports Kernel_Prelude
begin

text \<open>
  The reader/writer semaphores of \<open>lib/rwsem-spinlock.c\<close>.  As for the counting semaphores, every section
  under the spin lock is a function on the state, tasks are numbered, and a system of tasks interleaves
  the sections.  Waiting is a loop that ends when the waker has cleared the waiter's \<open>task\<close>.
\<close>

section \<open>State\<close>

datatype rwsem_flags = RWSEM_WAITING_FOR_READ | RWSEM_WAITING_FOR_WRITE

text \<open>
  A waiter is named by its task; \<open>woken\<close> tells whose waiter has \<open>task == NULL\<close>.  \<open>activity\<close> is bounded by
  the number of tasks, which the invariant below shows, and is an integer.
\<close>

record rw_semaphore =
  activity :: int
  rw_wait_list :: "(nat \<times> rwsem_flags) list"
  woken :: "nat \<Rightarrow> bool"

definition raw_init_rwsem :: rw_semaphore where
  "raw_init_rwsem = \<lparr>activity = 0, rw_wait_list = [], woken = (\<lambda>_. False)\<rparr>"

text \<open>\<open>locked\<close> is the result of the attempt to get the spin lock.\<close>

definition rwsem_is_locked :: "bool \<Rightarrow> rw_semaphore \<Rightarrow> bool" where
  "rwsem_is_locked locked s = (if locked then activity s \<noteq> 0 else True)"

section \<open>Waking\<close>

text \<open>The loop that grants read locks to the front of the queue.\<close>

fun wake_readers :: "(nat \<times> rwsem_flags) list \<Rightarrow> (nat \<Rightarrow> bool) \<Rightarrow> int \<Rightarrow> (nat \<times> rwsem_flags) list \<times> (nat \<Rightarrow> bool) \<times> int" where
  "wake_readers [] wk n = ([], wk, n)"
| "wake_readers ((t, RWSEM_WAITING_FOR_READ) # ws) wk n = wake_readers ws (wk(t := True)) (n + 1)"
| "wake_readers ((t, RWSEM_WAITING_FOR_WRITE) # ws) wk n = ((t, RWSEM_WAITING_FOR_WRITE) # ws, wk, n)"

definition raw_rwsem_do_wake :: "rw_semaphore \<Rightarrow> bool \<Rightarrow> rw_semaphore option" where
  "raw_rwsem_do_wake s wakewrite =
     (case rw_wait_list s of [] \<Rightarrow> None
      | (t, fl) # ws \<Rightarrow>
          if \<not> wakewrite \<and> fl = RWSEM_WAITING_FOR_WRITE then Some s
          else if wakewrite \<and> fl = RWSEM_WAITING_FOR_WRITE
          then Some (s\<lparr>activity := - 1, rw_wait_list := ws, woken := (woken s)(t := True)\<rparr>)
          else let (ws, wk, n) = wake_readers (rw_wait_list s) (woken s) 0
               in Some (s\<lparr>activity := activity s + n, rw_wait_list := ws, woken := wk\<rparr>))"

definition raw_rwsem_wake_one_writer :: "rw_semaphore \<Rightarrow> rw_semaphore option" where
  "raw_rwsem_wake_one_writer s =
     (case rw_wait_list s of [] \<Rightarrow> None
      | (t, fl) # ws \<Rightarrow> Some (s\<lparr>activity := - 1, rw_wait_list := ws, woken := (woken s)(t := True)\<rparr>))"

section \<open>Operations\<close>

text \<open>The result tells whether the lock was granted at once; otherwise the task is in the queue.\<close>

definition raw_down_read :: "rw_semaphore \<Rightarrow> nat \<Rightarrow> bool \<times> rw_semaphore" where
  "raw_down_read s t =
     (if activity s \<ge> 0 \<and> rw_wait_list s = [] then (True, s\<lparr>activity := activity s + 1\<rparr>)
      else (False, s\<lparr>rw_wait_list := rw_wait_list s @ [(t, RWSEM_WAITING_FOR_READ)], woken := (woken s)(t := False)\<rparr>))"

definition raw_down_read_trylock :: "rw_semaphore \<Rightarrow> bool \<times> rw_semaphore" where
  "raw_down_read_trylock s =
     (if activity s \<ge> 0 \<and> rw_wait_list s = [] then (True, s\<lparr>activity := activity s + 1\<rparr>) else (False, s))"

definition raw_down_write_nested :: "rw_semaphore \<Rightarrow> nat \<Rightarrow> bool \<times> rw_semaphore" where
  "raw_down_write_nested s t =
     (if activity s = 0 \<and> rw_wait_list s = [] then (True, s\<lparr>activity := - 1\<rparr>)
      else (False, s\<lparr>rw_wait_list := rw_wait_list s @ [(t, RWSEM_WAITING_FOR_WRITE)], woken := (woken s)(t := False)\<rparr>))"

definition raw_down_write :: "rw_semaphore \<Rightarrow> nat \<Rightarrow> bool \<times> rw_semaphore" where
  "raw_down_write s t = raw_down_write_nested s t"

definition raw_down_write_trylock :: "rw_semaphore \<Rightarrow> bool \<times> rw_semaphore" where
  "raw_down_write_trylock s =
     (if activity s = 0 \<and> rw_wait_list s = [] then (True, s\<lparr>activity := - 1\<rparr>) else (False, s))"

definition raw_up_read :: "rw_semaphore \<Rightarrow> rw_semaphore option" where
  "raw_up_read s =
     (let s = s\<lparr>activity := activity s - 1\<rparr>
      in if activity s = 0 \<and> rw_wait_list s \<noteq> [] then raw_rwsem_wake_one_writer s else Some s)"

definition raw_up_write :: "rw_semaphore \<Rightarrow> rw_semaphore option" where
  "raw_up_write s =
     (let s = s\<lparr>activity := 0\<rparr> in if rw_wait_list s \<noteq> [] then raw_rwsem_do_wake s True else Some s)"

definition raw_downgrade_write :: "rw_semaphore \<Rightarrow> rw_semaphore option" where
  "raw_downgrade_write s =
     (let s = s\<lparr>activity := 1\<rparr> in if rw_wait_list s \<noteq> [] then raw_rwsem_do_wake s False else Some s)"

section \<open>Systems of tasks\<close>

datatype rw_pc = RW_Idle | RW_Wait_read | RW_Wait_write | RW_Reader | RW_Writer

record rw_world =
  rwsem :: rw_semaphore
  rw_pcs :: "nat \<Rightarrow> rw_pc"

inductive rw_step :: "rw_world \<Rightarrow> rw_world \<Rightarrow> bool" where
  rd: "rw_pcs w t = RW_Idle \<Longrightarrow> raw_down_read (rwsem w) t = (g, s) \<Longrightarrow>
    rw_step w (w\<lparr>rwsem := s, rw_pcs := (rw_pcs w)(t := (if g then RW_Reader else RW_Wait_read))\<rparr>)"
| rd_try: "rw_pcs w t = RW_Idle \<Longrightarrow> raw_down_read_trylock (rwsem w) = (g, s) \<Longrightarrow>
    rw_step w (w\<lparr>rwsem := s, rw_pcs := (rw_pcs w)(t := (if g then RW_Reader else RW_Idle))\<rparr>)"
| wr: "rw_pcs w t = RW_Idle \<Longrightarrow> raw_down_write (rwsem w) t = (g, s) \<Longrightarrow>
    rw_step w (w\<lparr>rwsem := s, rw_pcs := (rw_pcs w)(t := (if g then RW_Writer else RW_Wait_write))\<rparr>)"
| wr_try: "rw_pcs w t = RW_Idle \<Longrightarrow> raw_down_write_trylock (rwsem w) = (g, s) \<Longrightarrow>
    rw_step w (w\<lparr>rwsem := s, rw_pcs := (rw_pcs w)(t := (if g then RW_Writer else RW_Idle))\<rparr>)"
| rd_woken: "rw_pcs w t = RW_Wait_read \<Longrightarrow> woken (rwsem w) t \<Longrightarrow>
    rw_step w (w\<lparr>rw_pcs := (rw_pcs w)(t := RW_Reader)\<rparr>)"
| wr_woken: "rw_pcs w t = RW_Wait_write \<Longrightarrow> woken (rwsem w) t \<Longrightarrow>
    rw_step w (w\<lparr>rw_pcs := (rw_pcs w)(t := RW_Writer)\<rparr>)"
| rd_up: "rw_pcs w t = RW_Reader \<Longrightarrow> raw_up_read (rwsem w) = Some s \<Longrightarrow>
    rw_step w (w\<lparr>rwsem := s, rw_pcs := (rw_pcs w)(t := RW_Idle)\<rparr>)"
| wr_up: "rw_pcs w t = RW_Writer \<Longrightarrow> raw_up_write (rwsem w) = Some s \<Longrightarrow>
    rw_step w (w\<lparr>rwsem := s, rw_pcs := (rw_pcs w)(t := RW_Idle)\<rparr>)"
| downgrade: "rw_pcs w t = RW_Writer \<Longrightarrow> raw_downgrade_write (rwsem w) = Some s \<Longrightarrow>
    rw_step w (w\<lparr>rwsem := s, rw_pcs := (rw_pcs w)(t := RW_Reader)\<rparr>)"

inductive rw_reachable :: "rw_world \<Rightarrow> bool" where
  rw_init: "rw_reachable \<lparr>rwsem = raw_init_rwsem, rw_pcs = (\<lambda>_. RW_Idle)\<rparr>"
| rw_next: "rw_reachable w \<Longrightarrow> rw_step w w' \<Longrightarrow> rw_reachable w'"

section \<open>Invariant\<close>

text \<open>The tasks that have the lock, including those that have been granted it and not yet noticed.\<close>

definition readers :: "rw_semaphore \<Rightarrow> (nat \<Rightarrow> rw_pc) \<Rightarrow> nat set" where
  "readers s p = {t. p t = RW_Reader \<or> p t = RW_Wait_read \<and> woken s t}"

definition writers :: "rw_semaphore \<Rightarrow> (nat \<Rightarrow> rw_pc) \<Rightarrow> nat set" where
  "writers s p = {t. p t = RW_Writer \<or> p t = RW_Wait_write \<and> woken s t}"

text \<open>The queue holds the waiters that have not been woken, each with what it waits for.\<close>

fun waits_for :: "rwsem_flags \<Rightarrow> rw_pc" where
  "waits_for RWSEM_WAITING_FOR_READ = RW_Wait_read"
| "waits_for RWSEM_WAITING_FOR_WRITE = RW_Wait_write"

lemma waits_for_neq [simp]:
  "waits_for fl \<noteq> RW_Idle" "waits_for fl \<noteq> RW_Reader" "waits_for fl \<noteq> RW_Writer"
  "RW_Idle \<noteq> waits_for fl" "RW_Reader \<noteq> waits_for fl" "RW_Writer \<noteq> waits_for fl"
  by (cases fl; simp)+

definition queue_ok :: "rw_semaphore \<Rightarrow> (nat \<Rightarrow> rw_pc) \<Rightarrow> bool" where
  "queue_ok s p \<longleftrightarrow> distinct (map fst (rw_wait_list s))
     \<and> (\<forall>t fl. (t, fl) \<in> set (rw_wait_list s) \<longleftrightarrow> p t = waits_for fl \<and> \<not> woken s t)"

text \<open>Who has the lock, and what the front of the queue looks like.\<close>

definition owners_ok :: "rw_semaphore \<Rightarrow> (nat \<Rightarrow> rw_pc) \<Rightarrow> bool" where
  "owners_ok s p \<longleftrightarrow>
     (\<exists>t. writers s p = {t} \<and> readers s p = {} \<and> activity s = - 1)
     \<or> (writers s p = {} \<and> finite (readers s p) \<and> activity s = int (card (readers s p))
        \<and> (rw_wait_list s \<noteq> [] \<longrightarrow> readers s p \<noteq> {} \<and> snd (hd (rw_wait_list s)) = RWSEM_WAITING_FOR_WRITE))"

definition rw_inv :: "rw_semaphore \<Rightarrow> (nat \<Rightarrow> rw_pc) \<Rightarrow> bool" where
  "rw_inv s p \<longleftrightarrow> queue_ok s p \<and> owners_ok s p"

abbreviation is_rd :: "nat \<times> rwsem_flags \<Rightarrow> bool" where
  "is_rd w \<equiv> snd w = RWSEM_WAITING_FOR_READ"

lemma wake_readers_eq:
  "wake_readers ws wk n = (dropWhile is_rd ws, \<lambda>t. wk t \<or> t \<in> fst ` set (takeWhile is_rd ws), n + int (length (takeWhile is_rd ws)))"
proof (induction ws wk n rule: wake_readers.induct)
  case (2 t ws wk n)
  have "(\<lambda>u. (wk(t := True)) u \<or> u \<in> fst ` set (takeWhile is_rd ws))
      = (\<lambda>u. wk u \<or> u \<in> fst ` set (takeWhile is_rd ((t, RWSEM_WAITING_FOR_READ) # ws)))" by auto
  with 2 show ?case unfolding wake_readers.simps 2 by simp
qed simp_all

lemma flags_cases: "fl = RWSEM_WAITING_FOR_READ \<or> fl = RWSEM_WAITING_FOR_WRITE"
  by (cases fl) auto

text \<open>A reader or a writer that gets the lock at once.\<close>

lemma inv_read_now:
  assumes "rw_inv s p" and "p t = RW_Idle" and "activity s \<ge> 0" and "rw_wait_list s = []"
  shows "rw_inv (s\<lparr>activity := activity s + 1\<rparr>) (p(t := RW_Reader))"
proof -
  have o: "writers s p = {}" "finite (readers s p)" "activity s = int (card (readers s p))"
    using assms by (auto simp: rw_inv_def owners_ok_def)
  have "readers (s\<lparr>activity := activity s + 1\<rparr>) (p(t := RW_Reader)) = insert t (readers s p)" "t \<notin> readers s p"
    using assms(2) by (auto simp: readers_def)
  moreover have "writers (s\<lparr>activity := activity s + 1\<rparr>) (p(t := RW_Reader)) = {}"
    using o(1) by (auto simp: writers_def)
  moreover have "queue_ok (s\<lparr>activity := activity s + 1\<rparr>) (p(t := RW_Reader))"
    using assms(1,4) by (auto simp: rw_inv_def queue_ok_def)
  ultimately show ?thesis using o assms(4) by (simp add: rw_inv_def owners_ok_def)
qed

lemma inv_write_now:
  assumes "rw_inv s p" and "p t = RW_Idle" and "activity s = 0" and "rw_wait_list s = []"
  shows "rw_inv (s\<lparr>activity := - 1\<rparr>) (p(t := RW_Writer))"
proof -
  have o: "writers s p = {}" "readers s p = {}"
    using assms by (auto simp: rw_inv_def owners_ok_def)
  have "writers (s\<lparr>activity := - 1\<rparr>) (p(t := RW_Writer)) = {t}" "readers (s\<lparr>activity := - 1\<rparr>) (p(t := RW_Writer)) = {}"
    using o by (auto simp: readers_def writers_def)
  moreover have "queue_ok (s\<lparr>activity := - 1\<rparr>) (p(t := RW_Writer))"
    using assms(1,4) by (auto simp: rw_inv_def queue_ok_def)
  ultimately show ?thesis by (auto simp: rw_inv_def owners_ok_def)
qed

text \<open>A task that joins the queue.\<close>

lemma inv_enqueue:
  assumes "rw_inv s p" and "p t = RW_Idle"
    and "activity s < 0 \<or> rw_wait_list s \<noteq> [] \<or> fl = RWSEM_WAITING_FOR_WRITE \<and> activity s \<noteq> 0"
  shows "rw_inv (s\<lparr>rw_wait_list := rw_wait_list s @ [(t, fl)], woken := (woken s)(t := False)\<rparr>) (p(t := waits_for fl))"
    (is "rw_inv ?s ?p")
proof -
  have q: "distinct (map fst (rw_wait_list s))"
    "\<And>u fl. (u, fl) \<in> set (rw_wait_list s) \<longleftrightarrow> p u = waits_for fl \<and> \<not> woken s u"
    using assms(1) by (auto simp: rw_inv_def queue_ok_def)
  have t: "t \<notin> fst ` set (rw_wait_list s)"
    using q(2) [of t] assms(2) by auto
  have "(u, g) \<in> set (rw_wait_list s @ [(t, fl)]) \<longleftrightarrow> ?p u = waits_for g \<and> \<not> woken ?s u" for u g
  proof (cases "u = t")
    case True
    then show ?thesis using t by (cases g; cases fl) (auto simp: image_iff)
  qed (use q(2) in simp)
  then have "queue_ok ?s ?p" using q(1) t by (auto simp: queue_ok_def)
  moreover have "readers ?s ?p = readers s p" "writers ?s ?p = writers s p"
    using assms(2) by (cases fl; auto simp: readers_def writers_def)+
  moreover have "snd (hd (rw_wait_list ?s)) = RWSEM_WAITING_FOR_WRITE \<and> readers s p \<noteq> {}" if "writers s p = {}"
    using assms(1,3) that by (auto simp: rw_inv_def owners_ok_def hd_append)
  ultimately show ?thesis using assms(1) by (auto simp: rw_inv_def owners_ok_def)
qed

text \<open>A woken task that notices.\<close>

lemma inv_notice:
  assumes "rw_inv s p" and "woken s t" and "p t = RW_Wait_read \<and> x = RW_Reader \<or> p t = RW_Wait_write \<and> x = RW_Writer"
  shows "rw_inv s (p(t := x))"
proof -
  have "readers s (p(t := x)) = readers s p" "writers s (p(t := x)) = writers s p"
    using assms(2,3) by (auto simp: readers_def writers_def)
  moreover have "queue_ok s (p(t := x))"
  proof -
    have "(p(t := x)) u = waits_for fl \<and> \<not> woken s u \<longleftrightarrow> p u = waits_for fl \<and> \<not> woken s u" for u fl
      using assms(2) by auto
    then show ?thesis using assms(1) by (simp add: rw_inv_def queue_ok_def)
  qed
  ultimately show ?thesis using assms(1) by (simp add: rw_inv_def owners_ok_def)
qed

text \<open>Handing the lock to the writer at the front, and to the readers at the front.\<close>

lemma grant_writer:
  assumes "queue_ok s p" and "rw_wait_list s = (u, RWSEM_WAITING_FOR_WRITE) # ws" and "writers s p = {}" and "readers s p = {}"
  shows "rw_inv (s\<lparr>activity := - 1, rw_wait_list := ws, woken := (woken s)(u := True)\<rparr>) p" (is "rw_inv ?s p")
proof -
  have q: "distinct (map fst (rw_wait_list s))"
    "\<And>u fl. (u, fl) \<in> set (rw_wait_list s) \<longleftrightarrow> p u = waits_for fl \<and> \<not> woken s u"
    using assms(1) by (auto simp: queue_ok_def)
  have u: "p u = RW_Wait_write" "u \<notin> fst ` set ws" using q(1) q(2) [of u RWSEM_WAITING_FOR_WRITE] assms(2) by auto
  then have "writers ?s p = {u}" "readers ?s p = {}" using assms(3,4) by (auto simp: readers_def writers_def)
  moreover have "(v, fl) \<in> set ws \<longleftrightarrow> p v = waits_for fl \<and> \<not> woken ?s v" for v fl
    using q(2) [of v fl] assms(2) u(2) by (force simp: image_iff)
  then have "queue_ok ?s p" using q(1) assms(2) by (simp add: queue_ok_def)
  ultimately show ?thesis by (simp add: rw_inv_def owners_ok_def)
qed

lemma grant_readers:
  assumes "queue_ok s p" and "writers s p = {}" and "finite (readers s p)" and "activity s = int (card (readers s p))"
    and "readers s p \<noteq> {} \<or> is_rd (hd (rw_wait_list s))" and "rw_wait_list s \<noteq> []"
  shows "rw_inv (s\<lparr>activity := activity s + int (length (takeWhile is_rd (rw_wait_list s))),
      rw_wait_list := dropWhile is_rd (rw_wait_list s),
      woken := (\<lambda>t. woken s t \<or> t \<in> fst ` set (takeWhile is_rd (rw_wait_list s)))\<rparr>) p" (is "rw_inv ?s p")
proof -
  let ?l = "rw_wait_list s" and ?rs = "takeWhile is_rd (rw_wait_list s)" and ?ws = "dropWhile is_rd (rw_wait_list s)"
  have q: "distinct (map fst ?l)" "\<And>u fl. (u, fl) \<in> set ?l \<longleftrightarrow> p u = waits_for fl \<and> \<not> woken s u"
    using assms(1) by (auto simp: queue_ok_def)
  have split: "?l = ?rs @ ?ws" by simp
  then have d: "distinct (map fst ?rs)" "distinct (map fst ?ws)" "fst ` set ?rs \<inter> fst ` set ?ws = {}"
    using q(1) by (metis distinct_append map_append set_map)+
  have rs: "p t = RW_Wait_read" "\<not> woken s t" if m: "t \<in> fst ` set ?rs" for t
  proof -
    obtain fl where "(t, fl) \<in> set ?rs" using m by force
    then have "(t, RWSEM_WAITING_FOR_READ) \<in> set ?l" by (metis set_takeWhileD snd_conv)
    with q(2) show "p t = RW_Wait_read" "\<not> woken s t" by auto
  qed
  have w: "writers ?s p = {}" using assms(2) rs(1) by (fastforce simp: writers_def)
  have r: "readers ?s p = readers s p \<union> fst ` set ?rs" using rs(1) by (auto simp: readers_def)
  have "readers s p \<inter> fst ` set ?rs = {}" using rs by (fastforce simp: readers_def)
  moreover have "card (fst ` set ?rs) = length ?rs" using d(1) by (metis distinct_card length_map set_map)
  ultimately have c: "card (readers ?s p) = card (readers s p) + length ?rs"
    using assms(3) unfolding r by (simp add: card_Un_disjoint)
  have "(v, fl) \<in> set ?ws \<longleftrightarrow> p v = waits_for fl \<and> \<not> woken ?s v" for v fl
  proof -
    have "(v, fl) \<in> set ?l \<longleftrightarrow> (v, fl) \<in> set ?rs \<or> (v, fl) \<in> set ?ws" using split by (metis Un_iff set_append)
    moreover have "(v, fl) \<in> set ?ws \<Longrightarrow> v \<notin> fst ` set ?rs" using d(3) by force
    ultimately show ?thesis using q(2) [of v fl] by force
  qed
  then have "queue_ok ?s p" using d(2) by (simp add: queue_ok_def)
  moreover have "snd (hd ?ws) = RWSEM_WAITING_FOR_WRITE" if "?ws \<noteq> []"
    using hd_dropWhile [OF that] flags_cases by blast
  moreover have "readers ?s p \<noteq> {}"
    using assms(5,6) unfolding r by (cases ?l) auto
  ultimately show ?thesis using w c assms(3,4) r by (simp add: rw_inv_def owners_ok_def)
qed

section \<open>Releasing\<close>

lemma queue_ok_pc:
  assumes "queue_ok s p" and "p t = RW_Reader \<or> p t = RW_Writer" and "x = RW_Idle \<or> x = RW_Reader"
  shows "queue_ok (s\<lparr>activity := a\<rparr>) (p(t := x))"
proof -
  have "(p(t := x)) u = waits_for fl \<longleftrightarrow> p u = waits_for fl" for u fl using assms(2,3) by auto
  then show ?thesis using assms(1) by (simp add: queue_ok_def)
qed

lemma do_wake_writers:
  assumes "rw_wait_list s = (u, RWSEM_WAITING_FOR_WRITE) # ws"
  shows "raw_rwsem_do_wake s True = Some (s\<lparr>activity := - 1, rw_wait_list := ws, woken := (woken s)(u := True)\<rparr>)"
    and "raw_rwsem_do_wake s False = Some s"
  using assms by (simp_all add: raw_rwsem_do_wake_def)

lemma do_wake_readers:
  assumes "rw_wait_list s = (u, RWSEM_WAITING_FOR_READ) # ws"
  shows "raw_rwsem_do_wake s b = Some (s\<lparr>activity := activity s + int (length (takeWhile is_rd (rw_wait_list s))),
      rw_wait_list := dropWhile is_rd (rw_wait_list s),
      woken := (\<lambda>t. woken s t \<or> t \<in> fst ` set (takeWhile is_rd (rw_wait_list s)))\<rparr>)"
  unfolding raw_rwsem_do_wake_def wake_readers_eq using assms by simp

lemma inv_up_read:
  assumes "rw_inv s p" and "p t = RW_Reader"
  shows "\<exists>s'. raw_up_read s = Some s' \<and> rw_inv s' (p(t := RW_Idle))"
proof -
  let ?s = "s\<lparr>activity := activity s - 1\<rparr>" and ?p = "p(t := RW_Idle)"
  have t: "t \<in> readers s p" using assms(2) by (simp add: readers_def)
  then have o: "writers s p = {}" "finite (readers s p)" "activity s = int (card (readers s p))"
    "rw_wait_list s \<noteq> [] \<longrightarrow> snd (hd (rw_wait_list s)) = RWSEM_WAITING_FOR_WRITE"
    using assms(1) by (auto simp: rw_inv_def owners_ok_def)
  have q: "queue_ok ?s ?p" using assms by (intro queue_ok_pc) (auto simp: rw_inv_def)
  have rw: "readers ?s ?p = readers s p - {t}" "writers ?s ?p = {}"
    using o(1) assms(2) by (auto simp: readers_def writers_def)
  have a: "activity s - 1 = int (card (readers s p - {t}))"
  proof -
    have "0 < card (readers s p)" using o(2) t card_gt_0_iff by blast
    then show ?thesis using o(2,3) t by simp
  qed
  show ?thesis
  proof (cases "activity s - 1 = 0 \<and> rw_wait_list s \<noteq> []")
    case True
    then obtain u ws where l: "rw_wait_list s = (u, RWSEM_WAITING_FOR_WRITE) # ws"
      using o(4) by (cases "rw_wait_list s") auto
    have "card (readers s p - {t}) = 0" using True a by linarith
    then have "readers ?s ?p = {}" unfolding rw(1) using o(2) by (metis card_0_eq finite_Diff)
    from grant_writer [OF q _ rw(2) this] l
    have "rw_inv (?s\<lparr>activity := - 1, rw_wait_list := ws, woken := (woken ?s)(u := True)\<rparr>) ?p" by simp
    with True l show ?thesis by (simp add: raw_up_read_def raw_rwsem_wake_one_writer_def Let_def)
  next
    case False
    have "readers ?s ?p \<noteq> {}" if "rw_wait_list s \<noteq> []"
    proof
      assume "readers ?s ?p = {}"
      then have "card (readers s p - {t}) = 0" unfolding rw(1) by (simp only: card.empty)
      with False that a show False by linarith
    qed
    moreover have "finite (readers ?s ?p)" "activity ?s = int (card (readers ?s ?p))" unfolding rw(1) using o(2) a by simp_all
    ultimately have "rw_inv ?s ?p" using q rw(2) o(4) by (simp add: rw_inv_def owners_ok_def)
    with False show ?thesis by (auto simp: raw_up_read_def Let_def)
  qed
qed

lemma inv_up_write:
  assumes "rw_inv s p" and "p t = RW_Writer" and "b \<and> x = RW_Idle \<and> a = 0 \<or> \<not> b \<and> x = RW_Reader \<and> a = 1"
  shows "\<exists>s'. (let s = s\<lparr>activity := a\<rparr> in if rw_wait_list s \<noteq> [] then raw_rwsem_do_wake s b else Some s) = Some s'
    \<and> rw_inv s' (p(t := x))"
proof -
  let ?s = "s\<lparr>activity := a\<rparr>" and ?p = "p(t := x)"
  have "t \<in> writers s p" using assms(2) by (simp add: writers_def)
  then have o: "writers s p = {t}" "readers s p = {}" using assms(1) by (auto simp: rw_inv_def owners_ok_def)
  have q: "queue_ok ?s ?p" using assms by (intro queue_ok_pc) (auto simp: rw_inv_def)
  have w: "writers ?s ?p = {}" using o(1) assms(3) by (auto simp: writers_def)
  have r1: "readers ?s ?p = (if b then {} else {t})" using o(2) assms(3) by (auto simp: readers_def)
  have r: "readers ?s ?p = (if b then {} else {t})" "int (card (readers ?s ?p)) = a" "finite (readers ?s ?p)"
    using assms(3) unfolding r1 by auto
  show ?thesis
  proof (cases "rw_wait_list s")
    case Nil
    then show ?thesis using q w r by (simp add: rw_inv_def owners_ok_def)
  next
    case (Cons z ws)
    obtain u fl where z: "z = (u, fl)" by (cases z)
    show ?thesis
    proof (cases fl)
      case RWSEM_WAITING_FOR_READ
      then have l: "rw_wait_list ?s = (u, RWSEM_WAITING_FOR_READ) # ws" using Cons z by simp
      from grant_readers [OF q w r(3)] r(2) l do_wake_readers [OF l, of b] Cons show ?thesis by simp
    next
      case RWSEM_WAITING_FOR_WRITE
      then have l: "rw_wait_list ?s = (u, RWSEM_WAITING_FOR_WRITE) # ws" using Cons z by simp
      show ?thesis
      proof (cases b)
        case True
        from grant_writer [OF q l w] r(1) True do_wake_writers(1) [OF l] Cons show ?thesis by simp
      next
        case False
        then have "rw_inv ?s ?p" using q w r l by (simp add: rw_inv_def owners_ok_def)
        with False do_wake_writers(2) [OF l] Cons show ?thesis by simp
      qed
    qed
  qed
qed

lemma rw_step_inv:
  assumes "rw_step w w'" and "rw_inv (rwsem w) (rw_pcs w)"
  shows "rw_inv (rwsem w') (rw_pcs w')"
  using assms(1)
proof cases
  case (rd t g s)
  then show ?thesis
    using inv_read_now [OF assms(2)] inv_enqueue [OF assms(2), of t RWSEM_WAITING_FOR_READ]
    by (auto simp: raw_down_read_def split: if_splits)
next
  case (rd_try t g s)
  then show ?thesis
    using inv_read_now [OF assms(2)] assms(2) by (auto simp: raw_down_read_trylock_def fun_upd_idem split: if_splits)
next
  case (wr t g s)
  then show ?thesis
    using inv_write_now [OF assms(2)] inv_enqueue [OF assms(2), of t RWSEM_WAITING_FOR_WRITE]
    by (auto simp: raw_down_write_def raw_down_write_nested_def split: if_splits)
next
  case (wr_try t g s)
  then show ?thesis
    using inv_write_now [OF assms(2)] assms(2) by (auto simp: raw_down_write_trylock_def fun_upd_idem split: if_splits)
next
  case (rd_woken t)
  then show ?thesis using inv_notice [OF assms(2)] by simp
next
  case (wr_woken t)
  then show ?thesis using inv_notice [OF assms(2)] by simp
next
  case (rd_up t s)
  then show ?thesis using inv_up_read [OF assms(2)] by fastforce
next
  case (wr_up t s)
  then show ?thesis using inv_up_write [OF assms(2), of t True RW_Idle 0] by (simp add: raw_up_write_def)
next
  case (downgrade t s)
  then show ?thesis using inv_up_write [OF assms(2), of t False RW_Reader 1] by (simp add: raw_downgrade_write_def)
qed

lemma rw_reachable_inv: "rw_reachable w \<Longrightarrow> rw_inv (rwsem w) (rw_pcs w)"
proof (induction rule: rw_reachable.induct)
  case rw_init
  then show ?case
    by (simp add: rw_inv_def queue_ok_def owners_ok_def raw_init_rwsem_def readers_def writers_def)
next
  case (rw_next w w')
  then show ?case using rw_step_inv by blast
qed

section \<open>Property\<close>

text \<open>
  C5.  Readers share, writers exclude: in every reachable state of any number of tasks at most
  one task is a writer, and while there is one no task reads.  Somebody waits in the queue only while somebody
  else has the lock, so no wake-up is lost; and a release never faults: when the last reader leaves, the
  first waiter, which \<open>__rwsem_wake_one_writer\<close> wakes without looking at its kind, is a writer.
\<close>

theorem rwsem_safe:
  assumes "rw_reachable w"
  shows "(\<forall>t u. rw_pcs w t = RW_Writer \<and> (rw_pcs w u = RW_Writer \<or> rw_pcs w u = RW_Reader) \<longrightarrow> t = u)
    \<and> (rw_wait_list (rwsem w) \<noteq> [] \<longrightarrow> readers (rwsem w) (rw_pcs w) \<union> writers (rwsem w) (rw_pcs w) \<noteq> {})
    \<and> (\<forall>t. rw_pcs w t = RW_Reader \<longrightarrow> raw_up_read (rwsem w) \<noteq> None
         \<and> (rw_wait_list (rwsem w) \<noteq> [] \<longrightarrow> snd (hd (rw_wait_list (rwsem w))) = RWSEM_WAITING_FOR_WRITE))
    \<and> (\<forall>t. rw_pcs w t = RW_Writer \<longrightarrow> raw_up_write (rwsem w) \<noteq> None \<and> raw_downgrade_write (rwsem w) \<noteq> None)"
proof (intro conjI allI impI)
  note inv = rw_reachable_inv [OF assms]
  then have o: "owners_ok (rwsem w) (rw_pcs w)" by (simp add: rw_inv_def)
  have mem: "rw_pcs w t = RW_Writer \<Longrightarrow> t \<in> writers (rwsem w) (rw_pcs w)"
    "rw_pcs w t = RW_Reader \<Longrightarrow> t \<in> readers (rwsem w) (rw_pcs w)" for t
    by (simp_all add: writers_def readers_def)
  show "t = u" if "rw_pcs w t = RW_Writer \<and> (rw_pcs w u = RW_Writer \<or> rw_pcs w u = RW_Reader)" for t u
    using o mem [of t] mem [of u] that by (auto simp: owners_ok_def)
  show "readers (rwsem w) (rw_pcs w) \<union> writers (rwsem w) (rw_pcs w) \<noteq> {}" if "rw_wait_list (rwsem w) \<noteq> []"
    using o that by (auto simp: owners_ok_def)
  show "raw_up_read (rwsem w) \<noteq> None" if "rw_pcs w t = RW_Reader" for t
    using inv_up_read [OF inv that] by auto
  show "snd (hd (rw_wait_list (rwsem w))) = RWSEM_WAITING_FOR_WRITE"
    if "rw_pcs w t = RW_Reader" "rw_wait_list (rwsem w) \<noteq> []" for t
    using o mem(2) [OF that(1)] that(2) by (auto simp: owners_ok_def)
  show "raw_up_write (rwsem w) \<noteq> None" if "rw_pcs w t = RW_Writer" for t
    using inv_up_write [OF inv that, of True RW_Idle 0] by (auto simp: raw_up_write_def)
  show "raw_downgrade_write (rwsem w) \<noteq> None" if "rw_pcs w t = RW_Writer" for t
    using inv_up_write [OF inv that, of False RW_Reader 1] by (auto simp: raw_downgrade_write_def)
qed

theorem rwsem_safe_witness:
  "\<exists>w. rw_reachable w \<and> rw_pcs w 0 = RW_Writer
    \<and> ((\<forall>t u. rw_pcs w t = RW_Writer \<and> (rw_pcs w u = RW_Writer \<or> rw_pcs w u = RW_Reader) \<longrightarrow> t = u)
    \<and> (rw_wait_list (rwsem w) \<noteq> [] \<longrightarrow> readers (rwsem w) (rw_pcs w) \<union> writers (rwsem w) (rw_pcs w) \<noteq> {})
    \<and> (\<forall>t. rw_pcs w t = RW_Reader \<longrightarrow> raw_up_read (rwsem w) \<noteq> None
         \<and> (rw_wait_list (rwsem w) \<noteq> [] \<longrightarrow> snd (hd (rw_wait_list (rwsem w))) = RWSEM_WAITING_FOR_WRITE))
    \<and> (\<forall>t. rw_pcs w t = RW_Writer \<longrightarrow> raw_up_write (rwsem w) \<noteq> None \<and> raw_downgrade_write (rwsem w) \<noteq> None))"
proof -
  let ?w0 = "\<lparr>rwsem = raw_init_rwsem, rw_pcs = (\<lambda>_. RW_Idle)\<rparr>"
  have "rw_step ?w0 (?w0\<lparr>rwsem := raw_init_rwsem\<lparr>activity := - 1\<rparr>, rw_pcs := (rw_pcs ?w0)(0 := (if True then RW_Writer else RW_Wait_write))\<rparr>)"
    by (rule rw_step.wr) (simp_all add: raw_down_write_def raw_down_write_nested_def raw_init_rwsem_def)
  from rw_next [OF rw_init this] obtain w where w: "rw_reachable w" "rw_pcs w 0 = RW_Writer" by force
  with rwsem_safe [OF w(1)] show ?thesis by blast
qed

end
