(* ===== verification/Int_Math.thy ===== *)
theory Int_Math
  imports Kernel_Prelude
begin

text \<open>
  Integer arithmetic of the library: \<open>lib/gcd.c\<close>, \<open>lib/lcm.c\<close>, \<open>lib/int_sqrt.c\<close> and \<open>lib/rational.c\<close> on
  64-bit words.  A division by zero is \<open>None\<close>.
\<close>

section \<open>Model\<close>

function gcd_loop :: "u64 \<Rightarrow> u64 \<Rightarrow> u64 option" where
  "gcd_loop a b =
     (if b = 0 then None else if a mod b \<noteq> 0 then gcd_loop b (a mod b) else Some b)"
  by pat_completeness auto
termination
  by (relation "measure (\<lambda>(a, b). unat b)") (auto simp: unat_mod word_neq_0_conv word_less_nat_alt)

definition kgcd :: "u64 \<Rightarrow> u64 \<Rightarrow> u64 option" where
  "kgcd a b = (if a < b then gcd_loop b a else gcd_loop a b)"

definition klcm :: "u64 \<Rightarrow> u64 \<Rightarrow> u64 option" where
  "klcm a b =
     (if a \<noteq> 0 \<and> b \<noteq> 0 then do { g \<leftarrow> kgcd a b; Some ((a * b) div g) }
      else if b \<noteq> 0 then Some b
      else Some a)"

function sqrt_start :: "u64 \<Rightarrow> u64 \<Rightarrow> u64" where
  "sqrt_start one op = (if one > op then sqrt_start (drop_bit 2 one) op else one)"
  by pat_completeness auto
termination
  by (relation "measure (\<lambda>(one, op). unat one)")
    (auto simp: unat_div drop_bit_eq_div word_less_nat_alt)

function sqrt_loop :: "u64 \<Rightarrow> u64 \<Rightarrow> u64 \<Rightarrow> u64" where
  "sqrt_loop op res one =
     (if one \<noteq> 0
      then let (op, res) = (if op \<ge> res + one then (op - (res + one), res + 2 * one) else (op, res))
           in sqrt_loop op (res div 2) (one div 4)
      else res)"
  by pat_completeness auto
termination
  by (relation "measure (\<lambda>(op, res, one). unat one)") (auto simp: unat_div word_neq_0_conv word_less_nat_alt)

definition int_sqrt :: "u64 \<Rightarrow> u64" where
  "int_sqrt x = sqrt_loop x 0 (sqrt_start (push_bit (64 - 2) 1) x)"

function rational_loop :: "u64 \<Rightarrow> u64 \<Rightarrow> u64 \<Rightarrow> u64 \<Rightarrow> u64 \<Rightarrow> u64 \<Rightarrow> u64 \<Rightarrow> u64 \<Rightarrow> u64 \<times> u64" where
  "rational_loop max_n max_d n d n0 d0 n1 d1 =
     (if n1 > max_n \<or> d1 > max_d then (n0, d0)
      else if d = 0 then (n1, d1)
      else let a = n div d in rational_loop max_n max_d d (n mod d) n1 d1 (n0 + a * n1) (d0 + a * d1))"
  by pat_completeness auto
termination
  by (relation "measure (\<lambda>(mn, md, n, d, n0, d0, n1, d1). unat d)")
    (auto simp: unat_mod word_neq_0_conv word_less_nat_alt)

definition rational_best_approximation :: "u64 \<Rightarrow> u64 \<Rightarrow> u64 \<Rightarrow> u64 \<Rightarrow> u64 \<times> u64" where
  "rational_best_approximation given_numerator given_denominator max_numerator max_denominator =
     rational_loop max_numerator max_denominator given_numerator given_denominator 0 1 1 0"

declare gcd_loop.simps [simp del] sqrt_start.simps [simp del] sqrt_loop.simps [simp del]
  rational_loop.simps [simp del]

section \<open>Greatest common divisor\<close>

lemma gcd_loop_spec: "b \<noteq> 0 \<Longrightarrow> \<exists>g. gcd_loop a b = Some g \<and> unat g = gcd (unat a) (unat b)"
proof (induction a b rule: gcd_loop.induct)
  case (1 a b)
  show ?case
  proof (cases "a mod b = 0")
    case True
    then have "unat b dvd unat a" by (metis dvd_eq_mod_eq_0 unat_mod unsigned_0)
    then have "gcd (unat a) (unat b) = unat b" by (simp add: gcd_nat.absorb2)
    with True 1(2) show ?thesis by (subst gcd_loop.simps) simp
  next
    case False
    then obtain g where "gcd_loop b (a mod b) = Some g" "unat g = gcd (unat b) (unat (a mod b))" using 1 by blast
    moreover have "gcd (unat b) (unat (a mod b)) = gcd (unat a) (unat b)" by (simp add: unat_mod gcd_red_nat [symmetric])
    ultimately show ?thesis using False 1(2) by (subst gcd_loop.simps) simp
  qed
qed

lemma kgcd_spec:
  assumes "a \<noteq> 0" and "b \<noteq> 0"
  shows "\<exists>g. kgcd a b = Some g \<and> unat g = gcd (unat a) (unat b)"
  using gcd_loop_spec [OF assms(1), of b] gcd_loop_spec [OF assms(2), of a]
  by (auto simp: kgcd_def gcd.commute)

section \<open>Square root\<close>

text \<open>The first loop finds the greatest power of four that is not above the argument.\<close>

lemma sqrt_start_spec:
  assumes "unat one = 4 ^ k" and "0 < unat op" and "unat op < 4 ^ (k + 1)"
  shows "\<exists>j \<le> k. unat (sqrt_start one op) = 4 ^ j \<and> unat op < 4 ^ (j + 1)"
  using assms
proof (induction k arbitrary: one)
  case 0
  then have "\<not> one > op" by (simp add: word_less_nat_alt)
  with 0 show ?case by (subst sqrt_start.simps) simp
next
  case (Suc k)
  show ?case
  proof (cases "one > op")
    case True
    have d: "unat (drop_bit 2 one) = 4 ^ k"
      using Suc.prems(1) by (simp add: unsigned_drop_bit_eq drop_bit_eq_div unat_div)
    have "unat op < 4 ^ (k + 1)" using True Suc.prems(1) by (simp add: word_less_nat_alt)
    from Suc.IH [OF d Suc.prems(2) this] True show ?thesis by (subst sqrt_start.simps) auto
  next
    case False
    with Suc.prems show ?thesis by (subst sqrt_start.simps) auto
  qed
qed

lemma am_gm: "4 * (r * y) \<le> (r + y) ^ 2" for r y :: nat
proof -
  have "0 \<le> (int r - int y) ^ 2" by simp
  then have "4 * (int r * int y) \<le> (int r + int y) ^ 2" by (simp add: power2_eq_square algebra_simps)
  then have "int (4 * (r * y)) \<le> int ((r + y) ^ 2)" by simp
  then show ?thesis by (simp only: of_nat_le_iff)
qed

text \<open>
  In the second loop \<open>r\<close> is the part of the root found so far, \<open>op\<close> what is left of the argument,
  and \<open>res\<close> the difference to the next square less the square of the next digit.
\<close>

definition sqrt_state :: "nat \<Rightarrow> nat \<Rightarrow> nat \<Rightarrow> u64 \<Rightarrow> u64 \<Rightarrow> bool" where
  "sqrt_state x k r op res \<longleftrightarrow> unat res = r * 2 ^ k \<and> unat op + r ^ 2 = x \<and> 2 ^ k dvd r \<and> x < (r + 2 ^ k) ^ 2
     \<and> r + 2 ^ k \<le> 2 ^ 32"

lemma pow4: "(4 :: nat) ^ k = 2 ^ k * 2 ^ k"
  by (simp flip: power_mult_distrib)

lemma sqrt_room:
  assumes "r + 2 * 2 ^ k \<le> (2 :: nat) ^ 32"
  shows "r * (2 * 2 ^ k) + 2 * 4 ^ k < 2 ^ 64"
proof -
  let ?y = "2 * 2 ^ k :: nat"
  have "4 * (r * ?y) \<le> (r + ?y) ^ 2" by (rule am_gm)
  also have "\<dots> \<le> (2 ^ 32) ^ 2" by (rule power_mono [OF assms]) simp
  finally have a: "4 * (r * ?y) \<le> 2 ^ 64" by simp
  have "?y ^ 2 \<le> (2 ^ 32) ^ 2" by (rule power_mono) (use assms in simp_all)
  moreover have "?y ^ 2 = 4 * 4 ^ k" by (simp add: pow4 power2_eq_square)
  ultimately have b: "4 * 4 ^ k \<le> (2 :: nat) ^ 64" by simp
  from a b show ?thesis by simp
qed

lemma sqrt_step:
  assumes "sqrt_state x (k + 1) r op res" and "unat one = 4 ^ k"
  shows "\<exists>r'. (let (op, res) = (if op \<ge> res + one then (op - (res + one), res + 2 * one) else (op, res))
      in sqrt_state x k r' op (res div 2))"
proof -
  let ?y = "2 * 2 ^ k :: nat"
  have st: "unat res = r * ?y" "unat op + r ^ 2 = x" "?y dvd r" "x < (r + ?y) ^ 2" "r + ?y \<le> 2 ^ 32"
    using assms(1) by (simp_all add: sqrt_state_def)
  have room: "r * ?y + 2 * 4 ^ k < 2 ^ 64" by (rule sqrt_room [OF st(5)])
  have u1: "unat (res + one) = r * ?y + 4 ^ k"
    using unat_add_nowrap [of res one] st(1) assms(2) room by simp
  note pow = pow4 [of k]
  have sq: "(r + 2 ^ k) ^ 2 = r ^ 2 + (r * ?y + 4 ^ k)" by (simp add: power2_eq_square algebra_simps pow)
  have half: "?y = 2 ^ k + 2 ^ k" by simp
  show ?thesis
  proof (cases "op \<ge> res + one")
    case True
    then have le: "r * ?y + 4 ^ k \<le> unat op" using u1 by (simp add: word_le_nat_alt)
    have o: "unat (op - (res + one)) = unat op - (r * ?y + 4 ^ k)" using True u1 by (simp add: unat_sub)
    have n: "unat one + unat one < 2 ^ LENGTH(64)" using assms(2) room by simp
    have "unat (2 * one) = 2 * 4 ^ k"
      unfolding mult_2 unat_add_nowrap [OF n] by (simp only: assms(2))
    then have "unat (res + 2 * one) = r * ?y + 2 * 4 ^ k"
      using unat_add_nowrap [of res "2 * one"] st(1) room by simp
    moreover have "r * ?y + 2 * 4 ^ k = (r + 2 ^ k) * 2 ^ k * 2" by (simp add: pow algebra_simps)
    moreover have "unat (2 :: u64) = 2" by simp
    ultimately have "unat ((res + 2 * one) div 2) = (r + 2 ^ k) * 2 ^ k"
      by (simp only: unat_div nonzero_mult_div_cancel_right [of 2])
    moreover have "unat (op - (res + one)) + (r + 2 ^ k) ^ 2 = x" unfolding o sq using le st(2) by linarith
    moreover have "2 ^ k dvd r + 2 ^ k" by (rule dvd_add [OF dvd_mult_right [OF st(3)] dvd_refl])
    moreover have "r + 2 ^ k + 2 ^ k \<le> 2 ^ 32" "x < (r + 2 ^ k + 2 ^ k) ^ 2" 
      using st(4,5) unfolding half by (simp_all only: add.assoc)
    ultimately have "sqrt_state x k (r + 2 ^ k) (op - (res + one)) ((res + 2 * one) div 2)"
      by (simp add: sqrt_state_def)
    then show ?thesis using True by auto
  next
    case False
    then have "x < (r + 2 ^ k) ^ 2" unfolding sq using st(2) u1 by (simp add: word_le_nat_alt)
    moreover have "unat (res div 2) = r * 2 ^ k" using st(1) by (simp add: unat_div)
    moreover have "2 ^ k dvd r" by (rule dvd_mult_right [OF st(3)])
    ultimately have "sqrt_state x k r op (res div 2)" using st by (simp add: sqrt_state_def)
    then show ?thesis using False by auto
  qed
qed

lemma sqrt_loop_spec:
  assumes "sqrt_state x (k + 1) r op res" and "unat one = 4 ^ k"
  shows "\<exists>r. unat (sqrt_loop op res one) = r \<and> r ^ 2 \<le> x \<and> x < (r + 1) ^ 2"
  using assms
proof (induction k arbitrary: r op res one)
  case 0
  obtain op' res' where s: "(if op \<ge> res + one then (op - (res + one), res + 2 * one) else (op, res)) = (op', res')" by fastforce
  then obtain r' where r': "sqrt_state x 0 r' op' (res' div 2)" using sqrt_step [OF 0] by auto
  have "one \<noteq> 0" "one div 4 = 0" using 0(2) by (simp_all add: word_unat_eq_iff unat_div)
  then have "sqrt_loop op res one = res' div 2"
    using sqrt_loop.simps [of op' "res' div 2" 0] by (subst sqrt_loop.simps) (simp add: s)
  with r' show ?case by (auto simp: sqrt_state_def)
next
  case (Suc k)
  obtain op' res' where s: "(if op \<ge> res + one then (op - (res + one), res + 2 * one) else (op, res)) = (op', res')" by fastforce
  then obtain r' where r': "sqrt_state x (k + 1) r' op' (res' div 2)"
    using sqrt_step [of x "Suc k" r op res one] Suc.prems by auto
  have "one \<noteq> 0" using Suc.prems(2) by (auto simp: word_unat_eq_iff)
  then have "sqrt_loop op res one = sqrt_loop op' (res' div 2) (one div 4)" by (subst sqrt_loop.simps) (simp add: s)
  moreover have "unat (one div 4) = 4 ^ k" using Suc.prems(2) by (simp add: unat_div)
  ultimately show ?case using Suc.IH [OF r'] by simp
qed

lemma int_sqrt_spec: "(unat (int_sqrt x)) ^ 2 \<le> unat x \<and> unat x < (unat (int_sqrt x) + 1) ^ 2"
proof (cases "x = 0")
  case True
  have "sqrt_start one 0 = 0" for one :: u64
  proof (induction one "0 :: u64" rule: sqrt_start.induct)
    case (1 one)
    then show ?case by (subst sqrt_start.simps) (auto simp: word_gt_0)
  qed
  then have "int_sqrt x = 0" unfolding int_sqrt_def True by (subst sqrt_loop.simps) simp
  with True show ?thesis by simp
next
  case False
  let ?one = "push_bit (64 - 2) 1 :: u64"
  have one: "unat ?one = 4 ^ 31" by simp
  have "unat x < 4 ^ (31 + 1)" using unsigned_less [of x] by simp
  moreover have "0 < unat x" using False by (simp add: unat_gt_0)
  ultimately obtain j where j: "j \<le> 31" "unat (sqrt_start ?one x) = 4 ^ j" "unat x < 4 ^ (j + 1)"
    using sqrt_start_spec [OF one] by blast
  have "(2 :: nat) ^ (j + 1) \<le> 2 ^ 32" using j(1) by (intro power_increasing) simp_all
  moreover have "(4 :: nat) ^ (j + 1) = (2 ^ (j + 1)) ^ 2" by (simp only: pow4 power2_eq_square)
  ultimately have "sqrt_state (unat x) (j + 1) 0 x 0" using j(3) by (simp add: sqrt_state_def)
  from sqrt_loop_spec [OF this j(2)] show ?thesis by (simp add: int_sqrt_def)
qed

section \<open>Continued fractions\<close>

text \<open>
  The invariant of the loop: the pair \<open>(n, d)\<close> of Euclid's algorithm, combined with the last two convergents, gives back
  the fraction; neighbouring convergents have determinant one.
\<close>

definition convergents :: "nat \<Rightarrow> nat \<Rightarrow> nat \<Rightarrow> nat \<Rightarrow> nat \<Rightarrow> nat \<Rightarrow> nat \<Rightarrow> nat \<Rightarrow> bool" where
  "convergents N D n d n0 d0 n1 d1 \<longleftrightarrow>
     N = n1 * n + n0 * d \<and> D = d1 * n + d0 * d \<and> \<bar>int n1 * int d0 - int n0 * int d1\<bar> = 1 \<and> gcd n d = gcd N D"

lemma convergentsD:
  assumes "convergents N D n d n0 d0 n1 d1"
  shows "N = n1 * n + n0 * d" and "D = d1 * n + d0 * d" and "\<bar>int n1 * int d0 - int n0 * int d1\<bar> = 1"
    and "gcd n d = gcd N D"
  using assms by (simp_all add: convergents_def)

lemma convergents_step:
  assumes "convergents N D n d n0 d0 n1 d1"
  shows "convergents N D d (n mod d) n1 d1 (n0 + n div d * n1) (d0 + n div d * d1)"
proof -
  define a r where "a = n div d" and "r = n mod d"
  have n: "n = a * d + r" by (simp add: a_def r_def)
  have "N = (n0 + a * n1) * d + n1 * r" "D = (d0 + a * d1) * d + d1 * r"
    using assms n by (simp_all add: convergents_def algebra_simps)
  moreover have "int (n0 + a * n1) * int d1 - int n1 * int (d0 + a * d1) = - (int n1 * int d0 - int n0 * int d1)"
    by (simp add: algebra_simps)
  then have "\<bar>int (n0 + a * n1) * int d1 - int n1 * int (d0 + a * d1)\<bar> = 1"
    using convergentsD(3) [OF assms] by (simp only: abs_minus_cancel)
  moreover have "gcd d r = gcd N D"
    using convergentsD(4) [OF assms] by (simp add: r_def gcd_red_nat [symmetric])
  ultimately show ?thesis unfolding convergents_def a_def r_def by blast
qed

lemma convergents_bounded:
  assumes "convergents N D n d n0 d0 n1 d1" and "0 < n"
  shows "n1 * gcd N D \<le> N" and "d1 * gcd N D \<le> D"
proof -
  have "gcd N D \<le> n" using assms by (metis convergents_def dvd_imp_le gcd_dvd1)
  then have "n1 * gcd N D \<le> n1 * n" "d1 * gcd N D \<le> d1 * n" by simp_all
  then show "n1 * gcd N D \<le> N" "d1 * gcd N D \<le> D" using convergentsD(1,2) [OF assms(1)] by linarith+
qed

lemma det_coprime: "\<bar>int n1 * int d0 - int n0 * int d1\<bar> = 1 \<Longrightarrow> coprime n1 d1 \<and> coprime n0 d0"
proof -
  assume det: "\<bar>int n1 * int d0 - int n0 * int d1\<bar> = 1"
  have "c dvd 1" if "c dvd n1 \<and> c dvd d1 \<or> c dvd n0 \<and> c dvd d0" for c
  proof -
    from that have "int c dvd int n1 * int d0 - int n0 * int d1" by auto
    then have "int c dvd 1" using det by (metis dvd_abs_iff)
    then show ?thesis by simp
  qed
  then show ?thesis by (metis coprimeI)
qed

text \<open>
  What the loop returns: a convergent within the maxima, which is the fraction itself, or is followed by one that
  exceeds a maximum and is close to the fraction.
\<close>

definition approximates :: "nat \<Rightarrow> nat \<Rightarrow> nat \<Rightarrow> nat \<Rightarrow> nat \<Rightarrow> nat \<Rightarrow> bool" where
  "approximates N D maxn maxd p q \<longleftrightarrow>
     p \<le> maxn \<and> q \<le> maxd \<and> coprime p q
     \<and> (p * gcd N D = N \<and> q * gcd N D = D
        \<or> \<bar>int N * int q - int p * int D\<bar> * int maxd < int D
        \<or> \<bar>int N * int q - int p * int D\<bar> * int maxn < int N)"

lemma approximates_exact:
  assumes "convergents N D n 0 n0 d0 n1 d1" and "n1 \<le> maxn" and "d1 \<le> maxd"
  shows "approximates N D maxn maxd n1 d1 \<and> n1 * gcd N D = N \<and> d1 * gcd N D = D"
proof -
  have "gcd N D = n" using convergentsD(4) [OF assms(1)] by simp
  then have "n1 * gcd N D = N" "d1 * gcd N D = D" using convergentsD(1,2) [OF assms(1)] by simp_all
  with assms(2,3) det_coprime [OF convergentsD(3) [OF assms(1)]] show ?thesis by (simp add: approximates_def)
qed

lemma approximates_cut:
  assumes c: "convergents N D n d n0 d0 n1 d1" and "0 < n" and "n0 \<le> maxn" and "d0 \<le> maxd"
    and "maxn < n1 \<or> maxd < d1"
  shows "approximates N D maxn maxd n0 d0"
proof -
  have "int N * int d0 - int n0 * int D = int n * (int n1 * int d0 - int n0 * int d1)"
    unfolding convergentsD(1,2) [OF c] by (simp add: algebra_simps)
  then have err: "\<bar>int N * int d0 - int n0 * int D\<bar> = int n" using convergentsD(3) [OF c] by (simp add: abs_mult)
  have "n * maxd < D" if "maxd < d1"
  proof -
    have "n * maxd < d1 * n" using that assms(2) by simp
    then show ?thesis using convergentsD(1,2) [OF c] by linarith
  qed
  moreover have "n * maxn < N" if "maxn < n1"
  proof -
    have "n * maxn < n1 * n" using that assms(2) by simp
    then show ?thesis using convergentsD(1,2) [OF c] by linarith
  qed
  ultimately have "n * maxd < D \<or> n * maxn < N" using assms(5) by blast
  then show ?thesis unfolding approximates_def err unfolding of_nat_mult [symmetric] of_nat_less_iff
    using assms(3,4) det_coprime [OF convergentsD(3) [OF c]] by blast
qed

lemma unat_mult_add: "unat x + unat y * unat z < 2 ^ 64 \<Longrightarrow> unat (x + y * z :: u64) = unat x + unat y * unat z"
  by (simp add: unat_word_ariths)

lemma rational_loop_spec:
  assumes "convergents N D (unat n) (unat d) (unat n0) (unat d0) (unat n1) (unat d1)"
    and "N < 2 ^ 64" and "D < 2 ^ 64" and "0 < unat n" and "n0 \<le> max_n" and "d0 \<le> max_d"
  shows "\<exists>p q. rational_loop max_n max_d n d n0 d0 n1 d1 = (p, q)
    \<and> approximates N D (unat max_n) (unat max_d) (unat p) (unat q)
    \<and> (N div gcd N D \<le> unat max_n \<and> D div gcd N D \<le> unat max_d \<longrightarrow> unat p * gcd N D = N \<and> unat q * gcd N D = D)"
  using assms(1,4-6)
proof (induction max_n max_d n d n0 d0 n1 d1 rule: rational_loop.induct)
  case (1 max_n max_d n d n0 d0 n1 d1)
  have g: "0 < gcd N D" using 1(2,3) by (metis convergents_def gcd_pos_nat gr0I)
  then have factor_le: "x \<le> y" if "x * gcd N D \<le> y" for x y using that by (cases "gcd N D") auto
  consider (cut) "n1 > max_n \<or> d1 > max_d" | (exact) "\<not> (n1 > max_n \<or> d1 > max_d)" "d = 0"
    | (step) "\<not> (n1 > max_n \<or> d1 > max_d)" "d \<noteq> 0" by blast
  then show ?case
  proof cases
    case cut
    then have over: "unat max_n < unat n1 \<or> unat max_d < unat d1" by (simp add: word_less_nat_alt)
    have "unat n1 \<le> N div gcd N D" "unat d1 \<le> D div gcd N D"
      using convergents_bounded [OF 1(2,3)] g by (simp_all add: less_eq_div_iff_mult_less_eq)
    then have "\<not> (N div gcd N D \<le> unat max_n \<and> D div gcd N D \<le> unat max_d)" using over by linarith
    moreover have "approximates N D (unat max_n) (unat max_d) (unat n0) (unat d0)"
      using approximates_cut [OF 1(2,3) _ _ over] 1(4,5) by (simp add: word_le_nat_alt)
    moreover have "rational_loop max_n max_d n d n0 d0 n1 d1 = (n0, d0)" using cut by (subst rational_loop.simps) simp
    ultimately show ?thesis by blast
  next
    case exact
    then show ?thesis using approximates_exact [of N D "unat n" "unat n0" "unat d0" "unat n1" "unat d1" "unat max_n" "unat max_d"] 1(2)
      by (subst rational_loop.simps) (simp add: word_less_nat_alt not_less)
  next
    case step
    let ?n1 = "n0 + n div d * n1" and ?d1 = "d0 + n div d * d1"
    note c = convergents_step [OF 1(2)]
    have d: "0 < unat d" using step(2) by (simp add: unat_gt_0)
    have "unat n0 + unat n div unat d * unat n1 \<le> N" "unat d0 + unat n div unat d * unat d1 \<le> D"
      using convergents_bounded [OF c d] factor_le by blast+
    then have "unat ?n1 = unat n0 + unat n div unat d * unat n1" "unat ?d1 = unat d0 + unat n div unat d * unat d1"
      using assms(2,3) unat_mult_add [of n0 "n div d" n1] unat_mult_add [of d0 "n div d" d1] by (simp_all add: unat_div)
    with c have "convergents N D (unat d) (unat (n mod d)) (unat n1) (unat d1) (unat ?n1) (unat ?d1)" by (simp add: unat_mod)
    moreover have "n1 \<le> max_n" "d1 \<le> max_d" using step(1) by (simp_all add: not_less)
    ultimately show ?thesis using 1(1) [OF step refl _ d] step by (subst rational_loop.simps) (simp add: Let_def)
  qed
qed

section \<open>Properties\<close>

text \<open>
  C25.  \<open>rational_best_approximation\<close> returns a fraction in lowest terms within the maxima.  It is the given fraction
  whenever its lowest terms fit; otherwise it misses the given fraction by less than one over its own denominator times
  a maximum.  No intermediate value overflows.\<close>

theorem rational_best_approximation_ok:
  fixes given_numerator given_denominator :: u64
  assumes "given_denominator \<noteq> 0" and "max_denominator \<noteq> 0"
  defines "N \<equiv> unat given_numerator" and "D \<equiv> unat given_denominator"
  shows "\<exists>n d. rational_best_approximation given_numerator given_denominator max_numerator max_denominator = (n, d)
    \<and> approximates N D (unat max_numerator) (unat max_denominator) (unat n) (unat d)
    \<and> (N div gcd N D \<le> unat max_numerator \<and> D div gcd N D \<le> unat max_denominator
       \<longrightarrow> unat n * gcd N D = N \<and> unat d * gcd N D = D)"
proof (cases "given_numerator = 0")
  case True
  have max: "\<not> 1 > max_denominator" "1 \<le> unat max_denominator" using assms(2) by (simp_all add: unat_gt_0 Suc_leI)
  have "rational_best_approximation given_numerator given_denominator max_numerator max_denominator = (0, 1)"
    unfolding rational_best_approximation_def True
    using assms(1) max(1) by (subst rational_loop.simps, subst rational_loop.simps) simp
  then show ?thesis using True max(2) by (simp add: approximates_def N_def D_def)
next
  case False
  have "convergents N D N D 0 1 1 0" by (simp add: convergents_def)
  moreover have "N < 2 ^ 64" "D < 2 ^ 64"
    using unsigned_less [of given_numerator] unsigned_less [of given_denominator] by (simp_all add: N_def D_def)
  moreover have "0 < N" using False by (simp add: N_def unat_gt_0)
  moreover have "1 \<le> max_denominator" using assms(2) by (simp add: word_le_nat_alt unat_gt_0 Suc_leI)
  ultimately show ?thesis
    using rational_loop_spec [of N D given_numerator given_denominator 0 1 1 0 max_numerator max_denominator]
    by (simp add: N_def D_def rational_best_approximation_def)
qed

theorem rational_best_approximation_ok_witness:
  "\<exists>n d. rational_best_approximation 31400 10000 255 63 = (n, d) \<and> unat n = 157 \<and> unat d = 50"
proof -
  have "gcd 31400 (10000 :: nat) = 200" by (simp add: gcd_non_0_nat)
  then show ?thesis using rational_best_approximation_ok [of 10000 63 31400 255] by auto
qed

text \<open>It is not always the best one: 2/7 is closer to 3/10 than 1/3.\<close>

lemma rational_best_approximation_not_best: "rational_best_approximation 3 10 9 9 = (1, 3)"
  by (simp add: rational_best_approximation_def rational_loop.simps)



text \<open>\<open>gcd\<close> divides by zero when an argument is zero, and \<open>lcm\<close> returns a wrong value when the product wraps around.\<close>

lemma kgcd_0: "kgcd a 0 = None" "kgcd 0 b = None"
  by (simp_all add: kgcd_def gcd_loop.simps word_neq_0_conv)

lemma klcm_overflow: "klcm 0x100000000 0x100000000 = Some 0"
  by (simp add: klcm_def kgcd_def gcd_loop.simps)

end
