(* ===== verification/Int_Division.thy ===== *)
theory Int_Division
  imports Log2 "HOL-Library.Signed_Division"
begin

text \<open>
  The divisions for machines without a 64-bit divide instruction: \<open>lib/div64.c\<close>, \<open>include/linux/math64.h\<close> and
  \<open>include/asm-generic/div64.h\<close> (with 32-bit longs), and division by a precomputed reciprocal,
  \<open>lib/reciprocal_div.c\<close>.  A division by zero is \<open>None\<close>, and so is a loop that never ends.
\<close>

section \<open>Model\<close>

lemma sint_pos: "0 < sint (b :: u64) \<longleftrightarrow> b \<noteq> 0 \<and> unat b < 2 ^ 63"
proof (cases "unat b < 2 ^ 63")
  case True
  then have "sint b = int (unat b)" by (intro sint_small) simp
  then show ?thesis using True by (simp add: word_neq_0_conv word_less_def)
next
  case False
  then have "unat b div 2 ^ 63 = 1" using unsigned_less [of b] by (intro div_nat_eqI) auto
  then have "bit (unat b) 63" by (simp add: bit_iff_odd)
  then have "bit b 63" by (simp add: bit_unsigned_iff)
  then have "sint b < 0" using bit_last_iff [of b] by simp
  with False show ?thesis by auto
qed

function div64_scale :: "u64 \<Rightarrow> u64 \<Rightarrow> u64 \<Rightarrow> u64 \<times> u64" where
  "div64_scale rem b d = (if 0 < sint b \<and> b < rem then div64_scale rem (b + b) (d + d) else (b, d))"
  by pat_completeness auto
termination
proof (relation "measure (\<lambda>(rem, b, d). 2 ^ 64 - unat b)", simp, clarify)
  fix rem b d :: u64
  assume "0 < sint b"
  then have b: "0 < unat b" "unat b < 2 ^ 63" by (auto simp: sint_pos unat_gt_0 word_neq_0_conv)
  then have "unat (b + b) = unat b + unat b" by (intro unat_add_nowrap) simp
  with b show "((rem, b + b, d + d), rem, b, d) \<in> measure (\<lambda>(rem, b, d). 2 ^ 64 - unat b)" by simp
qed

function div64_reduce :: "u64 \<Rightarrow> u64 \<Rightarrow> u64 \<Rightarrow> u64 \<Rightarrow> u64 \<times> u64" where
  "div64_reduce rem res b d =
     (let (rem, res) = (if rem \<ge> b then (rem - b, res + d) else (rem, res));
          b = drop_bit 1 b; d = drop_bit 1 d
      in if d \<noteq> 0 then div64_reduce rem res b d else (res, rem))"
  by pat_completeness auto
termination
  by (relation "measure (\<lambda>(rem, res, b, d). unat d)")
    (auto simp: unat_div drop_bit_eq_div word_neq_0_conv word_less_nat_alt)

declare div64_scale.simps [simp del] div64_reduce.simps [simp del]

text \<open>The result is the new value of \<open>*n\<close> and the remainder.\<close>

definition raw_div64_32 :: "u64 \<Rightarrow> u32 \<Rightarrow> (u64 \<times> u32) option" where
  "raw_div64_32 n base =
     (if base = 0 then None
      else let high = ucast (drop_bit 32 n) :: u32;
               (res, rem) =
                 (if high \<ge> base
                  then let high = high div base
                       in (push_bit 32 (ucast high) :: u64, n - push_bit 32 (ucast (high * base)))
                  else (0, n));
               (b, d) = div64_scale rem (ucast base) 1;
               (res, rem) = div64_reduce rem res b d
           in Some (res, ucast rem))"

definition do_div :: "u64 \<Rightarrow> u32 \<Rightarrow> (u64 \<times> u32) option" where
  "do_div n base =
     (if drop_bit 32 n = 0
      then (if base = 0 then None else Some (ucast (ucast n div base :: u32), ucast n mod base))
      else raw_div64_32 n base)"

definition div_u64_rem :: "u64 \<Rightarrow> u32 \<Rightarrow> (u64 \<times> u32) option" where
  "div_u64_rem dividend divisor = do_div dividend divisor"

definition div_u64 :: "u64 \<Rightarrow> u32 \<Rightarrow> u64 option" where
  "div_u64 dividend divisor = do { (q, _) \<leftarrow> div_u64_rem dividend divisor; Some q }"

definition div_s64_rem :: "u64 \<Rightarrow> u32 \<Rightarrow> (u64 \<times> u32) option" where
  "div_s64_rem dividend divisor =
     (let a = (if sint divisor < 0 then - divisor else divisor)
      in if sint dividend < 0
         then do { (q, r) \<leftarrow> div_u64_rem (- dividend) a; Some (if sint divisor > 0 then - q else q, - r) }
         else do { (q, r) \<leftarrow> div_u64_rem dividend a; Some (if sint divisor < 0 then - q else q, r) })"

definition div64_u64 :: "u64 \<Rightarrow> u64 \<Rightarrow> u64 option" where
  "div64_u64 dividend divisor =
     (let high = ucast (drop_bit 32 divisor) :: u32
      in if high \<noteq> 0
         then let shift = nat (fls high) in div_u64 (drop_bit shift dividend) (ucast (drop_bit shift divisor))
         else div_u64 dividend (ucast divisor))"

definition div_s64 :: "u64 \<Rightarrow> u32 \<Rightarrow> u64 option" where
  "div_s64 dividend divisor = do { (q, _) \<leftarrow> div_s64_rem dividend divisor; Some q }"

text \<open>The loop does not end for a zero divisor: \<open>None\<close>.  The result is the quotient and \<open>*remainder\<close>.\<close>

partial_function (option) iter_div_loop :: "u64 \<Rightarrow> u32 \<Rightarrow> u32 \<Rightarrow> (u32 \<times> u64) option" where
  "iter_div_loop dividend divisor ret =
     (if dividend \<ge> ucast divisor then iter_div_loop (dividend - ucast divisor) divisor (ret + 1)
      else Some (ret, dividend))"

definition iter_div_u64_rem :: "u64 \<Rightarrow> u32 \<Rightarrow> (u32 \<times> u64) option" where
  "iter_div_u64_rem dividend divisor = iter_div_loop dividend divisor 0"

definition reciprocal_value :: "u32 \<Rightarrow> u32 option" where
  "reciprocal_value k = (if k = 0 then None else Some (ucast ((push_bit 32 1 + ucast (k - 1) :: u64) div ucast k)))"

definition reciprocal_divide :: "u32 \<Rightarrow> u32 \<Rightarrow> u32" where
  "reciprocal_divide a r = ucast (drop_bit 32 (ucast a * ucast r :: u64))"

section \<open>Division\<close>

lemma div64_scale_spec:
  assumes "unat b = base * 2 ^ j" and "unat d = 2 ^ j" and "0 < base"
  shows "\<exists>j' b' d'. div64_scale rem b d = (b', d') \<and> unat b' = base * 2 ^ j' \<and> unat d' = 2 ^ j' \<and> unat rem < 2 * unat b'"
  using assms(1,2)
proof (induction rem b d arbitrary: j rule: div64_scale.induct)
  case (1 rem b d)
  have pos: "0 < unat b" "unat d \<le> unat b" using 1(2,3) assms(3) by simp_all
  show ?case
  proof (cases "0 < sint b \<and> b < rem")
    case True
    then have b: "unat b < 2 ^ 63" by (simp add: sint_pos)
    have "unat (b + b) = unat b + unat b" by (rule unat_add_nowrap) (use b in simp)
    moreover have "unat (d + d) = unat d + unat d" by (rule unat_add_nowrap) (use b pos in simp)
    ultimately have "unat (b + b) = base * 2 ^ (j + 1)" "unat (d + d) = 2 ^ (j + 1)" using 1(2,3) by simp_all
    from 1(1) [OF True this] True show ?thesis by (subst (1) div64_scale.simps) simp
  next
    case False
    then have "unat rem \<le> unat b \<or> 2 ^ 63 \<le> unat b"
      using pos(1) by (auto simp: sint_pos word_less_nat_alt unat_gt_0 not_less)
    moreover have "unat rem < 2 ^ 64" using unsigned_less [of rem] by simp
    ultimately have "unat rem < 2 * unat b" using pos(1) by auto
    with False 1(2,3) show ?thesis by (subst (1) div64_scale.simps) auto
  qed
qed

lemma u32_less: "unat (x :: u32) < 2 ^ 32"
  using unsigned_less [of x] by simp

lemma unat_half: "unat (drop_bit (Suc 0) (x :: u64)) = unat x div 2"
  by (simp add: drop_bit_eq_div unat_div)

text \<open>One round subtracts the scaled divisor if it fits.\<close>

lemma div64_one:
  fixes b d res rem :: u64
  assumes "unat b = base * unat d" and "unat res * base + unat rem = n" and "n < 2 ^ 64" and "0 < base"
    and "unat rem < 2 * unat b" and "(if rem \<ge> b then (rem - b, res + d) else (rem, res)) = (rem', res')"
  shows "unat res' * base + unat rem' = n \<and> unat rem' < unat b"
proof (cases "rem \<ge> b")
  case True
  then have r: "rem' = rem - b" "res' = res + d" using assms(6) by auto
  have le: "unat b \<le> unat rem" using True by (simp add: word_le_nat_alt)
  have rem: "unat rem' = unat rem - unat b" unfolding r by (rule unat_sub [OF True])
  have "(unat res + unat d) * base \<le> n" using assms(1,2) le by (simp add: algebra_simps)
  moreover have "unat res + unat d \<le> (unat res + unat d) * base" using assms(4) by simp
  ultimately have "unat res + unat d < 2 ^ 64" using assms(3) by linarith
  then have "unat res' = unat res + unat d" unfolding r by (intro unat_add_nowrap) simp
  then have "unat res' * base + unat rem' = unat res * base + unat b + (unat rem - unat b)"
    using rem assms(1) by (simp add: algebra_simps)
  with le assms(2,5) rem show ?thesis by simp
next
  case False
  then show ?thesis using assms by (auto simp: word_le_nat_alt)
qed

lemma div64_reduce_spec:
  assumes "unat b = base * 2 ^ j" and "unat d = 2 ^ j" and "0 < base" and "unat rem < 2 * unat b"
    and "unat res * base + unat rem = n" and "n < 2 ^ 64"
  shows "\<exists>res' rem'. div64_reduce rem res b d = (res', rem') \<and> unat res' = n div base \<and> unat rem' = n mod base"
  using assms(1,2,4,5)
proof (induction j arbitrary: rem res b d)
  case (0 rem res b d)
  obtain rem' res' where s: "(if rem \<ge> b then (rem - b, res + d) else (rem, res)) = (rem', res')" by fastforce
  have st: "unat res' * base + unat rem' = n" "unat rem' < base"
    using div64_one [OF _ 0(4) assms(6,3) 0(3) s] 0(1,2) by simp_all
  have "drop_bit 1 d = 0" using 0(2) by (simp add: word_unat_eq_iff unat_half)
  then have "div64_reduce rem res b d = (res', rem')" by (subst div64_reduce.simps) (simp add: s)
  moreover have "n div base = unat res'" "n mod base = unat rem'"
    unfolding st(1) [symmetric] using st(2) by simp_all
  ultimately show ?case by simp
next
  case (Suc j rem res b d)
  obtain rem' res' where s: "(if rem \<ge> b then (rem - b, res + d) else (rem, res)) = (rem', res')" by fastforce
  have st: "unat res' * base + unat rem' = n" "unat rem' < unat b"
    using div64_one [OF _ Suc.prems(4) assms(6,3) Suc.prems(3) s] Suc.prems(1,2) by simp_all
  have b: "unat (drop_bit 1 b) = base * 2 ^ j" "unat (drop_bit 1 d) = 2 ^ j"
    using Suc.prems(1,2) by (simp_all add: unat_half)
  have "unat b = 2 * unat (drop_bit 1 b)" unfolding b(1) using Suc.prems(1) by simp
  then have rem: "unat rem' < 2 * unat (drop_bit 1 b)" using st(2) by simp
  have "drop_bit 1 d \<noteq> 0" using b(2) by (metis power_not_zero unsigned_0 zero_neq_numeral)
  then have "div64_reduce rem res b d = div64_reduce rem' res' (drop_bit 1 b) (drop_bit 1 d)"
    by (subst div64_reduce.simps) (simp add: s)
  with Suc.IH [OF b rem st(1)] show ?case by simp
qed

lemma unat_high: "unat (push_bit 32 (ucast (h :: u32)) :: u64) = unat h * 2 ^ 32"
proof -
  have "unat h < 2 ^ 32" by (rule u32_less)
  then show ?thesis by (simp add: push_bit_eq_mult unat_word_ariths)
qed

lemma unat_upper: "unat (ucast (drop_bit 32 (n :: u64)) :: u32) = unat n div 2 ^ 32"
proof -
  have "unat n < 2 ^ 64" using unsigned_less [of n] by simp
  then have "unat n div 2 ^ 32 < 2 ^ 32" by simp
  moreover have "unat (drop_bit 32 n) = unat n div 2 ^ 32" by (simp add: drop_bit_eq_div unat_div)
  ultimately show ?thesis by (simp add: unsigned_ucast_eq take_bit_nat_eq_self)
qed

lemma raw_div64_32_spec:
  assumes "base \<noteq> 0"
  shows "\<exists>q r. raw_div64_32 n base = Some (q, r) \<and> unat q = unat n div unat base \<and> unat r = unat n mod unat base"
proof -
  let ?h = "ucast (drop_bit 32 n) :: u32"
  have pos: "0 < unat base" using assms by (simp add: unat_gt_0)
  obtain res rem where s: "(if ?h \<ge> base
      then let high = ?h div base in (push_bit 32 (ucast high) :: u64, n - push_bit 32 (ucast (high * base)))
      else (0, n)) = (res, rem)" by fastforce
  have inv: "unat res * unat base + unat rem = unat n"
  proof (cases "?h \<ge> base")
    case True
    define q where "q = ?h div base"
    have q: "unat q = unat ?h div unat base" by (simp add: q_def unat_div)
    have le: "unat q * unat base \<le> unat ?h" unfolding q by (rule div_times_less_eq_dividend)
    then have "unat q * unat base < 2 ^ 32" using u32_less [of ?h] by linarith
    then have qb: "unat (q * base) = unat q * unat base" by (simp add: unat_word_ariths)
    have "unat q * unat base * 2 ^ 32 \<le> unat ?h * 2 ^ 32" by (rule mult_le_mono1 [OF le])
    also have "\<dots> \<le> unat n" unfolding unat_upper by (rule div_times_less_eq_dividend)
    finally have le2: "unat (push_bit 32 (ucast (q * base)) :: u64) \<le> unat n" by (simp only: unat_high qb)
    have r: "res = push_bit 32 (ucast q)" "rem = n - push_bit 32 (ucast (q * base))"
      using s True by (simp_all add: q_def Let_def)
    have "unat rem = unat n - unat q * unat base * 2 ^ 32"
      unfolding r(2) using le2 by (simp only: unat_sub word_le_nat_alt unat_high qb)
    moreover have "unat res * unat base = unat q * unat base * 2 ^ 32" unfolding r(1) unat_high by simp
    ultimately show ?thesis using le2 by (simp only: unat_high qb)
  qed (use s in simp)
  have "unat (ucast base :: u64) = unat base * 2 ^ 0" "unat (1 :: u64) = 2 ^ 0" by simp_all
  from div64_scale_spec [OF this pos, of rem] obtain j b d where
    sc: "div64_scale rem (ucast base) 1 = (b, d)" "unat b = unat base * 2 ^ j" "unat d = 2 ^ j" "unat rem < 2 * unat b" by blast
  have "unat n < 2 ^ 64" using unsigned_less [of n] by simp
  from div64_reduce_spec [OF sc(2,3) pos sc(4) inv this] obtain q r where
    red: "div64_reduce rem res b d = (q, r)" "unat q = unat n div unat base" "unat r = unat n mod unat base" by blast
  have "raw_div64_32 n base = Some (q, ucast r)"
    unfolding raw_div64_32_def using assms s sc(1) red(1) by (simp add: Let_def)
  moreover have "unat (ucast r :: u32) = unat r"
  proof -
    have "unat r < unat base" using red(3) pos by simp
    then have "unat r < 2 ^ 32" using u32_less [of base] by linarith
    then show ?thesis by (simp add: unsigned_ucast_eq take_bit_nat_eq_self)
  qed
  ultimately show ?thesis using red by simp
qed

lemma do_div_spec:
  assumes "base \<noteq> 0"
  shows "\<exists>q r. do_div n base = Some (q, r) \<and> unat q = unat n div unat base \<and> unat r = unat n mod unat base"
proof (cases "drop_bit 32 n = 0")
  case True
  then have "unat n div 2 ^ 32 = 0" using unat_upper [of n] by simp
  then have "unat n < 2 ^ 32" by (simp add: div_eq_0_iff)
  then have "unat (ucast n :: u32) = unat n" by (simp add: unsigned_ucast_eq take_bit_nat_eq_self)
  with True assms show ?thesis by (simp add: do_div_def unat_div unat_mod)
next
  case False
  then show ?thesis using raw_div64_32_spec [OF assms] by (simp add: do_div_def)
qed

subsection \<open>Signed division\<close>

lemma unat_abs:
  fixes x :: "'a :: len word"
  shows "unat (if sint x < 0 then - x else x) = nat \<bar>sint x\<bar>"
proof -
  have lo: "- (2 ^ (LENGTH('a) - 1)) \<le> sint x" using sint_greater_eq [of x] by simp
  have hi: "sint x < 2 ^ (LENGTH('a) - 1)" using sint_less [of x] by simp
  have "(2 :: int) ^ (LENGTH('a) - 1) < 2 ^ LENGTH('a)" by (rule power_strict_increasing) simp_all
  then have "\<bar>sint x\<bar> < 2 ^ LENGTH('a)" using lo hi by linarith
  then have "uint (word_of_int \<bar>sint x\<bar> :: 'a word) = \<bar>sint x\<bar>"
    by (simp add: uint_word_of_int)
  moreover have "(if sint x < 0 then - x else x) = word_of_int \<bar>sint x\<bar>"
    by (simp add: abs_if)
  ultimately show ?thesis by (simp add: unat_eq_nat_uint)
qed

lemma div_s64_rem_spec:
  assumes "divisor \<noteq> 0"
  shows "div_s64_rem dividend divisor
    = Some (word_of_int (sint dividend sdiv sint divisor), word_of_int (sint dividend smod sint divisor))"
proof -
  define a b where "a = (if sint dividend < 0 then - dividend else dividend)"
    and "b = (if sint divisor < 0 then - divisor else divisor)"
  define A B where "A = sint dividend" and "B = sint divisor"
  have ab: "int (unat a) = \<bar>A\<bar>" "int (unat b) = \<bar>B\<bar>"
    unfolding a_def b_def A_def B_def by (simp_all only: unat_abs int_nat_eq) simp_all
  have "b \<noteq> 0" using assms by (simp add: b_def)
  from do_div_spec [OF this, of a] obtain q r where
    qr: "do_div a b = Some (q, r)" "unat q = unat a div unat b" "unat r = unat a mod unat b" by blast
  have q: "q = word_of_int (\<bar>A\<bar> div \<bar>B\<bar>)" and r: "r = word_of_int (\<bar>A\<bar> mod \<bar>B\<bar>)"
    unfolding ab [symmetric] of_nat_div [symmetric] of_nat_mod [symmetric] qr(2,3) [symmetric] by simp_all
  have B0: "B \<noteq> 0" using assms by (simp add: B_def signed_eq_0_iff)
  have run: "div_s64_rem dividend divisor
      = Some (if (A < 0) = (B < 0) then q else - q, if A < 0 then - r else r)"
    unfolding div_s64_rem_def Let_def div_u64_rem_def
    using qr(1) B0 by (auto simp: a_def b_def A_def [symmetric] B_def [symmetric])
  have "A sdiv B = (if (A < 0) = (B < 0) then \<bar>A\<bar> div \<bar>B\<bar> else - (\<bar>A\<bar> div \<bar>B\<bar>))"
    "A smod B = (if A < 0 then - (\<bar>A\<bar> mod \<bar>B\<bar>) else \<bar>A\<bar> mod \<bar>B\<bar>)"
    using B0 by (auto simp: signed_divide_int_def signed_modulo_int_def sgn_if)
  then show ?thesis unfolding run A_def [symmetric] B_def [symmetric] q r by simp
qed

section \<open>Reciprocals\<close>

lemma reciprocal_exact:
  fixes A B R e :: nat
  assumes "R * B = 2 ^ 32 + e" and "A * e < 2 ^ 32" and "0 < B"
  shows "A * R div 2 ^ 32 = A div B"
proof (rule div_nat_eqI)
  define q m where "q = A div B" and "m = A mod B"
  have A: "A = q * B + m" "m < B" using assms(3) by (simp_all add: q_def m_def)
  have AR: "A * R * B = A * 2 ^ 32 + A * e" using assms(1) by (simp add: mult.assoc distrib_left)
  have "q * 2 ^ 32 * B \<le> A * R * B" unfolding AR using A(1) by (simp add: algebra_simps)
  then have "q * 2 ^ 32 \<le> A * R" using assms(3) by simp
  then show "2 ^ 32 * (A div B) \<le> A * R" by (simp add: q_def mult.commute)
  have "A * R * B < A * 2 ^ 32 + 2 ^ 32" unfolding AR using assms(2) by simp
  also have "\<dots> = (A + 1) * 2 ^ 32" by simp
  also have "\<dots> \<le> (q + 1) * B * 2 ^ 32" using A by simp
  also have "\<dots> = (q + 1) * 2 ^ 32 * B" by (simp only: mult_ac)
  finally have "A * R < (q + 1) * 2 ^ 32" unfolding mult_less_cancel2 by blast
  then show "A * R < 2 ^ 32 * Suc (A div B)" by (simp add: q_def mult.commute)
qed

lemma reciprocal_value_spec:
  assumes "2 \<le> unat b"
  shows "\<exists>r e. reciprocal_value b = Some r \<and> unat r * unat b = 2 ^ 32 + e \<and> e < unat b"
proof -
  let ?B = "unat b"
  have b0: "b \<noteq> 0" using assms by auto
  have "unat (b - 1) = ?B - 1" using assms by (intro unat_sub_1) simp
  then have "unat (ucast (b - 1) :: u64) = ?B - 1" by simp
  moreover have "?B < 2 ^ 32" by (rule u32_less)
  ultimately have num: "unat (push_bit 32 1 + ucast (b - 1) :: u64) = 2 ^ 32 + (?B - 1)"
    using unat_add_nowrap [of "push_bit 32 1" "ucast (b - 1) :: u64"] by simp
  define v where "v = (push_bit 32 1 + ucast (b - 1) :: u64) div ucast b"
  have v: "unat v = (2 ^ 32 + (?B - 1)) div ?B" unfolding v_def unat_div num by simp
  have "2 ^ 32 + (?B - 1) < 2 ^ 32 * ?B"
  proof -
    have "?B - 1 < 2 ^ 32 * (?B - 1)" using assms by simp
    then show ?thesis using assms by (simp add: algebra_simps diff_mult_distrib2)
  qed
  then have "unat v < 2 ^ 32" unfolding v using assms by (intro less_mult_imp_div_less) simp
  then have r: "unat (ucast v :: u32) = unat v" by (simp add: unsigned_ucast_eq take_bit_nat_eq_self)
  have "unat v * ?B + (2 ^ 32 + (?B - 1)) mod ?B = 2 ^ 32 + (?B - 1)" unfolding v by simp
  moreover have "(2 ^ 32 + (?B - 1)) mod ?B < ?B" using assms by simp
  ultimately have "unat v * ?B = 2 ^ 32 + (?B - 1 - (2 ^ 32 + (?B - 1)) mod ?B)" by linarith
  moreover have "reciprocal_value b = Some (ucast v)" using b0 by (simp add: reciprocal_value_def v_def)
  ultimately show ?thesis using r assms by (intro exI [of _ "ucast v"] exI [of _ "?B - 1 - (2 ^ 32 + (?B - 1)) mod ?B"]) auto
qed

lemma reciprocal_divide_spec:
  assumes "unat a * unat r div 2 ^ 32 < 2 ^ 32"
  shows "unat (reciprocal_divide a r) = unat a * unat r div 2 ^ 32"
proof -
  have "unat a * unat r < 2 ^ 32 * 2 ^ 32" by (rule mult_strict_mono) (use u32_less [of a] u32_less [of r] in simp_all)
  then have "unat (ucast a * ucast r :: u64) = unat a * unat r" by (simp add: unat_word_ariths)
  then have "unat (drop_bit 32 (ucast a * ucast r :: u64)) = unat a * unat r div 2 ^ 32"
    by (simp add: drop_bit_eq_div unat_div)
  with assms show ?thesis by (simp add: reciprocal_divide_def unsigned_ucast_eq take_bit_nat_eq_self)
qed

section \<open>Iterated subtraction\<close>

lemma iter_div_loop_spec:
  assumes "divisor \<noteq> 0"
  shows "\<exists>rem. iter_div_loop dividend divisor ret = Some (ret + of_nat (unat dividend div unat divisor), rem)
    \<and> unat rem = unat dividend mod unat divisor"
proof (induction "unat dividend" arbitrary: dividend ret rule: less_induct)
  case less
  let ?d = "ucast divisor :: u64"
  have d: "unat ?d = unat divisor" "0 < unat divisor" using assms by (simp_all add: unat_gt_0)
  show ?case
  proof (cases "?d \<le> dividend")
    case True
    then have sub: "unat (dividend - ?d) = unat dividend - unat divisor" and le: "unat divisor \<le> unat dividend"
      by (simp_all add: unat_sub word_le_nat_alt)
    then have "unat (dividend - ?d) < unat dividend" using d(2) by simp
    from less [OF this, of "ret + 1"] show ?thesis
      using True le d(2) sub by (subst iter_div_loop.simps) (simp add: le_div_geq le_mod_geq add.assoc)
  next
    case False
    then have "unat dividend < unat divisor" using d by (simp add: word_le_nat_alt)
    with False show ?thesis by (subst iter_div_loop.simps) simp
  qed
qed

lemma iter_div_loop_0: "iter_div_loop dividend 0 ret = None"
proof -
  have "divisor \<noteq> 0" if "iter_div_loop dividend divisor ret = Some p" for divisor p
    by (rule iter_div_loop.raw_induct [OF _ that]) (auto split: if_splits)
  then show ?thesis by (cases "iter_div_loop dividend 0 ret") auto
qed

section \<open>Division by 64-bit divisors\<close>

text \<open>The divisor \<open>D + e\<close> is rounded down to \<open>D\<close>, a multiple of \<open>2 ^ s\<close>: the quotient grows by one at most.\<close>

lemma rounded_divisor_error:
  fixes D e s :: nat
  assumes "2 \<le> s" and "e < 2 ^ s" and "2 ^ (31 + s) \<le> D"
  shows "4 * (2 ^ 64 * e) \<le> 3 * (D * D)" and "4 * e \<le> D"
proof -
  have DD: "2 ^ (31 + s) * 2 ^ (31 + s) \<le> D * D" using assms(3) by (intro mult_le_mono)
  show "4 * (2 ^ 64 * e) \<le> 3 * (D * D)"
  proof (cases "s = 2")
    case True
    then have "e \<le> 3" using assms(2) by simp
    with True DD show ?thesis by simp
  next
    case False
    with assms(1) have "66 + s \<le> 63 + 2 * s" by simp
    then have "(2 :: nat) ^ (66 + s) \<le> 2 ^ (63 + 2 * s)" by (intro power_increasing) simp_all
    moreover have "(2 :: nat) ^ (63 + 2 * s) = 2 * (2 ^ (31 + s) * 2 ^ (31 + s))"
      unfolding power_add [symmetric] power_Suc [symmetric] by (rule arg_cong) simp
    moreover have "4 * (2 ^ 64 * e) \<le> 2 ^ (66 + s)" using assms(2) by (simp add: power_add)
    ultimately show ?thesis using DD by linarith
  qed
  have "4 * e \<le> 2 ^ (2 + s)" using assms(2) by (simp add: power_add)
  also have "\<dots> \<le> 2 ^ (31 + s)" by (rule power_increasing) simp_all
  finally show "4 * e \<le> D" using assms(3) by simp
qed

lemma rounded_divisor_step:
  fixes q D e N :: nat
  assumes "q * D < N" and "4 * (N * e) \<le> 3 * (D * D)" and "4 * e \<le> D"
  shows "(q + 1) * e \<le> D"
proof (rule ccontr)
  assume "\<not> (q + 1) * e \<le> D"
  then have "D + 1 \<le> (q + 1) * e" by simp
  then have "(D + 1) * D \<le> (q + 1) * e * D" by (rule mult_le_mono) simp
  also have "\<dots> = (q * D) * e + e * D" by (simp add: algebra_simps)
  also have "\<dots> \<le> N * e + e * D" using assms(1) by simp
  finally have "4 * (D * D) + 4 * D \<le> 4 * (N * e) + (4 * e) * D" by simp
  moreover have "(4 * e) * D \<le> D * D" using assms(3) by (rule mult_le_mono) simp
  moreover have "0 < D"
  proof (rule ccontr)
    assume "\<not> 0 < D"
    then show False using assms(3) \<open>D + 1 \<le> (q + 1) * e\<close> by simp
  qed
  ultimately show False using assms(2) by linarith
qed

lemma rounded_divisor:
  fixes A D e s :: nat
  assumes "A < 2 ^ 64" and "e < 2 ^ s" and "2 ^ (31 + s) \<le> D" and "0 < s"
  shows "A div (D + e) \<le> A div D" and "A div D \<le> A div (D + e) + 1"
proof -
  have D0: "0 < D" using assms(3) by (rule less_le_trans [rotated]) simp
  show "A div (D + e) \<le> A div D" using D0 by (intro div_le_mono2) simp_all
  define q where "q = A div (D + e)"
  have "q * (D + e) \<le> A" by (simp add: q_def)
  then have qA: "q * D + q * e < 2 ^ 64" using assms(1) by (simp only: distrib_left)
  have "(q + 1) * e \<le> D"
  proof (cases "s = 1")
    case True
    then have e: "e = 0 \<or> e = 1" and D: "2 ^ 32 \<le> D" using assms(2,3) by auto
    have "q < D"
    proof (rule ccontr)
      assume "\<not> q < D"
      then show False using qA mult_le_mono [of "2 ^ 32" q "2 ^ 32" D] D by simp
    qed
    with e show ?thesis by auto
  next
    case False
    with assms(4) have "2 \<le> s" by simp
    then have "4 * (2 ^ 64 * e) \<le> 3 * (D * D)" "4 * e \<le> D" using rounded_divisor_error assms(2,3) by blast+
    then show ?thesis using rounded_divisor_step qA by (metis add_lessD1)
  qed
  then have "(q + 1) * (D + e) \<le> (q + 2) * D" by (simp add: algebra_simps)
  moreover have "A < (q + 1) * (D + e)" using D0 dividend_less_div_times [of "D + e" A] by (simp add: q_def algebra_simps)
  ultimately have "A < (q + 2) * D" by linarith
  then have "A div D < q + 2" by (simp add: less_mult_imp_div_less)
  then show "A div D \<le> A div (D + e) + 1" by (simp add: q_def)
qed

lemma div_u64_spec: "d \<noteq> 0 \<Longrightarrow> \<exists>q. div_u64 n d = Some q \<and> unat q = unat n div unat d"
  using do_div_spec [of d n] by (auto simp: div_u64_def div_u64_rem_def)

lemma unat_shift_right: "unat (drop_bit s w) = unat w div 2 ^ s"
  unfolding unat_drop_bit_eq by (simp add: drop_bit_eq_div)

lemma div64_u64_spec:
  assumes "divisor \<noteq> 0"
  shows "\<exists>q. div64_u64 dividend divisor = Some q
    \<and> unat q \<in> {unat dividend div unat divisor .. unat dividend div unat divisor + of_bool (2 ^ 32 \<le> unat divisor)}"
proof (cases "(ucast (drop_bit 32 divisor) :: u32) = 0")
  case True
  then have "unat divisor div 2 ^ 32 = 0" using unat_upper [of divisor] by simp
  then have small: "unat divisor < 2 ^ 32" by (simp add: div_eq_0_iff)
  then have "unat (ucast divisor :: u32) = unat divisor" by (simp add: unsigned_ucast_eq take_bit_nat_eq_self)
  moreover from this have "(ucast divisor :: u32) \<noteq> 0" using assms by (metis unat_0 unat_eq_zero)
  ultimately show ?thesis using div_u64_spec [of "ucast divisor" dividend] True small
    by (auto simp: div64_u64_def)
next
  case False
  define high where "high = (ucast (drop_bit 32 divisor) :: u32)"
  define s where "s = nat (fls high)"
  define A B where "A = unat dividend" and "B = unat divisor"
  have high: "unat high = B div 2 ^ 32" unfolding high_def B_def by (rule unat_upper)
  have "is_log2 (unat high) (s - 1)" and s: "0 < s"
    using fls_spec [of high] False is_msb_log2 [of high] by (auto simp: high_def [symmetric] s_def nat_diff_distrib)
  then have lo: "2 ^ (s - 1) \<le> B div 2 ^ 32" and hi: "B div 2 ^ 32 < 2 ^ s" using s by (auto simp: is_log2_def high)
  have B: "2 ^ (31 + s) \<le> B"
  proof -
    have "(2 :: nat) ^ (31 + s) = 2 ^ (s - 1) * 2 ^ 32" unfolding power_add [symmetric] using s by simp
    also have "\<dots> \<le> B" using lo by (simp add: less_eq_div_iff_mult_less_eq)
    finally show ?thesis .
  qed
  define d where "d = (ucast (drop_bit s divisor) :: u32)"
  have "B < 2 ^ 32 * 2 ^ s" using hi by (simp add: div_less_iff_less_mult mult.commute)
  then have "B div 2 ^ s < 2 ^ 32" by (rule less_mult_imp_div_less)
  then have d: "unat d = B div 2 ^ s"
    unfolding d_def B_def by (simp add: unsigned_ucast_eq take_bit_nat_eq_self unat_shift_right)
  have d31: "2 ^ 31 \<le> unat d" unfolding d using B by (simp add: less_eq_div_iff_mult_less_eq power_add)
  then have "d \<noteq> 0" by auto
  from div_u64_spec [OF this, of "drop_bit s dividend"] obtain q where
    q: "div_u64 (drop_bit s dividend) d = Some q" "unat q = A div 2 ^ s div unat d"
    by (auto simp: A_def unat_shift_right)
  have "2 ^ (31 + s) \<le> 2 ^ s * unat d" using d31 by (simp add: power_add)
  moreover have "2 ^ s * unat d + B mod 2 ^ s = B" unfolding d by simp
  moreover have "A < 2 ^ 64" using unsigned_less [of dividend] by (simp add: A_def)
  ultimately have "A div B \<le> A div (2 ^ s * unat d) \<and> A div (2 ^ s * unat d) \<le> A div B + 1"
    using rounded_divisor [of A "B mod 2 ^ s" s "2 ^ s * unat d"] s by simp
  moreover have "2 ^ 32 \<le> B" using B power_increasing [of 32 "31 + s" "2 :: nat"] s by simp
  moreover have "div64_u64 dividend divisor = Some q"
    using False q(1) by (simp add: div64_u64_def Let_def high_def [symmetric] s_def [symmetric] d_def [symmetric])
  ultimately show ?thesis using q(2) by (simp add: div_mult2_eq A_def B_def)
qed

section \<open>Properties\<close>

text \<open>
  C26.  Every 64-bit division returns for a nonzero divisor.  \<open>do_div\<close> and \<open>iter_div_u64_rem\<close> compute quotient and
  remainder, \<open>div_s64_rem\<close> divides signed numbers with rounding towards zero, and \<open>div64_u64\<close> is exact for divisors
  below \<open>2 ^ 32\<close> and otherwise exceeds the quotient by one at most.\<close>

theorem int_division_ok:
  assumes "base \<noteq> 0" and "divisor \<noteq> 0"
  shows "(\<exists>q r. do_div n base = Some (q, r) \<and> unat q = unat n div unat base \<and> unat r = unat n mod unat base)
    \<and> (\<exists>r. iter_div_u64_rem n base = Some (of_nat (unat n div unat base), r) \<and> unat r = unat n mod unat base)
    \<and> div_s64_rem n base = Some (word_of_int (sint n sdiv sint base), word_of_int (sint n smod sint base))
    \<and> (\<exists>q. div64_u64 n divisor = Some q
      \<and> unat q \<in> {unat n div unat divisor .. unat n div unat divisor + of_bool (2 ^ 32 \<le> unat divisor)})"
  using do_div_spec [OF assms(1)] iter_div_loop_spec [OF assms(1), of n 0] div_s64_rem_spec [OF assms(1)]
    div64_u64_spec [OF assms(2)]
  by (simp add: iter_div_u64_rem_def)

theorem int_division_ok_witness:
  "\<exists>q r. do_div 0x700000005 7 = Some (q, r) \<and> unat q = 4294967296 \<and> unat r = 5"
  using int_division_ok [of 7 1 "0x700000005"] by simp

text \<open>The quotient of \<open>div64_u64\<close> can really be one too large.\<close>

lemma div64_u64_inexact: "div64_u64 0x1FFFFFFFE 0x1FFFFFFFF = Some 1"
proof -
  have "fls (1 :: u32) = 1" by (simp add: fls_def)
  then have "div64_u64 0x1FFFFFFFE 0x1FFFFFFFF = div_u64 0xFFFFFFFF 0xFFFFFFFF" by (simp add: div64_u64_def)
  also have "\<dots> = Some 1" by (simp add: div_u64_def div_u64_rem_def do_div_def)
  finally show ?thesis .
qed

lemma reciprocal_near:
  fixes A B R e :: nat
  assumes "R * B = 2 ^ 32 + e" and "A < 2 ^ 32" and "e < B"
  shows "A div B \<le> A * R div 2 ^ 32" and "A * R div 2 ^ 32 \<le> A div B + 1"
proof -
  have AR: "A * R * B = A * 2 ^ 32 + A * e" using assms(1) by (simp add: mult.assoc distrib_left)
  have B: "0 < B" using assms(3) by simp
  have "A div B * 2 ^ 32 * B = A div B * B * 2 ^ 32" by (simp only: mult_ac)
  also have "\<dots> \<le> A * 2 ^ 32" by (rule mult_le_mono1) simp
  also have "\<dots> \<le> A * R * B" unfolding AR by simp
  finally show "A div B \<le> A * R div 2 ^ 32" using B by (simp add: less_eq_div_iff_mult_less_eq)
  have "A * e \<le> 2 ^ 32 * B" using assms(2,3) by (intro mult_le_mono) simp_all
  moreover have "A * 2 ^ 32 < (A div B + 1) * B * 2 ^ 32"
    using dividend_less_div_times [OF B, of A] by (simp add: algebra_simps)
  ultimately have "A * R * B < (A div B + 2) * 2 ^ 32 * B" unfolding AR by (simp add: algebra_simps)
  then have "A * R < (A div B + 2) * 2 ^ 32" unfolding mult_less_cancel2 by blast
  then have "A * R div 2 ^ 32 < A div B + 2" by (rule less_mult_imp_div_less)
  then show "A * R div 2 ^ 32 \<le> A div B + 1" by simp
qed

text \<open>
  Multiplication by the reciprocal of a divisor of at least 2 gives the quotient when the dividend times the
  divisor minus one is below \<open>2 ^ 32\<close>, and otherwise the quotient or one more.\<close>

theorem reciprocal_divide_ok:
  assumes "2 \<le> unat b"
  shows "\<exists>r. reciprocal_value b = Some r
    \<and> unat (reciprocal_divide a r) \<in> {unat a div unat b .. unat a div unat b + 1}
    \<and> (unat a * (unat b - 1) < 2 ^ 32 \<longrightarrow> reciprocal_divide a r = a div b)"
proof -
  obtain r e where r: "reciprocal_value b = Some r" "unat r * unat b = 2 ^ 32 + e" "e < unat b"
    using reciprocal_value_spec [OF assms] by blast
  note near = reciprocal_near [OF r(2) u32_less r(3), of a]
  have "unat a div unat b + 1 < 2 ^ 32"
    using div_le_mono2 [of 2 "unat b" "unat a"] assms u32_less [of a] by simp
  with near(2) have run: "unat (reciprocal_divide a r) = unat a * unat r div 2 ^ 32"
    by (intro reciprocal_divide_spec) simp
  have "reciprocal_divide a r = a div b" if "unat a * (unat b - 1) < 2 ^ 32"
  proof -
    have "unat a * e < 2 ^ 32" using that r(3) mult_le_mono [of "unat a" "unat a" e "unat b - 1"] by linarith
    from reciprocal_exact [OF r(2) this] assms run have "unat (reciprocal_divide a r) = unat a div unat b" by simp
    then show ?thesis by (simp add: word_unat_eq_iff unat_div)
  qed
  with r(1) run near show ?thesis by auto
qed

theorem reciprocal_divide_ok_witness:
  "\<exists>r. reciprocal_value 10 = Some r \<and> reciprocal_divide 1234567 r = 123456"
  using reciprocal_divide_ok [of 10 1234567] by auto

text \<open>The header promises the quotient for all pairs; it is wrong for the divisor 1 and for large dividends.\<close>

lemma reciprocal_divide_wrong:
  "map_option (reciprocal_divide 7) (reciprocal_value 1) = Some 0"
  "map_option (reciprocal_divide 4294967294) (reciprocal_value 5) = Some 858993459"
  "4294967294 div 5 = (858993458 :: u32)"
  by (simp_all add: reciprocal_value_def reciprocal_divide_def)

end
