(* ===== verification/C_String.thy ===== *)
theory C_String
  imports Kernel_Prelude
begin

text \<open>
  The string and memory functions of \<open>lib/string.c\<close> with the character classes of \<open>lib/ctype.c\<close>.

  Memory is one array of bytes and a pointer is an index into it, so areas may overlap as they may in C; an access
  beyond the array is a fault (\<open>None\<close>).  A pointer that may be \<open>NULL\<close> has type \<open>nat option\<close>.  A \<open>size_t\<close> that is
  only counted down to zero is a \<open>nat\<close>; the one of \<open>strncasecmp\<close>, which wraps around, is a word.
\<close>

type_synonym memory = "u8 list"

section \<open>Character classes\<close>

definition ct_U :: u8 where "ct_U = 0x01"
definition ct_L :: u8 where "ct_L = 0x02"
definition ct_D :: u8 where "ct_D = 0x04"
definition ct_C :: u8 where "ct_C = 0x08"
definition ct_P :: u8 where "ct_P = 0x10"
definition ct_S :: u8 where "ct_S = 0x20"
definition ct_X :: u8 where "ct_X = 0x40"
definition ct_SP :: u8 where "ct_SP = 0x80"

definition ctype_table :: "u8 list" where
  "ctype_table =
  [ct_C, ct_C, ct_C, ct_C, ct_C, ct_C, ct_C, ct_C,
   ct_C, ct_C OR ct_S, ct_C OR ct_S, ct_C OR ct_S, ct_C OR ct_S, ct_C OR ct_S, ct_C, ct_C,
   ct_C, ct_C, ct_C, ct_C, ct_C, ct_C, ct_C, ct_C,
   ct_C, ct_C, ct_C, ct_C, ct_C, ct_C, ct_C, ct_C,
   ct_S OR ct_SP, ct_P, ct_P, ct_P, ct_P, ct_P, ct_P, ct_P,
   ct_P, ct_P, ct_P, ct_P, ct_P, ct_P, ct_P, ct_P,
   ct_D, ct_D, ct_D, ct_D, ct_D, ct_D, ct_D, ct_D,
   ct_D, ct_D, ct_P, ct_P, ct_P, ct_P, ct_P, ct_P,
   ct_P, ct_U OR ct_X, ct_U OR ct_X, ct_U OR ct_X, ct_U OR ct_X, ct_U OR ct_X, ct_U OR ct_X, ct_U,
   ct_U, ct_U, ct_U, ct_U, ct_U, ct_U, ct_U, ct_U,
   ct_U, ct_U, ct_U, ct_U, ct_U, ct_U, ct_U, ct_U,
   ct_U, ct_U, ct_U, ct_P, ct_P, ct_P, ct_P, ct_P,
   ct_P, ct_L OR ct_X, ct_L OR ct_X, ct_L OR ct_X, ct_L OR ct_X, ct_L OR ct_X, ct_L OR ct_X, ct_L,
   ct_L, ct_L, ct_L, ct_L, ct_L, ct_L, ct_L, ct_L,
   ct_L, ct_L, ct_L, ct_L, ct_L, ct_L, ct_L, ct_L,
   ct_L, ct_L, ct_L, ct_P, ct_P, ct_P, ct_P, ct_C,
   0, 0, 0, 0, 0, 0, 0, 0, 0, 0, 0, 0, 0, 0, 0, 0,
   0, 0, 0, 0, 0, 0, 0, 0, 0, 0, 0, 0, 0, 0, 0, 0,
   ct_S OR ct_SP, ct_P, ct_P, ct_P, ct_P, ct_P, ct_P, ct_P, ct_P, ct_P, ct_P, ct_P, ct_P, ct_P, ct_P, ct_P,
   ct_P, ct_P, ct_P, ct_P, ct_P, ct_P, ct_P, ct_P, ct_P, ct_P, ct_P, ct_P, ct_P, ct_P, ct_P, ct_P,
   ct_U, ct_U, ct_U, ct_U, ct_U, ct_U, ct_U, ct_U, ct_U, ct_U, ct_U, ct_U, ct_U, ct_U, ct_U, ct_U,
   ct_U, ct_U, ct_U, ct_U, ct_U, ct_U, ct_U, ct_P, ct_U, ct_U, ct_U, ct_U, ct_U, ct_U, ct_U, ct_L,
   ct_L, ct_L, ct_L, ct_L, ct_L, ct_L, ct_L, ct_L, ct_L, ct_L, ct_L, ct_L, ct_L, ct_L, ct_L, ct_L,
   ct_L, ct_L, ct_L, ct_L, ct_L, ct_L, ct_L, ct_P, ct_L, ct_L, ct_L, ct_L, ct_L, ct_L, ct_L, ct_L]"

definition raw_ismask :: "u8 \<Rightarrow> u8" where
  "raw_ismask x = ctype_table ! unat x"

definition isalnum :: "u8 \<Rightarrow> bool" where "isalnum c \<longleftrightarrow> raw_ismask c AND (ct_U OR ct_L OR ct_D) \<noteq> 0"
definition isalpha :: "u8 \<Rightarrow> bool" where "isalpha c \<longleftrightarrow> raw_ismask c AND (ct_U OR ct_L) \<noteq> 0"
definition iscntrl :: "u8 \<Rightarrow> bool" where "iscntrl c \<longleftrightarrow> raw_ismask c AND ct_C \<noteq> 0"
definition isdigit :: "u8 \<Rightarrow> bool" where "isdigit c \<longleftrightarrow> raw_ismask c AND ct_D \<noteq> 0"
definition isgraph :: "u8 \<Rightarrow> bool" where "isgraph c \<longleftrightarrow> raw_ismask c AND (ct_P OR ct_U OR ct_L OR ct_D) \<noteq> 0"
definition islower :: "u8 \<Rightarrow> bool" where "islower c \<longleftrightarrow> raw_ismask c AND ct_L \<noteq> 0"
definition isprint :: "u8 \<Rightarrow> bool" where
  "isprint c \<longleftrightarrow> raw_ismask c AND (ct_P OR ct_U OR ct_L OR ct_D OR ct_SP) \<noteq> 0"
definition ispunct :: "u8 \<Rightarrow> bool" where "ispunct c \<longleftrightarrow> raw_ismask c AND ct_P \<noteq> 0"
definition isspace :: "u8 \<Rightarrow> bool" where "isspace c \<longleftrightarrow> raw_ismask c AND ct_S \<noteq> 0"
definition isupper :: "u8 \<Rightarrow> bool" where "isupper c \<longleftrightarrow> raw_ismask c AND ct_U \<noteq> 0"
definition isxdigit :: "u8 \<Rightarrow> bool" where "isxdigit c \<longleftrightarrow> raw_ismask c AND (ct_D OR ct_X) \<noteq> 0"
definition isascii :: "u8 \<Rightarrow> bool" where "isascii c \<longleftrightarrow> c \<le> 0x7f"
definition toascii :: "u8 \<Rightarrow> u8" where "toascii c = c AND 0x7f"

definition tolower :: "u8 \<Rightarrow> u8" where
  "tolower c = (if isupper c then c - (0x41 - 0x61) else c)"

definition toupper :: "u8 \<Rightarrow> u8" where
  "toupper c = (if islower c then c - (0x61 - 0x41) else c)"

section \<open>Lengths and searches\<close>

function strlen_loop :: "memory \<Rightarrow> nat \<Rightarrow> nat option" where
  "strlen_loop mem sc = do { c \<leftarrow> aget mem sc; if c \<noteq> 0 then strlen_loop mem (sc + 1) else Some sc }"
  by pat_completeness auto
termination
  by (relation "measure (\<lambda>(mem, sc). length mem - sc)") (auto simp: aget_eq_Some_iff)

definition strlen :: "memory \<Rightarrow> nat \<Rightarrow> nat option" where
  "strlen mem s = do { sc \<leftarrow> strlen_loop mem s; Some (sc - s) }"

fun strnlen_loop :: "memory \<Rightarrow> nat \<Rightarrow> nat \<Rightarrow> nat option" where
  "strnlen_loop mem sc 0 = Some sc"
| "strnlen_loop mem sc (Suc cnt) =
     do { c \<leftarrow> aget mem sc; if c \<noteq> 0 then strnlen_loop mem (sc + 1) cnt else Some sc }"

definition strnlen :: "memory \<Rightarrow> nat \<Rightarrow> nat \<Rightarrow> nat option" where
  "strnlen mem s cnt = do { sc \<leftarrow> strnlen_loop mem s cnt; Some (sc - s) }"

function strchr_loop :: "memory \<Rightarrow> nat \<Rightarrow> u8 \<Rightarrow> nat option option" where
  "strchr_loop mem s c =
     do { x \<leftarrow> aget mem s;
          if x \<noteq> c then (if x = 0 then Some None else strchr_loop mem (s + 1) c) else Some (Some s) }"
  by pat_completeness auto
termination
  by (relation "measure (\<lambda>(mem, s, c). length mem - s)") (auto simp: aget_eq_Some_iff)

definition strchr :: "memory \<Rightarrow> nat \<Rightarrow> int \<Rightarrow> nat option option" where
  "strchr mem s c = strchr_loop mem s (word_of_int c)"

function strrchr_loop :: "memory \<Rightarrow> nat \<Rightarrow> nat \<Rightarrow> u8 \<Rightarrow> nat option option" where
  "strrchr_loop mem s p c =
     do { x \<leftarrow> aget mem p;
          if x = c then Some (Some p) else if p > s then strrchr_loop mem s (p - 1) c else Some None }"
  by pat_completeness auto
termination
  by (relation "measure (\<lambda>(mem, s, p, c). p)") auto

definition strrchr :: "memory \<Rightarrow> nat \<Rightarrow> int \<Rightarrow> nat option option" where
  "strrchr mem s c = do { n \<leftarrow> strlen mem s; strrchr_loop mem s (s + n) (word_of_int c) }"

fun strnchr_loop :: "memory \<Rightarrow> nat \<Rightarrow> nat \<Rightarrow> u8 \<Rightarrow> nat option option" where
  "strnchr_loop mem s 0 c = Some None"
| "strnchr_loop mem s (Suc cnt) c =
     do { x \<leftarrow> aget mem s;
          if x \<noteq> 0 then (if x = c then Some (Some s) else strnchr_loop mem (s + 1) cnt c) else Some None }"

definition strnchr :: "memory \<Rightarrow> nat \<Rightarrow> nat \<Rightarrow> int \<Rightarrow> nat option option" where
  "strnchr mem s cnt c = strnchr_loop mem s cnt (word_of_int c)"

function skip_spaces :: "memory \<Rightarrow> nat \<Rightarrow> nat option" where
  "skip_spaces mem str = do { c \<leftarrow> aget mem str; if isspace c then skip_spaces mem (str + 1) else Some str }"
  by pat_completeness auto
termination
  by (relation "measure (\<lambda>(mem, str). length mem - str)") (auto simp: aget_eq_Some_iff)

text \<open>The inner loop of \<open>strspn\<close> stops at the character or at the end of \<open>accept\<close>.\<close>

function strspn_inner :: "memory \<Rightarrow> u8 \<Rightarrow> nat \<Rightarrow> nat option" where
  "strspn_inner mem p a =
     do { x \<leftarrow> aget mem a; if x \<noteq> 0 \<and> p \<noteq> x then strspn_inner mem p (a + 1) else Some a }"
  by pat_completeness auto
termination
  by (relation "measure (\<lambda>(mem, p, a). length mem - a)") (auto simp: aget_eq_Some_iff)

function strspn_loop :: "memory \<Rightarrow> nat \<Rightarrow> nat \<Rightarrow> nat \<Rightarrow> nat option" where
  "strspn_loop mem p accept cnt =
     do { c \<leftarrow> aget mem p;
          if c \<noteq> 0
          then do { a \<leftarrow> strspn_inner mem c accept;
                    x \<leftarrow> aget mem a;
                    if x = 0 then Some cnt else strspn_loop mem (p + 1) accept (cnt + 1) }
          else Some cnt }"
  by pat_completeness auto
termination
  by (relation "measure (\<lambda>(mem, p, accept, cnt). length mem - p)") (auto simp: aget_eq_Some_iff)

definition strspn :: "memory \<Rightarrow> nat \<Rightarrow> nat \<Rightarrow> nat option" where
  "strspn mem s accept = strspn_loop mem s accept 0"

text \<open>The inner loop that \<open>strcspn\<close> and \<open>strpbrk\<close> share: is the character in the string?\<close>

function char_in :: "memory \<Rightarrow> u8 \<Rightarrow> nat \<Rightarrow> bool option" where
  "char_in mem p r =
     do { x \<leftarrow> aget mem r;
          if x \<noteq> 0 then (if p = x then Some True else char_in mem p (r + 1)) else Some False }"
  by pat_completeness auto
termination
  by (relation "measure (\<lambda>(mem, p, r). length mem - r)") (auto simp: aget_eq_Some_iff)

function strcspn_loop :: "memory \<Rightarrow> nat \<Rightarrow> nat \<Rightarrow> nat \<Rightarrow> nat option" where
  "strcspn_loop mem p reject cnt =
     do { c \<leftarrow> aget mem p;
          if c \<noteq> 0
          then do { hit \<leftarrow> char_in mem c reject;
                    if hit then Some cnt else strcspn_loop mem (p + 1) reject (cnt + 1) }
          else Some cnt }"
  by pat_completeness auto
termination
  by (relation "measure (\<lambda>(mem, p, reject, cnt). length mem - p)") (auto simp: aget_eq_Some_iff)

definition strcspn :: "memory \<Rightarrow> nat \<Rightarrow> nat \<Rightarrow> nat option" where
  "strcspn mem s reject = strcspn_loop mem s reject 0"

function strpbrk :: "memory \<Rightarrow> nat \<Rightarrow> nat \<Rightarrow> nat option option" where
  "strpbrk mem cs ct =
     do { c \<leftarrow> aget mem cs;
          if c \<noteq> 0
          then do { hit \<leftarrow> char_in mem c ct; if hit then Some (Some cs) else strpbrk mem (cs + 1) ct }
          else Some None }"
  by pat_completeness auto
termination
  by (relation "measure (\<lambda>(mem, cs, ct). length mem - cs)") (auto simp: aget_eq_Some_iff)

fun memscan :: "memory \<Rightarrow> nat \<Rightarrow> int \<Rightarrow> nat \<Rightarrow> nat option" where
  "memscan mem p c 0 = Some p"
| "memscan mem p c (Suc n) =
     do { x \<leftarrow> aget mem p; if uint x = c then Some p else memscan mem (p + 1) c n }"

fun memchr :: "memory \<Rightarrow> nat \<Rightarrow> int \<Rightarrow> nat \<Rightarrow> nat option option" where
  "memchr mem p c 0 = Some None"
| "memchr mem p c (Suc n) =
     do { x \<leftarrow> aget mem p; if word_of_int c = x then Some (Some p) else memchr mem (p + 1) c n }"

section \<open>Comparisons\<close>

function strnicmp_loop :: "memory \<Rightarrow> nat \<Rightarrow> nat \<Rightarrow> nat \<Rightarrow> int option" where
  "strnicmp_loop mem s1 s2 len =
     do { c1 \<leftarrow> aget mem s1;
          c2 \<leftarrow> aget mem s2;
          if c1 = 0 \<or> c2 = 0 then Some (uint c1 - uint c2)
          else let (c1, c2) = (if c1 = c2 then (c1, c2) else (tolower c1, tolower c2))
               in if c1 \<noteq> c2 then Some (uint c1 - uint c2)
                  else if len - 1 \<noteq> 0 then strnicmp_loop mem (s1 + 1) (s2 + 1) (len - 1)
                  else Some (uint c1 - uint c2) }"
  by pat_completeness auto
termination
  by (relation "measure (\<lambda>(mem, s1, s2, len). len)") auto

definition strnicmp :: "memory \<Rightarrow> nat \<Rightarrow> nat \<Rightarrow> nat \<Rightarrow> int option" where
  "strnicmp mem s1 s2 len = (if len = 0 then Some 0 else strnicmp_loop mem s1 s2 len)"

function strcasecmp :: "memory \<Rightarrow> nat \<Rightarrow> nat \<Rightarrow> int option" where
  "strcasecmp mem s1 s2 =
     do { x1 \<leftarrow> aget mem s1;
          x2 \<leftarrow> aget mem s2;
          let c1 = tolower x1; c2 = tolower x2
          in if c1 = c2 \<and> c1 \<noteq> 0 then strcasecmp mem (s1 + 1) (s2 + 1) else Some (uint c1 - uint c2) }"
  by pat_completeness auto
termination
  by (relation "measure (\<lambda>(mem, s1, s2). length mem - s1)") (auto simp: aget_eq_Some_iff)

function strncasecmp :: "memory \<Rightarrow> nat \<Rightarrow> nat \<Rightarrow> u64 \<Rightarrow> int option" where
  "strncasecmp mem s1 s2 n =
     do { x1 \<leftarrow> aget mem s1;
          x2 \<leftarrow> aget mem s2;
          let c1 = tolower x1; c2 = tolower x2
          in if n - 1 > 0 \<and> c1 = c2 \<and> c1 \<noteq> 0 then strncasecmp mem (s1 + 1) (s2 + 1) (n - 1)
             else Some (uint c1 - uint c2) }"
  by pat_completeness auto
termination
  by (relation "measure (\<lambda>(mem, s1, s2, n). length mem - s1)") (auto simp: aget_eq_Some_iff)

function strcmp :: "memory \<Rightarrow> nat \<Rightarrow> nat \<Rightarrow> int option" where
  "strcmp mem cs ct =
     do { c1 \<leftarrow> aget mem cs;
          c2 \<leftarrow> aget mem ct;
          if c1 \<noteq> c2 then Some (if c1 < c2 then - 1 else 1)
          else if c1 = 0 then Some 0 else strcmp mem (cs + 1) (ct + 1) }"
  by pat_completeness auto
termination
  by (relation "measure (\<lambda>(mem, cs, ct). length mem - cs)") (auto simp: aget_eq_Some_iff)

fun strncmp :: "memory \<Rightarrow> nat \<Rightarrow> nat \<Rightarrow> nat \<Rightarrow> int option" where
  "strncmp mem cs ct 0 = Some 0"
| "strncmp mem cs ct (Suc cnt) =
     do { c1 \<leftarrow> aget mem cs;
          c2 \<leftarrow> aget mem ct;
          if c1 \<noteq> c2 then Some (if c1 < c2 then - 1 else 1)
          else if c1 = 0 then Some 0 else strncmp mem (cs + 1) (ct + 1) cnt }"

fun memcmp :: "memory \<Rightarrow> nat \<Rightarrow> nat \<Rightarrow> nat \<Rightarrow> int option" where
  "memcmp mem su1 su2 0 = Some 0"
| "memcmp mem su1 su2 (Suc cnt) =
     do { x \<leftarrow> aget mem su1;
          y \<leftarrow> aget mem su2;
          if uint x - uint y \<noteq> 0 then Some (uint x - uint y) else memcmp mem (su1 + 1) (su2 + 1) cnt }"

text \<open>\<open>while (s[i] \&\& s1[i] == s2[i])\<close>: the two pointers where the loop of \<open>sysfs_streq\<close> stops.\<close>

function sysfs_streq_loop :: "memory \<Rightarrow> nat \<Rightarrow> nat \<Rightarrow> (nat \<times> nat) option" where
  "sysfs_streq_loop mem s1 s2 =
     do { c1 \<leftarrow> aget mem s1;
          if c1 \<noteq> 0
          then do { c2 \<leftarrow> aget mem s2;
                    if c1 = c2 then sysfs_streq_loop mem (s1 + 1) (s2 + 1) else Some (s1, s2) }
          else Some (s1, s2) }"
  by pat_completeness auto
termination
  by (relation "measure (\<lambda>(mem, s1, s2). length mem - s1)") (auto simp: aget_eq_Some_iff)

text \<open>A newline at the pointer, followed by the end of the string.\<close>

definition newline_end :: "memory \<Rightarrow> nat \<Rightarrow> bool option" where
  "newline_end mem s =
     do { c \<leftarrow> aget mem s; if c = 0x0A then do { d \<leftarrow> aget mem (s + 1); Some (d = 0) } else Some False }"

definition sysfs_streq :: "memory \<Rightarrow> nat \<Rightarrow> nat \<Rightarrow> bool option" where
  "sysfs_streq mem s1 s2 =
     do { (s1, s2) \<leftarrow> sysfs_streq_loop mem s1 s2;
          c1 \<leftarrow> aget mem s1;
          c2 \<leftarrow> aget mem s2;
          if c1 = c2 then Some True
          else do { e2 \<leftarrow> (if c1 = 0 then newline_end mem s2 else Some False);
                    if e2 then Some True
                    else do { e1 \<leftarrow> newline_end mem s1; Some (e1 \<and> c2 = 0) } } }"

fun strstr_loop :: "memory \<Rightarrow> nat \<Rightarrow> nat \<Rightarrow> nat \<Rightarrow> nat \<Rightarrow> nat option option" where
  "strstr_loop mem s1 s2 l1 l2 =
     (if l1 \<ge> l2 \<and> l1 > 0
      then do { r \<leftarrow> memcmp mem s1 s2 l2;
                if r = 0 then Some (Some s1) else strstr_loop mem (s1 + 1) s2 (l1 - 1) l2 }
      else Some None)"

definition strstr :: "memory \<Rightarrow> nat \<Rightarrow> nat \<Rightarrow> nat option option" where
  "strstr mem s1 s2 =
     do { l2 \<leftarrow> strlen mem s2;
          if l2 = 0 then Some (Some s1)
          else do { l1 \<leftarrow> strlen mem s1; strstr_loop mem s1 s2 l1 l2 } }"

definition strnstr :: "memory \<Rightarrow> nat \<Rightarrow> nat \<Rightarrow> nat \<Rightarrow> nat option option" where
  "strnstr mem s1 s2 len =
     do { l2 \<leftarrow> strlen mem s2; if l2 = 0 then Some (Some s1) else strstr_loop mem s1 s2 len l2 }"

section \<open>Copying\<close>

fun memset :: "memory \<Rightarrow> nat \<Rightarrow> int \<Rightarrow> nat \<Rightarrow> memory option" where
  "memset mem xs c 0 = Some mem"
| "memset mem xs c (Suc n) = do { mem \<leftarrow> aset mem xs (word_of_int c); memset mem (xs + 1) c n }"

fun memcpy :: "memory \<Rightarrow> nat \<Rightarrow> nat \<Rightarrow> nat \<Rightarrow> memory option" where
  "memcpy mem tmp s 0 = Some mem"
| "memcpy mem tmp s (Suc n) =
     do { c \<leftarrow> aget mem s; mem \<leftarrow> aset mem tmp c; memcpy mem (tmp + 1) (s + 1) n }"

text \<open>The second loop of \<open>memmove\<close> copies from the end; the pointers run from \<open>dest + n\<close> and \<open>src + n\<close> downwards.\<close>

fun memmove_down :: "memory \<Rightarrow> nat \<Rightarrow> nat \<Rightarrow> nat \<Rightarrow> memory option" where
  "memmove_down mem dest src 0 = Some mem"
| "memmove_down mem dest src (Suc n) =
     do { c \<leftarrow> aget mem (src + n); mem \<leftarrow> aset mem (dest + n) c; memmove_down mem dest src n }"

definition memmove :: "memory \<Rightarrow> nat \<Rightarrow> nat \<Rightarrow> nat \<Rightarrow> memory option" where
  "memmove mem dest src n = (if dest \<le> src then memcpy mem dest src n else memmove_down mem dest src n)"

function strcpy :: "memory \<Rightarrow> nat \<Rightarrow> nat \<Rightarrow> memory option" where
  "strcpy mem dest src =
     do { c \<leftarrow> aget mem src;
          mem \<leftarrow> aset mem dest c;
          if c \<noteq> 0 then strcpy mem (dest + 1) (src + 1) else Some mem }"
  by pat_completeness auto
termination
  by (relation "measure (\<lambda>(mem, dest, src). length mem - dest)") (auto simp: aset_eq_Some_iff)

fun strncpy :: "memory \<Rightarrow> nat \<Rightarrow> nat \<Rightarrow> nat \<Rightarrow> memory option" where
  "strncpy mem tmp src 0 = Some mem"
| "strncpy mem tmp src (Suc n) =
     do { c \<leftarrow> aget mem src;
          mem \<leftarrow> aset mem tmp c;
          strncpy mem (tmp + 1) (if c \<noteq> 0 then src + 1 else src) n }"

definition strlcpy :: "memory \<Rightarrow> nat \<Rightarrow> nat \<Rightarrow> nat \<Rightarrow> (memory \<times> nat) option" where
  "strlcpy mem dest src sz =
     do { ret \<leftarrow> strlen mem src;
          if sz \<noteq> 0
          then do { let len = (if ret \<ge> sz then sz - 1 else ret);
                    mem \<leftarrow> memcpy mem dest src len;
                    mem \<leftarrow> aset mem (dest + len) 0;
                    Some (mem, ret) }
          else Some (mem, ret) }"

definition strcat :: "memory \<Rightarrow> nat \<Rightarrow> nat \<Rightarrow> memory option" where
  "strcat mem dest src = do { dest \<leftarrow> strlen_loop mem dest; strcpy mem dest src }"

fun strncat_loop :: "memory \<Rightarrow> nat \<Rightarrow> nat \<Rightarrow> nat \<Rightarrow> memory option" where
  "strncat_loop mem dest src cnt =
     do { c \<leftarrow> aget mem src;
          mem \<leftarrow> aset mem dest c;
          if c \<noteq> 0
          then (if cnt - 1 = 0 then aset mem (dest + 1) 0 else strncat_loop mem (dest + 1) (src + 1) (cnt - 1))
          else Some mem }"

definition strncat :: "memory \<Rightarrow> nat \<Rightarrow> nat \<Rightarrow> nat \<Rightarrow> memory option" where
  "strncat mem dest src cnt =
     (if cnt \<noteq> 0 then do { dest \<leftarrow> strlen_loop mem dest; strncat_loop mem dest src cnt } else Some mem)"

definition strlcat :: "memory \<Rightarrow> nat \<Rightarrow> nat \<Rightarrow> nat \<Rightarrow> (memory \<times> nat) option" where
  "strlcat mem dest src cnt =
     do { dsize \<leftarrow> strlen mem dest;
          len \<leftarrow> strlen mem src;
          let res = dsize + len;
          if dsize \<ge> cnt then None
          else do { let dest = dest + dsize;
                    let cnt = cnt - dsize;
                    let len = (if len \<ge> cnt then cnt - 1 else len);
                    mem \<leftarrow> memcpy mem dest src len;
                    mem \<leftarrow> aset mem (dest + len) 0;
                    Some (mem, res) } }"

text \<open>In \<open>strim\<close> the pointer \<open>e\<close> is \<open>end + 1\<close>.\<close>

fun strim_loop :: "memory \<Rightarrow> nat \<Rightarrow> nat \<Rightarrow> nat option" where
  "strim_loop mem s e =
     (if e > s then do { c \<leftarrow> aget mem (e - 1); if isspace c then strim_loop mem s (e - 1) else Some e }
      else Some e)"

definition strim :: "memory \<Rightarrow> nat \<Rightarrow> (memory \<times> nat) option" where
  "strim mem s =
     do { s \<leftarrow> skip_spaces mem s;
          n \<leftarrow> strlen mem s;
          if n = 0 then Some (mem, s)
          else do { e \<leftarrow> strim_loop mem s (s + n); mem \<leftarrow> aset mem e 0; Some (mem, s) } }"

text \<open>\<open>strsep\<close>: the memory, the new value of \<open>*s\<close> and the returned pointer.\<close>

definition strsep :: "memory \<Rightarrow> nat option \<Rightarrow> nat \<Rightarrow> (memory \<times> nat option \<times> nat option) option" where
  "strsep mem s ct =
     (case s of
        None \<Rightarrow> Some (mem, None, None)
      | Some sbegin \<Rightarrow>
          do { e \<leftarrow> strpbrk mem sbegin ct;
               case e of
                 None \<Rightarrow> Some (mem, None, Some sbegin)
               | Some e \<Rightarrow> do { mem \<leftarrow> aset mem e 0; Some (mem, Some (e + 1), Some sbegin) } })"

declare strlen_loop.simps [simp del] strchr_loop.simps [simp del] strrchr_loop.simps [simp del] skip_spaces.simps [simp del]
  strspn_inner.simps [simp del] strspn_loop.simps [simp del] char_in.simps [simp del] strcspn_loop.simps [simp del]
  strpbrk.simps [simp del] strnicmp_loop.simps [simp del] strcasecmp.simps [simp del] strncasecmp.simps [simp del]
  strcmp.simps [simp del] sysfs_streq_loop.simps [simp del] strstr_loop.simps [simp del] strcpy.simps [simp del]
  strncat_loop.simps [simp del] strim_loop.simps [simp del]

end
