(* ===== verification/C_String_Search.thy ===== *)
theory C_String_Search
  imports C_String "HOL-Library.List_Lexorder" "HOL-Library.Sublist"
begin

text \<open>
  What the searching and comparing functions of \<open>lib/string.c\<close> compute, in terms of the list of characters a pointer
  stands for.
\<close>

section \<open>C strings\<close>

text \<open>\<open>cstring mem s xs\<close>: the pointer \<open>s\<close> stands for the characters \<open>xs\<close>, which a zero byte terminates.\<close>

fun cstring :: "memory \<Rightarrow> nat \<Rightarrow> u8 list \<Rightarrow> bool" where
  "cstring mem s [] \<longleftrightarrow> aget mem s = Some 0"
| "cstring mem s (x # xs) \<longleftrightarrow> aget mem s = Some x \<and> x \<noteq> 0 \<and> cstring mem (s + 1) xs"

lemma cstring_append: "cstring mem s (xs @ ys) \<longleftrightarrow> cstring mem (s + length xs) ys \<and> 0 \<notin> set xs
    \<and> (\<forall>i < length xs. aget mem (s + i) = Some (xs ! i))"
proof (induction xs arbitrary: s)
  case (Cons x xs)
  have "(\<forall>i < length (x # xs). aget mem (s + i) = Some ((x # xs) ! i))
    \<longleftrightarrow> aget mem s = Some x \<and> (\<forall>i < length xs. aget mem (s + 1 + i) = Some (xs ! i))"
    by (auto simp: nth_Cons less_Suc_eq_0_disj split: nat.splits)
  with Cons show ?case by (auto simp: ac_simps)
qed simp

lemma cstring_nonzero: "cstring mem s xs \<Longrightarrow> 0 \<notin> set xs"
  using cstring_append [of mem s xs "[]"] by simp

lemma cstring_nth: "cstring mem s xs \<Longrightarrow> i \<le> length xs \<Longrightarrow> aget mem (s + i) = Some ((xs @ [0]) ! i)"
  using cstring_append [of mem s xs "[]"] by (auto simp: nth_append le_less)

lemma cstring_drop: "cstring mem s xs \<Longrightarrow> k \<le> length xs \<Longrightarrow> cstring mem (s + k) (drop k xs)"
  using cstring_append [of mem s "take k xs" "drop k xs"] by simp

lemma cstring_unique: "cstring mem s xs \<Longrightarrow> cstring mem s ys \<Longrightarrow> xs = ys"
proof (induction xs arbitrary: s ys)
  case Nil
  then show ?case by (cases ys) auto
next
  case (Cons x xs)
  then show ?case by (cases ys) auto
qed

section \<open>Searches\<close>

lemma strlen_loop_spec: "cstring mem s xs \<Longrightarrow> strlen_loop mem s = Some (s + length xs)"
  by (induction xs arbitrary: s) (subst strlen_loop.simps, simp)+

lemma strlen_spec: "cstring mem s xs \<Longrightarrow> strlen mem s = Some (length xs)"
  by (simp add: strlen_def strlen_loop_spec)

lemma strnlen_loop_spec: "cstring mem s xs \<Longrightarrow> strnlen_loop mem s n = Some (s + min n (length xs))"
proof (induction n arbitrary: s xs)
  case (Suc n)
  show ?case
  proof (cases xs)
    case (Cons x ys)
    then show ?thesis using Suc.prems Suc.IH [of "s + 1" ys] by simp
  qed (use Suc in simp)
qed simp

lemma strnlen_spec: "cstring mem s xs \<Longrightarrow> strnlen mem s n = Some (min n (length xs))"
  by (simp add: strnlen_def strnlen_loop_spec)

text \<open>The pointer to the first element with a property, if there is one.\<close>

definition first_at :: "(u8 \<Rightarrow> bool) \<Rightarrow> nat \<Rightarrow> u8 list \<Rightarrow> nat option" where
  "first_at P s xs = (if \<exists>x \<in> set xs. P x then Some (s + length (takeWhile (\<lambda>x. \<not> P x) xs)) else None)"

lemma first_at_simps [simp]:
  "first_at P s [] = None"
  "first_at P s (x # xs) = (if P x then Some s else first_at P (s + 1) xs)"
  by (auto simp: first_at_def)

definition last_at :: "u8 \<Rightarrow> nat \<Rightarrow> u8 list \<Rightarrow> nat option" where
  "last_at c s xs = (if c \<in> set xs then Some (s + length xs - Suc (length (takeWhile (\<lambda>x. x \<noteq> c) (rev xs)))) else None)"

lemma strchr_loop_spec: "cstring mem s xs \<Longrightarrow> strchr_loop mem s c = Some (first_at (\<lambda>x. x = c) s (xs @ [0]))"
  by (induction xs arbitrary: s) (subst strchr_loop.simps, force)+

lemma strnchr_loop_spec: "cstring mem s xs \<Longrightarrow> strnchr_loop mem s n c = Some (first_at (\<lambda>x. x = c) s (take n xs))"
proof (induction n arbitrary: s xs)
  case (Suc n)
  then show ?case by (cases xs) auto
qed simp

lemma strrchr_loop_spec:
  assumes "cstring mem s xs" and "k \<le> length xs"
  shows "strrchr_loop mem s (s + k) c
    = Some (if c \<in> set (take (k + 1) (xs @ [0]))
            then Some (s + k - length (takeWhile (\<lambda>x. x \<noteq> c) (rev (take (k + 1) (xs @ [0]))))) else None)"
  using assms(2)
proof (induction k)
  case 0
  then show ?case using cstring_nth [OF assms(1), of 0] by (subst strrchr_loop.simps) (cases xs; simp)
next
  case (Suc k)
  have "take (Suc k + 1) (xs @ [0]) = take (k + 1) (xs @ [0]) @ [(xs @ [0]) ! Suc k]"
    using Suc.prems by (simp add: take_Suc_conv_app_nth del: take_append)
  then show ?case using Suc cstring_nth [OF assms(1), of "Suc k"]
    by (subst strrchr_loop.simps) (simp del: take_append add: Suc_diff_le)
qed

lemma strspn_inner_spec:
  "cstring mem a ys \<Longrightarrow> strspn_inner mem c a = Some (a + length (takeWhile (\<lambda>y. y \<noteq> c) ys))"
  by (induction ys arbitrary: a) (subst strspn_inner.simps, force)+

lemma strspn_stop:
  assumes "cstring mem a ys" and "c \<noteq> 0"
  shows "\<exists>x. aget mem (a + length (takeWhile (\<lambda>y. y \<noteq> c) ys)) = Some x \<and> (x = 0 \<longleftrightarrow> c \<notin> set ys)"
  using assms(1)
proof (induction ys arbitrary: a)
  case (Cons y ys)
  then show ?case using Cons.IH [of "a + 1"] assms(2) by simp
qed simp

lemma strspn_loop_spec:
  assumes "cstring mem p xs" and "cstring mem a ys"
  shows "strspn_loop mem p a n = Some (n + length (takeWhile (\<lambda>x. x \<in> set ys) xs))"
  using assms(1)
proof (induction xs arbitrary: p n)
  case (Cons x xs)
  then obtain y where "aget mem (a + length (takeWhile (\<lambda>y. y \<noteq> x) ys)) = Some y" "y = 0 \<longleftrightarrow> x \<notin> set ys"
    using strspn_stop [OF assms(2), of x] by auto
  then show ?case using Cons strspn_inner_spec [OF assms(2), of x] by (subst strspn_loop.simps) simp
qed (subst strspn_loop.simps, simp)

lemma char_in_spec: "cstring mem a ys \<Longrightarrow> char_in mem c a = Some (c \<in> set ys)"
  by (induction ys arbitrary: a) (subst char_in.simps, force)+

lemma strcspn_loop_spec:
  assumes "cstring mem p xs" and "cstring mem a ys"
  shows "strcspn_loop mem p a n = Some (n + length (takeWhile (\<lambda>x. x \<notin> set ys) xs))"
  using assms(1)
  by (induction xs arbitrary: p n) (subst strcspn_loop.simps, simp add: char_in_spec [OF assms(2)])+

lemma strpbrk_spec:
  assumes "cstring mem p xs" and "cstring mem a ys"
  shows "strpbrk mem p a = Some (first_at (\<lambda>x. x \<in> set ys) p xs)"
  using assms(1)
  by (induction xs arbitrary: p) (subst strpbrk.simps, simp add: char_in_spec [OF assms(2)])+

text \<open>Areas of memory.\<close>

lemma aget_area: "mem_read mem s n = Some xs \<Longrightarrow> i < n \<Longrightarrow> aget mem (s + i) = Some (xs ! i)"
  by (auto simp: mem_read_def aget_def split: if_splits)

lemma mem_read_Suc:
  "mem_read mem s (Suc n) = do { x \<leftarrow> aget mem s; xs \<leftarrow> mem_read mem (s + 1) n; Some (x # xs) }"
  by (auto simp: mem_read_def aget_def Cons_nth_drop_Suc [symmetric] Suc_le_eq)

lemma memchr_spec: "mem_read mem s n = Some xs \<Longrightarrow> memchr mem s c n = Some (first_at (\<lambda>x. x = word_of_int c) s xs)"
proof (induction n arbitrary: s xs)
  case 0
  then show ?case by (simp add: mem_read_def split: if_splits)
next
  case (Suc n)
  then show ?case by (auto simp: mem_read_Suc split: bind_splits)
qed

lemma memscan_spec:
  "mem_read mem s n = Some xs \<Longrightarrow> memscan mem s c n = Some (s + length (takeWhile (\<lambda>x. uint x \<noteq> c) xs))"
proof (induction n arbitrary: s xs)
  case 0
  then show ?case by (simp add: mem_read_def split: if_splits)
next
  case (Suc n)
  then show ?case by (auto simp: mem_read_Suc split: bind_splits)
qed

section \<open>Comparisons\<close>

text \<open>The order of lists that \<open>strcmp\<close> reports.\<close>

definition order_of :: "u8 list \<Rightarrow> u8 list \<Rightarrow> int" where
  "order_of xs ys = (if xs = ys then 0 else if xs < ys then - 1 else 1)"

lemma order_of_Cons: "order_of (x # xs) (y # ys) = (if x = y then order_of xs ys else if x < y then - 1 else 1)"
  by (auto simp: order_of_def)

lemma order_of_Nil [simp]: "order_of [] [] = 0" "order_of [] (y # ys) = - 1" "order_of (x # xs) [] = 1"
  by (simp_all add: order_of_def)

lemma strncmp_spec:
  "cstring mem s xs \<Longrightarrow> cstring mem t ys \<Longrightarrow> strncmp mem s t n = Some (order_of (take n xs) (take n ys))"
proof (induction n arbitrary: s t xs ys)
  case (Suc n)
  show ?case
  proof (cases xs; cases ys)
    fix x xs' y ys'
    assume "xs = x # xs'" "ys = y # ys'"
    then show ?thesis using Suc.prems Suc.IH [of "s + 1" xs' "t + 1" ys'] by (simp add: order_of_Cons)
  qed (use Suc.prems in \<open>auto simp: word_neq_0_conv not_less\<close>)
qed simp

lemma strcmp_spec: "cstring mem s xs \<Longrightarrow> cstring mem t ys \<Longrightarrow> strcmp mem s t = Some (order_of xs ys)"
proof (induction xs arbitrary: s t ys)
  case Nil
  then show ?case by (cases ys) (subst strcmp.simps, auto simp: word_neq_0_conv)+
next
  case (Cons x xs)
  show ?case
  proof (cases ys)
    case Nil
    with Cons.prems show ?thesis by (subst strcmp.simps) auto
  next
    case (Cons y ys')
    then show ?thesis using Cons.prems Cons.IH [of "s + 1" "t + 1" ys']
      by (subst strcmp.simps) (auto simp: order_of_Cons)
  qed
qed

lemma memcmp_spec:
  "mem_read mem s n = Some xs \<Longrightarrow> mem_read mem t n = Some ys
    \<Longrightarrow> \<exists>r. memcmp mem s t n = Some r \<and> sgn r = order_of xs ys"
proof (induction n arbitrary: s t xs ys)
  case 0
  then show ?case by (auto simp: mem_read_def split: if_splits)
next
  case (Suc n)
  from Suc.prems obtain x xs' y ys' where
    "aget mem s = Some x" "mem_read mem (s + 1) n = Some xs'" "xs = x # xs'"
    "aget mem t = Some y" "mem_read mem (t + 1) n = Some ys'" "ys = y # ys'"
    by (auto simp: mem_read_Suc split: bind_splits)
  with Suc.IH [of "s + 1" xs' "t + 1" ys'] show ?case
    by (auto simp: order_of_Cons word_less_def sgn_if word_uint_eq_iff)
qed

text \<open>Case folding.\<close>

lemma isupper_ascii: "isupper 0 = False" "isspace 0 = False"
  by (simp_all add: isupper_def isspace_def raw_ismask_def ctype_table_def ct_C_def ct_U_def ct_S_def)

lemma tolower_eq_0 [simp]: "tolower c = 0 \<longleftrightarrow> c = 0"
proof -
  have "\<not> isupper 224"
    by (simp add: isupper_def raw_ismask_def ctype_table_def ct_L_def ct_U_def)
  moreover have "c = 224" if "c - (0x41 - 0x61) = 0" for c :: u8
  proof -
    have "c = 0x41 - 0x61" using that unfolding right_minus_eq .
    then show ?thesis by simp
  qed
  ultimately show ?thesis by (auto simp: tolower_def isupper_ascii)
qed

lemma tolower_pos [simp]: "tolower 0 = 0" "0 < tolower c \<longleftrightarrow> c \<noteq> 0"
  by (simp_all add: word_neq_0_conv [symmetric])

definition folded :: "nat \<Rightarrow> u8 list \<Rightarrow> u8 list" where
  "folded n xs = map tolower (take n xs)"

lemma sgn_uint_diff: "sgn (uint x - uint y) = (if x = y then 0 else if x < y then - 1 else 1)" for x y :: u8
  by (auto simp: sgn_if word_less_def word_uint_eq_iff)

lemma strcasecmp_spec:
  "cstring mem s xs \<Longrightarrow> cstring mem t ys
    \<Longrightarrow> \<exists>r. strcasecmp mem s t = Some r \<and> sgn r = order_of (map tolower xs) (map tolower ys)"
proof (induction xs arbitrary: s t ys)
  case Nil
  then show ?case
    by (cases ys) (subst strcasecmp.simps, auto simp: sgn_uint_diff)+
next
  case (Cons x xs)
  show ?case
  proof (cases ys)
    case Nil
    with Cons.prems show ?thesis by (subst strcasecmp.simps) (auto simp: sgn_uint_diff)
  next
    case (Cons y ys')
    then show ?thesis using Cons.prems Cons.IH [of "s + 1" "t + 1" ys']
      by (subst strcasecmp.simps) (auto simp: order_of_Cons sgn_uint_diff)
  qed
qed

lemma strnicmp_loop_spec:
  "cstring mem s xs \<Longrightarrow> cstring mem t ys \<Longrightarrow> 0 < n
    \<Longrightarrow> \<exists>r. strnicmp_loop mem s t n = Some r \<and> sgn r = order_of (folded n xs) (folded n ys)"
proof (induction n arbitrary: s t xs ys)
  case (Suc n)
  show ?case
  proof (cases xs; cases ys)
    fix x xs' y ys'
    assume "xs = x # xs'" "ys = y # ys'"
    then show ?thesis using Suc.prems(1,2) Suc.IH [of "s + 1" xs' "t + 1" ys']
      by (cases "n = 0"; subst strnicmp_loop.simps)
        (auto simp: order_of_Cons sgn_uint_diff folded_def Let_def)
  qed (use Suc.prems in \<open>subst strnicmp_loop.simps, auto simp: folded_def sgn_uint_diff\<close>)+
qed simp

text \<open>The limit zero stands for \<open>2 ^ 64\<close> in \<open>strncasecmp\<close>.\<close>

definition wrapped_limit :: "u64 \<Rightarrow> nat" where
  "wrapped_limit n = (if n = 0 then 2 ^ 64 else unat n)"

lemma wrapped_limit_step:
  "n - 1 > 0 \<Longrightarrow> wrapped_limit n = Suc (wrapped_limit (n - 1))"
  "\<not> n - 1 > 0 \<Longrightarrow> wrapped_limit n = 1"
proof -
  have max: "unat (- 1 :: u64) = 2 ^ 64 - 1" by (simp add: unsigned_minus_1_eq_mask mask_eq_exp_minus_1)
  show "wrapped_limit n = Suc (wrapped_limit (n - 1))" if "n - 1 > 0"
    using that max unat_sub_1 [of n] by (auto simp: wrapped_limit_def unat_gt_0)
  show "wrapped_limit n = 1" if "\<not> n - 1 > 0"
    using that by (simp add: wrapped_limit_def word_neq_0_conv [symmetric])
qed

lemma strncasecmp_spec:
  "cstring mem s xs \<Longrightarrow> cstring mem t ys
    \<Longrightarrow> \<exists>r. strncasecmp mem s t n = Some r \<and> sgn r = order_of (folded (wrapped_limit n) xs) (folded (wrapped_limit n) ys)"
proof (induction xs arbitrary: s t ys n)
  case Nil
  show ?case
  proof (cases ys)
    case Nil
    with Nil.prems show ?thesis by (subst strncasecmp.simps) (auto simp: folded_def)
  next
    case (Cons y ys')
    moreover have "0 < wrapped_limit n" by (simp add: wrapped_limit_def unat_gt_0)
    ultimately show ?thesis using Nil.prems
      by (subst strncasecmp.simps) (cases "wrapped_limit n"; auto simp: folded_def sgn_uint_diff)
  qed
next
  case (Cons x xs)
  have pos: "0 < wrapped_limit n" by (simp add: wrapped_limit_def unat_gt_0)
  show ?case
  proof (cases ys)
    case Nil
    with Cons.prems pos show ?thesis
      by (subst strncasecmp.simps) (cases "wrapped_limit n"; auto simp: folded_def sgn_uint_diff)
  next
    case (Cons y ys')
    then show ?thesis using Cons.prems Cons.IH [of "s + 1" "t + 1" ys' "n - 1"] wrapped_limit_step [of n]
      by (cases "n - 1 > 0"; subst strncasecmp.simps) (auto simp: order_of_Cons sgn_uint_diff folded_def)
  qed
qed

text \<open>Equality up to a final newline.\<close>

lemma sysfs_streq_step:
  assumes "aget mem s = Some x" and "aget mem t = Some x" and "x \<noteq> 0"
  shows "sysfs_streq mem s t = sysfs_streq mem (s + 1) (t + 1)"
  unfolding sysfs_streq_def using assms by (subst sysfs_streq_loop.simps) simp

lemma sysfs_streq_stop:
  assumes "aget mem s = Some c" and "aget mem t = Some d" and "c = 0 \<or> c \<noteq> d"
  shows "sysfs_streq_loop mem s t = Some (s, t)"
  using assms by (subst sysfs_streq_loop.simps) auto

lemma newline_end_spec: "cstring mem s xs \<Longrightarrow> newline_end mem s = Some (xs = [0x0A])"
proof (cases xs)
  case (Cons x ys)
  assume "cstring mem s xs"
  with Cons show ?thesis by (cases ys) (auto simp: newline_end_def)
qed (simp add: newline_end_def)

lemma sysfs_streq_spec:
  "cstring mem s xs \<Longrightarrow> cstring mem t ys
    \<Longrightarrow> sysfs_streq mem s t = Some (xs = ys \<or> ys = xs @ [0x0A] \<or> xs = ys @ [0x0A])"
proof (induction xs arbitrary: s t ys)
  case Nil
  show ?case
  proof (cases ys)
    case Nil
    with Nil.prems show ?thesis by (simp add: sysfs_streq_def sysfs_streq_stop)
  next
    case (Cons y ys')
    with Nil.prems show ?thesis
      using newline_end_spec [OF Nil.prems(1)] newline_end_spec [OF Nil.prems(2)]
      by (simp add: sysfs_streq_def sysfs_streq_stop [of mem s 0 t y])
  qed
next
  case (Cons x xs)
  show ?case
  proof (cases ys)
    case Nil
    with Cons.prems newline_end_spec [OF Cons.prems(1)] show ?thesis
      by (simp add: sysfs_streq_def sysfs_streq_stop [of mem s x t 0])
  next
    case ys: (Cons y ys')
    show ?thesis
    proof (cases "x = y")
      case True
      then show ?thesis using ys Cons.prems Cons.IH [of "s + 1" "t + 1" ys'] sysfs_streq_step [of mem s x t] by simp
    next
      case False
      with ys Cons.prems newline_end_spec [OF Cons.prems(1)] show ?thesis
        by (simp add: sysfs_streq_def sysfs_streq_stop [of mem s x t y])
    qed
  qed
qed

text \<open>Substrings.\<close>

lemma mem_read_length: "mem_read mem s n = Some xs \<Longrightarrow> length xs = n"
  by (auto simp: mem_read_def split: if_splits)

lemma mem_read_split:
  "mem_read mem s n = Some xs \<Longrightarrow> k + m \<le> n \<Longrightarrow> mem_read mem (s + k) m = Some (take m (drop k xs))"
  by (auto simp: mem_read_def drop_take min_def add.commute split: if_splits)

lemma cstring_area: "cstring mem s xs \<longleftrightarrow> mem_read mem s (length xs + 1) = Some (xs @ [0]) \<and> 0 \<notin> set xs"
  by (induction xs arbitrary: s) (auto simp: mem_read_Suc mem_read_def [of _ _ 0] aget_def split: bind_splits if_splits)

lemma cstring_read: "cstring mem s xs \<Longrightarrow> mem_read mem s (length xs) = Some xs"
  using mem_read_split [of mem s "length xs + 1" "xs @ [0]" 0 "length xs"] by (simp add: cstring_area)

definition first_occurrence :: "u8 list \<Rightarrow> u8 list \<Rightarrow> nat \<Rightarrow> nat option \<Rightarrow> bool" where
  "first_occurrence ys xs s r \<longleftrightarrow>
     (case r of
        None \<Rightarrow> \<not> sublist ys xs
      | Some p \<Rightarrow> \<exists>k. p = s + k \<and> prefix ys (drop k xs) \<and> (\<forall>j < k. \<not> prefix ys (drop j xs)))"

lemma strstr_loop_spec:
  "mem_read mem s (length xs) = Some xs \<Longrightarrow> mem_read mem t (length ys) = Some ys \<Longrightarrow> ys \<noteq> []
    \<Longrightarrow> \<exists>r. strstr_loop mem s t (length xs) (length ys) = Some r \<and> first_occurrence ys xs s r"
proof (induction xs arbitrary: s)
  case Nil
  then show ?case by (subst strstr_loop.simps) (simp add: first_occurrence_def)
next
  case (Cons x xs)
  show ?case
  proof (cases "length ys \<le> length (x # xs)")
    case False
    then have "\<not> sublist ys (x # xs)" using sublist_length_le by blast
    with False show ?thesis by (subst strstr_loop.simps) (simp add: first_occurrence_def)
  next
    case True
    define zs where "zs = take (length ys) (x # xs)"
    have z: "mem_read mem s (length ys) = Some zs"
      using mem_read_split [OF Cons.prems(1), of 0 "length ys"] True by (simp add: zs_def)
    obtain r where r: "memcmp mem s t (length ys) = Some r" "sgn r = order_of zs ys"
      using memcmp_spec [OF z Cons.prems(2)] by blast
    then have "r = 0 \<longleftrightarrow> zs = ys" by (metis order_of_def sgn_0_0 zero_neq_neg_one zero_neq_one)
    also have "\<dots> \<longleftrightarrow> prefix ys (x # xs)" unfolding zs_def by (metis append_eq_conv_conj prefix_def)
    finally have hit: "r = 0 \<longleftrightarrow> prefix ys (x # xs)" .
    have "mem_read mem (s + 1) (length xs) = Some xs"
      using mem_read_split [OF Cons.prems(1), of 1 "length xs"] by simp
    from Cons.IH [OF this Cons.prems(2,3)] obtain q where
      q: "strstr_loop mem (s + 1) t (length xs) (length ys) = Some q" "first_occurrence ys xs (s + 1) q" by blast
    show ?thesis
    proof (cases "prefix ys (x # xs)")
      case hit': True
      then show ?thesis using True r(1) hit Cons.prems(3)
        by (subst strstr_loop.simps) (auto simp: first_occurrence_def intro: exI [of _ 0])
    next
      case False
      then have "first_occurrence ys (x # xs) s q"
        using q(2) by (auto simp: first_occurrence_def sublist_Cons_right less_Suc_eq_0_disj
          intro: exI [of _ "Suc _"] split: option.splits)
      with False True r(1) hit q(1) show ?thesis by (subst strstr_loop.simps) simp
    qed
  qed
qed

lemma strstr_spec:
  assumes "cstring mem s xs" and "cstring mem t ys"
  shows "\<exists>r. strstr mem s t = Some r \<and> first_occurrence ys xs s r"
proof (cases "ys = []")
  case True
  then show ?thesis using strlen_spec [OF assms(2)] by (simp add: strstr_def first_occurrence_def)
next
  case False
  then show ?thesis
    using strstr_loop_spec [OF cstring_read [OF assms(1)] cstring_read [OF assms(2)]] strlen_spec [OF assms(1)] strlen_spec [OF assms(2)]
    by (simp add: strstr_def)
qed

lemma strnstr_spec:
  assumes "mem_read mem s (length xs) = Some xs" and "cstring mem t ys"
  shows "\<exists>r. strnstr mem s t (length xs) = Some r \<and> first_occurrence ys xs s r"
proof (cases "ys = []")
  case True
  then show ?thesis using strlen_spec [OF assms(2)] by (simp add: strnstr_def first_occurrence_def)
next
  case False
  then show ?thesis
    using strstr_loop_spec [OF assms(1) cstring_read [OF assms(2)]] strlen_spec [OF assms(2)] by (simp add: strnstr_def)
qed

section \<open>Properties\<close>

text \<open>
  C30.  On terminated strings the searches return without a fault: \<open>strlen\<close> and \<open>strnlen\<close> the length, \<open>strchr\<close>,
  \<open>strnchr\<close> and \<open>strpbrk\<close> the first matching character, \<open>strrchr\<close> the last one, \<open>strspn\<close> and \<open>strcspn\<close> the length of
  the longest matching prefix, and \<open>strstr\<close> the first occurrence of the second string, or \<open>NULL\<close>.\<close>

theorem string_search_ok:
  assumes "cstring mem s xs" and "cstring mem t ys"
  shows "strlen mem s = Some (length xs) \<and> strnlen mem s n = Some (min n (length xs))
    \<and> strchr mem s c = Some (first_at (\<lambda>x. x = word_of_int c) s (xs @ [0]))
    \<and> strnchr mem s n c = Some (first_at (\<lambda>x. x = word_of_int c) s (take n xs))
    \<and> strrchr mem s c = Some (last_at (word_of_int c) s (xs @ [0]))
    \<and> strspn mem s t = Some (length (takeWhile (\<lambda>x. x \<in> set ys) xs))
    \<and> strcspn mem s t = Some (length (takeWhile (\<lambda>x. x \<notin> set ys) xs))
    \<and> strpbrk mem s t = Some (first_at (\<lambda>x. x \<in> set ys) s xs)
    \<and> (\<exists>r. strstr mem s t = Some r \<and> first_occurrence ys xs s r)"
proof -
  have "strrchr mem s c = strrchr_loop mem s (s + length xs) (word_of_int c)"
    by (simp add: strrchr_def strlen_spec [OF assms(1)])
  also have "\<dots> = Some (last_at (word_of_int c) s (xs @ [0]))"
    using strrchr_loop_spec [OF assms(1), of "length xs"] by (simp add: last_at_def)
  finally show ?thesis
    using assms strlen_spec strnlen_spec strchr_loop_spec strnchr_loop_spec strspn_loop_spec strcspn_loop_spec strpbrk_spec strstr_spec
    by (simp add: strchr_def strnchr_def strspn_def strcspn_def)
qed

theorem string_search_ok_witness:
  "strlen [104, 105, 0, 105, 120, 0] 0 = Some 2 \<and> strpbrk [104, 105, 0, 105, 120, 0] 0 3 = Some (Some 1)"
  using string_search_ok [of "[104, 105, 0, 105, 120, 0]" 0 "[104, 105]" 3 "[105, 120]"] by (simp add: aget_def)

text \<open>
  The comparisons return without a fault and report the lexicographic order of the strings as unsigned bytes:
  \<open>strcmp\<close> and \<open>strncmp\<close> exactly, \<open>strcasecmp\<close>, \<open>strnicmp\<close> and \<open>strncasecmp\<close> of the strings in lower case;
  \<open>sysfs_streq\<close> decides equality up to one final newline.  The limit zero of \<open>strncasecmp\<close> means \<open>2 ^ 64\<close>.\<close>

theorem string_compare_ok:
  assumes "cstring mem s xs" and "cstring mem t ys"
  shows "strcmp mem s t = Some (order_of xs ys) \<and> strncmp mem s t n = Some (order_of (take n xs) (take n ys))
    \<and> (\<exists>r. strcasecmp mem s t = Some r \<and> sgn r = order_of (map tolower xs) (map tolower ys))
    \<and> (\<exists>r. strnicmp mem s t n = Some r \<and> sgn r = order_of (folded n xs) (folded n ys))
    \<and> (\<exists>r. strncasecmp mem s t m = Some r
         \<and> sgn r = order_of (folded (wrapped_limit m) xs) (folded (wrapped_limit m) ys))
    \<and> sysfs_streq mem s t = Some (xs = ys \<or> ys = xs @ [0x0A] \<or> xs = ys @ [0x0A])"
proof -
  have "\<exists>r. strnicmp mem s t n = Some r \<and> sgn r = order_of (folded n xs) (folded n ys)"
    using strnicmp_loop_spec [OF assms, of n] by (cases "n = 0") (simp_all add: strnicmp_def folded_def)
  then show ?thesis
    using strcmp_spec [OF assms] strncmp_spec [OF assms] strcasecmp_spec [OF assms] strncasecmp_spec [OF assms] sysfs_streq_spec [OF assms]
    by blast
qed

theorem string_compare_ok_witness:
  "strcmp [104, 105, 0, 105, 0] 0 3 = Some (- 1) \<and> sysfs_streq [104, 10, 0, 104, 0] 0 3 = Some True"
  using string_compare_ok [of "[104, 105, 0, 105, 0]" 0 "[104, 105]" 3 "[105]"]
    string_compare_ok [of "[104, 10, 0, 104, 0]" 0 "[104, 10]" 3 "[104]"]
  by (simp add: aget_def order_of_def)

lemma strncasecmp_0: "\<exists>r. strncasecmp [97, 0, 98, 0] 0 2 0 = Some r \<and> r \<noteq> 0"
  using strncasecmp_spec [of "[97, 0, 98, 0]" 0 "[97]" 2 "[98]" 0]
  by (auto simp: aget_def folded_def wrapped_limit_def order_of_def tolower_def isupper_def raw_ismask_def ctype_table_def
      ct_L_def ct_U_def ct_X_def)

end
