(* ===== verification/C_String_Copy.thy ===== *)
theory C_String_Copy
  imports C_String_Search
begin

text \<open>
  What the functions of \<open>lib/string.c\<close> that write memory do: each equals one write of a list of bytes, also for
  overlapping areas as far as the code copes with them.
\<close>

section \<open>Writes to memory\<close>

lemma mem_write_Nil: "d \<le> length mem \<Longrightarrow> mem_write mem d [] = Some mem"
  by (simp add: mem_write_def)

lemma mem_write_Cons:
  "mem_write mem d (y # ys) = Some m \<longleftrightarrow> (\<exists>m'. aset mem d y = Some m' \<and> mem_write m' (d + 1) ys = Some m)"
  by (auto simp: mem_write_def aset_def take_update_swap upd_conv_take_nth_drop drop_update_cancel min_def add.commute split: if_splits)

lemma mem_write_append:
  "mem_write mem d (ys @ zs) = Some m
    \<longleftrightarrow> (\<exists>m'. mem_write mem d ys = Some m' \<and> mem_write m' (d + length ys) zs = Some m)"
proof (induction ys arbitrary: mem d)
  case Nil
  then show ?case by (auto simp: mem_write_def split: if_splits)
next
  case (Cons y ys)
  then show ?case by (auto simp: mem_write_Cons)
qed

lemma aset_write: "aset mem d y = Some m \<longleftrightarrow> mem_write mem d [y] = Some m"
  by (auto simp: mem_write_def aset_def upd_conv_take_nth_drop split: if_splits)

lemma mem_write_snoc:
  "mem_write mem d (ys @ [y]) = Some m \<longleftrightarrow> (\<exists>m'. aset mem (d + length ys) y = Some m' \<and> mem_write m' d ys = Some m)"
  by (auto simp: mem_write_def aset_def upd_conv_take_nth_drop min_def add.assoc split: if_splits)

lemma mem_write_length: "mem_write mem d ys = Some m \<Longrightarrow> length m = length mem"
  by (auto simp: mem_write_def split: if_splits)

lemma mem_read_written: "mem_write mem d ys = Some m \<Longrightarrow> mem_read m d (length ys) = Some ys"
  by (auto simp: mem_write_def mem_read_def min_def split: if_splits)

lemma mem_read_other:
  assumes "mem_write mem d ys = Some m" and "d + length ys \<le> s \<or> s + n \<le> d"
  shows "mem_read m s n = mem_read mem s n"
proof -
  have m: "d + length ys \<le> length mem" "m = take d mem @ ys @ drop (d + length ys) mem"
    using assms(1) by (auto simp: mem_write_def split: if_splits)
  have "take n (drop s m) = take n (drop s mem)" if "s + n \<le> length mem"
  proof (rule nth_equalityI)
    fix i assume i: "i < length (take n (drop s m))"
    then have "i < n" by simp
    then have "m ! (s + i) = mem ! (s + i)" unfolding m(2) nth_mem_write [OF m(1)] using assms(2) by auto
    with i that mem_write_length [OF assms(1)] show "take n (drop s m) ! i = take n (drop s mem) ! i" by simp
  qed (use that mem_write_length [OF assms(1)] in simp)
  then show ?thesis using mem_write_length [OF assms(1)] by (simp add: mem_read_def)
qed

lemma cstring_other:
  "mem_write mem d ys = Some m \<Longrightarrow> d + length ys \<le> s \<or> s + length xs < d \<Longrightarrow> cstring m s xs \<longleftrightarrow> cstring mem s xs"
  using mem_read_other [of mem d ys m s "length xs + 1"] by (auto simp: cstring_area)

lemma cstring_written: "mem_write mem d (ys @ [0]) = Some m \<Longrightarrow> 0 \<notin> set ys \<Longrightarrow> cstring m d ys"
  using mem_read_written [of mem d "ys @ [0]" m] by (simp add: cstring_area)

section \<open>Areas\<close>

lemma memset_spec: "mem_write mem d (replicate n (word_of_int c)) = Some m \<Longrightarrow> memset mem d c n = Some m"
proof (induction n arbitrary: mem d)
  case 0
  then show ?case by (simp add: mem_write_def split: if_splits)
next
  case (Suc n)
  then show ?case by (auto simp: mem_write_Cons)
qed

lemma memcpy_spec:
  "mem_read mem s n = Some xs \<Longrightarrow> mem_write mem d xs = Some m \<Longrightarrow> d \<le> s \<or> s + n \<le> d \<Longrightarrow> memcpy mem d s n = Some m"
proof (induction n arbitrary: mem d s xs)
  case 0
  then show ?case by (simp add: mem_write_def mem_read_def split: if_splits)
next
  case (Suc n)
  then obtain x ys m' where x: "aget mem s = Some x" "mem_read mem (s + 1) n = Some ys" "xs = x # ys"
    "aset mem d x = Some m'" "mem_write m' (d + 1) ys = Some m"
    by (auto simp: mem_read_Suc mem_write_Cons split: bind_splits)
  have "mem_read m' (s + 1) n = Some ys"
    using mem_read_other [of mem d "[x]" m' "s + 1" n] x(2,4) Suc.prems(3) by (simp add: aset_write)
  from Suc.IH [OF this x(5)] Suc.prems(3) x(1,4) show ?case by auto
qed

lemma memmove_down_spec:
  "mem_read mem s n = Some xs \<Longrightarrow> mem_write mem d xs = Some m \<Longrightarrow> s \<le> d \<Longrightarrow> memmove_down mem d s n = Some m"
proof (induction n arbitrary: mem xs)
  case 0
  then show ?case by (simp add: mem_write_def mem_read_def split: if_splits)
next
  case (Suc n)
  define ys x where "ys = butlast xs" and "x = last xs"
  have len: "length xs = Suc n" using mem_read_length [OF Suc.prems(1)] .
  then have xs: "xs = ys @ [x]" "length ys = n" by (auto simp: ys_def x_def intro: append_butlast_last_id [symmetric])
  have x: "aget mem (s + n) = Some x" using aget_area [OF Suc.prems(1), of n] xs by (simp add: nth_append)
  have ys: "mem_read mem s n = Some ys" using mem_read_split [OF Suc.prems(1), of 0 n] xs by simp
  obtain m' where m': "aset mem (d + n) x = Some m'" "mem_write m' d ys = Some m"
    using Suc.prems(2) unfolding xs(1) mem_write_snoc xs(2) by blast
  have "mem_read m' s n = Some ys"
    using mem_read_other [of mem "d + n" "[x]" m' s n] m'(1) ys Suc.prems(3) by (simp add: aset_write)
  from Suc.IH [OF this m'(2) Suc.prems(3)] x m'(1) show ?case by simp
qed

lemma memmove_spec: "mem_read mem s n = Some xs \<Longrightarrow> mem_write mem d xs = Some m \<Longrightarrow> memmove mem d s n = Some m"
  by (auto simp: memmove_def intro: memcpy_spec memmove_down_spec)

section \<open>Strings\<close>

lemma strcpy_spec:
  "cstring mem s xs \<Longrightarrow> mem_write mem d (xs @ [0]) = Some m \<Longrightarrow> d \<le> s \<or> s + length xs < d \<Longrightarrow> strcpy mem d s = Some m"
proof (induction xs arbitrary: mem s d)
  case Nil
  then show ?case by (subst strcpy.simps) (simp add: aset_write)
next
  case (Cons x xs)
  then obtain m' where m': "aset mem d x = Some m'" "mem_write m' (d + 1) (xs @ [0]) = Some m" by (auto simp: mem_write_Cons)
  have "cstring m' (s + 1) xs" using cstring_other [of mem d "[x]" m' "s + 1" xs] m'(1) Cons.prems by (auto simp: aset_write)
  from Cons.IH [OF this m'(2)] Cons.prems(1,3) m'(1) show ?case by (subst strcpy.simps) auto
qed

lemma strncpy_spec:
  "cstring mem s xs \<Longrightarrow> mem_write mem d (take n (xs @ replicate n 0)) = Some m \<Longrightarrow> d \<le> s \<or> s + length xs < d
    \<Longrightarrow> strncpy mem d s n = Some m"
proof (induction n arbitrary: mem s d xs)
  case 0
  then show ?case by (simp add: mem_write_def split: if_splits)
next
  case (Suc n)
  define c where "c = hd (xs @ [0])"
  have c: "aget mem s = Some c" "c = 0 \<longleftrightarrow> xs = []" using Suc.prems(1) by (cases xs; simp add: c_def)+
  have "take (Suc n) (xs @ replicate (Suc n) 0) = c # take n (tl xs @ replicate n 0)"
    by (cases xs) (simp_all add: c_def replicate_append_same [symmetric])
  with Suc.prems(2) obtain m' where m': "aset mem d c = Some m'" "mem_write m' (d + 1) (take n (tl xs @ replicate n 0)) = Some m"
    by (auto simp: mem_write_Cons)
  let ?s = "if c \<noteq> 0 then s + 1 else s"
  have "cstring m' ?s (tl xs) \<and> (d + 1 \<le> ?s \<or> ?s + length (tl xs) < d + 1)"
  proof (cases xs)
    case Nil
    have "cstring m' s []"
    proof (cases "d = s")
      case True
      then show ?thesis using m'(1) Nil by (auto simp: aset_def aget_def c_def split: if_splits)
    next
      case False
      then show ?thesis using cstring_other [of mem d "[c]" m' s "[]"] m'(1) Suc.prems(1,3) Nil by (auto simp: aset_write)
    qed
    with Nil c(2) Suc.prems(3) show ?thesis by auto
  next
    case (Cons x ys)
    then show ?thesis using cstring_other [of mem d "[c]" m' "s + 1" ys] m'(1) Suc.prems(1,3) c(2) by (auto simp: aset_write)
  qed
  with Suc.IH [OF _ m'(2)] c(1) m'(1) show ?case by simp
qed

lemma strlcpy_spec:
  assumes "cstring mem s xs" and "0 < sz" and "mem_write mem d (take (sz - 1) xs @ [0]) = Some m"
    and "d \<le> s \<or> s + length xs \<le> d"
  shows "strlcpy mem d s sz = Some (m, length xs)"
proof -
  define len where "len = (if length xs \<ge> sz then sz - 1 else length xs)"
  have len: "take (sz - 1) xs = take len xs" "len \<le> length xs" "length (take len xs) = len"
    using assms(2) by (auto simp: len_def)
  obtain m' where m': "mem_write mem d (take len xs) = Some m'" "aset m' (d + len) 0 = Some m"
    using assms(3) unfolding len(1) mem_write_append aset_write len(3) by blast
  have "mem_read mem s len = Some (take len xs)" using mem_read_split [OF cstring_read [OF assms(1)], of 0 len] len(2) by simp
  from memcpy_spec [OF this m'(1)] assms(4) len(2) have "memcpy mem d s len = Some m'" by auto
  then show ?thesis using m'(2) assms(2) by (simp add: strlcpy_def strlen_spec [OF assms(1)] len_def [symmetric])
qed

lemma strncat_loop_spec:
  "cstring mem s xs \<Longrightarrow> mem_write mem d (take n xs @ [0]) = Some m \<Longrightarrow> d \<le> s \<or> s + length xs < d \<Longrightarrow> 0 < n
    \<Longrightarrow> strncat_loop mem d s n = Some m"
proof (induction n arbitrary: mem s d xs)
  case (Suc n)
  show ?case
  proof (cases xs)
    case Nil
    then show ?thesis using Suc.prems by (subst strncat_loop.simps) (simp add: aset_write)
  next
    case (Cons x ys)
    then obtain m' where m': "aset mem d x = Some m'" "mem_write m' (d + 1) (take n ys @ [0]) = Some m"
      using Suc.prems(2) by (auto simp: mem_write_Cons)
    have "cstring m' (s + 1) ys" using cstring_other [of mem d "[x]" m' "s + 1" ys] m'(1) Suc.prems Cons by (auto simp: aset_write)
    with Suc.IH [OF this m'(2)] m' Suc.prems(1,3) Cons show ?thesis
      by (cases "n = 0"; subst strncat_loop.simps) (auto simp: aset_write [of m'])
  qed
qed simp

lemma strcat_spec:
  assumes "cstring mem d ys" and "cstring mem s xs" and "mem_write mem (d + length ys) (xs @ [0]) = Some m"
    and "d + length ys \<le> s \<or> s + length xs < d + length ys"
  shows "strcat mem d s = Some m"
  using strcpy_spec [OF assms(2-4)] by (simp add: strcat_def strlen_loop_spec [OF assms(1)])

lemma strncat_spec:
  assumes "cstring mem d ys" and "cstring mem s xs" and "mem_write mem (d + length ys) (take n xs @ [0]) = Some m"
    and "d + length ys \<le> s \<or> s + length xs < d + length ys" and "0 < n"
  shows "strncat mem d s n = Some m"
  using strncat_loop_spec [OF assms(2-5)] assms(5) by (simp add: strncat_def strlen_loop_spec [OF assms(1)])

lemma strlcat_spec:
  assumes "cstring mem d ys" and "cstring mem s xs" and "length ys < n"
    and "mem_write mem (d + length ys) (take (n - length ys - 1) xs @ [0]) = Some m"
    and "d + length ys \<le> s \<or> s + length xs \<le> d + length ys"
  shows "strlcat mem d s n = Some (m, length ys + length xs)"
proof -
  have "strlcpy mem (d + length ys) s (n - length ys) = Some (m, length xs)"
    using strlcpy_spec [OF assms(2) _ assms(4,5)] assms(3) by simp
  then show ?thesis using assms(3)
    by (auto simp: strlcat_def strlcpy_def Let_def strlen_spec [OF assms(1)] strlen_spec [OF assms(2)] split: bind_splits if_splits)
qed

text \<open>White space.\<close>

lemma skip_spaces_spec:
  "cstring mem s xs \<Longrightarrow> skip_spaces mem s = Some (s + length (takeWhile isspace xs))"
  by (induction xs arbitrary: s) (subst skip_spaces.simps, simp add: isupper_ascii)+

lemma strim_loop_spec:
  assumes "mem_read mem s (length xs) = Some xs"
  shows "k \<le> length xs
    \<Longrightarrow> strim_loop mem s (s + k) = Some (s + length (dropWhile isspace (rev (take k xs))))"
proof (induction k)
  case 0
  then show ?case by (subst strim_loop.simps) simp
next
  case (Suc k)
  have "take (Suc k) xs = take k xs @ [xs ! k]" using Suc.prems by (simp add: take_Suc_conv_app_nth)
  with Suc aget_area [OF assms, of k] show ?case by (subst strim_loop.simps) simp
qed

definition strip :: "u8 list \<Rightarrow> u8 list" where
  "strip xs = rev (dropWhile isspace (rev (dropWhile isspace xs)))"

lemma dropWhile_rev_take: "rev (dropWhile P (rev xs)) = take (length (dropWhile P (rev xs))) xs"
proof -
  have "xs = rev (dropWhile P (rev xs)) @ rev (takeWhile P (rev xs))"
    by (metis rev_append rev_rev_ident takeWhile_dropWhile_id)
  then show ?thesis by (metis append_eq_conv_conj length_rev)
qed

lemma strim_spec:
  assumes "cstring mem s xs"
  shows "\<exists>m s'. strim mem s = Some (m, s') \<and> cstring m s' (strip xs) \<and> length m = length mem
    \<and> s' = s + length (takeWhile isspace xs) \<and> (\<forall>i. i < s \<or> s + length xs \<le> i \<longrightarrow> aget m i = aget mem i)"
proof -
  define s' ys where "s' = s + length (takeWhile isspace xs)" and "ys = dropWhile isspace xs"
  have ys: "ys = drop (length (takeWhile isspace xs)) xs" by (simp add: ys_def dropWhile_eq_drop)
  have str: "cstring mem s' ys" unfolding s'_def ys by (rule cstring_drop [OF assms]) (rule length_takeWhile_le)
  have len: "s' + length ys = s + length xs"
    unfolding s'_def ys_def by (metis add.assoc length_append takeWhile_dropWhile_id)
  define k where "k = length (dropWhile isspace (rev ys))"
  have k: "k \<le> length ys" using length_dropWhile_le [of isspace "rev ys"] by (simp add: k_def)
  have strip: "strip xs = take k ys" using dropWhile_rev_take [of isspace ys] by (simp add: strip_def ys_def k_def)
  show ?thesis
  proof (cases "ys = []")
    case True
    then show ?thesis using str strip skip_spaces_spec [OF assms] strlen_spec [OF str]
      by (simp add: strim_def s'_def [symmetric])
  next
    case False
    have "s' + length ys < length mem" using cstring_nth [OF str, of "length ys"] by (auto simp: aget_def split: if_splits)
    then obtain m where m: "aset mem (s' + k) 0 = Some m" using k by (simp add: aset_def)
    have "mem_read mem s' k = Some (take k ys)" "0 \<notin> set (take k ys)"
      using mem_read_split [OF cstring_read [OF str], of 0 k] k cstring_nonzero [OF str] by (auto dest: in_set_takeD)
    moreover from this(1) have "mem_read m s' k = Some (take k ys)"
      using mem_read_other [of mem "s' + k" "[0]" m s' k] m by (simp add: aset_write)
    moreover have "aget m (s' + k) = Some 0" using m by (auto simp: aset_def aget_def split: if_splits)
    ultimately have "cstring m s' (take k ys)"
      using cstring_append [of m s' "take k ys" "[]"] aget_area [of m s' k "take k ys"] k by simp
    moreover have "\<forall>i. i < s \<or> s + length xs \<le> i \<longrightarrow> aget m i = aget mem i"
    proof (cases "k = length ys")
      case True
      then have "mem ! (s' + k) = 0" "m = mem[s' + k := 0]"
        using m cstring_nth [OF str, of "length ys"] by (auto simp: aset_def aget_def split: if_splits)
      then have "m = mem" by (metis list_update_id)
      then show ?thesis by simp
    next
      case False
      then show ?thesis using m k len by (auto simp: aset_def aget_def s'_def split: if_splits)
    qed
    moreover have "strim mem s = Some (m, s')"
      using False m skip_spaces_spec [OF assms] strlen_spec [OF str] strim_loop_spec [OF cstring_read [OF str], of "length ys"]
      by (simp add: strim_def s'_def [symmetric] k_def)
    moreover have "length m = length mem" using m by (auto simp: aset_def split: if_splits)
    ultimately show ?thesis using strip s'_def by auto
  qed
qed

text \<open>Tokens.\<close>

lemma strsep_spec:
  assumes "cstring mem s xs" and "cstring mem t ys"
  defines "tok \<equiv> takeWhile (\<lambda>x. x \<notin> set ys) xs"
  shows "\<exists>m s'. strsep mem (Some s) t = Some (m, s', Some s) \<and> cstring m s tok \<and> (s' = None \<longleftrightarrow> set xs \<inter> set ys = {})
    \<and> (if tok = xs then m = mem \<and> s' = None
       else s' = Some (s + length tok + 1) \<and> cstring m (s + length tok + 1) (drop (length tok + 1) xs)
         \<and> mem_write mem (s + length tok) [0] = Some m)"
proof (cases "tok = xs")
  case True
  then have none: "\<forall>x \<in> set xs. x \<notin> set ys" using takeWhile_eq_all_conv [of _ xs] by (simp add: tok_def)
  then have "strpbrk mem s t = Some None" by (simp add: strpbrk_spec [OF assms(1,2)] first_at_def)
  moreover have "set xs \<inter> set ys = {}" using none by blast
  ultimately show ?thesis using True assms(1) by (simp add: strsep_def)
next
  case False
  then have sep: "\<exists>x \<in> set xs. x \<in> set ys" using takeWhile_eq_all_conv [of _ xs] by (auto simp: tok_def)
  then have brk: "strpbrk mem s t = Some (Some (s + length tok))" by (simp add: strpbrk_spec [OF assms(1,2)] first_at_def tok_def)
  have tok: "tok = take (length tok) xs" "length tok < length xs"
    using False takeWhile_eq_take [of "\<lambda>x. x \<notin> set ys" xs] length_takeWhile_le [of "\<lambda>x. x \<notin> set ys" xs]
    by (auto simp: tok_def le_less)
  have at: "aget mem (s + length tok) = Some (xs ! length tok)"
    using cstring_nth [OF assms(1), of "length tok"] tok(2) by (simp add: nth_append)
  then obtain m where m: "mem_write mem (s + length tok) [0] = Some m"
    by (auto simp: aset_write [symmetric] aset_def aget_def split: if_splits)
  have "cstring mem (s + (length tok + 1)) (drop (length tok + 1) xs)" using cstring_drop [OF assms(1), of "length tok + 1"] tok(2) by simp
  then have "cstring m (s + length tok + 1) (drop (length tok + 1) xs)" using cstring_other [OF m, of "s + length tok + 1"] by simp
  moreover have "cstring m s tok"
  proof -
    have "mem_read mem s (length tok) = Some tok"
      using mem_read_split [OF cstring_read [OF assms(1)], of 0 "length tok"] tok by simp
    then have "mem_read m s (length tok) = Some tok" using mem_read_other [OF m, of s "length tok"] by simp
    moreover have "aget m (s + length tok) = Some 0"
      using m by (auto simp: aset_write [symmetric] aset_def aget_def split: if_splits)
    moreover have "0 \<notin> set tok" using cstring_nonzero [OF assms(1)] by (auto simp: tok_def dest: set_takeWhileD)
    ultimately show ?thesis using cstring_append [of m s tok "[]"] aget_area [of m s "length tok" tok] by simp
  qed
  moreover have "set xs \<inter> set ys \<noteq> {}" using sep by blast
  ultimately show ?thesis using False brk m by (simp add: strsep_def aset_write [symmetric])
qed

section \<open>Properties\<close>

text \<open>
  C28.  \<open>memmove\<close> copies an area correctly whatever the overlap, \<open>memcpy\<close> when the destination does not start inside
  the source, and \<open>memset\<close> fills: each returns and equals one write of the original bytes.  The string copies write
  the copied characters and the terminating zero, and nothing else: \<open>strcpy\<close> all, \<open>strncpy\<close> exactly the given number
  with zero padding and possibly no terminator, \<open>strlcpy\<close> as many as fit.\<close>

theorem memory_copy_ok:
  assumes "mem_read mem s n = Some bs" and "mem_write mem d bs = Some m" and "cstring mem t xs"
  shows "memmove mem d s n = Some m
    \<and> (d \<le> s \<or> s + n \<le> d \<longrightarrow> memcpy mem d s n = Some m)
    \<and> (\<forall>m. mem_write mem d (replicate n (word_of_int c)) = Some m \<longrightarrow> memset mem d c n = Some m)
    \<and> (d \<le> t \<or> t + length xs < d \<longrightarrow>
       (\<forall>m. mem_write mem d (xs @ [0]) = Some m \<longrightarrow> strcpy mem d t = Some m)
       \<and> (\<forall>m. mem_write mem d (take n (xs @ replicate n 0)) = Some m \<longrightarrow> strncpy mem d t n = Some m)
       \<and> (\<forall>m. 0 < n \<and> mem_write mem d (take (n - 1) xs @ [0]) = Some m \<longrightarrow> strlcpy mem d t n = Some (m, length xs)))"
proof (intro conjI impI allI)
  show "strlcpy mem d t n = Some (m, length xs)"
    if "d \<le> t \<or> t + length xs < d" and "0 < n \<and> mem_write mem d (take (n - 1) xs @ [0]) = Some m" for m
    using that by (intro strlcpy_spec [OF assms(3)]) auto
qed (use memmove_spec [OF assms(1,2)] memcpy_spec [OF assms(1,2)] memset_spec strcpy_spec [OF assms(3)] strncpy_spec [OF assms(3)]
  in blast)+

theorem memory_copy_ok_witness:
  "memmove [1, 2, 3, 4, 0] 1 0 3 = Some [1, 1, 2, 3, 0] \<and> strlcpy [9, 9, 9, 7, 8, 0] 0 3 2 = Some ([7, 0, 9, 7, 8, 0], 2)"
  using memory_copy_ok [of "[1, 2, 3, 4, 0]" 0 3 "[1, 2, 3]" 1 "[1, 1, 2, 3, 0]" 4 "[]"]
    memory_copy_ok [of "[9, 9, 9, 7, 8, 0]" 3 2 "[7, 8]" 0 "[7, 8, 9, 7, 8, 0]" 3 "[7, 8]"]
  by (simp add: mem_read_def mem_write_def aget_def)

text \<open>
  C29.  \<open>strcat\<close>, \<open>strncat\<close> and \<open>strlcat\<close> append: the destination becomes the concatenation with the whole source, with
  a prefix of it, and with what fits the buffer; \<open>strlcat\<close> stops with a \<open>BUG\<close> when the destination fills the buffer
  already.  \<open>strim\<close> removes the white space at both ends, and \<open>strsep\<close> splits the first token off.\<close>

theorem string_edit_ok:
  assumes "cstring mem d ys" and "cstring mem s xs"
    and "d + length ys \<le> s \<or> s + length xs < d + length ys" and "d + length ys + length xs < length mem"
  shows "(\<exists>m. strcat mem d s = Some m \<and> cstring m d (ys @ xs) \<and> length m = length mem)
    \<and> (0 < n \<longrightarrow> (\<exists>m. strncat mem d s n = Some m \<and> cstring m d (ys @ take n xs)))
    \<and> (if length ys < n
       then \<exists>m. strlcat mem d s n = Some (m, length ys + length xs) \<and> cstring m d (ys @ take (n - length ys - 1) xs)
       else strlcat mem d s n = None)
    \<and> (\<exists>m s'. strim mem s = Some (m, s') \<and> cstring m s' (strip xs))
    \<and> (\<exists>m s'. strsep mem (Some s) d = Some (m, s', Some s) \<and> cstring m s (takeWhile (\<lambda>x. x \<notin> set ys) xs)
       \<and> (s' = None \<longleftrightarrow> set xs \<inter> set ys = {}))"
proof -
  have ok: "\<exists>m. mem_write mem (d + length ys) (zs @ [0]) = Some m \<and> cstring m d (ys @ zs)"
    if zs: "set zs \<subseteq> set xs" "length zs \<le> length xs" for zs
  proof -
    obtain m where m: "mem_write mem (d + length ys) (zs @ [0]) = Some m" using zs(2) assms(4) by (simp add: mem_write_def)
    have "mem_read m d (length ys) = Some ys" using mem_read_other [OF m, of d "length ys"] cstring_read [OF assms(1)] by simp
    moreover have "cstring m (d + length ys) zs" using zs cstring_nonzero [OF assms(2)] by (intro cstring_written [OF m]) auto
    ultimately have "cstring m d (ys @ zs)"
      unfolding cstring_append using cstring_nonzero [OF assms(1)] aget_area by blast
    with m show ?thesis by blast
  qed
  have sub: "set (take k xs) \<subseteq> set xs" "length (take k xs) \<le> length xs" for k by (auto dest: in_set_takeD)
  have lcat: "\<exists>m. strlcat mem d s n = Some (m, length ys + length xs) \<and> cstring m d (ys @ take (n - length ys - 1) xs)"
    if "length ys < n"
    using ok [OF sub, of "n - length ys - 1"] strlcat_spec [OF assms(1,2) that] assms(3) less_imp_le by blast
  have "\<exists>m. strcat mem d s = Some m \<and> cstring m d (ys @ xs) \<and> length m = length mem"
    using ok [of xs] strcat_spec [OF assms(1,2) _ assms(3)] mem_write_length by blast
  moreover have "0 < n \<longrightarrow> (\<exists>m. strncat mem d s n = Some m \<and> cstring m d (ys @ take n xs))"
    using ok [OF sub, of n] strncat_spec [OF assms(1,2) _ assms(3)] by blast
  moreover have "if length ys < n
       then \<exists>m. strlcat mem d s n = Some (m, length ys + length xs) \<and> cstring m d (ys @ take (n - length ys - 1) xs)
       else strlcat mem d s n = None"
    using lcat by (cases "length ys < n") (simp_all add: strlcat_def strlen_spec [OF assms(1)] strlen_spec [OF assms(2)])
  moreover have "\<exists>m s'. strim mem s = Some (m, s') \<and> cstring m s' (strip xs)" using strim_spec [OF assms(2)] by blast
  moreover have "\<exists>m s'. strsep mem (Some s) d = Some (m, s', Some s) \<and> cstring m s (takeWhile (\<lambda>x. x \<notin> set ys) xs)
       \<and> (s' = None \<longleftrightarrow> set xs \<inter> set ys = {})"
    using strsep_spec [OF assms(2,1)] by blast
  ultimately show ?thesis by - (intro conjI, assumption+)
qed

theorem string_edit_ok_witness:
  "\<exists>m. strcat [97, 0, 0, 0, 98, 99, 0] 0 4 = Some m \<and> cstring m 0 [97, 98, 99]"
proof -
  have "cstring [97, 0, 0, 0, 98, 99, 0] 0 [97]" "cstring [97, 0, 0, 0, 98, 99, 0] 4 [98, 99]" by (simp_all add: aget_def)
  from conjunct1 [OF string_edit_ok [OF this, of 0]] show ?thesis by (auto simp del: cstring.simps)
qed

end
