(* ===== verification/Rbtree.thy ===== *)
theory Rbtree
  imports Kernel_Prelude
begin

text \<open>
  The red-black trees of \<open>lib/rbtree.c\<close> and \<open>include/linux/rbtree.h\<close>, with the pointers of the code: a memory that maps
  addresses to nodes, and nodes that pack the address of the parent and the colour into one word.  A state is the
  memory with the field \<open>rb_node\<close> of one \<open>struct rb_root\<close>.  Access through \<open>NULL\<close> or to no node is a fault.
\<close>

record rb_node =
  rb_parent_color :: u64
  rb_right :: u64
  rb_left :: u64

record rb_state =
  rb_mem :: "u64 \<rightharpoonup> rb_node"
  rb_root :: u64

definition rb_get :: "rb_state \<Rightarrow> u64 \<Rightarrow> rb_node option" where
  "rb_get st p = (if p = 0 then None else rb_mem st p)"

definition rb_mod :: "rb_state \<Rightarrow> u64 \<Rightarrow> (rb_node \<Rightarrow> rb_node) \<Rightarrow> rb_state option" where
  "rb_mod st p f = do { n \<leftarrow> rb_get st p; Some (st\<lparr>rb_mem := (rb_mem st)(p \<mapsto> f n)\<rparr>) }"

section \<open>Parents and colours\<close>

definition RB_RED :: u64 where "RB_RED = 0"
definition RB_BLACK :: u64 where "RB_BLACK = 1"

definition rb_parent :: "rb_node \<Rightarrow> u64" where
  "rb_parent r = rb_parent_color r AND NOT 3"

definition rb_color :: "rb_node \<Rightarrow> u64" where
  "rb_color r = rb_parent_color r AND 1"

definition rb_is_red :: "rb_node \<Rightarrow> bool" where
  "rb_is_red r \<longleftrightarrow> rb_color r = 0"

definition rb_is_black :: "rb_node \<Rightarrow> bool" where
  "rb_is_black r \<longleftrightarrow> rb_color r \<noteq> 0"

definition rb_set_red :: "rb_node \<Rightarrow> rb_node" where
  "rb_set_red r = r\<lparr>rb_parent_color := rb_parent_color r AND NOT 1\<rparr>"

definition rb_set_black :: "rb_node \<Rightarrow> rb_node" where
  "rb_set_black r = r\<lparr>rb_parent_color := rb_parent_color r OR 1\<rparr>"

definition rb_set_parent :: "u64 \<Rightarrow> rb_node \<Rightarrow> rb_node" where
  "rb_set_parent p rb = rb\<lparr>rb_parent_color := (rb_parent_color rb AND 3) OR p\<rparr>"

definition rb_set_color :: "u64 \<Rightarrow> rb_node \<Rightarrow> rb_node" where
  "rb_set_color color rb = rb\<lparr>rb_parent_color := (rb_parent_color rb AND NOT 1) OR color\<rparr>"

text \<open>\<open>p && rb_is_red(p)\<close>, and \<open>!p || rb_is_black(p)\<close>.\<close>

definition rb_red_at :: "rb_state \<Rightarrow> u64 \<Rightarrow> bool option" where
  "rb_red_at st p = (if p \<noteq> 0 then do { n \<leftarrow> rb_get st p; Some (rb_is_red n) } else Some False)"

definition rb_black_at :: "rb_state \<Rightarrow> u64 \<Rightarrow> bool option" where
  "rb_black_at st p = (if p = 0 then Some True else do { n \<leftarrow> rb_get st p; Some (rb_is_black n) })"

definition RB_EMPTY_ROOT :: "rb_state \<Rightarrow> bool" where
  "RB_EMPTY_ROOT st \<longleftrightarrow> rb_root st = 0"

definition RB_EMPTY_NODE :: "rb_state \<Rightarrow> u64 \<Rightarrow> bool option" where
  "RB_EMPTY_NODE st node = do { n \<leftarrow> rb_get st node; Some (rb_parent n = node) }"

definition RB_CLEAR_NODE :: "rb_state \<Rightarrow> u64 \<Rightarrow> rb_state option" where
  "RB_CLEAR_NODE st node = rb_mod st node (rb_set_parent node)"

text \<open>\<open>rb_link\<close> is the address of a child field of the parent, or of the root.\<close>

datatype rb_link = Link_root | Link_left u64 | Link_right u64

definition rb_link_node :: "rb_state \<Rightarrow> u64 \<Rightarrow> u64 \<Rightarrow> rb_link \<Rightarrow> rb_state option" where
  "rb_link_node st node parent link = do {
     st \<leftarrow> rb_mod st node (\<lambda>n. n\<lparr>rb_parent_color := parent\<rparr>);
     st \<leftarrow> rb_mod st node (\<lambda>n. n\<lparr>rb_left := 0, rb_right := 0\<rparr>);
     case link of
       Link_root \<Rightarrow> Some (st\<lparr>rb_root := node\<rparr>)
     | Link_left p \<Rightarrow> rb_mod st p (\<lambda>n. n\<lparr>rb_left := node\<rparr>)
     | Link_right p \<Rightarrow> rb_mod st p (\<lambda>n. n\<lparr>rb_right := node\<rparr>) }"

section \<open>Rotations\<close>

definition raw_rb_rotate_left :: "rb_state \<Rightarrow> u64 \<Rightarrow> rb_state option" where
  "raw_rb_rotate_left st node = do {
     n \<leftarrow> rb_get st node;
     let right = rb_right n;
     let parent = rb_parent n;
     r \<leftarrow> rb_get st right;
     let child = rb_left r;
     st \<leftarrow> rb_mod st node (\<lambda>n. n\<lparr>rb_right := child\<rparr>);
     st \<leftarrow> (if child \<noteq> 0 then rb_mod st child (rb_set_parent node) else Some st);
     st \<leftarrow> rb_mod st right (\<lambda>r. r\<lparr>rb_left := node\<rparr>);
     st \<leftarrow> rb_mod st right (rb_set_parent parent);
     st \<leftarrow> (if parent \<noteq> 0
           then do { p \<leftarrow> rb_get st parent;
                     if node = rb_left p then rb_mod st parent (\<lambda>p. p\<lparr>rb_left := right\<rparr>)
                     else rb_mod st parent (\<lambda>p. p\<lparr>rb_right := right\<rparr>) }
           else Some (st\<lparr>rb_root := right\<rparr>));
     rb_mod st node (rb_set_parent right) }"

definition raw_rb_rotate_right :: "rb_state \<Rightarrow> u64 \<Rightarrow> rb_state option" where
  "raw_rb_rotate_right st node = do {
     n \<leftarrow> rb_get st node;
     let left = rb_left n;
     let parent = rb_parent n;
     l \<leftarrow> rb_get st left;
     let child = rb_right l;
     st \<leftarrow> rb_mod st node (\<lambda>n. n\<lparr>rb_left := child\<rparr>);
     st \<leftarrow> (if child \<noteq> 0 then rb_mod st child (rb_set_parent node) else Some st);
     st \<leftarrow> rb_mod st left (\<lambda>l. l\<lparr>rb_right := node\<rparr>);
     st \<leftarrow> rb_mod st left (rb_set_parent parent);
     st \<leftarrow> (if parent \<noteq> 0
           then do { p \<leftarrow> rb_get st parent;
                     if node = rb_right p then rb_mod st parent (\<lambda>p. p\<lparr>rb_right := left\<rparr>)
                     else rb_mod st parent (\<lambda>p. p\<lparr>rb_left := left\<rparr>) }
           else Some (st\<lparr>rb_root := left\<rparr>));
     rb_mod st node (rb_set_parent left) }"

section \<open>Insertion\<close>

text \<open>
  The two halves of the loop body: the parent is a left, or a right child of the grandparent.  The result is the state
  with the node at which the loop continues.
\<close>

definition rb_insert_left :: "rb_state \<Rightarrow> u64 \<Rightarrow> u64 \<Rightarrow> u64 \<Rightarrow> (rb_state \<times> u64) option" where
  "rb_insert_left st node parent gparent = do {
     g \<leftarrow> rb_get st gparent;
     let uncle = rb_right g;
     red \<leftarrow> rb_red_at st uncle;
     if red
     then do {
       st \<leftarrow> rb_mod st uncle rb_set_black;
       st \<leftarrow> rb_mod st parent rb_set_black;
       st \<leftarrow> rb_mod st gparent rb_set_red;
       Some (st, gparent) }
     else do {
       p \<leftarrow> rb_get st parent;
       (st, node, parent) \<leftarrow>
         (if rb_right p = node then do { st \<leftarrow> raw_rb_rotate_left st parent; Some (st, parent, node) }
          else Some (st, node, parent));
       st \<leftarrow> rb_mod st parent rb_set_black;
       st \<leftarrow> rb_mod st gparent rb_set_red;
       st \<leftarrow> raw_rb_rotate_right st gparent;
       Some (st, node) } }"

definition rb_insert_right :: "rb_state \<Rightarrow> u64 \<Rightarrow> u64 \<Rightarrow> u64 \<Rightarrow> (rb_state \<times> u64) option" where
  "rb_insert_right st node parent gparent = do {
     g \<leftarrow> rb_get st gparent;
     let uncle = rb_left g;
     red \<leftarrow> rb_red_at st uncle;
     if red
     then do {
       st \<leftarrow> rb_mod st uncle rb_set_black;
       st \<leftarrow> rb_mod st parent rb_set_black;
       st \<leftarrow> rb_mod st gparent rb_set_red;
       Some (st, gparent) }
     else do {
       p \<leftarrow> rb_get st parent;
       (st, node, parent) \<leftarrow>
         (if rb_left p = node then do { st \<leftarrow> raw_rb_rotate_right st parent; Some (st, parent, node) }
          else Some (st, node, parent));
       st \<leftarrow> rb_mod st parent rb_set_black;
       st \<leftarrow> rb_mod st gparent rb_set_red;
       st \<leftarrow> raw_rb_rotate_left st gparent;
       Some (st, node) } }"

partial_function (option) rb_insert_loop :: "rb_state \<Rightarrow> u64 \<Rightarrow> rb_state option" where
  "rb_insert_loop st node = do {
     n \<leftarrow> rb_get st node;
     let parent = rb_parent n;
     red \<leftarrow> rb_red_at st parent;
     if red
     then do {
       p \<leftarrow> rb_get st parent;
       let gparent = rb_parent p;
       g \<leftarrow> rb_get st gparent;
       (st, node) \<leftarrow> (if parent = rb_left g then rb_insert_left st node parent gparent
                     else rb_insert_right st node parent gparent);
       rb_insert_loop st node }
     else Some st }"

definition rb_insert_color :: "rb_state \<Rightarrow> u64 \<Rightarrow> rb_state option" where
  "rb_insert_color st node = do { st \<leftarrow> rb_insert_loop st node; rb_mod st (rb_root st) rb_set_black }"

section \<open>Removal\<close>

text \<open>
  The two halves of the loop body of \<open>__rb_erase_color\<close>: the node is the left, or the right child of the parent.  The
  result is the state with the new \<open>node\<close> and \<open>parent\<close>, and whether the loop was left with \<open>break\<close>.
\<close>

definition rb_erase_left :: "rb_state \<Rightarrow> u64 \<Rightarrow> u64 \<Rightarrow> (rb_state \<times> u64 \<times> u64 \<times> bool) option" where
  "rb_erase_left st node parent = do {
     p \<leftarrow> rb_get st parent;
     let other = rb_right p;
     oth \<leftarrow> rb_get st other;
     (st, other) \<leftarrow>
       (if rb_is_red oth
        then do {
          st \<leftarrow> rb_mod st other rb_set_black;
          st \<leftarrow> rb_mod st parent rb_set_red;
          st \<leftarrow> raw_rb_rotate_left st parent;
          p \<leftarrow> rb_get st parent;
          Some (st, rb_right p) }
        else Some (st, other));
     oth \<leftarrow> rb_get st other;
     lb \<leftarrow> rb_black_at st (rb_left oth);
     both \<leftarrow> (if lb then rb_black_at st (rb_right oth) else Some False);
     if both
     then do {
       st \<leftarrow> rb_mod st other rb_set_red;
       n \<leftarrow> rb_get st parent;
       Some (st, parent, rb_parent n, False) }
     else do {
       rb \<leftarrow> rb_black_at st (rb_right oth);
       (st, other) \<leftarrow>
         (if rb
          then do {
            st \<leftarrow> rb_mod st (rb_left oth) rb_set_black;
            st \<leftarrow> rb_mod st other rb_set_red;
            st \<leftarrow> raw_rb_rotate_right st other;
            p \<leftarrow> rb_get st parent;
            Some (st, rb_right p) }
          else Some (st, other));
       p \<leftarrow> rb_get st parent;
       st \<leftarrow> rb_mod st other (rb_set_color (rb_color p));
       st \<leftarrow> rb_mod st parent rb_set_black;
       oth \<leftarrow> rb_get st other;
       st \<leftarrow> rb_mod st (rb_right oth) rb_set_black;
       st \<leftarrow> raw_rb_rotate_left st parent;
       Some (st, rb_root st, parent, True) } }"

definition rb_erase_right :: "rb_state \<Rightarrow> u64 \<Rightarrow> u64 \<Rightarrow> (rb_state \<times> u64 \<times> u64 \<times> bool) option" where
  "rb_erase_right st node parent = do {
     p \<leftarrow> rb_get st parent;
     let other = rb_left p;
     oth \<leftarrow> rb_get st other;
     (st, other) \<leftarrow>
       (if rb_is_red oth
        then do {
          st \<leftarrow> rb_mod st other rb_set_black;
          st \<leftarrow> rb_mod st parent rb_set_red;
          st \<leftarrow> raw_rb_rotate_right st parent;
          p \<leftarrow> rb_get st parent;
          Some (st, rb_left p) }
        else Some (st, other));
     oth \<leftarrow> rb_get st other;
     lb \<leftarrow> rb_black_at st (rb_left oth);
     both \<leftarrow> (if lb then rb_black_at st (rb_right oth) else Some False);
     if both
     then do {
       st \<leftarrow> rb_mod st other rb_set_red;
       n \<leftarrow> rb_get st parent;
       Some (st, parent, rb_parent n, False) }
     else do {
       lb \<leftarrow> rb_black_at st (rb_left oth);
       (st, other) \<leftarrow>
         (if lb
          then do {
            st \<leftarrow> rb_mod st (rb_right oth) rb_set_black;
            st \<leftarrow> rb_mod st other rb_set_red;
            st \<leftarrow> raw_rb_rotate_left st other;
            p \<leftarrow> rb_get st parent;
            Some (st, rb_left p) }
          else Some (st, other));
       p \<leftarrow> rb_get st parent;
       st \<leftarrow> rb_mod st other (rb_set_color (rb_color p));
       st \<leftarrow> rb_mod st parent rb_set_black;
       oth \<leftarrow> rb_get st other;
       st \<leftarrow> rb_mod st (rb_left oth) rb_set_black;
       st \<leftarrow> raw_rb_rotate_right st parent;
       Some (st, rb_root st, parent, True) } }"

partial_function (option) rb_erase_loop :: "rb_state \<Rightarrow> u64 \<Rightarrow> u64 \<Rightarrow> (rb_state \<times> u64) option" where
  "rb_erase_loop st node parent = do {
     black \<leftarrow> rb_black_at st node;
     if black \<and> node \<noteq> rb_root st
     then do {
       p \<leftarrow> rb_get st parent;
       (st, node, parent, done) \<leftarrow>
         (if rb_left p = node then rb_erase_left st node parent else rb_erase_right st node parent);
       if done then Some (st, node) else rb_erase_loop st node parent }
     else Some (st, node) }"

definition raw_rb_erase_color :: "rb_state \<Rightarrow> u64 \<Rightarrow> u64 \<Rightarrow> rb_state option" where
  "raw_rb_erase_color st node parent = do {
     (st, node) \<leftarrow> rb_erase_loop st node parent;
     if node \<noteq> 0 then rb_mod st node rb_set_black else Some st }"

text \<open>\<open>while (n->rb_left) n = n->rb_left;\<close> and its mirror image, also of \<open>rb_first\<close>, \<open>rb_last\<close>, \<open>rb_next\<close>, \<open>rb_prev\<close>.\<close>

partial_function (option) rb_leftmost :: "rb_state \<Rightarrow> u64 \<Rightarrow> u64 option" where
  "rb_leftmost st node = do {
     n \<leftarrow> rb_get st node; if rb_left n \<noteq> 0 then rb_leftmost st (rb_left n) else Some node }"

partial_function (option) rb_rightmost :: "rb_state \<Rightarrow> u64 \<Rightarrow> u64 option" where
  "rb_rightmost st node = do {
     n \<leftarrow> rb_get st node; if rb_right n \<noteq> 0 then rb_rightmost st (rb_right n) else Some node }"

text \<open>The parent's pointer to \<open>old\<close>, or the root, is set to \<open>new\<close>.\<close>

definition rb_relink :: "rb_state \<Rightarrow> u64 \<Rightarrow> u64 \<Rightarrow> u64 \<Rightarrow> rb_state option" where
  "rb_relink st parent old new =
     (if parent \<noteq> 0
      then do { p \<leftarrow> rb_get st parent;
                if rb_left p = old then rb_mod st parent (\<lambda>p. p\<lparr>rb_left := new\<rparr>)
                else rb_mod st parent (\<lambda>p. p\<lparr>rb_right := new\<rparr>) }
      else Some (st\<lparr>rb_root := new\<rparr>))"

text \<open>A node with two children: its successor takes its place.  The result is the state, \<open>child\<close>, \<open>parent\<close> and \<open>color\<close>.\<close>

definition rb_erase_two :: "rb_state \<Rightarrow> u64 \<Rightarrow> (rb_state \<times> u64 \<times> u64 \<times> u64) option" where
  "rb_erase_two st old = do {
     o1 \<leftarrow> rb_get st old;
     node \<leftarrow> rb_leftmost st (rb_right o1);
     st \<leftarrow> rb_relink st (rb_parent o1) old node;
     n \<leftarrow> rb_get st node;
     let child = rb_right n;
     let parent = rb_parent n;
     let color = rb_color n;
     (st, parent) \<leftarrow>
       (if parent = old then Some (st, node)
        else do {
          st \<leftarrow> (if child \<noteq> 0 then rb_mod st child (rb_set_parent parent) else Some st);
          st \<leftarrow> rb_mod st parent (\<lambda>p. p\<lparr>rb_left := child\<rparr>);
          o2 \<leftarrow> rb_get st old;
          st \<leftarrow> rb_mod st node (\<lambda>n. n\<lparr>rb_right := rb_right o2\<rparr>);
          st \<leftarrow> rb_mod st (rb_right o2) (rb_set_parent node);
          Some (st, parent) });
     o2 \<leftarrow> rb_get st old;
     st \<leftarrow> rb_mod st node (\<lambda>n. n\<lparr>rb_parent_color := rb_parent_color o2\<rparr>);
     st \<leftarrow> rb_mod st node (\<lambda>n. n\<lparr>rb_left := rb_left o2\<rparr>);
     st \<leftarrow> rb_mod st (rb_left o2) (rb_set_parent node);
     Some (st, child, parent, color) }"

text \<open>A node with at most one child, which takes its place.\<close>

definition rb_erase_one :: "rb_state \<Rightarrow> u64 \<Rightarrow> u64 \<Rightarrow> (rb_state \<times> u64 \<times> u64 \<times> u64) option" where
  "rb_erase_one st node child = do {
     n \<leftarrow> rb_get st node;
     let parent = rb_parent n;
     let color = rb_color n;
     st \<leftarrow> (if child \<noteq> 0 then rb_mod st child (rb_set_parent parent) else Some st);
     st \<leftarrow> rb_relink st parent node child;
     Some (st, child, parent, color) }"

definition rb_erase :: "rb_state \<Rightarrow> u64 \<Rightarrow> rb_state option" where
  "rb_erase st node = do {
     n \<leftarrow> rb_get st node;
     (st, child, parent, color) \<leftarrow>
       (if rb_left n = 0 then rb_erase_one st node (rb_right n)
        else if rb_right n = 0 then rb_erase_one st node (rb_left n)
        else rb_erase_two st node);
     if color = RB_BLACK then raw_rb_erase_color st child parent else Some st }"

section \<open>Traversal and replacement\<close>

definition rb_first :: "rb_state \<Rightarrow> u64 option" where
  "rb_first st = (if rb_root st = 0 then Some 0 else rb_leftmost st (rb_root st))"

definition rb_last :: "rb_state \<Rightarrow> u64 option" where
  "rb_last st = (if rb_root st = 0 then Some 0 else rb_rightmost st (rb_root st))"

partial_function (option) rb_up_from_right :: "rb_state \<Rightarrow> u64 \<Rightarrow> u64 option" where
  "rb_up_from_right st node = do {
     n \<leftarrow> rb_get st node;
     let parent = rb_parent n;
     if parent = 0 then Some parent
     else do { p \<leftarrow> rb_get st parent; if node = rb_right p then rb_up_from_right st parent else Some parent } }"

partial_function (option) rb_up_from_left :: "rb_state \<Rightarrow> u64 \<Rightarrow> u64 option" where
  "rb_up_from_left st node = do {
     n \<leftarrow> rb_get st node;
     let parent = rb_parent n;
     if parent = 0 then Some parent
     else do { p \<leftarrow> rb_get st parent; if node = rb_left p then rb_up_from_left st parent else Some parent } }"

definition rb_next :: "rb_state \<Rightarrow> u64 \<Rightarrow> u64 option" where
  "rb_next st node = do {
     n \<leftarrow> rb_get st node;
     if rb_parent n = node then Some 0
     else if rb_right n \<noteq> 0 then rb_leftmost st (rb_right n)
     else rb_up_from_right st node }"

definition rb_prev :: "rb_state \<Rightarrow> u64 \<Rightarrow> u64 option" where
  "rb_prev st node = do {
     n \<leftarrow> rb_get st node;
     if rb_parent n = node then Some 0
     else if rb_left n \<noteq> 0 then rb_rightmost st (rb_left n)
     else rb_up_from_left st node }"

definition rb_replace_node :: "rb_state \<Rightarrow> u64 \<Rightarrow> u64 \<Rightarrow> rb_state option" where
  "rb_replace_node st victim new = do {
     v \<leftarrow> rb_get st victim;
     let parent = rb_parent v;
     st \<leftarrow> rb_relink st parent victim new;
     v \<leftarrow> rb_get st victim;
     st \<leftarrow> (if rb_left v \<noteq> 0 then rb_mod st (rb_left v) (rb_set_parent new) else Some st);
     st \<leftarrow> (if rb_right v \<noteq> 0 then rb_mod st (rb_right v) (rb_set_parent new) else Some st);
     v \<leftarrow> rb_get st victim;
     rb_mod st new (\<lambda>_. v) }"

end
