(* ===== verification/Rbtree_Rep.thy ===== *)
theory Rbtree_Rep
  imports Rbtree "HOL-Library.Tree"
begin

text \<open>
  When a memory of linked nodes represents a red-black tree.  Left and right are treated alike: a direction is a
  truth value, \<open>True\<close> for left, and \<open>nd d l x r\<close> is the node whose child in direction \<open>d\<close> is \<open>l\<close>.  A position inside a
  tree is a subtree with the list of its ancestors; the same memory represents all positions of a tree, so a proof
  moves to the node the code looks at.
\<close>

section \<open>Nodes without their packing\<close>

datatype colour = Red | Black

type_synonym cell = "u64 \<times> colour \<times> (bool \<Rightarrow> u64)"

definition view :: "rb_node \<Rightarrow> cell" where
  "view n = (rb_parent n, if rb_is_red n then Red else Black, \<lambda>d. if d then rb_left n else rb_right n)"

definition cells :: "rb_state \<Rightarrow> u64 \<Rightarrow> cell option" where
  "cells st a = map_option view (rb_get st a)"

definition okaddr :: "u64 \<Rightarrow> bool" where
  "okaddr a \<longleftrightarrow> a \<noteq> 0 \<and> a AND 3 = 0"

definition chl :: "bool \<Rightarrow> rb_node \<Rightarrow> u64" where
  "chl d n = (if d then rb_left n else rb_right n)"

definition set_chl :: "bool \<Rightarrow> u64 \<Rightarrow> rb_node \<Rightarrow> rb_node" where
  "set_chl d p n = (if d then n\<lparr>rb_left := p\<rparr> else n\<lparr>rb_right := p\<rparr>)"

lemma cellsD:
  assumes "cells st a = Some (q, c, ch)"
  obtains n where "rb_get st a = Some n" "rb_parent n = q" "rb_is_red n \<longleftrightarrow> c = Red" "\<And>d. chl d n = ch d"
    "rb_left n = ch True" "rb_right n = ch False"
  using assms by (auto simp: cells_def view_def chl_def split: if_splits)

lemma rb_mod_cells:
  assumes "cells st a = Some v" and "\<And>n. view n = v \<Longrightarrow> view (f n) = w"
  obtains st' where "rb_mod st a f = Some st'" "cells st' = (cells st)(a \<mapsto> w)" "rb_root st' = rb_root st"
proof -
  from assms(1) obtain n where n: "rb_get st a = Some n" "view n = v" by (auto simp: cells_def)
  then have "rb_mod st a f = Some (st\<lparr>rb_mem := (rb_mem st)(a \<mapsto> f n)\<rparr>)" by (simp add: rb_mod_def)
  moreover have "cells (st\<lparr>rb_mem := (rb_mem st)(a \<mapsto> f n)\<rparr>) = (cells st)(a \<mapsto> w)"
    using n assms(2) by (auto simp: cells_def rb_get_def split: if_splits)
  ultimately show ?thesis using that by simp
qed

text \<open>The low bits of a word.\<close>

lemma bit_3: "bit (3 :: int) k \<longleftrightarrow> k = 0 \<or> k = 1"
  by (cases k) (auto simp: bit_numeral_rec bit_1_iff)

lemma bit_minus_4: "bit (- 4 :: int) k \<longleftrightarrow> k \<noteq> 0 \<and> k \<noteq> 1"
proof -
  have "- 4 = NOT (3 :: int)" by simp
  then show ?thesis using bit_not_iff [of "3 :: int" k] by (auto simp: bit_3)
qed

lemma bit_minus_2: "bit (- 2 :: int) k \<longleftrightarrow> k \<noteq> 0"
proof -
  have "- 2 = NOT (1 :: int)" by simp
  then show ?thesis using bit_not_iff [of "1 :: int" k] by (auto simp: bit_1_iff)
qed

lemmas low_bits = bit_and_iff bit_or_iff bit_3 bit_minus_4 bit_minus_2 bit_1_iff

lemma and_not_3_1: "(x AND - 2) AND - 4 = x AND - 4" "(x OR 1) AND - 4 = x AND - 4" for x :: u64
  by (rule bit_word_eqI, auto simp: low_bits)+

lemma and_3_iff: "p AND 3 = 0 \<longleftrightarrow> \<not> bit p 0 \<and> \<not> bit p 1" for p :: u64
proof
  assume "p AND 3 = 0"
  then have "\<not> bit (p AND 3) 0" "\<not> bit (p AND 3) 1" by simp_all
  then show "\<not> bit p 0 \<and> \<not> bit p 1" by (simp add: low_bits)
next
  assume "\<not> bit p 0 \<and> \<not> bit p 1"
  then show "p AND 3 = 0" by (intro bit_word_eqI) (auto simp: low_bits intro!: gr0I)
qed

lemma color_bit: "rb_color n = 0 \<longleftrightarrow> \<not> bit (rb_parent_color n) 0"
  by (simp add: rb_color_def and_one_eq bit_0 even_iff_mod_2_eq_zero)

lemma parent_color_parent:
  fixes x p :: u64
  assumes "p AND 3 = 0"
  shows "((x AND 3) OR p) AND - 4 = p" and "bit ((x AND 3) OR p) 0 = bit x 0"
proof -
  show "((x AND 3) OR p) AND - 4 = p" using assms unfolding and_3_iff
    by (intro bit_word_eqI) (auto simp: low_bits intro!: gr0I)
  show "bit ((x AND 3) OR p) 0 = bit x 0" using assms unfolding and_3_iff by (simp add: low_bits)
qed

lemma parent_color_color:
  "((x AND - 2) OR (y AND 1)) AND - 4 = x AND - 4" "bit ((x AND - 2) OR (y AND 1)) 0 = bit y 0" for x y :: u64
  by (rule bit_word_eqI, auto simp: low_bits)

lemma view_mod:
  assumes "view n = (q, c, ch)"
  shows "view (rb_set_black n) = (q, Black, ch)" and "view (rb_set_red n) = (q, Red, ch)"
    and "p AND 3 = 0 \<Longrightarrow> view (rb_set_parent p n) = (p, c, ch)"
    and "view (set_chl d p n) = (q, c, ch(d := p))"
    and "view (rb_set_color (rb_color m) n) = (q, if rb_is_red m then Red else Black, ch)"
proof -
  have "bit (x OR 1) 0" "\<not> bit (x AND - 2) 0" for x :: u64 by (auto simp: low_bits)
  then show "view (rb_set_black n) = (q, Black, ch)" "view (rb_set_red n) = (q, Red, ch)"
    using assms by (auto simp: view_def rb_set_black_def rb_set_red_def rb_parent_def rb_is_red_def color_bit and_not_3_1)
  show "view (rb_set_parent p n) = (p, c, ch)" if "p AND 3 = 0"
    using assms parent_color_parent [OF that]
    by (auto simp: view_def rb_set_parent_def rb_parent_def rb_is_red_def color_bit split: if_splits)
  show "view (set_chl d p n) = (q, c, ch(d := p))"
    using assms by (auto simp: view_def set_chl_def rb_parent_def rb_is_red_def color_bit split: if_splits)
  show "view (rb_set_color (rb_color m) n) = (q, if rb_is_red m then Red else Black, ch)"
  proof -
    have "rb_parent (rb_set_color (rb_color m) n) = rb_parent n"
      using parent_color_color(1) by (simp add: rb_parent_def rb_set_color_def rb_color_def)
    moreover have "rb_is_red (rb_set_color (rb_color m) n) \<longleftrightarrow> rb_is_red m"
      using parent_color_color(2) [of "rb_parent_color n" "rb_parent_color m"]
      by (simp add: rb_is_red_def color_bit) (simp add: rb_set_color_def rb_color_def)
    moreover have "rb_left (rb_set_color (rb_color m) n) = rb_left n" "rb_right (rb_set_color (rb_color m) n) = rb_right n"
      by (simp_all add: rb_set_color_def)
    ultimately show ?thesis using assms by (auto simp: view_def)
  qed
qed

lemma mod_chl:
  assumes "cells st a = Some (q, c, ch)"
  obtains st' where "rb_mod st a (set_chl d x) = Some st'" "cells st' = (cells st)(a \<mapsto> (q, c, ch(d := x)))"
    "rb_root st' = rb_root st"
  by (rule rb_mod_cells [OF assms, of "set_chl d x" "(q, c, ch(d := x))"]) (simp_all add: view_mod)

lemma mod_parent:
  assumes "cells st a = Some (q, c, ch)" and "p AND 3 = 0"
  obtains st' where "rb_mod st a (rb_set_parent p) = Some st'" "cells st' = (cells st)(a \<mapsto> (p, c, ch))"
    "rb_root st' = rb_root st"
  by (rule rb_mod_cells [OF assms(1), of "rb_set_parent p" "(p, c, ch)"]) (simp_all add: view_mod assms(2))

section \<open>Trees and positions\<close>

type_synonym rbtree = "(colour \<times> u64) tree"

fun adr :: "rbtree \<Rightarrow> u64" where
  "adr Leaf = 0"
| "adr (Node l (c, a) r) = a"

definition kids :: "bool \<Rightarrow> u64 \<Rightarrow> u64 \<Rightarrow> bool \<Rightarrow> u64" where
  "kids d p q e = (if e = d then p else q)"

definition nd :: "bool \<Rightarrow> rbtree \<Rightarrow> colour \<times> u64 \<Rightarrow> rbtree \<Rightarrow> rbtree" where
  "nd d l x r = (if d then Node l x r else Node r x l)"

lemma kids_simps [simp]:
  "kids d p q d = p" "kids d p q (\<not> d) = q" "kids (\<not> d) p q d = q"
  "(kids d p q)(d := x) = kids d x q" "(kids d p q)(\<not> d := x) = kids d p x"
  by (auto simp: kids_def)

lemma kids_flip: "kids (\<not> d) p q = kids d q p"
  by (auto simp: kids_def)

lemma nd_flip: "nd (\<not> d) l x r = nd d r x l"
  by (simp add: nd_def)

lemma nd_simps [simp]: "adr (nd d l (c, a) r) = a" "nd d l x r \<noteq> Leaf" "Leaf \<noteq> nd d l x r"
  "nd d l x r = nd d l' x' r' \<longleftrightarrow> l = l' \<and> x = x' \<and> r = r'"
  by (auto simp: nd_def)

lemma nd_cases: obtains "t = Leaf" | l c a r where "t = nd d l (c, a) r"
proof (cases t)
  case (Node l x r)
  obtain c a where "x = (c, a)" by (cases x)
  with Node show ?thesis using that(2) [of "if d then l else r" c a "if d then r else l"] by (simp add: nd_def split: if_splits)
qed (rule that(1))

fun nodes :: "rbtree \<Rightarrow> u64 list" where
  "nodes Leaf = []"
| "nodes (Node l (c, a) r) = nodes l @ a # nodes r"

lemma set_nodes_nd [simp]: "set (nodes (nd d l (c, a) r)) = insert a (set (nodes l) \<union> set (nodes r))"
  by (auto simp: nd_def)

lemma distinct_nodes_nd [simp]:
  "distinct (nodes (nd d l (c, a) r)) \<longleftrightarrow>
     a \<notin> set (nodes l) \<and> a \<notin> set (nodes r) \<and> set (nodes l) \<inter> set (nodes r) = {} \<and> distinct (nodes l) \<and> distinct (nodes r)"
  by (auto simp: nd_def)

fun rep :: "(u64 \<Rightarrow> cell option) \<Rightarrow> u64 \<Rightarrow> rbtree \<Rightarrow> bool" where
  "rep V q Leaf \<longleftrightarrow> True"
| "rep V q (Node l (c, a) r) \<longleftrightarrow> V a = Some (q, c, kids True (adr l) (adr r)) \<and> okaddr a \<and> rep V a l \<and> rep V a r"

lemma rep_nd [simp]:
  "rep V q (nd d l (c, a) r) \<longleftrightarrow> V a = Some (q, c, kids d (adr l) (adr r)) \<and> okaddr a \<and> rep V a l \<and> rep V a r"
  using kids_flip [of True "adr l" "adr r"] by (auto simp: nd_def)

lemma rep_cong: "(\<And>a. a \<in> set (nodes t) \<Longrightarrow> V' a = V a) \<Longrightarrow> rep V' q t \<longleftrightarrow> rep V q t"
  by (induction V q t rule: rep.induct) auto

lemma rep_upd [simp]: "b \<notin> set (nodes t) \<Longrightarrow> rep (V(b := w)) q t \<longleftrightarrow> rep V q t"
  by (rule rep_cong) auto

lemma rep_adr: "rep V q t \<Longrightarrow> t \<noteq> Leaf \<Longrightarrow> okaddr (adr t) \<and> adr t \<in> set (nodes t)"
  by (cases t rule: adr.cases) auto

lemma adr_0: "rep V q t \<Longrightarrow> adr t = 0 \<longleftrightarrow> t = Leaf"
  by (cases t rule: adr.cases) (auto simp: okaddr_def)

text \<open>
  The ancestors of a position, nearest first: in which direction the position is below, the colour and address of the
  ancestor, and its other subtree.
\<close>

type_synonym frames = "(bool \<times> colour \<times> u64 \<times> rbtree) list"

fun up :: "frames \<Rightarrow> u64" where
  "up [] = 0"
| "up ((d, c, a, s) # fs) = a"

fun cnodes :: "frames \<Rightarrow> u64 list" where
  "cnodes [] = []"
| "cnodes ((d, c, a, s) # fs) = a # nodes s @ cnodes fs"

fun repc :: "(u64 \<Rightarrow> cell option) \<Rightarrow> u64 \<Rightarrow> u64 \<Rightarrow> frames \<Rightarrow> bool" where
  "repc V root p [] \<longleftrightarrow> root = p"
| "repc V root p ((d, c, a, s) # fs) \<longleftrightarrow>
     V a = Some (up fs, c, kids d p (adr s)) \<and> okaddr a \<and> rep V a s \<and> repc V root a fs"

lemma repc_cong: "(\<And>a. a \<in> set (cnodes fs) \<Longrightarrow> V' a = V a) \<Longrightarrow> repc V' root p fs \<longleftrightarrow> repc V root p fs"
proof (induction fs arbitrary: p)
  case (Cons f fs)
  obtain d c a s where f: "f = (d, c, a, s)" by (cases f)
  have "rep V' a s \<longleftrightarrow> rep V a s" by (rule rep_cong) (simp add: Cons.prems f)
  moreover have "repc V' root a fs \<longleftrightarrow> repc V root a fs" by (rule Cons.IH) (simp add: Cons.prems f)
  ultimately show ?case using Cons.prems [of a] by (simp add: f)
qed simp

lemma repc_upd [simp]: "b \<notin> set (cnodes fs) \<Longrightarrow> repc (V(b := w)) root p fs \<longleftrightarrow> repc V root p fs"
  by (rule repc_cong) auto

definition foc :: "rb_state \<Rightarrow> rbtree \<Rightarrow> frames \<Rightarrow> bool" where
  "foc st t fs \<longleftrightarrow> rep (cells st) (up fs) t \<and> repc (cells st) (rb_root st) (adr t) fs \<and> distinct (nodes t @ cnodes fs)"

text \<open>The same memory represents the parent's position.\<close>

lemma foc_move: "foc st (nd d t (c, a) s) fs \<longleftrightarrow> foc st t ((d, c, a, s) # fs)"
  by (auto simp: foc_def)

lemma foc_flip: "foc st t ((d, c, a, s) # fs) \<longleftrightarrow> foc st s ((\<not> d, c, a, t) # fs)"
  unfolding foc_move [symmetric] nd_flip ..

fun plug :: "rbtree \<Rightarrow> frames \<Rightarrow> rbtree" where
  "plug t [] = t"
| "plug t ((d, c, a, s) # fs) = plug (nd d t (c, a) s) fs"

lemma foc_plug: "foc st (plug t fs) [] \<longleftrightarrow> foc st t fs"
  by (induction t fs rule: plug.induct) (simp_all add: foc_move)

lemma nodes_plug:
  "\<exists>xs ys. \<forall>t. nodes (plug t fs) = xs @ nodes t @ ys"
proof (induction fs)
  case Nil
  show ?case by (intro exI [of _ "[]"]) simp
next
  case (Cons f fs)
  obtain d c a s where f: "f = (d, c, a, s)" by (cases f)
  from Cons obtain xs ys where "\<forall>t. nodes (plug t fs) = xs @ nodes t @ ys" by blast
  then have "\<forall>t. nodes (plug t (f # fs)) = (if d then xs else xs @ nodes s @ [a]) @ nodes t @ (if d then a # nodes s @ ys else ys)"
    by (simp add: f nd_def)
  then show ?case by blast
qed

lemma nodes_plug_cong: "nodes t = nodes t' \<Longrightarrow> nodes (plug t fs) = nodes (plug t' fs)"
  using nodes_plug [of fs] by auto

section \<open>Operations on positions\<close>

lemma foc_get:
  assumes "foc st (nd d l (c, a) r) fs"
  obtains n where "rb_get st a = Some n" "rb_parent n = up fs" "rb_is_red n \<longleftrightarrow> c = Red"
    "chl d n = adr l" "chl (\<not> d) n = adr r"
proof -
  have "cells st a = Some (up fs, c, kids d (adr l) (adr r))" using assms by (simp add: foc_def)
  then obtain n where "rb_get st a = Some n" "rb_parent n = up fs" "rb_is_red n \<longleftrightarrow> c = Red"
    "\<And>e. chl e n = kids d (adr l) (adr r) e" by (rule cellsD) blast
  then show ?thesis using that by simp
qed

lemma foc_parent:
  assumes "foc st t ((d, c, a, s) # fs)"
  obtains n where "rb_get st a = Some n" "rb_parent n = up fs" "rb_is_red n \<longleftrightarrow> c = Red"
    "chl d n = adr t" "chl (\<not> d) n = adr s"
  using assms foc_get unfolding foc_move [symmetric] by blast

fun blk :: "rbtree \<Rightarrow> bool" where
  "blk Leaf \<longleftrightarrow> True"
| "blk (Node l (c, a) r) \<longleftrightarrow> c = Black"

lemma blk_nd [simp]: "blk (nd d l (c, a) r) \<longleftrightarrow> c = Black"
  by (simp add: nd_def)

lemma foc_nz: "foc st (nd d l (c, a) r) fs \<Longrightarrow> a \<noteq> 0"
  by (simp add: foc_def okaddr_def)

lemma colour_cases: "c \<noteq> Red \<longleftrightarrow> c = Black"
  by (cases c) simp_all

lemma foc_colour_at:
  assumes "foc st t fs"
  shows "rb_black_at st (adr t) = Some (blk t)" and "rb_red_at st (adr t) = Some (\<not> blk t)"
proof -
  have "rb_black_at st (adr t) = Some (blk t) \<and> rb_red_at st (adr t) = Some (\<not> blk t)"
  proof (cases rule: nd_cases [where t = t and d = True])
    case (2 l c a r)
    with assms have f: "foc st (nd True l (c, a) r) fs" by simp
    from foc_get [OF f] obtain n where "rb_get st a = Some n" "rb_is_red n \<longleftrightarrow> c = Red" by blast
    then show ?thesis using 2 foc_nz [OF f] colour_cases [of c]
      by (auto simp: rb_black_at_def rb_red_at_def rb_is_black_def rb_is_red_def)
  qed (simp add: rb_black_at_def rb_red_at_def)
  then show "rb_black_at st (adr t) = Some (blk t)" "rb_red_at st (adr t) = Some (\<not> blk t)" by simp_all
qed

text \<open>Colouring the node of the position.\<close>

lemma foc_colour:
  assumes f: "foc st (nd d l (c, a) r) fs" and v: "\<And>n ch. view n = (up fs, c, ch) \<Longrightarrow> view (g n) = (up fs, c', ch)"
  obtains st' where "rb_mod st a g = Some st'" "foc st' (nd d l (c', a) r) fs" "rb_root st' = rb_root st"
proof -
  have c: "cells st a = Some (up fs, c, kids d (adr l) (adr r))" using f by (simp add: foc_def)
  obtain st' where st': "rb_mod st a g = Some st'" "cells st' = (cells st)(a \<mapsto> (up fs, c', kids d (adr l) (adr r)))"
    "rb_root st' = rb_root st"
    using rb_mod_cells [OF c, of g "(up fs, c', kids d (adr l) (adr r))"] v by blast
  have "foc st' (nd d l (c', a) r) fs" using f st'(2,3) by (auto simp: foc_def)
  with st'(1,3) show ?thesis using that by blast
qed

lemma foc_set_black:
  assumes "foc st (nd d l (c, a) r) fs"
  obtains st' where "rb_mod st a rb_set_black = Some st'" "foc st' (nd d l (Black, a) r) fs" "rb_root st' = rb_root st"
  by (rule foc_colour [OF assms, of rb_set_black Black]) (simp_all add: view_mod)

lemma foc_set_red:
  assumes "foc st (nd d l (c, a) r) fs"
  obtains st' where "rb_mod st a rb_set_red = Some st'" "foc st' (nd d l (Red, a) r) fs" "rb_root st' = rb_root st"
  by (rule foc_colour [OF assms, of rb_set_red Red]) (simp_all add: view_mod)

text \<open>Pointing the parent, or the root, to another node.\<close>

definition relink :: "bool \<Rightarrow> rb_state \<Rightarrow> u64 \<Rightarrow> u64 \<Rightarrow> u64 \<Rightarrow> rb_state option" where
  "relink d st parent old new =
     (if parent \<noteq> 0
      then do { p \<leftarrow> rb_get st parent;
                if old = chl d p then rb_mod st parent (set_chl d new) else rb_mod st parent (set_chl (\<not> d) new) }
      else Some (st\<lparr>rb_root := new\<rparr>))"

fun relinked :: "frames \<Rightarrow> u64 \<Rightarrow> (u64 \<Rightarrow> cell option) \<Rightarrow> u64 \<Rightarrow> cell option" where
  "relinked [] p V = V"
| "relinked ((e, c, a, s) # fs) p V = V(a \<mapsto> (up fs, c, kids e p (adr s)))"

lemma cells_root [simp]: "cells (st\<lparr>rb_root := p\<rparr>) = cells st"
  by (auto simp: cells_def rb_get_def)

lemma relink_spec:
  assumes "repc (cells st) (rb_root st) p fs" and "p \<noteq> 0" and "p \<notin> set (cnodes fs)"
  obtains st' where "relink d st (up fs) p p' = Some st'" "cells st' = relinked fs p' (cells st)"
    "rb_root st' = (if fs = [] then p' else rb_root st)"
proof (cases fs)
  case Nil
  then show ?thesis using that [of "st\<lparr>rb_root := p'\<rparr>"] by (simp add: relink_def)
next
  case (Cons f fs')
  obtain e c a s where f: "f = (e, c, a, s)" by (cases f)
  have V: "cells st a = Some (up fs', c, kids e p (adr s))" and a: "a \<noteq> 0" and s: "rep (cells st) a s"
    using assms(1) Cons f by (auto simp: okaddr_def)
  from V obtain n where n: "rb_get st a = Some n" "\<And>d. chl d n = kids e p (adr s) d" by (rule cellsD) blast
  have "adr s \<noteq> p" using rep_adr [OF s] assms(2,3) Cons f by (cases "s = Leaf") auto
  then have side: "p = chl d n \<longleftrightarrow> d = e" using n(2) by (auto simp: kids_def)
  obtain st' where st': "rb_mod st a (set_chl e p') = Some st'"
    "cells st' = (cells st)(a \<mapsto> (up fs', c, kids e p' (adr s)))" "rb_root st' = rb_root st"
    by (rule mod_chl [OF V, of e p']) simp
  have "set_chl (if d = e then d else \<not> d) p' = set_chl e p'" by (cases d; cases e) simp_all
  then have "relink d st (up fs) p p' = Some st'" using st'(1) side n(1) a Cons f by (auto simp: relink_def)
  with st' show ?thesis using that Cons f by simp
qed

lemma repc_relinked:
  "repc V root p fs \<Longrightarrow> distinct (cnodes fs) \<Longrightarrow> repc (relinked fs p' V) (if fs = [] then p' else root) p' fs"
  by (cases fs rule: up.cases) auto

lemma relinked_other: "a \<notin> set (cnodes fs) \<Longrightarrow> relinked fs p V a = V a"
  by (cases fs rule: up.cases) auto

lemma rep_relinked: "set (nodes t) \<inter> set (cnodes fs) = {} \<Longrightarrow> rep (relinked fs p V) q t \<longleftrightarrow> rep V q t"
  by (rule rep_cong) (auto intro: relinked_other)

lemma up_ok: "repc V root p fs \<Longrightarrow> up fs AND 3 = 0"
  by (cases fs rule: up.cases) (auto simp: okaddr_def)

lemma reparent:
  assumes "rep (cells st) q t" and "distinct (nodes t)" and "p AND 3 = 0"
  obtains st' where "(if adr t \<noteq> 0 then rb_mod st (adr t) (rb_set_parent p) else Some st) = Some st'"
    "rep (cells st') p t" "\<And>a. a \<notin> set (nodes t) \<Longrightarrow> cells st' a = cells st a" "rb_root st' = rb_root st"
proof (cases rule: nd_cases [where t = t and d = True])
  case 1
  then show ?thesis using that [of st] by simp
next
  case (2 l c a r)
  have V: "cells st a = Some (q, c, kids True (adr l) (adr r))" and a: "okaddr a" using assms(1) 2 by simp_all
  obtain st' where st': "rb_mod st a (rb_set_parent p) = Some st'"
    "cells st' = (cells st)(a \<mapsto> (p, c, kids True (adr l) (adr r)))" "rb_root st' = rb_root st"
    by (rule mod_parent [OF V assms(3)])
  have "rep (cells st') p t" using assms(1,2) 2 st'(2) by simp
  then show ?thesis using that [of st'] st' 2 a by (simp add: okaddr_def)
qed

text \<open>The two rotations as one.\<close>

definition rb_rotate :: "bool \<Rightarrow> rb_state \<Rightarrow> u64 \<Rightarrow> rb_state option" where
  "rb_rotate d st node = do {
     n \<leftarrow> rb_get st node;
     let right = chl (\<not> d) n;
     let parent = rb_parent n;
     r \<leftarrow> rb_get st right;
     let child = chl d r;
     st \<leftarrow> rb_mod st node (set_chl (\<not> d) child);
     st \<leftarrow> (if child \<noteq> 0 then rb_mod st child (rb_set_parent node) else Some st);
     st \<leftarrow> rb_mod st right (set_chl d node);
     st \<leftarrow> rb_mod st right (rb_set_parent parent);
     st \<leftarrow> relink d st parent node right;
     rb_mod st node (rb_set_parent right) }"

lemma set_chl_fun: "set_chl True p = (\<lambda>n. n\<lparr>rb_left := p\<rparr>)" "set_chl False p = (\<lambda>n. n\<lparr>rb_right := p\<rparr>)"
  by (auto simp: set_chl_def)

lemma rotate_left: "raw_rb_rotate_left = rb_rotate True"
  by (intro ext) (simp add: raw_rb_rotate_left_def rb_rotate_def relink_def set_chl_fun chl_def cong: if_cong)

lemma rotate_right: "raw_rb_rotate_right = rb_rotate False"
  by (intro ext) (simp add: raw_rb_rotate_right_def rb_rotate_def relink_def set_chl_fun chl_def cong: if_cong)

lemma rotate_spec:
  assumes f: "foc st (nd d A (cx, x) (nd d B (cy, y) C)) fs"
  obtains st' where "rb_rotate d st x = Some st'" "foc st' (nd d (nd d A (cx, x) B) (cy, y) C) fs"
proof -
  let ?q = "up fs"
  have V: "cells st x = Some (?q, cx, kids d (adr A) y)" "cells st y = Some (x, cy, kids d (adr B) (adr C))"
    and ok: "okaddr x" "okaddr y" and reps: "rep (cells st) x A" "rep (cells st) y B" "rep (cells st) y C"
    and rc: "repc (cells st) (rb_root st) x fs"
    using f by (simp_all add: foc_def)
  have dist: "x \<noteq> y" "x \<notin> set (nodes A)" "x \<notin> set (nodes B)" "x \<notin> set (nodes C)" "x \<notin> set (cnodes fs)"
    "y \<notin> set (nodes A)" "y \<notin> set (nodes B)" "y \<notin> set (nodes C)" "y \<notin> set (cnodes fs)"
    "set (nodes A) \<inter> set (nodes B) = {}" "set (nodes A) \<inter> set (nodes C) = {}" "set (nodes B) \<inter> set (nodes C) = {}"
    "set (nodes A) \<inter> set (cnodes fs) = {}" "set (nodes B) \<inter> set (cnodes fs) = {}" "set (nodes C) \<inter> set (cnodes fs) = {}"
    "distinct (nodes A)" "distinct (nodes B)" "distinct (nodes C)" "distinct (cnodes fs)"
    using f by (auto simp: foc_def)
  obtain n where n: "rb_get st x = Some n" "rb_parent n = ?q" "chl (\<not> d) n = y" by (rule foc_get [OF f]) auto
  have "foc st (nd d B (cy, y) C) ((\<not> d, cx, x, A) # fs)" using f by (simp add: foc_move [symmetric] nd_flip)
  from foc_get [OF this] obtain m where m: "rb_get st y = Some m" "chl d m = adr B" by blast
  obtain st1 where st1: "rb_mod st x (set_chl (\<not> d) (adr B)) = Some st1"
    "cells st1 = (cells st)(x \<mapsto> (?q, cx, kids d (adr A) (adr B)))" "rb_root st1 = rb_root st"
    by (rule mod_chl [OF V(1), of "\<not> d" "adr B"]) simp
  have "rep (cells st1) y B" using reps(2) st1(2) dist by simp
  then obtain st2 where st2: "(if adr B \<noteq> 0 then rb_mod st1 (adr B) (rb_set_parent x) else Some st1) = Some st2"
    "rep (cells st2) x B" "\<And>a. a \<notin> set (nodes B) \<Longrightarrow> cells st2 a = cells st1 a" "rb_root st2 = rb_root st1"
    using reparent [of st1 y B x] ok(1) dist by (auto simp: okaddr_def)
  have "cells st2 y = Some (x, cy, kids d (adr B) (adr C))" using V(2) st1(2) st2(3) dist by simp
  then obtain st3 where st3: "rb_mod st2 y (set_chl d x) = Some st3"
    "cells st3 = (cells st2)(y \<mapsto> (x, cy, kids d x (adr C)))" "rb_root st3 = rb_root st2"
    by (rule mod_chl [of _ _ _ _ _ d x]) simp
  then have "cells st3 y = Some (x, cy, kids d x (adr C))" by simp
  then obtain st4 where st4: "rb_mod st3 y (rb_set_parent ?q) = Some st4"
    "cells st4 = (cells st3)(y \<mapsto> (?q, cy, kids d x (adr C)))" "rb_root st4 = rb_root st3"
    by (rule mod_parent [OF _ up_ok [OF rc]])
  have same: "cells st4 a = cells st a" if "a \<noteq> x" "a \<noteq> y" "a \<notin> set (nodes B)" for a
    using that st1(2) st2(3) st3(2) st4(2) by simp
  have "cells st4 a = cells st a" if "a \<in> set (cnodes fs)" for a using that dist by (intro same) auto
  from repc_cong [of fs, OF this] have rc4: "repc (cells st4) (rb_root st4) x fs" using rc st1(3) st2(4) st3(3) st4(3) by simp
  have "x \<noteq> 0" using ok(1) by (simp add: okaddr_def)
  then obtain st5 where st5: "relink d st4 ?q x y = Some st5" "cells st5 = relinked fs y (cells st4)"
    "rb_root st5 = (if fs = [] then y else rb_root st4)"
    by (rule relink_spec [OF rc4 _ dist(5)])
  have rc5: "repc (cells st5) (rb_root st5) y fs" unfolding st5(2,3) by (rule repc_relinked [OF rc4 dist(19)])
  have off: "cells st5 a = cells st4 a" if "a \<notin> set (cnodes fs)" for a using relinked_other [OF that] st5(2) by simp
  have "cells st5 x = Some (?q, cx, kids d (adr A) (adr B))" using off st4(2) st3(2) st2(3) st1(2) dist by simp
  moreover have "y AND 3 = 0" using ok by (simp add: okaddr_def)
  ultimately obtain st6 where st6: "rb_mod st5 x (rb_set_parent y) = Some st6"
    "cells st6 = (cells st5)(x \<mapsto> (y, cx, kids d (adr A) (adr B)))" "rb_root st6 = rb_root st5"
    by (rule mod_parent)
  have "rb_rotate d st x = Some st6"
    by (simp only: rb_rotate_def n m Let_def bind.bind_lunit st1(1) st2(1) st3(1) st4(1) st5(1) st6(1))
  moreover have "foc st6 (nd d (nd d A (cx, x) B) (cy, y) C) fs"
  proof -
    have same6: "cells st6 a = cells st a" if "a \<noteq> x" "a \<noteq> y" "a \<notin> set (nodes B)" "a \<notin> set (cnodes fs)" for a
      using that same off st6(2) by simp
    have "cells st6 a = cells st a" if "a \<in> set (nodes A)" for a using that dist by (intro same6) auto
    from rep_cong [of A, OF this] have "rep (cells st6) x A" using reps(1) by simp
    moreover have "cells st6 a = cells st a" if "a \<in> set (nodes C)" for a using that dist by (intro same6) auto
    from rep_cong [of C, OF this] have "rep (cells st6) y C" using reps(3) by simp
    moreover have "cells st6 a = cells st2 a" if "a \<in> set (nodes B)" for a
    proof -
      have "a \<noteq> x" "a \<noteq> y" "a \<notin> set (cnodes fs)" using that dist by auto
      then show ?thesis using off st6(2) st4(2) st3(2) by simp
    qed
    from rep_cong [of B, OF this] have "rep (cells st6) x B" using st2(2) by simp
    moreover have "cells st6 y = Some (?q, cy, kids d x (adr C))" using st6(2) off st4(2) dist by simp
    moreover have "repc (cells st6) (rb_root st6) y fs" using rc5 st6(2,3) dist by simp
    ultimately show ?thesis using st6(2) ok dist by (auto simp: foc_def)
  qed
  ultimately show ?thesis using that by blast
qed

end
