(* ===== verification/Rbtree_Insert.thy ===== *)
theory Rbtree_Insert
  imports Rbtree_Rep
begin

text \<open>
  \<open>rb_insert_color\<close> restores the red-black invariant after a red leaf was linked into the tree, and keeps the order of
  the nodes.
\<close>

section \<open>The invariant\<close>

text \<open>\<open>rb t h\<close>: no red node has a red child and every path to a leaf has \<open>h\<close> black nodes.\<close>

fun rb :: "rbtree \<Rightarrow> nat \<Rightarrow> bool" where
  "rb Leaf h \<longleftrightarrow> h = 0"
| "rb (Node l (Red, a) r) h \<longleftrightarrow> blk l \<and> blk r \<and> rb l h \<and> rb r h"
| "rb (Node l (Black, a) r) h \<longleftrightarrow> (\<exists>k. h = Suc k \<and> rb l k \<and> rb r k)"

lemma rb_nd [simp]:
  "rb (nd d l (Red, a) r) h \<longleftrightarrow> blk l \<and> blk r \<and> rb l h \<and> rb r h"
  "rb (nd d l (Black, a) r) h \<longleftrightarrow> (\<exists>k. h = Suc k \<and> rb l k \<and> rb r k)"
  by (auto simp: nd_def)

text \<open>The ancestors fit a position of black height \<open>h\<close>; the root of the tree is black.\<close>

fun top_black :: "frames \<Rightarrow> bool" where
  "top_black [] \<longleftrightarrow> False"
| "top_black ((d, c, a, s) # fs) \<longleftrightarrow> c = Black"

fun rbc :: "frames \<Rightarrow> nat \<Rightarrow> bool" where
  "rbc [] h \<longleftrightarrow> True"
| "rbc ((d, Red, a, s) # fs) h \<longleftrightarrow> rb s h \<and> blk s \<and> top_black fs \<and> rbc fs h"
| "rbc ((d, Black, a, s) # fs) h \<longleftrightarrow> rb s h \<and> rbc fs (Suc h)"

definition rbt :: "rbtree \<Rightarrow> bool" where
  "rbt t \<longleftrightarrow> blk t \<and> (\<exists>h. rb t h)"

lemma rb_plug: "rb t h \<Longrightarrow> rbc fs h \<Longrightarrow> blk t \<or> top_black fs \<Longrightarrow> fs \<noteq> [] \<Longrightarrow> rbt (plug t fs)"
proof (induction fs arbitrary: t h)
  case (Cons f fs)
  obtain d c a s where f: "f = (d, c, a, s)" by (cases f)
  show ?case
  proof (cases c)
    case Red
    with Cons.prems f have "rb (nd d t (c, a) s) h" "rbc fs h" "top_black fs" by auto
    moreover from this have "fs \<noteq> []" by auto
    ultimately show ?thesis using Cons.IH [of "nd d t (c, a) s" h] f by simp
  next
    case Black
    with Cons.prems f have r: "rb (nd d t (c, a) s) (Suc h)" "rbc fs (Suc h)" by auto
    show ?thesis
    proof (cases "fs = []")
      case True
      with r f Black show ?thesis by (auto simp: rbt_def)
    next
      case False
      with r f Black Cons.IH [of "nd d t (c, a) s" "Suc h"] show ?thesis by simp
    qed
  qed
qed simp

lemma rb_unplug: "rbt (plug t fs) \<Longrightarrow> \<exists>h. rb t h \<and> rbc fs h \<and> (blk t \<or> top_black fs)"
proof (induction fs arbitrary: t)
  case Nil
  then show ?case by (auto simp: rbt_def)
next
  case (Cons f fs)
  obtain d c a s where f: "f = (d, c, a, s)" by (cases f)
  have "rbt (plug (nd d t (c, a) s) fs)" using Cons.prems by (simp add: f)
  from Cons.IH [OF this] obtain h where h: "rb (nd d t (c, a) s) h" "rbc fs h" "c = Black \<or> top_black fs" by auto
  then show ?case by (cases c) (auto simp: f)
qed

fun paint :: "colour \<Rightarrow> rbtree \<Rightarrow> rbtree" where
  "paint c Leaf = Leaf"
| "paint c (Node l (c', a) r) = Node l (c, a) r"

lemma paint_nd [simp]: "paint c (nd d l (c', a) r) = nd d l (c, a) r"
  by (simp add: nd_def)

lemma paint_simps [simp]: "nodes (paint c t) = nodes t" "adr (paint c t) = adr t" "paint c t = Leaf \<longleftrightarrow> t = Leaf"
  by (cases t rule: adr.cases; simp)+

lemma rb_paint_black: "rb t h \<Longrightarrow> \<not> blk t \<Longrightarrow> rb (paint Black t) (Suc h)"
  by (cases rule: nd_cases [where t = t and d = True]) (auto simp: colour_cases [symmetric])

lemma rbt_paint: "rb t h \<Longrightarrow> rbt (paint Black t)"
proof (cases rule: nd_cases [where t = t and d = True])
  case (2 l c a r)
  assume "rb t h"
  with 2 show ?thesis by (cases c) (auto simp: rbt_def)
qed (auto simp: rbt_def)

section \<open>The loop\<close>

definition ins_step :: "bool \<Rightarrow> rb_state \<Rightarrow> u64 \<Rightarrow> u64 \<Rightarrow> u64 \<Rightarrow> (rb_state \<times> u64) option" where
  "ins_step d st node parent gparent = do {
     g \<leftarrow> rb_get st gparent;
     let uncle = chl (\<not> d) g;
     red \<leftarrow> rb_red_at st uncle;
     if red
     then do {
       st \<leftarrow> rb_mod st uncle rb_set_black;
       st \<leftarrow> rb_mod st parent rb_set_black;
       st \<leftarrow> rb_mod st gparent rb_set_red;
       Some (st, gparent) }
     else do {
       p \<leftarrow> rb_get st parent;
       (st, node, parent) \<leftarrow>
         (if chl (\<not> d) p = node then do { st \<leftarrow> rb_rotate d st parent; Some (st, parent, node) }
          else Some (st, node, parent));
       st \<leftarrow> rb_mod st parent rb_set_black;
       st \<leftarrow> rb_mod st gparent rb_set_red;
       st \<leftarrow> rb_rotate (\<not> d) st gparent;
       Some (st, node) } }"

lemma ins_step_left: "rb_insert_left = ins_step True"
  by (intro ext) (simp add: rb_insert_left_def ins_step_def rotate_left rotate_right chl_def cong: if_cong)

lemma ins_step_right: "rb_insert_right = ins_step False"
  by (intro ext) (simp add: rb_insert_right_def ins_step_def rotate_left rotate_right chl_def cong: if_cong)

lemma ins_step_red:
  assumes f: "foc st t ((e, Red, p, s) # (d, Black, g, u) # fs)" and "\<not> blk u"
  obtains st' where "ins_step d st n p g = Some (st', g)"
    "foc st' (nd d (nd e t (Black, p) s) (Red, g) (paint Black u)) fs"
proof -
  obtain u1 c ua u2 where u: "u = nd d u1 (c, ua) u2" using assms(2) by (cases rule: nd_cases [where t = u and d = d]) auto
  have f1: "foc st (nd e t (Red, p) s) ((d, Black, g, u) # fs)" using f by (simp add: foc_move)
  obtain gn where gn: "rb_get st g = Some gn" "chl (\<not> d) gn = ua" by (rule foc_parent [OF f1]) (simp add: u)
  have f2: "foc st u ((\<not> d, Black, g, nd e t (Red, p) s) # fs)" using f1 by (simp add: foc_flip [of st u])
  then have red: "rb_red_at st ua = Some True" using foc_colour_at(2) [OF f2] assms(2) u by simp
  obtain st1 where st1: "rb_mod st ua rb_set_black = Some st1"
    "foc st1 (nd d u1 (Black, ua) u2) ((\<not> d, Black, g, nd e t (Red, p) s) # fs)"
    using foc_set_black [OF f2 [unfolded u]] by blast
  then have "foc st1 (nd e t (Red, p) s) ((d, Black, g, paint Black u) # fs)" by (simp add: u foc_flip [of st1 "nd d u1 (Black, ua) u2"])
  then obtain st2 where st2: "rb_mod st1 p rb_set_black = Some st2"
    "foc st2 (nd e t (Black, p) s) ((d, Black, g, paint Black u) # fs)" using foc_set_black by blast
  then have "foc st2 (nd d (nd e t (Black, p) s) (Black, g) (paint Black u)) fs" by (simp add: foc_move)
  then obtain st3 where st3: "rb_mod st2 g rb_set_red = Some st3"
    "foc st3 (nd d (nd e t (Black, p) s) (Red, g) (paint Black u)) fs" using foc_set_red by blast
  have "ins_step d st n p g = Some (st3, g)"
    by (simp add: ins_step_def gn red st1(1) st2(1) st3(1))
  with st3(2) show ?thesis using that by blast
qed

text \<open>The last part of the step: parent and grandparent are rotated.\<close>

lemma ins_rotate:
  assumes "foc st (nd d (nd d Y (c, b) s) (Black, g) u) fs"
  obtains st1 st2 st3 where "rb_mod st b rb_set_black = Some st1" "rb_mod st1 g rb_set_red = Some st2"
    "rb_rotate (\<not> d) st2 g = Some st3" "foc st3 (nd d Y (Black, b) (nd d s (Red, g) u)) fs"
proof -
  have "foc st (nd d Y (c, b) s) ((d, Black, g, u) # fs)" using assms by (simp add: foc_move)
  then obtain st1 where st1: "rb_mod st b rb_set_black = Some st1" "foc st1 (nd d Y (Black, b) s) ((d, Black, g, u) # fs)"
    using foc_set_black by blast
  then have "foc st1 (nd d (nd d Y (Black, b) s) (Black, g) u) fs" by (simp add: foc_move)
  then obtain st2 where st2: "rb_mod st1 g rb_set_red = Some st2" "foc st2 (nd d (nd d Y (Black, b) s) (Red, g) u) fs"
    using foc_set_red by blast
  then have "foc st2 (nd (\<not> d) u (Red, g) (nd (\<not> d) s (Black, b) Y)) fs" by (simp add: nd_flip)
  then obtain st3 where "rb_rotate (\<not> d) st2 g = Some st3" "foc st3 (nd (\<not> d) (nd (\<not> d) u (Red, g) s) (Black, b) Y) fs"
    using rotate_spec by blast
  then show ?thesis using that [OF st1(1) st2(1)] by (simp add: nd_flip)
qed

lemma sibling_adr:
  assumes "foc st t ((d, c, a, s) # fs)" and "t \<noteq> Leaf"
  shows "adr s \<noteq> adr t"
proof (cases "s = Leaf")
  case True
  then show ?thesis using assms adr_0 by (fastforce simp: foc_def)
next
  case False
  then have "adr s \<in> set (nodes s)" "adr t \<in> set (nodes t)" using assms rep_adr by (fastforce simp: foc_def)+
  then show ?thesis using assms(1) by (auto simp: foc_def)
qed

lemma ins_step_black:
  assumes f: "foc st t ((e, Red, p, s) # (d, Black, g, u) # fs)" and t: "t = nd d t1 (Red, n) t2" and "blk u"
  obtains st' Y b Z where "ins_step d st n p g = Some (st', adr Y)" "foc st' (nd d Y (Black, b) Z) fs" "Y \<noteq> Leaf"
    "nodes (nd d Y (Black, b) Z) = nodes (nd d (nd e t (Red, p) s) (Black, g) u)"
    "\<And>h. rb t h \<Longrightarrow> rb s h \<Longrightarrow> blk s \<Longrightarrow> rb u h \<Longrightarrow> rb (nd d Y (Black, b) Z) (Suc h)"
proof -
  have f1: "foc st (nd e t (Red, p) s) ((d, Black, g, u) # fs)" using f by (simp add: foc_move)
  obtain gn where gn: "rb_get st g = Some gn" "chl (\<not> d) gn = adr u" by (rule foc_parent [OF f1])
  have "foc st u ((\<not> d, Black, g, nd e t (Red, p) s) # fs)" using f1 by (simp add: foc_flip [of st u])
  then have red: "rb_red_at st (adr u) = Some False" using foc_colour_at(2) assms(3) by simp
  obtain pn where pn: "rb_get st p = Some pn" "chl e pn = n" "chl (\<not> e) pn = adr s" by (rule foc_parent [OF f]) (simp add: t)
  have ne: "adr s \<noteq> n" using sibling_adr [OF f] t by simp
  show ?thesis
  proof (cases "e = d")
    case True
    have side: "chl (\<not> d) pn \<noteq> n" using pn(3) ne True by simp
    have "foc st (nd d (nd d t (Red, p) s) (Black, g) u) fs" using f True by (simp add: foc_move)
    then obtain st1 st2 st3 where st: "rb_mod st p rb_set_black = Some st1" "rb_mod st1 g rb_set_red = Some st2"
      "rb_rotate (\<not> d) st2 g = Some st3" "foc st3 (nd d t (Black, p) (nd d s (Red, g) u)) fs" by (rule ins_rotate)
    have "ins_step d st n p g = Some (st3, adr t)" using side by (simp add: ins_step_def gn red pn(1) st(1-3) t)
    then show ?thesis using that [of st3 t p "nd d s (Red, g) u"] st(4) t True assms(3) by (auto simp: nd_def)
  next
    case False
    then have e: "e = (\<not> d)" by auto
    have "foc st (nd d s (Red, p) (nd d t1 (Red, n) t2)) ((d, Black, g, u) # fs)" using f1 e t by (simp add: nd_flip)
    then obtain st0 where st0: "rb_rotate d st p = Some st0" "foc st0 (nd d (nd d s (Red, p) t1) (Red, n) t2) ((d, Black, g, u) # fs)"
      by (rule rotate_spec)
    have "foc st0 (nd d (nd d (nd d s (Red, p) t1) (Red, n) t2) (Black, g) u) fs" using st0(2) by (simp add: foc_move)
    then obtain st1 st2 st3 where st: "rb_mod st0 n rb_set_black = Some st1" "rb_mod st1 g rb_set_red = Some st2"
      "rb_rotate (\<not> d) st2 g = Some st3" "foc st3 (nd d (nd d s (Red, p) t1) (Black, n) (nd d t2 (Red, g) u)) fs" by (rule ins_rotate)
    have "ins_step d st n p g = Some (st3, p)" using pn(2) e by (simp add: ins_step_def gn red pn(1) st0(1) st(1-3))
    then show ?thesis using that [of st3 "nd d s (Red, p) t1" n "nd d t2 (Red, g) u"] st(4) t e assms(3) by (auto simp: nd_def)
  qed
qed

lemma ins_loop_stop:
  assumes "foc st t fs" and "t \<noteq> Leaf" and "fs = [] \<or> top_black fs"
  shows "rb_insert_loop st (adr t) = Some st"
proof -
  obtain l c a r where t: "t = nd True l (c, a) r" using assms(2) by (cases rule: nd_cases [where t = t and d = True]) auto
  obtain n where n: "rb_get st a = Some n" "rb_parent n = up fs" by (rule foc_get [OF assms(1) [unfolded t]])
  have "rb_red_at st (up fs) = Some False"
  proof (cases fs rule: up.cases)
    case (2 d c a s fs')
    then have "foc st (nd d t (c, a) s) fs'" using assms(1) by (simp add: foc_move)
    from foc_colour_at(2) [OF this] show ?thesis using 2 assms(3) by simp
  qed (simp add: rb_red_at_def)
  with n t show ?thesis by (subst rb_insert_loop.simps) simp
qed

lemma ins_loop_step:
  assumes f: "foc st t ((e, Red, p, s) # (d, c, g, u) # fs)" and "t \<noteq> Leaf"
  shows "rb_insert_loop st (adr t) = do { (st, node) \<leftarrow> ins_step d st (adr t) p g; rb_insert_loop st node }"
proof -
  obtain l c' a r where t: "t = nd True l (c', a) r" using assms(2) by (cases rule: nd_cases [where t = t and d = True]) auto
  obtain n where n: "rb_get st a = Some n" "rb_parent n = p" by (rule foc_get [OF f [unfolded t]]) simp
  have f1: "foc st (nd e t (Red, p) s) ((d, c, g, u) # fs)" using f by (simp add: foc_move)
  obtain pn where pn: "rb_get st p = Some pn" "rb_parent pn = g" by (rule foc_get [OF f1]) simp
  have red: "rb_red_at st p = Some True" using foc_colour_at(2) [OF f1] by simp
  obtain gn where gn: "rb_get st g = Some gn" "chl d gn = p" "chl (\<not> d) gn = adr u" by (rule foc_parent [OF f1]) simp
  have "adr u \<noteq> p" using sibling_adr [OF f1] by simp
  then have "p = rb_left gn \<longleftrightarrow> d" using gn(2,3) by (cases d) (auto simp: chl_def)
  then show ?thesis using n pn red gn(1) t
    by (subst rb_insert_loop.simps) (cases d; simp add: ins_step_left ins_step_right)
qed

lemma blk_paint: "blk t \<Longrightarrow> paint Black t = t"
  by (cases t rule: adr.cases) auto

lemma plug_Leaf: "plug t fs = Leaf \<longleftrightarrow> t = Leaf \<and> fs = []"
  by (induction t fs rule: plug.induct) auto

lemma rb_insert_loop_spec:
  assumes "foc st t fs" and "\<not> blk t" and "rb t h" and "rbc fs h"
  obtains st' T where "rb_insert_loop st (adr t) = Some st'" "foc st' T []" "T \<noteq> Leaf" "rbt (paint Black T)"
    "nodes T = nodes (plug t fs)"
  using assms
proof (induction "length fs" arbitrary: st t fs h thesis rule: less_induct)
  case less
  note f = less.prems(2)
  have tl: "t \<noteq> Leaf" using less.prems(3) by auto
  consider "fs = []" | "top_black fs" | e p s fs' where "fs = (e, Red, p, s) # fs'"
  proof (cases fs rule: up.cases)
    case (2 d c a s fs')
    then show ?thesis using that by (cases c) auto
  qed (use that in blast)
  then show ?case
  proof cases
    case 1
    then show ?thesis using less.prems(1) [of st t] ins_loop_stop [OF f tl] f tl rbt_paint [OF less.prems(4)] by simp
  next
    case 2
    then have "fs \<noteq> []" by auto
    then have T: "rbt (plug t fs)" using rb_plug [OF less.prems(4,5)] 2 by blast
    then have "paint Black (plug t fs) = plug t fs" "plug t fs \<noteq> Leaf"
      using tl by (simp_all add: blk_paint rbt_def plug_Leaf)
    with 2 T f show ?thesis using less.prems(1) [of st "plug t fs"] ins_loop_stop [OF f tl] by (simp add: foc_plug)
  next
    case 3
    then have rs: "rb s h" "blk s" "top_black fs'" "rbc fs' h" using less.prems(5) by auto
    then obtain d g u fs2 where fs': "fs' = (d, Black, g, u) # fs2" by (cases fs' rule: up.cases) auto
    with rs have ru: "rb u h" "rbc fs2 (Suc h)" by simp_all
    have f3: "foc st t ((e, Red, p, s) # (d, Black, g, u) # fs2)" using f 3 fs' by simp
    note step = ins_loop_step [OF f3 tl]
    have same: "nodes (plug t fs) = nodes (plug (nd d (nd e t (Red, p) s) (Black, g) u) fs2)" using 3 fs' by simp
    show ?thesis
    proof (cases "blk u")
      case False
      from ins_step_red [OF f3 False] obtain st' where st': "ins_step d st (adr t) p g = Some (st', g)"
        "foc st' (nd d (nd e t (Black, p) s) (Red, g) (paint Black u)) fs2" by blast
      let ?t = "nd d (nd e t (Black, p) s) (Red, g) (paint Black u)"
      have "blk (paint Black u)" by (cases u rule: adr.cases) auto
      then have rt: "rb ?t (Suc h)" using less.prems(4) rs(1) rb_paint_black [OF ru(1) False] by auto
      have "nodes ?t = nodes (nd d (nd e t (Red, p) s) (Black, g) u)" by (auto simp: nd_def)
      from nodes_plug_cong [OF this] have nt: "nodes (plug ?t fs2) = nodes (plug t fs)" using same by simp
      have len: "length fs2 < length fs" using 3 fs' by simp
      show ?thesis
      proof (rule less.hyps [OF len _ st'(2) _ rt ru(2)])
        show thesis if "rb_insert_loop st' (adr ?t) = Some st2" "foc st2 T []" "T \<noteq> Leaf" "rbt (paint Black T)"
          "nodes T = nodes (plug ?t fs2)" for st2 T
          by (rule less.prems(1) [of st2 T]) (use that nt step st'(1) in simp_all)
      qed simp
    next
      case True
      obtain t1 n t2 where t: "t = nd d t1 (Red, n) t2"
        using less.prems(3) colour_cases by (cases rule: nd_cases [where t = t and d = d]) auto
      from ins_step_black [OF f3 t True] obtain st' Y b Z where st': "ins_step d st n p g = Some (st', adr Y)"
        "foc st' (nd d Y (Black, b) Z) fs2" "Y \<noteq> Leaf"
        "nodes (nd d Y (Black, b) Z) = nodes (nd d (nd e t (Red, p) s) (Black, g) u)"
        and rb': "\<And>h. rb t h \<Longrightarrow> rb s h \<Longrightarrow> blk s \<Longrightarrow> rb u h \<Longrightarrow> rb (nd d Y (Black, b) Z) (Suc h)" by blast
      let ?T = "plug (nd d Y (Black, b) Z) fs2"
      have "rbt ?T"
        using rb' [OF less.prems(4) rs(1,2) ru(1)] rb_plug [OF _ ru(2)] by (cases "fs2 = []") (auto simp: rbt_def)
      then have "rbt (paint Black ?T)" by (simp add: blk_paint rbt_def)
      moreover have "rb_insert_loop st' (adr Y) = Some st'"
        using st'(2,3) by (intro ins_loop_stop [of _ _ "(d, Black, b, Z) # fs2"]) (simp_all add: foc_move)
      moreover have "nodes ?T = nodes (plug t fs)" using same nodes_plug_cong [OF st'(4)] by simp
      ultimately show ?thesis using less.prems(1) [of st' ?T] st'(1,2) step t by (simp add: foc_plug plug_Leaf)
    qed
  qed
qed

section \<open>Linking and colouring\<close>

text \<open>The memory represents the tree; \<open>foc\<close> without ancestors.\<close>

definition represents :: "rb_state \<Rightarrow> rbtree \<Rightarrow> bool" where
  "represents st T \<longleftrightarrow> foc st T []"

lemma rb_insert_color_spec:
  assumes "foc st (nd True Leaf (Red, n) Leaf) fs" and "rbc fs 0"
  obtains st' T where "rb_insert_color st n = Some st'" "represents st' T" "rbt T"
    "nodes T = nodes (plug (nd True Leaf (Red, n) Leaf) fs)"
proof -
  have "\<not> blk (nd True Leaf (Red, n) Leaf)" "rb (nd True Leaf (Red, n) Leaf) 0" by simp_all
  from rb_insert_loop_spec [OF assms(1) this assms(2)] obtain st1 T where T: "rb_insert_loop st n = Some st1"
    "foc st1 T []" "T \<noteq> Leaf" "rbt (paint Black T)" "nodes T = nodes (plug (nd True Leaf (Red, n) Leaf) fs)" by auto
  obtain l c a r where t: "T = nd True l (c, a) r" using T(3) by (cases rule: nd_cases [where t = T and d = True]) auto
  then have root: "rb_root st1 = a" using T(2) by (simp add: foc_def)
  obtain st2 where st2: "rb_mod st1 a rb_set_black = Some st2" "foc st2 (nd True l (Black, a) r) []"
    using foc_set_black [OF T(2) [unfolded t]] by blast
  have "nodes (paint Black T) = nodes (plug (nd True Leaf (Red, n) Leaf) fs)" unfolding paint_simps(1) by (rule T(5))
  then show ?thesis using that [of st2 "paint Black T"] T(1,4) t root st2 by (simp add: represents_def rb_insert_color_def)
qed

text \<open>The field of the parent, or the root, that the empty position \<open>fs\<close> is.\<close>

fun link_of :: "frames \<Rightarrow> rb_link" where
  "link_of [] = Link_root"
| "link_of ((d, c, a, s) # fs) = (if d then Link_left a else Link_right a)"

lemma view_linked:
  assumes "p AND 3 = 0"
  shows "view (n\<lparr>rb_parent_color := p, rb_left := 0, rb_right := 0\<rparr>) = (p, Red, kids True 0 0)"
proof -
  have "p AND - 4 = p" "\<not> bit p 0" using parent_color_parent(1) [OF assms, of 0] assms by (simp_all add: and_3_iff)
  then show ?thesis by (auto simp: view_def rb_parent_def rb_is_red_def color_bit kids_def)
qed

lemma rb_link_node_spec:
  assumes f: "foc st Leaf fs" and "okaddr n" and "rb_mem st n \<noteq> None" and "n \<notin> set (cnodes fs)"
  obtains st' where "rb_link_node st n (up fs) (link_of fs) = Some st'" "foc st' (nd True Leaf (Red, n) Leaf) fs"
proof -
  have rc: "repc (cells st) (rb_root st) 0 fs" and d: "distinct (cnodes fs)" using f by (simp_all add: foc_def)
  obtain m where m: "rb_get st n = Some m" using assms(2,3) by (auto simp: okaddr_def rb_get_def)
  define st1 where "st1 = st\<lparr>rb_mem := (rb_mem st)(n \<mapsto> m\<lparr>rb_parent_color := up fs, rb_left := 0, rb_right := 0\<rparr>)\<rparr>"
  define st0 where "st0 = st\<lparr>rb_mem := (rb_mem st)(n \<mapsto> m\<lparr>rb_parent_color := up fs\<rparr>)\<rparr>"
  have "rb_mod st n (\<lambda>n. n\<lparr>rb_parent_color := up fs\<rparr>) = Some st0" using m by (simp add: rb_mod_def st0_def)
  moreover have "rb_mod st0 n (\<lambda>n. n\<lparr>rb_left := 0, rb_right := 0\<rparr>) = Some st1"
    using assms(2) by (simp add: rb_mod_def rb_get_def st0_def st1_def okaddr_def)
  ultimately have link: "rb_link_node st n (up fs) l = (case l of Link_root \<Rightarrow> Some (st1\<lparr>rb_root := n\<rparr>)
      | Link_left p \<Rightarrow> rb_mod st1 p (\<lambda>k. k\<lparr>rb_left := n\<rparr>) | Link_right p \<Rightarrow> rb_mod st1 p (\<lambda>k. k\<lparr>rb_right := n\<rparr>))" for l
    by (simp add: rb_link_node_def)
  have c1: "cells st1 = (cells st)(n \<mapsto> (up fs, Red, kids True 0 0))"
    using view_linked [OF up_ok [OF rc], of m] assms(2) by (auto simp: cells_def st1_def rb_get_def okaddr_def)
  have "rb_root st1 = rb_root st" by (simp add: st1_def)
  then have rc1: "repc (cells st1) (rb_root st1) 0 fs" using rc assms(4) by (simp add: c1)
  show ?thesis
  proof (cases fs rule: up.cases)
    case 1
    have "foc (st1\<lparr>rb_root := n\<rparr>) (nd True Leaf (Red, n) Leaf) fs" using 1 c1 assms(2) by (simp add: foc_def)
    moreover have "rb_link_node st n (up fs) (link_of fs) = Some (st1\<lparr>rb_root := n\<rparr>)"
      using link [of "link_of fs"] 1 by simp
    ultimately show ?thesis using that by blast
  next
    case (2 e c a s fs')
    then have V: "cells st1 a = Some (up fs', c, kids e 0 (adr s))" using rc1 by simp
    obtain st2 where st2: "rb_mod st1 a (set_chl e n) = Some st2" "cells st2 = (cells st1)(a \<mapsto> (up fs', c, kids e n (adr s)))"
      "rb_root st2 = rb_root st1" by (rule mod_chl [OF V, of e n]) simp
    have "foc st2 (nd True Leaf (Red, n) Leaf) fs"
      using st2(2,3) c1 rc1 assms(2,4) d 2 by (auto simp: foc_def)
    moreover have "rb_link_node st n (up fs) (link_of fs) = Some st2"
      using link [of "link_of fs"] 2 st2(1) by (cases e) (simp_all add: set_chl_fun)
    ultimately show ?thesis using that by blast
  qed
qed

end
