(* ===== verification/Rbtree_Erase.thy ===== *)
theory Rbtree_Erase
  imports Rbtree_Insert
begin

text \<open>
  \<open>rb_erase\<close> takes one node out, keeps the order of the others, and restores the red-black invariant.
\<close>

section \<open>Rebalancing\<close>

definition er_tail :: "bool \<Rightarrow> rb_state \<Rightarrow> u64 \<Rightarrow> u64 \<Rightarrow> (rb_state \<times> u64 \<times> u64 \<times> bool) option" where
  "er_tail d st parent other = do {
     p \<leftarrow> rb_get st parent;
     st \<leftarrow> rb_mod st other (rb_set_color (rb_color p));
     st \<leftarrow> rb_mod st parent rb_set_black;
     oth \<leftarrow> rb_get st other;
     st \<leftarrow> rb_mod st (chl (\<not> d) oth) rb_set_black;
     st \<leftarrow> rb_rotate d st parent;
     Some (st, rb_root st, parent, True) }"

definition er_rest :: "bool \<Rightarrow> rb_state \<Rightarrow> u64 \<Rightarrow> u64 \<Rightarrow> (rb_state \<times> u64 \<times> u64 \<times> bool) option" where
  "er_rest d st parent other = do {
     oth \<leftarrow> rb_get st other;
     lb \<leftarrow> rb_black_at st (rb_left oth);
     both \<leftarrow> (if lb then rb_black_at st (rb_right oth) else Some False);
     if both
     then do {
       st \<leftarrow> rb_mod st other rb_set_red;
       n \<leftarrow> rb_get st parent;
       Some (st, parent, rb_parent n, False) }
     else do {
       rb \<leftarrow> rb_black_at st (chl (\<not> d) oth);
       (st, other) \<leftarrow>
         (if rb
          then do {
            st \<leftarrow> rb_mod st (chl d oth) rb_set_black;
            st \<leftarrow> rb_mod st other rb_set_red;
            st \<leftarrow> rb_rotate (\<not> d) st other;
            p \<leftarrow> rb_get st parent;
            Some (st, chl (\<not> d) p) }
          else Some (st, other));
       er_tail d st parent other } }"

definition er_step :: "bool \<Rightarrow> rb_state \<Rightarrow> u64 \<Rightarrow> u64 \<Rightarrow> (rb_state \<times> u64 \<times> u64 \<times> bool) option" where
  "er_step d st node parent = do {
     p \<leftarrow> rb_get st parent;
     let other = chl (\<not> d) p;
     oth \<leftarrow> rb_get st other;
     (st, other) \<leftarrow>
       (if rb_is_red oth
        then do {
          st \<leftarrow> rb_mod st other rb_set_black;
          st \<leftarrow> rb_mod st parent rb_set_red;
          st \<leftarrow> rb_rotate d st parent;
          p \<leftarrow> rb_get st parent;
          Some (st, chl (\<not> d) p) }
        else Some (st, other));
     er_rest d st parent other }"

lemma er_step_left: "rb_erase_left = er_step True"
  by (intro ext) (simp add: rb_erase_left_def er_step_def er_rest_def er_tail_def rotate_left rotate_right chl_def cong: if_cong)

lemma er_step_right: "rb_erase_right = er_step False"
  by (intro ext) (simp add: rb_erase_right_def er_step_def er_rest_def er_tail_def rotate_left rotate_right chl_def cong: if_cong)

text \<open>Is a node with a subtree in each direction black on both sides?\<close>

lemma both_black:
  assumes "foc st (nd d B (c, a) C) fs" and "rb_get st a = Some n"
  shows "do { lb \<leftarrow> rb_black_at st (rb_left n); if lb then rb_black_at st (rb_right n) else Some False } = Some (blk B \<and> blk C)"
    and "rb_black_at st (chl d n) = Some (blk B)" and "rb_black_at st (chl (\<not> d) n) = Some (blk C)"
proof -
  obtain m where m: "rb_get st a = Some m" "chl d m = adr B" "chl (\<not> d) m = adr C" by (rule foc_get [OF assms(1)])
  have "foc st B ((d, c, a, C) # fs)" "foc st C ((\<not> d, c, a, B) # fs)" using assms(1) by (simp_all add: foc_move foc_flip [of st C])
  then have bl: "rb_black_at st (chl d n) = Some (blk B)" "rb_black_at st (chl (\<not> d) n) = Some (blk C)"
    using foc_colour_at(1) m assms(2) by simp_all
  then show "rb_black_at st (chl d n) = Some (blk B)" "rb_black_at st (chl (\<not> d) n) = Some (blk C)" .
  show "do { lb \<leftarrow> rb_black_at st (rb_left n); if lb then rb_black_at st (rb_right n) else Some False } = Some (blk B \<and> blk C)"
    using bl by (cases d) (auto simp: chl_def)
qed

lemma er_rest_eq:
  assumes "foc st (nd d B (c, a) C) fs" and "rb_get st a = Some n"
  shows "er_rest d st p a =
    (if blk B \<and> blk C
     then do { st \<leftarrow> rb_mod st a rb_set_red; m \<leftarrow> rb_get st p; Some (st, p, rb_parent m, False) }
     else do {
       (st, other) \<leftarrow>
         (if blk C
          then do {
            st \<leftarrow> rb_mod st (chl d n) rb_set_black;
            st \<leftarrow> rb_mod st a rb_set_red;
            st \<leftarrow> rb_rotate (\<not> d) st a;
            m \<leftarrow> rb_get st p;
            Some (st, chl (\<not> d) m) }
          else Some (st, a));
       er_tail d st p other })"
proof -
  note bb = both_black [OF assms]
  from bb(1) obtain lb where "rb_black_at st (rb_left n) = Some lb"
    "(if lb then rb_black_at st (rb_right n) else Some False) = Some (blk B \<and> blk C)" by (auto simp: bind_eq_Some_conv)
  then show ?thesis by (simp only: er_rest_def assms(2) bind.bind_lunit bb(3))
qed

lemma er_both:
  assumes f: "foc st t ((d, c, p, nd d B (k, o1) C) # fs)" and "blk B" and "blk C"
  obtains st' where "er_rest d st p o1 = Some (st', p, up fs, False)" "foc st' (nd d t (c, p) (nd d B (Red, o1) C)) fs"
proof -
  have f1: "foc st (nd d B (k, o1) C) ((\<not> d, c, p, t) # fs)" using f by (simp add: foc_flip [of st t])
  obtain n where n: "rb_get st o1 = Some n" by (rule foc_get [OF f1])
  obtain st1 where st1: "rb_mod st o1 rb_set_red = Some st1" "foc st1 (nd d B (Red, o1) C) ((\<not> d, c, p, t) # fs)"
    by (rule foc_set_red [OF f1])
  then have f2: "foc st1 (nd d t (c, p) (nd d B (Red, o1) C)) fs" by (simp add: foc_move [symmetric] nd_flip)
  obtain m where m: "rb_get st1 p = Some m" "rb_parent m = up fs" by (rule foc_get [OF f2])
  have "er_rest d st p o1 = Some (st1, p, up fs, False)"
    using er_rest_eq [OF f1 n] assms(2,3) st1(1) m by simp
  with f2 show ?thesis using that by blast
qed

lemma er_tail_spec:
  assumes f: "foc st t ((d, c, p, nd d B (k, o1) C) # fs)" and "C \<noteq> Leaf"
  obtains st' where "er_tail d st p o1 = Some (st', rb_root st', p, True)"
    "foc st' (nd d (nd d t (Black, p) B) (c, o1) (paint Black C)) fs"
proof -
  obtain C1 kc a C2 where C: "C = nd d C1 (kc, a) C2" using assms(2) by (cases rule: nd_cases [where t = C and d = d]) auto
  obtain pn where pn: "rb_get st p = Some pn" "rb_is_red pn \<longleftrightarrow> c = Red" by (rule foc_parent [OF f])
  have f1: "foc st (nd d B (k, o1) C) ((\<not> d, c, p, t) # fs)" using f by (simp add: foc_flip [of st t])
  obtain st1 where st1: "rb_mod st o1 (rb_set_color (rb_color pn)) = Some st1" "foc st1 (nd d B (c, o1) C) ((\<not> d, c, p, t) # fs)"
    by (rule foc_colour [OF f1, of "rb_set_color (rb_color pn)" c]) (use pn(2) in \<open>simp_all add: view_mod(5) colour_cases\<close>)
  then have "foc st1 (nd d t (c, p) (nd d B (c, o1) C)) fs" by (simp add: foc_move [symmetric] nd_flip)
  then obtain st2 where st2: "rb_mod st1 p rb_set_black = Some st2" "foc st2 (nd d t (Black, p) (nd d B (c, o1) C)) fs"
    by (rule foc_set_black)
  then have f2: "foc st2 (nd d B (c, o1) C) ((\<not> d, Black, p, t) # fs)" by (simp add: foc_move [symmetric] nd_flip)
  obtain on where on: "rb_get st2 o1 = Some on" "chl (\<not> d) on = a" by (rule foc_get [OF f2]) (simp add: C)
  have "foc st2 (nd d C1 (kc, a) C2) ((\<not> d, c, o1, B) # (\<not> d, Black, p, t) # fs)"
    using f2 by (simp add: C [symmetric] foc_move [symmetric] nd_flip)
  then obtain st3 where st3: "rb_mod st2 a rb_set_black = Some st3"
    "foc st3 (nd d C1 (Black, a) C2) ((\<not> d, c, o1, B) # (\<not> d, Black, p, t) # fs)" by (rule foc_set_black)
  then have "foc st3 (nd d t (Black, p) (nd d B (c, o1) (paint Black C))) fs" by (simp add: C foc_move [symmetric] nd_flip)
  then obtain st4 where st4: "rb_rotate d st3 p = Some st4" "foc st4 (nd d (nd d t (Black, p) B) (c, o1) (paint Black C)) fs"
    by (rule rotate_spec)
  have "er_tail d st p o1 = Some (st4, rb_root st4, p, True)"
    by (simp add: er_tail_def pn(1) st1(1) st2(1) on st3(1) st4(1))
  with st4(2) show ?thesis using that by blast
qed

lemma er_near:
  assumes f: "foc st t ((d, c, p, nd d (nd d B1 (kb, b) B2) (k, o1) C) # fs)"
  obtains st1 st2 st3 pn where "rb_mod st b rb_set_black = Some st1" "rb_mod st1 o1 rb_set_red = Some st2"
    "rb_rotate (\<not> d) st2 o1 = Some st3" "rb_get st3 p = Some pn" "chl (\<not> d) pn = b"
    "foc st3 t ((d, c, p, nd d B1 (Black, b) (nd d B2 (Red, o1) C)) # fs)"
proof -
  let ?F = "(\<not> d, c, p, t) # fs"
  have f1: "foc st (nd d (nd d B1 (kb, b) B2) (k, o1) C) ?F" using f by (simp add: foc_flip [of st t])
  then have "foc st (nd d B1 (kb, b) B2) ((d, k, o1, C) # ?F)" by (simp add: foc_move)
  then obtain st1 where st1: "rb_mod st b rb_set_black = Some st1" "foc st1 (nd d B1 (Black, b) B2) ((d, k, o1, C) # ?F)"
    by (rule foc_set_black)
  then have "foc st1 (nd d (nd d B1 (Black, b) B2) (k, o1) C) ?F" by (simp add: foc_move)
  then obtain st2 where st2: "rb_mod st1 o1 rb_set_red = Some st2" "foc st2 (nd d (nd d B1 (Black, b) B2) (Red, o1) C) ?F"
    by (rule foc_set_red)
  then have "foc st2 (nd (\<not> d) C (Red, o1) (nd (\<not> d) B2 (Black, b) B1)) ?F" by (simp add: nd_flip)
  then obtain st3 where st3: "rb_rotate (\<not> d) st2 o1 = Some st3"
    "foc st3 (nd (\<not> d) (nd (\<not> d) C (Red, o1) B2) (Black, b) B1) ?F" by (rule rotate_spec)
  then have f3: "foc st3 t ((d, c, p, nd d B1 (Black, b) (nd d B2 (Red, o1) C)) # fs)"
    by (simp add: nd_flip foc_flip [of st3 t])
  obtain pn where "rb_get st3 p = Some pn" "chl (\<not> d) pn = b" by (rule foc_parent [OF f3]) simp
  with st1(1) st2(1) st3(1) f3 show ?thesis using that by blast
qed

text \<open>The sibling is black: either it turns red and the node moves up, or the tree is balanced.\<close>

lemma er_rest_spec:
  assumes f: "foc st t ((d, c, p, S) # fs)" and "blk S" and "rb S (Suc h)" and "blk t" and "rb t h"
  obtains
    (up) st' t2 where "er_rest d st p (adr S) = Some (st', p, up fs, False)" "foc st' t2 fs" "adr t2 = p" "blk t2 \<longleftrightarrow> c = Black"
      "rb (paint Black t2) (Suc h)" "nodes t2 = nodes (nd d t (c, p) S)"
  | (balanced) st' X where "er_rest d st p (adr S) = Some (st', rb_root st', p, True)" "foc st' X fs" "blk X \<longleftrightarrow> c = Black"
      "rb X (if c = Black then Suc (Suc h) else Suc h)" "nodes X = nodes (nd d t (c, p) S)"
proof -
  obtain B k o1 C where S0: "S = nd d B (k, o1) C" using assms(3) by (cases rule: nd_cases [where t = S and d = d]) auto
  then have S: "S = nd d B (Black, o1) C" "rb B h" "rb C h" using assms(2,3) by auto
  have f0: "foc st t ((d, c, p, nd d B (Black, o1) C) # fs)" using f S(1) by simp
  have f1: "foc st (nd d B (Black, o1) C) ((\<not> d, c, p, t) # fs)" using f0 by (simp add: foc_flip [of st t])
  obtain n where n: "rb_get st o1 = Some n" "chl d n = adr B" by (rule foc_get [OF f1])
  consider "blk B" "blk C" | "\<not> blk C" | "\<not> blk B" "blk C" by blast
  then show ?thesis
  proof cases
    case 1
    obtain st' where st': "er_rest d st p o1 = Some (st', p, up fs, False)" "foc st' (nd d t (c, p) (nd d B (Red, o1) C)) fs"
      by (rule er_both [OF f0 1])
    show ?thesis
      by (rule up [of st' "nd d t (c, p) (nd d B (Red, o1) C)"]) (use st' S 1 assms(5) in \<open>auto simp: nd_def\<close>)
  next
    case 2
    then have "C \<noteq> Leaf" by auto
    then obtain st' where st': "er_tail d st p o1 = Some (st', rb_root st', p, True)"
      "foc st' (nd d (nd d t (Black, p) B) (c, o1) (paint Black C)) fs" by (rule er_tail_spec [OF f0])
    have "er_rest d st p o1 = Some (st', rb_root st', p, True)"
      using er_rest_eq [OF f1 n(1)] 2 st'(1) by simp
    moreover have "blk (paint Black C)" by (cases C rule: adr.cases) auto
    ultimately show ?thesis
      by (intro balanced [of st' "nd d (nd d t (Black, p) B) (c, o1) (paint Black C)"])
        (use st' S assms(5) rb_paint_black [OF S(3) 2] in \<open>cases c; auto simp: nd_def\<close>)+
  next
    case 3
    then obtain B1 b B2 where B: "B = nd d B1 (Red, b) B2"
      using colour_cases by (cases rule: nd_cases [where t = B and d = d]) auto
    obtain st1 st2 st3 pn where st: "rb_mod st b rb_set_black = Some st1" "rb_mod st1 o1 rb_set_red = Some st2"
      "rb_rotate (\<not> d) st2 o1 = Some st3" "rb_get st3 p = Some pn" "chl (\<not> d) pn = b"
      and f3: "foc st3 t ((d, c, p, nd d B1 (Black, b) (nd d B2 (Red, o1) C)) # fs)" using er_near [OF f0 [unfolded B]] by blast
    obtain st' where st': "er_tail d st3 p b = Some (st', rb_root st', p, True)"
      "foc st' (nd d (nd d t (Black, p) B1) (c, b) (paint Black (nd d B2 (Red, o1) C))) fs"
      by (rule er_tail_spec [OF f3]) simp_all
    have "er_rest d st p o1 = Some (st', rb_root st', p, True)"
      using er_rest_eq [OF f1 n(1)] 3 n(2) B st st'(1) by simp
    then show ?thesis
      by (intro balanced [of st' "nd d (nd d t (Black, p) B1) (c, b) (nd d B2 (Black, o1) C)"])
        (use st' S assms(5) B 3 in \<open>cases c; auto simp: nd_def\<close>)+
  qed
qed

lemma er_step_black:
  assumes f: "foc st t ((d, c, p, S) # fs)" and "blk S" and "S \<noteq> Leaf"
  shows "er_step d st n p = er_rest d st p (adr S)"
proof -
  obtain pn where pn: "rb_get st p = Some pn" "chl (\<not> d) pn = adr S" by (rule foc_parent [OF f])
  have "foc st S ((\<not> d, c, p, t) # fs)" using f by (simp add: foc_flip [of st t])
  moreover obtain l k a r where S: "S = nd d l (k, a) r" using assms(3) by (cases rule: nd_cases [where t = S and d = d]) auto
  ultimately have f1: "foc st (nd d l (k, a) r) ((\<not> d, c, p, t) # fs)" by simp
  obtain sn where "rb_get st a = Some sn" "rb_is_red sn \<longleftrightarrow> k = Red" by (rule foc_get [OF f1])
  then show ?thesis using pn S assms(2) by (simp add: er_step_def)
qed

lemma er_step_red:
  assumes f: "foc st t ((d, c, p, nd d B (Red, o1) C) # fs)"
  obtains st' where "foc st' t ((d, Red, p, B) # (d, Black, o1, C) # fs)" "er_step d st n p = er_rest d st' p (adr B)"
proof -
  obtain pn where pn: "rb_get st p = Some pn" "chl (\<not> d) pn = o1" by (rule foc_parent [OF f]) simp
  have f1: "foc st (nd d B (Red, o1) C) ((\<not> d, c, p, t) # fs)" using f by (simp add: foc_flip [of st t])
  obtain on where on: "rb_get st o1 = Some on" "rb_is_red on" by (rule foc_get [OF f1]) simp
  obtain st1 where st1: "rb_mod st o1 rb_set_black = Some st1" "foc st1 (nd d B (Black, o1) C) ((\<not> d, c, p, t) # fs)"
    by (rule foc_set_black [OF f1])
  then have "foc st1 (nd d t (c, p) (nd d B (Black, o1) C)) fs" by (simp add: foc_move [symmetric] nd_flip)
  then obtain st2 where st2: "rb_mod st1 p rb_set_red = Some st2" "foc st2 (nd d t (Red, p) (nd d B (Black, o1) C)) fs"
    by (rule foc_set_red)
  obtain st3 where st3: "rb_rotate d st2 p = Some st3" "foc st3 (nd d (nd d t (Red, p) B) (Black, o1) C) fs"
    by (rule rotate_spec [OF st2(2)])
  then have f3: "foc st3 t ((d, Red, p, B) # (d, Black, o1, C) # fs)" by (simp add: foc_move [symmetric])
  obtain qn where "rb_get st3 p = Some qn" "chl (\<not> d) qn = adr B" by (rule foc_parent [OF f3])
  then have "er_step d st n p = er_rest d st3 p (adr B)"
    using pn on st1(1) st2(1) st3(1) by (simp add: er_step_def)
  with f3 show ?thesis using that by blast
qed

lemma repc_root: "repc V root p fs \<Longrightarrow> fs \<noteq> [] \<Longrightarrow> root \<in> set (cnodes fs) \<and> root \<noteq> 0"
proof (induction fs arbitrary: p)
  case (Cons f fs)
  obtain d c a s where f: "f = (d, c, a, s)" by (cases f)
  show ?case using Cons f by (cases "fs = []") (auto simp: okaddr_def)
qed simp

lemma root_not_below:
  assumes "foc st t fs" and "fs \<noteq> []"
  shows "adr t \<noteq> rb_root st" and "rb_root st \<noteq> 0"
proof -
  have r: "rb_root st \<in> set (cnodes fs)" "rb_root st \<noteq> 0" using assms repc_root unfolding foc_def by blast+
  then show "rb_root st \<noteq> 0" by simp
  show "adr t \<noteq> rb_root st"
  proof (cases "t = Leaf")
    case False
    then have "adr t \<in> set (nodes t)" using rep_adr [of "cells st" "up fs" t] assms(1) by (simp add: foc_def)
    then show ?thesis using r(1) assms(1) by (auto simp: foc_def)
  qed (use r(2) in simp)
qed

definition paint_node :: "rb_state \<Rightarrow> u64 \<Rightarrow> rb_state option" where
  "paint_node st node = (if node \<noteq> 0 then rb_mod st node rb_set_black else Some st)"

lemma erase_color_eq:
  "raw_rb_erase_color st node parent = do {
     black \<leftarrow> rb_black_at st node;
     if black \<and> node \<noteq> rb_root st
     then do {
       p \<leftarrow> rb_get st parent;
       (st, node, parent, done) \<leftarrow> (if rb_left p = node then er_step True st node parent else er_step False st node parent);
       if done then paint_node st node else raw_rb_erase_color st node parent }
     else paint_node st node }"
proof (cases "rb_black_at st node")
  case None
  then show ?thesis by (simp add: raw_rb_erase_color_def rb_erase_loop.simps [of st])
next
  case b: (Some b)
  show ?thesis
  proof (cases "b \<and> node \<noteq> rb_root st")
    case False
    then have "rb_erase_loop st node parent = Some (st, node)" using b by (subst rb_erase_loop.simps) auto
    then show ?thesis by (simp only: raw_rb_erase_color_def b bind.bind_lunit if_not_P [OF False] prod.case paint_node_def)
  next
    case True
    show ?thesis
    proof (cases "rb_get st parent")
      case None
      with True b show ?thesis by (simp add: raw_rb_erase_color_def rb_erase_loop.simps [of st])
    next
      case p: (Some p)
      define step where "step = (if rb_left p = node then er_step True st node parent else er_step False st node parent)"
      have loop: "rb_erase_loop st node parent
          = do { (st, node, parent, done) \<leftarrow> step; if done then Some (st, node) else rb_erase_loop st node parent }"
        using True b p by (simp add: rb_erase_loop.simps [of st] er_step_left er_step_right step_def)
      show ?thesis
      proof (cases step)
        case None
        with True b p loop show ?thesis by (simp add: raw_rb_erase_color_def step_def)
      next
        case (Some r)
        obtain st' n' p' dn where "r = (st', n', p', dn)" by (cases r)
        with Some True b p loop show ?thesis by (simp add: raw_rb_erase_color_def step_def [symmetric] paint_node_def)
      qed
    qed
  qed
qed

lemma erase_color_stop:
  assumes f: "foc st t fs" and "\<not> blk t \<or> fs = []"
  obtains st' where "raw_rb_erase_color st (adr t) q = Some st'" "foc st' (paint Black t) fs"
proof -
  have "rb_root st = adr t" if "fs = []" using f that by (simp add: foc_def)
  then have run: "raw_rb_erase_color st (adr t) q = paint_node st (adr t)"
    using assms(2) foc_colour_at(1) [OF f] by (subst erase_color_eq) auto
  show ?thesis
  proof (cases rule: nd_cases [where t = t and d = True])
    case 1
    then show ?thesis using that [of st] run f by (simp add: paint_node_def)
  next
    case (2 l c a r)
    then obtain st' where "rb_mod st a rb_set_black = Some st'" "foc st' (nd True l (Black, a) r) fs"
      using foc_set_black [of st True l c a r fs] f by blast
    then show ?thesis using that [of st'] run 2 f foc_nz [of st True l c a r fs] by (simp add: paint_node_def)
  qed
qed

text \<open>Painting the root of a finished tree changes nothing.\<close>

lemma paint_root:
  assumes f: "foc st X fs" and "rb X k" and "rbc fs k" and "blk X \<or> top_black fs" and "X \<noteq> Leaf"
  obtains st' where "paint_node st (rb_root st) = Some st'" "represents st' (plug X fs)" "rbt (plug X fs)"
proof -
  have T: "rbt (plug X fs)" using rb_plug [OF assms(2-4)] assms(2,4) by (cases "fs = []") (auto simp: rbt_def)
  have ft: "foc st (plug X fs) []" using f by (simp add: foc_plug)
  obtain l c a r where t: "plug X fs = nd True l (c, a) r"
    using assms(5) plug_Leaf by (cases rule: nd_cases [where t = "plug X fs" and d = True]) auto
  then have c: "c = Black" using T by (simp add: rbt_def)
  obtain st' where "rb_mod st a rb_set_black = Some st'" "foc st' (nd True l (Black, a) r) []"
    by (rule foc_set_black [OF ft [unfolded t]])
  moreover have "rb_root st = a" using ft t by (simp add: foc_def)
  moreover have "a \<noteq> 0" using ft t foc_nz by metis
  ultimately show ?thesis using that [of st'] T t c by (simp add: paint_node_def represents_def)
qed

definition er_finish :: "rb_state \<times> u64 \<times> u64 \<times> bool \<Rightarrow> rb_state option" where
  "er_finish = (\<lambda>(st, node, parent, done). if done then paint_node st node else raw_rb_erase_color st node parent)"

definition rebalanced :: "rb_state option \<Rightarrow> rbtree \<Rightarrow> bool" where
  "rebalanced r t \<longleftrightarrow> (\<exists>st' T. r = Some st' \<and> represents st' T \<and> rbt T \<and> nodes T = nodes t)"

lemma erase_color_step:
  assumes f: "foc st t ((d, c, p, S) # fs)" and "blk t" and "S \<noteq> Leaf"
  shows "raw_rb_erase_color st (adr t) p = er_step d st (adr t) p \<bind> er_finish"
proof -
  obtain pn where pn: "rb_get st p = Some pn" "chl d pn = adr t" "chl (\<not> d) pn = adr S" by (rule foc_parent [OF f])
  have "foc st S ((\<not> d, c, p, t) # fs)" using f by (simp add: foc_flip [of st t])
  then have "adr t \<noteq> adr S" using sibling_adr assms(3) by blast
  then have "rb_left pn = adr t \<longleftrightarrow> d" using pn(2,3) by (cases d) (auto simp: chl_def)
  then show ?thesis using root_not_below(1) [OF f] foc_colour_at(1) [OF f] assms(2) pn(1)
    by (subst erase_color_eq) (cases d; simp add: er_finish_def)
qed

lemma blk_paint_Black [simp]: "blk (paint Black t)"
  by (cases t rule: adr.cases) auto

lemma erase_color_red:
  assumes f: "foc st t fs" and "\<not> blk t \<or> fs = []" and "rb (paint Black t) k" and "rbc fs k"
  shows "rebalanced (raw_rb_erase_color st (adr t) q) (plug t fs)"
proof -
  obtain st' where st': "raw_rb_erase_color st (adr t) q = Some st'" "foc st' (paint Black t) fs"
    by (rule erase_color_stop [OF f assms(2)])
  have "rbt (plug (paint Black t) fs)" using rb_plug [OF assms(3,4)] assms(3) by (cases "fs = []") (auto simp: rbt_def)
  moreover have "nodes (plug (paint Black t) fs) = nodes (plug t fs)" by (rule nodes_plug_cong) simp
  moreover have "represents st' (plug (paint Black t) fs)" using st'(2) by (simp add: represents_def foc_plug)
  ultimately show ?thesis using st'(1) by (auto simp: rebalanced_def)
qed

lemma er_rest_finish:
  assumes f: "foc st t ((d, c, p, S) # fs)" and t: "blk t" "rb t h" and S: "blk S" "rb S (Suc h)" and fs: "rbc ((d, c, p, S) # fs) (Suc h)"
    and IH: "\<And>st t2. c = Black \<Longrightarrow> foc st t2 fs \<Longrightarrow> blk t2 \<Longrightarrow> rb t2 (Suc h)
      \<Longrightarrow> rebalanced (raw_rb_erase_color st (adr t2) (up fs)) (plug t2 fs)"
  shows "rebalanced (er_rest d st p (adr S) \<bind> er_finish) (plug t ((d, c, p, S) # fs))"
proof (rule er_rest_spec [OF f S t])
  fix st' t2
  assume up: "er_rest d st p (adr S) = Some (st', p, up fs, False)" "foc st' t2 fs" "adr t2 = p" "blk t2 \<longleftrightarrow> c = Black"
    "rb (paint Black t2) (Suc h)" "nodes t2 = nodes (nd d t (c, p) S)"
  have "rebalanced (raw_rb_erase_color st' p (up fs)) (plug t2 fs)"
  proof (cases c)
    case Red
    then show ?thesis using erase_color_red [OF up(2) _ up(5), of "up fs"] up(3,4) fs by simp
  next
    case Black
    then show ?thesis using IH [OF Black up(2)] up(3-5) by (simp add: blk_paint)
  qed
  moreover have "nodes (plug t2 fs) = nodes (plug t ((d, c, p, S) # fs))" using nodes_plug_cong [OF up(6)] by simp
  ultimately show ?thesis using up(1) by (simp add: er_finish_def rebalanced_def)
next
  fix st' X
  assume balanced: "er_rest d st p (adr S) = Some (st', rb_root st', p, True)" "foc st' X fs" "blk X \<longleftrightarrow> c = Black"
    "rb X (if c = Black then Suc (Suc h) else Suc h)" "nodes X = nodes (nd d t (c, p) S)"
  have "rbc fs (if c = Black then Suc (Suc h) else Suc h)" "blk X \<or> top_black fs"
    using fs balanced(3) by (cases c; simp)+
  moreover have "X \<noteq> Leaf"
  proof
    assume "X = Leaf"
    then show False using balanced(4) by (simp split: if_splits)
  qed
  ultimately obtain st2 where st2: "paint_node st' (rb_root st') = Some st2" "represents st2 (plug X fs)" "rbt (plug X fs)"
    using paint_root [OF balanced(2,4)] by blast
  moreover have "nodes (plug X fs) = nodes (plug t ((d, c, p, S) # fs))" using nodes_plug_cong [OF balanced(5)] by simp
  ultimately show ?thesis using balanced(1) by (auto simp: er_finish_def rebalanced_def)
qed

lemma rb_erase_color_spec:
  "foc st t fs \<Longrightarrow> blk t \<Longrightarrow> rb t h \<Longrightarrow> rbc fs (Suc h) \<Longrightarrow> rebalanced (raw_rb_erase_color st (adr t) (up fs)) (plug t fs)"
proof (induction fs arbitrary: st t h)
  case Nil
  then show ?case using erase_color_red [of st t "[]" h 0] by (simp add: blk_paint)
next
  case (Cons f fs)
  obtain d c p S where f: "f = (d, c, p, S)" by (cases f)
  have fo: "foc st t ((d, c, p, S) # fs)" and fs: "rbc ((d, c, p, S) # fs) (Suc h)" using Cons.prems f by simp_all
  have S: "rb S (Suc h)" using fs by (cases c) auto
  then have "S \<noteq> Leaf" by auto
  note step = erase_color_step [OF fo Cons.prems(2) this]
  have IH: "rebalanced (raw_rb_erase_color st (adr t2) (up fs)) (plug t2 fs)"
    if "c = Black" "foc st t2 fs" "blk t2" "rb t2 (Suc h)" for st t2
    using Cons.IH [OF that(2-4)] that(1) fs by simp
  show ?case
  proof (cases "blk S")
    case True
    then show ?thesis
      using er_rest_finish [OF fo Cons.prems(2,3) True S fs IH] er_step_black [OF fo True \<open>S \<noteq> Leaf\<close>] step f by simp
  next
    case False
    then have c: "c = Black" using fs by (cases c) auto
    obtain B o1 C where SR: "S = nd d B (Red, o1) C" using False colour_cases by (cases rule: nd_cases [where t = S and d = d]) auto
    then have BC: "blk B" "blk C" "rb B (Suc h)" "rb C (Suc h)" using S by simp_all
    obtain st' where st': "foc st' t ((d, Red, p, B) # (d, Black, o1, C) # fs)"
      "er_step d st (adr t) p = er_rest d st' p (adr B)" by (rule er_step_red [OF fo [unfolded SR]])
    have "rbc ((d, Red, p, B) # (d, Black, o1, C) # fs) (Suc h)" using BC fs c by simp
    then have "rebalanced (er_rest d st' p (adr B) \<bind> er_finish) (plug t ((d, Red, p, B) # (d, Black, o1, C) # fs))"
      using er_rest_finish [OF st'(1) Cons.prems(2,3) BC(1,3)] by blast
    moreover have "nodes (plug t ((d, Red, p, B) # (d, Black, o1, C) # fs)) = nodes (plug t (f # fs))"
      unfolding plug.simps f by (rule nodes_plug_cong) (simp add: nd_def SR)
    ultimately show ?thesis using st'(2) step f by (simp add: rebalanced_def)
  qed
qed

end
