(* ===== verification/Rbtree_Walk.thy ===== *)
theory Rbtree_Walk
  imports Rbtree_Insert
begin

text \<open>
  Walking through a tree: the outermost node of a subtree in a direction, the climb out of a subtree, and with them
  the functions \<open>rb_first\<close>, \<open>rb_last\<close>, \<open>rb_next\<close> and \<open>rb_prev\<close>.
\<close>

section \<open>Subtrees and their ancestors\<close>

lemma plug_append [simp]: "plug t (gs @ fs) = plug (plug t gs) fs"
  by (induction t gs rule: plug.induct) simp_all

lemma cnodes_append [simp]: "cnodes (gs @ fs) = cnodes gs @ cnodes fs"
  by (induction gs rule: cnodes.induct) simp_all

lemma set_nodes_plug: "set (nodes (plug t fs)) = set (nodes t) \<union> set (cnodes fs)"
  by (induction t fs rule: plug.induct) auto

lemma distinct_nodes_plug: "distinct (nodes (plug t fs)) \<longleftrightarrow> distinct (nodes t @ cnodes fs)"
  by (induction t fs rule: plug.induct) auto

lemma foc_append: "foc st t (gs @ fs) \<longleftrightarrow> foc st (plug t gs) fs"
  using foc_plug [of st t "gs @ fs"] foc_plug [of st "plug t gs" fs] by simp

text \<open>The nodes in the order of a direction.\<close>

definition nds :: "bool \<Rightarrow> rbtree \<Rightarrow> u64 list" where
  "nds d t = (if d then nodes t else rev (nodes t))"

lemma nds_simps [simp]: "nds d Leaf = []" "nds d (nd d l (c, a) r) = nds d l @ a # nds d r"
  by (auto simp: nds_def nd_def)

lemma nds_along:
  "\<forall>f \<in> set gs. fst f = d \<Longrightarrow> \<exists>ys. \<forall>t. nds d (plug t gs) = nds d t @ ys"
proof (induction gs)
  case Nil
  show ?case by (intro exI [of _ "[]"]) simp
next
  case (Cons f gs)
  obtain c a s where f: "f = (d, c, a, s)" using Cons.prems by (cases f) auto
  from Cons obtain ys where "\<forall>t. nds d (plug t gs) = nds d t @ ys" by auto
  then have "\<forall>t. nds d (plug t (f # gs)) = nds d t @ a # nds d s @ ys" by (simp add: f)
  then show ?case by blast
qed

section \<open>The outermost node\<close>

definition outermost :: "bool \<Rightarrow> rb_state \<Rightarrow> u64 \<Rightarrow> u64 option" where
  "outermost d = (if d then rb_leftmost else rb_rightmost)"

lemma outermost_step:
  "outermost d st node = do { n \<leftarrow> rb_get st node; if chl d n \<noteq> 0 then outermost d st (chl d n) else Some node }"
  by (cases d) (simp_all add: outermost_def chl_def rb_leftmost.simps [of st node] rb_rightmost.simps [of st node] cong: if_cong)

lemma outermost_spec:
  assumes "rep (cells st) q t" and "t \<noteq> Leaf"
  obtains gs c s X where "t = plug (nd d Leaf (c, s) X) gs" "\<forall>f \<in> set gs. fst f = d" "outermost d st (adr t) = Some s"
  using assms
proof (induction t arbitrary: q thesis rule: measure_induct_rule [of size])
  case (less t)
  obtain l c a r where t: "t = nd d l (c, a) r" using less.prems(3) by (cases rule: nd_cases [where t = t and d = d]) auto
  have V: "cells st a = Some (q, c, kids d (adr l) (adr r))" and l: "rep (cells st) a l" using less.prems(2) t by simp_all
  from V obtain n where n: "rb_get st a = Some n" "chl d n = adr l" by (rule cellsD) simp
  show ?case
  proof (cases "l = Leaf")
    case True
    then have "outermost d st (adr t) = Some a" using n t by (subst outermost_step) simp
    then show ?thesis using less.prems(1) [of c a r "[]"] True t by simp
  next
    case False
    have "size l < size t" using t by (simp add: nd_def)
    then obtain gs c' s X where IH: "l = plug (nd d Leaf (c', s) X) gs" "\<forall>f \<in> set gs. fst f = d" "outermost d st (adr l) = Some s"
      using less.IH [OF _ _ l False] by blast
    have "outermost d st (adr t) = Some s" using IH(3) n t adr_0 [OF l] False by (subst outermost_step) simp
    then show ?thesis using less.prems(1) [of c' s X "gs @ [(d, c, a, r)]"] IH(1,2) t by auto
  qed
qed

lemma outermost_first:
  assumes "rep (cells st) q t" and "t \<noteq> Leaf"
  obtains s ys where "outermost d st (adr t) = Some s" "nds d t = s # ys"
proof -
  obtain gs c s X where t: "t = plug (nd d Leaf (c, s) X) gs" "\<forall>f \<in> set gs. fst f = d" "outermost d st (adr t) = Some s"
    by (rule outermost_spec [OF assms])
  from nds_along [OF t(2)] obtain ys where "nds d t = nds d (nd d Leaf (c, s) X) @ ys" unfolding t(1) by blast
  then show ?thesis using that t(3) by simp
qed

section \<open>Climbing\<close>

definition climb :: "bool \<Rightarrow> rb_state \<Rightarrow> u64 \<Rightarrow> u64 option" where
  "climb e = (if e then rb_up_from_left else rb_up_from_right)"

lemma climb_step:
  "climb e st node = do {
     n \<leftarrow> rb_get st node;
     if rb_parent n = 0 then Some 0
     else do { p \<leftarrow> rb_get st (rb_parent n); if node = chl e p then climb e st (rb_parent n) else Some (rb_parent n) } }"
  by (cases e) (simp_all add: climb_def chl_def rb_up_from_left.simps [of st node] rb_up_from_right.simps [of st node] Let_def cong: if_cong)

fun next_up :: "bool \<Rightarrow> frames \<Rightarrow> u64" where
  "next_up e [] = 0"
| "next_up e ((d, c, a, s) # fs) = (if d = e then next_up e fs else a)"

lemma climb_spec: "foc st t fs \<Longrightarrow> t \<noteq> Leaf \<Longrightarrow> climb e st (adr t) = Some (next_up e fs)"
proof (induction fs arbitrary: t)
  case Nil
  obtain l c a r where t: "t = nd e l (c, a) r" using Nil.prems(2) by (cases rule: nd_cases [where t = t and d = e]) auto
  from foc_get [OF Nil.prems(1) [unfolded t]] obtain n where "rb_get st a = Some n" "rb_parent n = 0" by auto
  then show ?case using t by (subst climb_step) simp
next
  case (Cons f fs)
  obtain d k p s where f: "f = (d, k, p, s)" by (cases f)
  have fo: "foc st t ((d, k, p, s) # fs)" using Cons.prems f by simp
  obtain l c a r where t: "t = nd e l (c, a) r" using Cons.prems(2) by (cases rule: nd_cases [where t = t and d = e]) auto
  from foc_get [OF fo [unfolded t]] obtain n where n: "rb_get st a = Some n" "rb_parent n = p" by auto
  obtain m where m: "rb_get st p = Some m" "chl d m = adr t" "chl (\<not> d) m = adr s" by (rule foc_parent [OF fo])
  have "adr t = chl e m \<longleftrightarrow> d = e" using m sibling_adr [OF fo Cons.prems(2)] by (cases "d = e") auto
  moreover have up: "foc st (nd d t (k, p) s) fs" using fo by (simp add: foc_move)
  ultimately show ?case using n m(1) f t Cons.IH [OF up] foc_nz [OF up] by (subst climb_step) simp
qed

section \<open>The next node in a direction\<close>

definition first_of :: "u64 list \<Rightarrow> u64" where
  "first_of xs = (case xs of [] \<Rightarrow> 0 | x # _ \<Rightarrow> x)"

lemma next_up_first:
  "\<exists>xs zs. (\<forall>t. nds d (plug t fs) = xs @ nds d t @ zs) \<and> next_up (\<not> d) fs = first_of zs"
proof (induction fs)
  case Nil
  show ?case by (intro exI [of _ "[]"]) (simp add: first_of_def)
next
  case (Cons f fs)
  obtain e c a s where f: "f = (e, c, a, s)" by (cases f)
  from Cons obtain xs zs where IH: "\<forall>t. nds d (plug t fs) = xs @ nds d t @ zs" "next_up (\<not> d) fs = first_of zs" by blast
  show ?case
  proof (cases "e = d")
    case True
    then show ?thesis using IH by (intro exI [of _ xs] exI [of _ "a # nds d s @ zs"]) (simp add: f first_of_def)
  next
    case False
    then have "e = (\<not> d)" by simp
    then show ?thesis using IH by (intro exI [of _ "xs @ nds d s @ [a]"] exI [of _ zs]) (simp add: f nd_flip)
  qed
qed

definition rb_step :: "bool \<Rightarrow> rb_state \<Rightarrow> u64 \<Rightarrow> u64 option" where
  "rb_step d = (if d then rb_next else rb_prev)"

lemma rb_step_eq:
  "rb_step d st node = do {
     n \<leftarrow> rb_get st node;
     if rb_parent n = node then Some 0
     else if chl (\<not> d) n \<noteq> 0 then outermost d st (chl (\<not> d) n) else climb (\<not> d) st node }"
  by (cases d) (simp_all add: rb_step_def rb_next_def rb_prev_def chl_def outermost_def climb_def cong: if_cong)

lemma up_not_self: "foc st (nd d l (c, a) r) fs \<Longrightarrow> up fs \<noteq> a"
  by (cases fs rule: up.cases) (auto simp: foc_def okaddr_def)

lemma rb_step_position:
  assumes f: "foc st (nd d l (c, a) r) fs"
  obtains xs ys where "nds d (plug (nd d l (c, a) r) fs) = xs @ a # ys" "rb_step d st a = Some (first_of ys)"
proof -
  obtain n where n: "rb_get st a = Some n" "rb_parent n = up fs" "chl (\<not> d) n = adr r" by (rule foc_get [OF f])
  obtain xs zs where pl: "\<forall>t. nds d (plug t fs) = xs @ nds d t @ zs" "next_up (\<not> d) fs = first_of zs"
    using next_up_first [of d fs] by blast
  have r: "rep (cells st) a r" using f by (simp add: foc_def)
  have "rb_step d st a = Some (first_of (nds d r @ zs))"
  proof (cases "r = Leaf")
    case True
    then show ?thesis using n up_not_self [OF f] climb_spec [OF f, of "\<not> d"] pl(2) by (subst rb_step_eq) simp
  next
    case False
    obtain s ys where "outermost d st (adr r) = Some s" "nds d r = s # ys" by (rule outermost_first [OF r False])
    then show ?thesis using n up_not_self [OF f] adr_0 [OF r] False by (subst rb_step_eq) (simp add: first_of_def)
  qed
  then show ?thesis using that [of "xs @ nds d l" "nds d r @ zs"] pl(1) by simp
qed

lemma node_position: "a \<in> set (nodes t) \<Longrightarrow> \<exists>l c r fs. t = plug (nd d l (c, a) r) fs"
proof (induction t rule: measure_induct_rule [of size])
  case (less t)
  obtain l c b r where t: "t = nd d l (c, b) r" using less.prems by (cases rule: nd_cases [where t = t and d = d]) auto
  then have sz: "size l < size t" "size r < size t" by (auto simp: nd_def)
  consider "a = b" | "a \<in> set (nodes l)" | "a \<in> set (nodes r)" using less.prems t by auto
  then show ?case
  proof cases
    case 1
    then show ?thesis using t plug.simps(1) by metis
  next
    case 2
    then obtain l' c' r' fs where "l = plug (nd d l' (c', a) r') fs" using less.IH [OF sz(1)] by blast
    then have "t = plug (nd d l' (c', a) r') (fs @ [(d, c, b, r)])" using t by simp
    then show ?thesis by blast
  next
    case 3
    then obtain l' c' r' fs where "r = plug (nd d l' (c', a) r') fs" using less.IH [OF sz(2)] by blast
    then have "t = plug (nd d l' (c', a) r') (fs @ [(\<not> d, c, b, l)])" using t by (simp add: nd_flip)
    then show ?thesis by blast
  qed
qed

lemma distinct_split: "distinct (xs @ a # ys) \<Longrightarrow> xs @ a # ys = us @ a # vs \<Longrightarrow> xs = us \<and> ys = vs"
  by (subst (asm) append_Cons_eq_iff) auto

lemma represents_distinct: "represents st T \<Longrightarrow> distinct (nodes T)"
  by (simp add: represents_def foc_def)

lemma rb_step_spec:
  assumes T: "represents st T" and s: "nds d T = xs @ a # ys"
  shows "rb_step d st a = Some (first_of ys)"
proof -
  have "a \<in> set (nds d T)" using s by simp
  then have "a \<in> set (nodes T)" by (simp add: nds_def split: if_splits)
  then obtain l c r fs where t: "T = plug (nd d l (c, a) r) fs" using node_position by blast
  then have "foc st (nd d l (c, a) r) fs" using T by (simp add: represents_def foc_plug)
  then obtain us vs where u: "nds d T = us @ a # vs" "rb_step d st a = Some (first_of vs)"
    unfolding t by (rule rb_step_position)
  have "distinct (nds d T)" using represents_distinct [OF T] by (simp add: nds_def)
  then have "distinct (xs @ a # ys)" unfolding s .
  from distinct_split [OF this u(1) [unfolded s]] have "ys = vs" by blast
  with u(2) show ?thesis by simp
qed

lemma rb_end_spec:
  assumes T: "represents st T"
  shows "(if d then rb_first st else rb_last st) = Some (first_of (nds d T))"
proof (cases "T = Leaf")
  case True
  then show ?thesis using T by (simp add: represents_def foc_def rb_first_def rb_last_def first_of_def)
next
  case False
  have r: "rep (cells st) 0 T" "rb_root st = adr T" using T by (simp_all add: represents_def foc_def)
  obtain s ys where "outermost d st (adr T) = Some s" "nds d T = s # ys" by (rule outermost_first [OF r(1) False])
  then show ?thesis using r adr_0 [OF r(1)] False
    by (simp add: rb_first_def rb_last_def outermost_def first_of_def split: if_splits)
qed

end
