(* ===== verification/Rbtree_Remove.thy ===== *)
theory Rbtree_Remove
  imports Rbtree_Erase Rbtree_Walk
begin

text \<open>
  \<open>rb_erase\<close>: unlinking a node with at most one child, putting its successor in the place of a node with two, and the
  rebalancing.  \<open>rb_replace_node\<close>.
\<close>

section \<open>A node with at most one child\<close>

lemma rb_relink_eq: "rb_relink = relink True"
  by (intro ext) (simp add: rb_relink_def relink_def set_chl_fun chl_def eq_commute [of "rb_left _"] cong: if_cong)

lemma color_is: "rb_color n = RB_BLACK \<longleftrightarrow> \<not> rb_is_red n"
proof -
  have "rb_color n = 0 \<or> rb_color n = 1"
    by (simp add: rb_color_def and_one_eq) (metis not_mod_2_eq_0_eq_1)
  then show ?thesis by (auto simp: rb_is_red_def RB_BLACK_def)
qed

lemma erase_one_spec:
  assumes f: "foc st (nd d Leaf (c, a) X) fs"
  obtains st' col where "rb_erase_one st a (adr X) = Some (st', adr X, up fs, col)" "foc st' X fs" "col = RB_BLACK \<longleftrightarrow> c = Black"
proof -
  have X: "rep (cells st) a X" and rc: "repc (cells st) (rb_root st) a fs" and a: "a \<noteq> 0"
    and D: "distinct (nodes X)" "distinct (cnodes fs)" "a \<notin> set (cnodes fs)" "set (nodes X) \<inter> set (cnodes fs) = {}"
    using f by (auto simp: foc_def okaddr_def)
  obtain n where n: "rb_get st a = Some n" "rb_parent n = up fs" "rb_is_red n \<longleftrightarrow> c = Red" by (rule foc_get [OF f])
  obtain st1 where st1: "(if adr X \<noteq> 0 then rb_mod st (adr X) (rb_set_parent (up fs)) else Some st) = Some st1"
    "rep (cells st1) (up fs) X" "\<And>b. b \<notin> set (nodes X) \<Longrightarrow> cells st1 b = cells st b" "rb_root st1 = rb_root st"
    by (rule reparent [OF X D(1) up_ok [OF rc]]) blast
  have "cells st1 b = cells st b" if "b \<in> set (cnodes fs)" for b using that D(4) by (intro st1(3)) blast
  from repc_cong [of fs, OF this] have rc1: "repc (cells st1) (rb_root st1) a fs" using rc st1(4) by simp
  obtain st2 where st2: "relink True st1 (up fs) a (adr X) = Some st2" "cells st2 = relinked fs (adr X) (cells st1)"
    "rb_root st2 = (if fs = [] then adr X else rb_root st1)" by (rule relink_spec [OF rc1 a D(3)])
  have "foc st2 X fs" using repc_relinked [OF rc1 D(2), of "adr X"] rep_relinked [OF D(4)] st1(2) st2(2,3) D
    by (simp add: foc_def)
  moreover have "rb_erase_one st a (adr X) = Some (st2, adr X, up fs, rb_color n)"
    using n(1,2) st1(1) st2(1) by (simp add: rb_erase_one_def rb_relink_eq)
  ultimately show ?thesis using that n(3) colour_cases [of c] by (simp add: color_is)
qed

section \<open>A node with two children\<close>

text \<open>The ancestors inside a subtree whose parent is \<open>q\<close>.\<close>

definition upd :: "u64 \<Rightarrow> frames \<Rightarrow> u64" where
  "upd q gs = (if gs = [] then q else up gs)"

fun repg :: "(u64 \<Rightarrow> cell option) \<Rightarrow> u64 \<Rightarrow> u64 \<Rightarrow> frames \<Rightarrow> bool" where
  "repg V q p [] \<longleftrightarrow> True"
| "repg V q p ((d, c, a, s) # gs) \<longleftrightarrow>
     V a = Some (upd q gs, c, kids d p (adr s)) \<and> okaddr a \<and> rep V a s \<and> repg V q a gs"

lemma rep_plug: "rep V q (plug t gs) \<longleftrightarrow> rep V (upd q gs) t \<and> repg V q (adr t) gs"
proof (induction gs arbitrary: t)
  case (Cons f gs)
  obtain d c a s where f: "f = (d, c, a, s)" by (cases f)
  show ?case by (auto simp: f Cons.IH) (auto simp: upd_def)
qed (simp add: upd_def)

lemma repg_cong: "(\<And>a. a \<in> set (cnodes gs) \<Longrightarrow> V' a = V a) \<Longrightarrow> repg V' q p gs \<longleftrightarrow> repg V q p gs"
proof (induction gs arbitrary: p)
  case (Cons f gs)
  obtain d c a s where f: "f = (d, c, a, s)" by (cases f)
  have "rep V' a s \<longleftrightarrow> rep V a s" by (rule rep_cong) (simp add: Cons.prems f)
  moreover have "repg V' q a gs \<longleftrightarrow> repg V q a gs" by (rule Cons.IH) (simp add: Cons.prems f)
  ultimately show ?case using Cons.prems [of a] by (simp add: f)
qed simp

lemma upd_append: "upd q (gs @ fs) = upd (upd q fs) gs"
  by (cases gs rule: up.cases) (simp_all add: upd_def)

lemma adr_plug: "gs \<noteq> [] \<Longrightarrow> adr (plug t gs) = adr (plug t' gs)"
  by (induction gs arbitrary: t t' rule: rev_induct) auto

text \<open>Taking the outermost node out of a subtree, when there is something above it.\<close>

lemma splice:
  assumes t: "rep V q (plug (nd True Leaf (cs, s) C) ((True, c, b, S) # gs))"
    and D: "distinct (nodes (plug (nd True Leaf (cs, s) C) ((True, c, b, S) # gs)))"
    and V': "rep V' b C" "V' b = Some (upd q gs, c, kids True (adr C) (adr S))" "\<And>x. x \<noteq> b \<Longrightarrow> x \<notin> set (nodes C) \<Longrightarrow> x \<noteq> s \<Longrightarrow> V' x = V x"
  shows "rep V' q (plug C ((True, c, b, S) # gs))"
proof -
  have r: "okaddr b" "rep V b S" "repg V q b gs" using t by (simp_all only: rep_plug repg.simps)
  have d: "distinct (s # nodes C @ b # nodes S @ cnodes gs)" using D unfolding distinct_nodes_plug by auto
  have "V' x = V x" if "x \<in> set (nodes S)" for x using that d by (intro V'(3)) auto
  from rep_cong [of S, OF this] have "rep V' b S" using r(2) by simp
  moreover have "V' x = V x" if "x \<in> set (cnodes gs)" for x using that d by (intro V'(3)) auto
  from repg_cong [of gs, OF this] have "repg V' q b gs" using r(3) by simp
  ultimately show ?thesis using r(1) V'(1,2) unfolding rep_plug by (simp add: upd_def)
qed

definition erase_two_mid :: "rb_state \<Rightarrow> u64 \<Rightarrow> u64 \<Rightarrow> u64 \<Rightarrow> u64 \<Rightarrow> (rb_state \<times> u64) option" where
  "erase_two_mid st old node child parent =
     (if parent = old then Some (st, node)
      else do {
        st \<leftarrow> (if child \<noteq> 0 then rb_mod st child (rb_set_parent parent) else Some st);
        st \<leftarrow> rb_mod st parent (set_chl True child);
        o2 \<leftarrow> rb_get st old;
        st \<leftarrow> rb_mod st node (set_chl False (chl False o2));
        st \<leftarrow> rb_mod st (chl False o2) (rb_set_parent node);
        Some (st, parent) })"

lemma erase_two_mid_spec:
  assumes R: "rep (cells st) a (plug (nd True Leaf (cs, s) C) gs)" and left: "\<forall>f \<in> set gs. fst f"
    and D: "distinct (a # nodes (plug (nd True Leaf (cs, s) C) gs))"
    and o1: "rb_get st a = Some o1" "chl False o1 = adr (plug (nd True Leaf (cs, s) C) gs)"
  obtains st' q k where "erase_two_mid st a s (adr C) (upd a gs) = Some (st', upd s gs)" "rb_root st' = rb_root st"
    "\<And>x. x \<notin> set (nodes (plug (nd True Leaf (cs, s) C) gs)) \<Longrightarrow> cells st' x = cells st x"
    "cells st' s = Some (q, cs, kids True k (adr (plug C gs)))" "rep (cells st') s (plug C gs)"
proof (cases gs)
  case Nil
  then show ?thesis using R that [of st a 0] by (simp add: erase_two_mid_def upd_def)
next
  case (Cons f gs')
  obtain c b S where f: "f = (True, c, b, S)" using left Cons by (cases f) auto
  have gs: "gs = (True, c, b, S) # gs'" using Cons f by simp
  have V: "cells st s = Some (b, cs, kids True 0 (adr C))" "cells st b = Some (upd a gs', c, kids True s (adr S))"
    and C: "rep (cells st) s C" and ok: "okaddr s" "okaddr b"
    using R unfolding rep_plug by (simp_all add: gs upd_def)
  have d: "distinct (a # s # b # nodes C @ nodes S @ cnodes gs')"
    using D unfolding distinct.simps distinct_nodes_plug set_nodes_plug by (auto simp: gs)
  have ups: "upd a gs = b" "upd s gs = b" by (simp_all add: gs upd_def)
  obtain st1 where st1: "(if adr C \<noteq> 0 then rb_mod st (adr C) (rb_set_parent b) else Some st) = Some st1"
    "rep (cells st1) b C" "\<And>x. x \<notin> set (nodes C) \<Longrightarrow> cells st1 x = cells st x" "rb_root st1 = rb_root st"
    using reparent [OF C _ , of b] d ok(2) by (auto simp: okaddr_def)
  have "cells st1 b = Some (upd a gs', c, kids True s (adr S))" using V(2) st1(3) d by simp
  then obtain st2 where st2: "rb_mod st1 b (set_chl True (adr C)) = Some st2"
    "cells st2 = (cells st1)(b \<mapsto> (upd a gs', c, kids True (adr C) (adr S)))" "rb_root st2 = rb_root st1"
    by (rule mod_chl [of _ _ _ _ _ True "adr C"]) simp
  let ?r = "adr (plug C gs)"
  have r: "?r = adr (plug (nd True Leaf (cs, s) C) gs)" by (rule adr_plug) (simp add: gs)
  have same2: "cells st2 x = cells st x" if "x \<noteq> b" "x \<notin> set (nodes C)" for x using that st1(3) st2(2) by simp
  have "cells st2 a = cells st a" using d by (intro same2) auto
  then obtain o2 where o2: "rb_get st2 a = Some o2" "chl False o2 = ?r" unfolding r
    using o1 by (auto simp: cells_def view_def chl_def fun_eq_iff split: if_splits)
  have "cells st2 s = Some (b, cs, kids True 0 (adr C))" using V(1) same2 [of s] d by simp
  then obtain st3 where st3: "rb_mod st2 s (set_chl False ?r) = Some st3"
    "cells st3 = (cells st2)(s \<mapsto> (b, cs, kids True 0 ?r))" "rb_root st3 = rb_root st2"
    using mod_chl [of st2 s b cs _ False ?r] kids_simps(5) [of True 0 "adr C" ?r] by (metis (full_types))
  have "rep (cells st3) a (plug C gs)" unfolding gs
  proof (rule splice [OF R [unfolded gs]])
    show "rep (cells st3) b C" using st1(2) st2(2) st3(2) d by simp
    show "cells st3 x = cells st x" if "x \<noteq> b" "x \<notin> set (nodes C)" "x \<noteq> s" for x using that same2 st3(2) by simp
  qed (use D d gs st2(2) st3(2) in auto)
  moreover have "?r \<noteq> 0" using r adr_0 [OF R] by (auto simp: plug_Leaf)
  moreover have dC: "distinct (nodes (plug C gs))" unfolding distinct_nodes_plug using d by (auto simp: gs)
  ultimately obtain st4 where st4: "rb_mod st3 ?r (rb_set_parent s) = Some st4" "rep (cells st4) s (plug C gs)"
    "\<And>x. x \<notin> set (nodes (plug C gs)) \<Longrightarrow> cells st4 x = cells st3 x" "rb_root st4 = rb_root st3"
    using reparent [of st3 a "plug C gs" s] ok(1) by (auto simp: okaddr_def)
  have "s \<notin> set (nodes (plug C gs))" using d by (auto simp: set_nodes_plug gs)
  then have "cells st4 s = Some (b, cs, kids True 0 ?r)" using st4(3) st3(2) by simp
  moreover have "cells st4 x = cells st x" if "x \<notin> set (nodes (plug (nd True Leaf (cs, s) C) gs))" for x
    using that st4(3) [of x] st3(2) same2 [of x] by (auto simp: set_nodes_plug gs)
  moreover have "b \<noteq> a" using d by auto
  then have "erase_two_mid st a s (adr C) (upd a gs) = Some (st4, upd s gs)"
    using st1(1) st2(1) st3(1) st4(1) o2 ups by (simp add: erase_two_mid_def)
  ultimately show ?thesis using that [of st4 b 0] st4(2,4) st3(3) st2(3) st1(4) by simp
qed

text \<open>The successor gets the place and the colour of the node, and its subtrees.\<close>

definition adopt :: "rb_state \<Rightarrow> u64 \<Rightarrow> rb_node \<Rightarrow> rb_state option" where
  "adopt st node o2 = do {
     st \<leftarrow> rb_mod st node (\<lambda>n. n\<lparr>rb_parent_color := rb_parent_color o2\<rparr>);
     st \<leftarrow> rb_mod st node (set_chl True (chl True o2));
     rb_mod st (chl True o2) (rb_set_parent node) }"

lemma erase_two_copy:
  assumes V: "cells st a = Some (p, c, kids True (adr L) x)" and s: "cells st s = Some (q, k, kids True y r)"
    and L: "rep (cells st) a L" "L \<noteq> Leaf" "distinct (nodes L)" "s \<notin> set (nodes L)" and "okaddr s"
  obtains st' o2 where "rb_get st a = Some o2" "adopt st s o2 = Some st'"
    "cells st' s = Some (p, c, kids True (adr L) r)" "rep (cells st') s L" "rb_root st' = rb_root st"
    "\<And>x. x \<noteq> s \<Longrightarrow> x \<notin> set (nodes L) \<Longrightarrow> cells st' x = cells st x"
proof -
  from V obtain o2 where o2: "rb_get st a = Some o2" "rb_parent o2 = p" "rb_is_red o2 \<longleftrightarrow> c = Red" "chl True o2 = adr L"
    by (rule cellsD) simp
  have "view (n\<lparr>rb_parent_color := rb_parent_color o2\<rparr>) = (p, c, ch)" if "view n = (q, k, ch)" for n ch
    using that o2(2,3) colour_cases [of c] by (auto simp: view_def rb_parent_def rb_is_red_def rb_color_def)
  then obtain st1 where st1: "rb_mod st s (\<lambda>n. n\<lparr>rb_parent_color := rb_parent_color o2\<rparr>) = Some st1"
    "cells st1 = (cells st)(s \<mapsto> (p, c, kids True y r))" "rb_root st1 = rb_root st"
    using rb_mod_cells [OF s, of "\<lambda>n. n\<lparr>rb_parent_color := rb_parent_color o2\<rparr>" "(p, c, kids True y r)"] by blast
  from st1(2) have "cells st1 s = Some (p, c, kids True y r)" by simp
  then obtain st2 where st2: "rb_mod st1 s (set_chl True (adr L)) = Some st2"
    "cells st2 = (cells st1)(s \<mapsto> (p, c, kids True (adr L) r))" "rb_root st2 = rb_root st1"
    by (rule mod_chl [of _ _ _ _ _ True "adr L"]) simp
  have "rep (cells st2) a L" using L(1,4) st1(2) st2(2) by simp
  moreover have "adr L \<noteq> 0" using adr_0 [OF L(1)] L(2) by simp
  ultimately obtain st3 where st3: "rb_mod st2 (adr L) (rb_set_parent s) = Some st3" "rep (cells st3) s L"
    "\<And>x. x \<notin> set (nodes L) \<Longrightarrow> cells st3 x = cells st2 x" "rb_root st3 = rb_root st2"
    using reparent [of st2 a L s] L(3) assms(7) by (auto simp: okaddr_def)
  show ?thesis using that [of o2 st3] o2 st1 st2 st3 L(4) by (simp add: adopt_def)
qed

lemma erase_two_eq:
  "rb_erase_two st old = do {
     o1 \<leftarrow> rb_get st old;
     node \<leftarrow> outermost True st (chl False o1);
     st \<leftarrow> relink True st (rb_parent o1) old node;
     n \<leftarrow> rb_get st node;
     (st, parent) \<leftarrow> erase_two_mid st old node (chl False n) (rb_parent n);
     o2 \<leftarrow> rb_get st old;
     st \<leftarrow> adopt st node o2;
     Some (st, chl False n, parent, rb_color n) }"
  by (simp add: rb_erase_two_def adopt_def erase_two_mid_def outermost_def chl_def set_chl_fun rb_relink_eq Let_def case_prod_beta cong: if_cong)

lemma erase_two_spec:
  assumes f: "foc st (nd True L (c, a) R) fs" and LR: "L \<noteq> Leaf" "R \<noteq> Leaf"
  obtains st' cs s C gs col where "R = plug (nd True Leaf (cs, s) C) gs" "\<forall>f \<in> set gs. fst f"
    "rb_erase_two st a = Some (st', adr C, up (gs @ (False, c, s, L) # fs), col)"
    "foc st' C (gs @ (False, c, s, L) # fs)" "col = RB_BLACK \<longleftrightarrow> cs = Black"
proof -
  have V: "cells st a = Some (up fs, c, kids True (adr L) (adr R))" and L: "rep (cells st) a L" and R: "rep (cells st) a R"
    and rc: "repc (cells st) (rb_root st) a fs" and a: "okaddr a" using f by (simp_all add: foc_def)
  have D: "distinct (a # nodes L @ nodes R @ cnodes fs)" using f by (auto simp: foc_def)
  obtain gs cs s C where s: "R = plug (nd True Leaf (cs, s) C) gs" "\<forall>f \<in> set gs. fst f = True" "outermost True st (adr R) = Some s"
    by (rule outermost_spec [OF R LR(2)])
  have sR: "s \<in> set (nodes R)" and oks: "okaddr s" using R unfolding s(1) by (auto simp: set_nodes_plug rep_plug)
  from V obtain o1 where o1: "rb_get st a = Some o1" "rb_parent o1 = up fs" "chl False o1 = adr R" by (rule cellsD) (simp add: kids_def)
  have "a \<noteq> 0" "a \<notin> set (cnodes fs)" using a D by (auto simp: okaddr_def)
  then obtain st1 where st1: "relink True st (up fs) a s = Some st1" "cells st1 = relinked fs s (cells st)"
    "rb_root st1 = (if fs = [] then s else rb_root st)" by (rule relink_spec [OF rc])
  have rc1: "repc (cells st1) (rb_root st1) s fs" unfolding st1(2,3) by (rule repc_relinked [OF rc]) (use D in auto)
  have same: "cells st1 x = cells st x" if "x \<notin> set (cnodes fs)" for x using that st1(2) by (simp add: relinked_other)
  have "set (nodes R) \<inter> set (cnodes fs) = {}" "set (nodes L) \<inter> set (cnodes fs) = {}" using D by auto
  then have R1: "rep (cells st1) a R" "rep (cells st1) a L" unfolding st1(2) using R L by (simp_all add: rep_relinked)
  have V1: "cells st1 a = Some (up fs, c, kids True (adr L) (adr R))" using V same [of a] D by simp
  then obtain o2 where o2: "rb_get st1 a = Some o2" "chl False o2 = adr R" by (rule cellsD) (simp add: kids_def)
  have "cells st1 s = Some (upd a gs, cs, kids True 0 (adr C))" using R1(1) unfolding s(1) rep_plug by simp
  then obtain n where n: "rb_get st1 s = Some n" "rb_parent n = upd a gs" "rb_is_red n \<longleftrightarrow> cs = Red" "chl False n = adr C"
    by (rule cellsD) (simp add: kids_def)
  have left: "\<forall>f \<in> set gs. fst f" and "distinct (a # nodes (plug (nd True Leaf (cs, s) C) gs))" using s(1,2) D by auto
  then obtain st2 q k where st2: "erase_two_mid st1 a s (adr C) (upd a gs) = Some (st2, upd s gs)" "rb_root st2 = rb_root st1"
    "\<And>x. x \<notin> set (nodes R) \<Longrightarrow> cells st2 x = cells st1 x"
    "cells st2 s = Some (q, cs, kids True k (adr (plug C gs)))" "rep (cells st2) s (plug C gs)"
    using erase_two_mid_spec [OF R1(1) [unfolded s(1)] _ _ o2 [unfolded s(1)]] unfolding s(1) by blast
  have "cells st2 x = cells st1 x" if "x \<in> set (nodes L)" for x using that D by (intro st2(3)) auto
  from rep_cong [of L, OF this] have L2: "rep (cells st2) a L" using R1(2) by simp
  have V2: "cells st2 a = Some (up fs, c, kids True (adr L) (adr R))" using V1 st2(3) [of a] D by simp
  have sub: "set (nodes (plug C gs)) \<subseteq> set (nodes R) - {s}"
    using D unfolding s(1) by (auto simp: set_nodes_plug distinct_nodes_plug)
  have dC: "distinct (nodes (plug C gs))" using D unfolding s(1) by (auto simp: distinct_nodes_plug)
  have dL: "distinct (nodes L)" "s \<notin> set (nodes L)" using D sR by auto
  obtain st3 o3 where st3: "rb_get st2 a = Some o3" "adopt st2 s o3 = Some st3"
    "cells st3 s = Some (up fs, c, kids True (adr L) (adr (plug C gs)))" "rep (cells st3) s L" "rb_root st3 = rb_root st2"
    "\<And>x. x \<noteq> s \<Longrightarrow> x \<notin> set (nodes L) \<Longrightarrow> cells st3 x = cells st2 x"
    by (rule erase_two_copy [OF V2 st2(4) L2 LR(1) dL oks]) blast
  have "cells st3 x = cells st2 x" if "x \<in> set (nodes (plug C gs))" for x using that sub D by (intro st3(6)) auto
  from rep_cong [of "plug C gs", OF this] have P3: "rep (cells st3) s (plug C gs)" using st2(5) by simp
  have "cells st3 x = cells st1 x" if "x \<in> set (cnodes fs)" for x
  proof -
    have "x \<noteq> s" "x \<notin> set (nodes L)" "x \<notin> set (nodes R)" using that sR D by auto
    then show ?thesis using st3(6) st2(3) by simp
  qed
  from repc_cong [of fs, OF this] have rc3: "repc (cells st3) (rb_root st3) s fs" using rc1 st3(5) st2(2) by simp
  have "distinct (nodes (nd True L (c, s) (plug C gs)) @ cnodes fs)" using D sub sR dC by auto
  then have "foc st3 (nd True L (c, s) (plug C gs)) fs" using st3(3,4) P3 rc3 oks by (simp add: foc_def)
  then have "foc st3 (plug C gs) ((False, c, s, L) # fs)" using foc_move [of st3 False "plug C gs" c s L fs] nd_flip [of True] by simp
  then have "foc st3 C (gs @ (False, c, s, L) # fs)" by (simp add: foc_append)
  moreover have "upd s gs = up (gs @ (False, c, s, L) # fs)" by (cases gs rule: up.cases) (simp_all add: upd_def)
  ultimately show ?thesis using that [of cs s C gs st3 "rb_color n"] s(1,3) left o1 st1(1) n st2(1) st3(1,2) colour_cases [of cs]
    by (simp add: erase_two_eq color_is)
qed

section \<open>Erasing a node\<close>

lemma erase_finish:
  assumes f: "foc st X fs" and r: "rb (nd d Leaf (c, x) X) h" "rbc fs h" "c = Black \<or> top_black fs"
  shows "rebalanced (if c = Black then raw_rb_erase_color st (adr X) (up fs) else Some st) (plug X fs)"
proof (cases c)
  case Red
  then have "rb X h" "blk X" "fs \<noteq> []" using r by auto
  then have "rbt (plug X fs)" using rb_plug r(2) by blast
  moreover have "represents st (plug X fs)" using f by (simp add: represents_def foc_plug)
  ultimately show ?thesis using Red by (auto simp: rebalanced_def)
next
  case Black
  then have h: "rb X 0" "rbc fs (Suc 0)" using r(1,2) by auto
  show ?thesis
  proof (cases "blk X")
    case True
    then show ?thesis using Black rb_erase_color_spec [OF f True h] by simp
  next
    case False
    then show ?thesis using Black erase_color_red [OF f _ rb_paint_black [OF h(1) False] h(2)] by simp
  qed
qed

lemma rbc_rename:
  "rbc (gs @ (d, c, a, L) # fs) h \<longleftrightarrow> rbc (gs @ (d, c, b, L) # fs) h"
  "top_black (gs @ (d, c, a, L) # fs) \<longleftrightarrow> top_black (gs @ (d, c, b, L) # fs)"
proof -
  show t: "top_black (gs @ (d, c, a, L) # fs) \<longleftrightarrow> top_black (gs @ (d, c, b, L) # fs)" for gs
    by (cases gs rule: top_black.cases) simp_all
  show "rbc (gs @ (d, c, a, L) # fs) h \<longleftrightarrow> rbc (gs @ (d, c, b, L) # fs) h"
  proof (induction gs arbitrary: h)
    case Nil
    show ?case by (cases c) simp_all
  next
    case (Cons f gs)
    obtain d' c' a' s where f: "f = (d', c', a', s)" by (cases f)
    show ?case using t [of gs] Cons by (cases c') (simp_all add: f)
  qed
qed

lemma erase_unlink:
  assumes T: "represents st T" "rbt T" and a: "nodes T = xs @ a # ys"
  obtains st' X fs c d x h col where "rb_erase st a = (if c = Black then raw_rb_erase_color st' (adr X) (up fs) else Some st')"
    "foc st' X fs" "rb (nd d Leaf (c, x) X) h" "rbc fs h" "c = Black \<or> top_black fs" "nodes (plug X fs) = xs @ ys"
proof -
  obtain l c r fs where t: "T = plug (nd True l (c, a) r) fs" using node_position [of a T True] a by auto
  have f: "foc st (nd True l (c, a) r) fs" using T(1) t by (simp add: represents_def foc_plug)
  obtain n where n: "rb_get st a = Some n" "chl True n = adr l" "chl False n = adr r"
    using foc_get [OF f] by (metis (full_types))
  have rep: "rep (cells st) a l" "rep (cells st) a r" using f by (simp_all add: foc_def)
  obtain us vs where uv: "\<And>t. nodes (plug t fs) = us @ nodes t @ vs" using nodes_plug by blast
  have "xs @ a # ys = (us @ nodes l) @ a # (nodes r @ vs)" using uv a t by (simp add: nd_def)
  then have xy: "xs = us @ nodes l" "ys = nodes r @ vs"
    using distinct_split [of xs a ys] represents_distinct [OF T(1)] a by auto
  obtain h where h: "rb (nd True l (c, a) r) h" "rbc fs h" "c = Black \<or> top_black fs" using rb_unplug [OF T(2) [unfolded t]] by auto
  have run: "rb_erase st a = do {
      (st, child, parent, color) \<leftarrow> (if l = Leaf then rb_erase_one st a (adr r)
        else if r = Leaf then rb_erase_one st a (adr l) else rb_erase_two st a);
      if color = RB_BLACK then raw_rb_erase_color st child parent else Some st }"
    using n rep [THEN adr_0] by (simp add: rb_erase_def chl_def cong: if_cong)
  show ?thesis
  proof (cases "l = Leaf \<or> r = Leaf")
    case True
    define d X where "d = (l = Leaf)" and "X = (if l = Leaf then r else l)"
    have e: "nd True l (c, a) r = nd d Leaf (c, a) X" using True by (auto simp: d_def X_def nd_def)
    obtain st' col where st': "rb_erase_one st a (adr X) = Some (st', adr X, up fs, col)" "foc st' X fs" "col = RB_BLACK \<longleftrightarrow> c = Black"
      by (rule erase_one_spec [OF f [unfolded e]])
    have "nodes (plug X fs) = xs @ ys" using uv xy True by (auto simp: X_def)
    moreover have "rb_erase st a = (if c = Black then raw_rb_erase_color st' (adr X) (up fs) else Some st')"
      using run st'(1,3) True by (auto simp: X_def)
    ultimately show ?thesis using that [of c st' X fs d a h] st'(2) h e by simp
  next
    case False
    then have LR: "l \<noteq> Leaf" "r \<noteq> Leaf" by simp_all
    obtain st' cs s C gs col where s: "r = plug (nd True Leaf (cs, s) C) gs" "\<forall>f \<in> set gs. fst f"
      "rb_erase_two st a = Some (st', adr C, up (gs @ (False, c, s, l) # fs), col)"
      "foc st' C (gs @ (False, c, s, l) # fs)" "col = RB_BLACK \<longleftrightarrow> cs = Black" by (rule erase_two_spec [OF f LR])
    let ?fs = "gs @ (False, c, s, l) # fs"
    have "T = plug (nd True Leaf (cs, s) C) (gs @ (False, c, a, l) # fs)" using t s(1) nd_flip [of True] by simp
    then obtain k where k: "rb (nd True Leaf (cs, s) C) k" "rbc ?fs k" "cs = Black \<or> top_black ?fs"
      using rb_unplug [of "nd True Leaf (cs, s) C" "gs @ (False, c, a, l) # fs"] T(2) rbc_rename [of gs False c a l fs] by auto
    obtain zs where zs: "\<And>t. nodes (plug t gs) = nodes t @ zs" using nds_along [of gs True] s(2) by (auto simp: nds_def)
    have "nodes (plug C ?fs) = xs @ ys" using uv xy s(1) zs by (simp add: nd_def)
    moreover have "rb_erase st a = (if cs = Black then raw_rb_erase_color st' (adr C) (up ?fs) else Some st')"
      using run s(3,5) LR by simp
    ultimately show ?thesis using that [of cs st' C ?fs True s k] s(4) k by simp
  qed
qed

lemma rb_erase_spec:
  assumes "represents st T" "rbt T" and "nodes T = xs @ a # ys"
  obtains st' T' where "rb_erase st a = Some st'" "represents st' T'" "rbt T'" "nodes T' = xs @ ys"
proof -
  obtain st' X fs c d x h col where e: "rb_erase st a = (if c = Black then raw_rb_erase_color st' (adr X) (up fs) else Some st')"
    "foc st' X fs" "rb (nd d Leaf (c, x) X) h" "rbc fs h" "c = Black \<or> top_black fs" "nodes (plug X fs) = xs @ ys"
    by (rule erase_unlink [OF assms])
  show ?thesis using erase_finish [OF e(2-5)] that unfolding e(1,6) rebalanced_def by auto
qed

section \<open>Replacing a node\<close>

lemma reparent_children:
  assumes l: "rep (cells st) a l" and r: "rep (cells st) a r" and D: "distinct (nodes l @ nodes r)" and b: "okaddr b"
  obtains st' where "do { st \<leftarrow> (if adr l \<noteq> 0 then rb_mod st (adr l) (rb_set_parent b) else Some st);
      if adr r \<noteq> 0 then rb_mod st (adr r) (rb_set_parent b) else Some st } = Some st'"
    "rep (cells st') b l" "rep (cells st') b r" "rb_root st' = rb_root st"
    "\<And>x. x \<notin> set (nodes l) \<union> set (nodes r) \<Longrightarrow> cells st' x = cells st x"
proof -
  have b3: "b AND 3 = 0" and dl: "distinct (nodes l)" and dr: "distinct (nodes r)" using b D by (simp_all add: okaddr_def)
  obtain st1 where st1: "(if adr l \<noteq> 0 then rb_mod st (adr l) (rb_set_parent b) else Some st) = Some st1"
    "rep (cells st1) b l" "\<And>x. x \<notin> set (nodes l) \<Longrightarrow> cells st1 x = cells st x" "rb_root st1 = rb_root st"
    by (rule reparent [OF l dl b3]) blast
  have "cells st1 x = cells st x" if "x \<in> set (nodes r)" for x using that D by (intro st1(3)) auto
  from rep_cong [of r, OF this] have r1: "rep (cells st1) a r" using r by simp
  obtain st2 where st2: "(if adr r \<noteq> 0 then rb_mod st1 (adr r) (rb_set_parent b) else Some st1) = Some st2"
    "rep (cells st2) b r" "\<And>x. x \<notin> set (nodes r) \<Longrightarrow> cells st2 x = cells st1 x" "rb_root st2 = rb_root st1"
    by (rule reparent [OF r1 dr b3]) blast
  have "cells st2 x = cells st1 x" if "x \<in> set (nodes l)" for x using that D by (intro st2(3)) auto
  from rep_cong [of l, OF this] have "rep (cells st2) b l" using st1(2) by simp
  then show ?thesis using that [of st2] st1 st2 by simp
qed

lemma replace_position:
  assumes f: "foc st (nd True l (c, a) r) fs" and b: "okaddr b" "rb_mem st b \<noteq> None" "b \<notin> set (nodes (plug (nd True l (c, a) r) fs))"
  obtains st' where "rb_replace_node st a b = Some st'" "foc st' (nd True l (c, b) r) fs"
proof -
  have V: "cells st a = Some (up fs, c, kids True (adr l) (adr r))" and lr: "rep (cells st) a l" "rep (cells st) a r"
    and rc: "repc (cells st) (rb_root st) a fs" and a: "a \<noteq> 0" using f by (auto simp: foc_def okaddr_def)
  have D: "distinct (a # b # nodes l @ nodes r @ cnodes fs)" using f b(3) by (auto simp: foc_def set_nodes_plug)
  from V obtain v where v: "rb_get st a = Some v" "rb_parent v = up fs" by (rule cellsD)
  obtain st1 where st1: "relink True st (up fs) a b = Some st1" "cells st1 = relinked fs b (cells st)"
    "rb_root st1 = (if fs = [] then b else rb_root st)" by (rule relink_spec [OF rc a]) (use D in auto)
  have rc1: "repc (cells st1) (rb_root st1) b fs" unfolding st1(2,3) by (rule repc_relinked [OF rc]) (use D in auto)
  have same1: "cells st1 x = cells st x" if "x \<notin> set (cnodes fs)" for x using that st1(2) by (simp add: relinked_other)
  have "set (nodes l) \<inter> set (cnodes fs) = {}" "set (nodes r) \<inter> set (cnodes fs) = {}" and Dlr: "distinct (nodes l @ nodes r)" using D by auto
  then have lr1: "rep (cells st1) a l" "rep (cells st1) a r" unfolding st1(2) using lr by (simp_all add: rep_relinked)
  have "cells st1 a = Some (up fs, c, kids True (adr l) (adr r))" using V same1 [of a] D by simp
  then obtain v1 where v1: "rb_get st1 a = Some v1" "rb_left v1 = adr l" "rb_right v1 = adr r" by (rule cellsD) (simp add: kids_def)
  obtain st2 where st2: "do { st \<leftarrow> (if adr l \<noteq> 0 then rb_mod st1 (adr l) (rb_set_parent b) else Some st1);
      if adr r \<noteq> 0 then rb_mod st (adr r) (rb_set_parent b) else Some st } = Some st2"
    "rep (cells st2) b l" "rep (cells st2) b r" "rb_root st2 = rb_root st1"
    "\<And>x. x \<notin> set (nodes l) \<union> set (nodes r) \<Longrightarrow> cells st2 x = cells st1 x"
    by (rule reparent_children [OF lr1 Dlr b(1)]) blast
  have "cells st2 x = cells st1 x" if "x \<in> set (cnodes fs)" for x using that D by (intro st2(5)) auto
  from repc_cong [of fs, OF this] have rc2: "repc (cells st2) (rb_root st2) b fs" using rc1 st2(4) by simp
  have "cells st2 a = cells st a" "cells st2 b = cells st b" using same1 st2(5) D by auto
  moreover have "cells st b \<noteq> None" using b(1,2) by (simp add: cells_def rb_get_def okaddr_def)
  ultimately have "cells st2 b \<noteq> None" and V2: "cells st2 a = Some (up fs, c, kids True (adr l) (adr r))" using V by simp_all
  then obtain w where w: "cells st2 b = Some w" by blast
  obtain v2 where v2: "rb_get st2 a = Some v2" "view v2 = (up fs, c, kids True (adr l) (adr r))" using V2 by (auto simp: cells_def)
  obtain st3 where st3: "rb_mod st2 b (\<lambda>_. v2) = Some st3" "cells st3 = (cells st2)(b \<mapsto> (up fs, c, kids True (adr l) (adr r)))"
    "rb_root st3 = rb_root st2" using rb_mod_cells [OF w, of "\<lambda>_. v2"] v2(2) by blast
  have "foc st3 (nd True l (c, b) r) fs" using st3(2,3) st2(2,3) rc2 b(1) D by (auto simp: foc_def)
  moreover have "rb_replace_node st a b = Some st3"
    using v st1(1) v1 st2(1) v2(1) st3(1) by (auto simp: rb_replace_node_def rb_relink_eq bind_eq_Some_conv simp del: not_None_eq)
  ultimately show ?thesis using that by blast
qed

lemma rb_replace_spec:
  assumes T: "represents st T" "rbt T" "nodes T = xs @ a # ys" and b: "okaddr b" "rb_mem st b \<noteq> None" "b \<notin> set (nodes T)"
  obtains st' T' where "rb_replace_node st a b = Some st'" "represents st' T'" "rbt T'" "nodes T' = xs @ b # ys"
proof -
  obtain l c r fs where t: "T = plug (nd True l (c, a) r) fs" using node_position [of a T True] T(3) by auto
  have f: "foc st (nd True l (c, a) r) fs" using T(1) t by (simp add: represents_def foc_plug)
  obtain st' where st': "rb_replace_node st a b = Some st'" "foc st' (nd True l (c, b) r) fs"
    by (rule replace_position [OF f b(1,2) b(3) [unfolded t]])
  obtain us vs where uv: "\<And>t. nodes (plug t fs) = us @ nodes t @ vs" using nodes_plug by blast
  have "xs @ a # ys = (us @ nodes l) @ a # (nodes r @ vs)" using uv T(3) t by (simp add: nd_def)
  then have "xs = us @ nodes l" "ys = nodes r @ vs"
    using distinct_split [of xs a ys] represents_distinct [OF T(1)] T(3) by auto
  then have "nodes (plug (nd True l (c, b) r) fs) = xs @ b # ys" using uv by (simp add: nd_def)
  moreover obtain h where "rb (nd True l (c, a) r) h" "rbc fs h" "c = Black \<or> top_black fs" using rb_unplug [OF T(2) [unfolded t]] by auto
  then have "rb (nd True l (c, b) r) h" "rbc fs h" "c = Black \<or> top_black fs" by (cases c; simp)+
  then have "rbt (plug (nd True l (c, b) r) fs)" using rb_plug [of "nd True l (c, b) r" h fs] by (cases "fs = []") (auto simp: rbt_def)
  ultimately show ?thesis using that [of st' "plug (nd True l (c, b) r) fs"] st' by (simp add: represents_def foc_plug)
qed

end
