(* ===== verification/Rbtree_Ops.thy ===== *)
theory Rbtree_Ops
  imports Rbtree_Remove
begin

text \<open>
  The contract of the operations of \<open>lib/rbtree.c\<close>: the tree is a list of nodes in order, an operation changes the list
  at one place and keeps the tree balanced, and the traversal functions follow the list.  A caller finds the place of a
  new node by descending the tree; \<open>gap\<close> says what it has to find.
\<close>

section \<open>Where a new node may be linked\<close>

fun gap :: "rb_state \<Rightarrow> u64 list \<Rightarrow> u64 list \<Rightarrow> u64 \<Rightarrow> rb_link \<Rightarrow> bool" where
  "gap st xs ys p Link_root \<longleftrightarrow> p = 0 \<and> xs = [] \<and> ys = []"
| "gap st xs ys p (Link_left q) \<longleftrightarrow> p = q \<and> (\<exists>zs. ys = q # zs) \<and> map_option rb_left (rb_get st q) = Some 0"
| "gap st xs ys p (Link_right q) \<longleftrightarrow> p = q \<and> (\<exists>zs. xs = zs @ [q]) \<and> map_option rb_right (rb_get st q) = Some 0"

lemma nodes_Leaf: "nodes t = [] \<longleftrightarrow> t = Leaf"
  by (cases t rule: adr.cases) simp_all

text \<open>A subtree's place in the list of nodes.\<close>

lemma split_position:
  assumes T: "represents st T" and n: "nodes T = xs @ a # ys"
  obtains l c r fs us vs where "T = plug (nd True l (c, a) r) fs" "foc st (nd True l (c, a) r) fs"
    "\<forall>t. nodes (plug t fs) = us @ nodes t @ vs" "xs = us @ nodes l" "ys = nodes r @ vs"
proof -
  obtain l c r fs where t: "T = plug (nd True l (c, a) r) fs" using node_position [of a T True] n by auto
  obtain us vs where uv: "\<forall>t. nodes (plug t fs) = us @ nodes t @ vs" using nodes_plug by blast
  have "xs @ a # ys = (us @ nodes l) @ a # (nodes r @ vs)" using uv n t by (simp add: nd_def)
  then have "xs = us @ nodes l" "ys = nodes r @ vs"
    using distinct_split [of xs a ys] represents_distinct [OF T] n by auto
  then show ?thesis using that [OF t _ uv] T t by (simp add: represents_def foc_plug)
qed

lemma gap_position:
  assumes T: "represents st T" and n: "nodes T = xs @ ys" and g: "gap st xs ys p lnk"
  obtains fs where "T = plug Leaf fs" "foc st Leaf fs" "up fs = p" "link_of fs = lnk"
    "\<forall>t. nodes (plug t fs) = xs @ nodes t @ ys"
proof (cases lnk)
  case Link_root
  then have "T = Leaf" "p = 0" "xs = []" "ys = []" using g n by (simp_all add: nodes_Leaf)
  then show ?thesis using that [of "[]"] Link_root T by (simp add: represents_def)
next
  case (Link_left q)
  then obtain zs where q: "p = q" "ys = q # zs" "map_option rb_left (rb_get st q) = Some 0" using g by auto
  obtain l c r fs us vs where t: "T = plug (nd True l (c, q) r) fs" "foc st (nd True l (c, q) r) fs"
    "\<forall>t. nodes (plug t fs) = us @ nodes t @ vs" "xs = us @ nodes l" "zs = nodes r @ vs"
    by (rule split_position [OF T n [unfolded q(2)]])
  obtain k where "rb_get st q = Some k" "chl True k = adr l" by (rule foc_get [OF t(2)])
  then have l: "l = Leaf" using q(3) t(2) adr_0 by (auto simp: chl_def foc_def)
  have "foc st Leaf ((True, c, q, r) # fs)" using t(2) l by (simp add: foc_move)
  then show ?thesis using that [of "(True, c, q, r) # fs"] t l q(1,2) Link_left by (simp add: nd_def)
next
  case (Link_right q)
  then obtain zs where q: "p = q" "xs = zs @ [q]" "map_option rb_right (rb_get st q) = Some 0" using g by auto
  have n': "nodes T = zs @ q # ys" using n q(2) by simp
  obtain l c r fs us vs where t: "T = plug (nd True l (c, q) r) fs" "foc st (nd True l (c, q) r) fs"
    "\<forall>t. nodes (plug t fs) = us @ nodes t @ vs" "zs = us @ nodes l" "ys = nodes r @ vs"
    by (rule split_position [OF T n'])
  obtain k where "rb_get st q = Some k" "chl False k = adr r" using foc_get [OF t(2)] by auto
  then have r: "r = Leaf" using q(3) t(2) adr_0 by (auto simp: chl_def foc_def)
  have "foc st Leaf ((False, c, q, l) # fs)" using t(2) r foc_move [of st False Leaf c q l fs] nd_flip [of True] by simp
  then show ?thesis using that [of "(False, c, q, l) # fs"] t r q(1,2) Link_right by (simp add: nd_def)
qed

text \<open>Linking a new node and rebalancing.\<close>

lemma insert_spec:
  assumes T: "represents st T" "rbt T" "nodes T = xs @ ys" and g: "gap st xs ys p lnk"
    and n: "okaddr n" "rb_mem st n \<noteq> None" "n \<notin> set (nodes T)"
  obtains st1 st2 T' where "rb_link_node st n p lnk = Some st1" "rb_insert_color st1 n = Some st2"
    "represents st2 T'" "rbt T'" "nodes T' = xs @ n # ys"
proof -
  obtain fs where fs: "T = plug Leaf fs" "foc st Leaf fs" "up fs = p" "link_of fs = lnk"
    "\<forall>t. nodes (plug t fs) = xs @ nodes t @ ys" by (rule gap_position [OF T(1,3) g])
  have "n \<notin> set (cnodes fs)" using n(3) fs(1) by (simp add: set_nodes_plug)
  then obtain st1 where st1: "rb_link_node st n p lnk = Some st1" "foc st1 (nd True Leaf (Red, n) Leaf) fs"
    using rb_link_node_spec [OF fs(2) n(1,2)] fs(3,4) by metis
  have "rbc fs 0" using rb_unplug [OF T(2) [unfolded fs(1)]] by auto
  then obtain st2 T' where "rb_insert_color st1 n = Some st2" "represents st2 T'" "rbt T'"
    "nodes T' = nodes (plug (nd True Leaf (Red, n) Leaf) fs)" using rb_insert_color_spec [OF st1(2)] by blast
  then show ?thesis using that st1(1) fs(5) by (simp add: nd_def)
qed

section \<open>Balance\<close>

lemma rb_height: "rb t h \<Longrightarrow> height t \<le> 2 * h + (if blk t then 0 else 1)"
proof (induction t h rule: rb.induct)
  case (2 l a r h)
  then show ?case by simp
next
  case (3 l a r h)
  then obtain k where "h = Suc k" "rb l k" "rb r k" by auto
  then show ?case using "3.IH"(1) [of k] "3.IH"(2) [of k] by (auto split: if_splits)
qed simp

lemma rb_size: "rb t h \<Longrightarrow> 2 ^ h \<le> size1 t"
proof (induction t h rule: rb.induct)
  case (3 l a r h)
  then obtain k where "h = Suc k" "rb l k" "rb r k" by auto
  then show ?case using "3.IH"(1) [of k] "3.IH"(2) [of k] by simp
qed (auto simp: size1_size)

lemma size_nodes: "size t = length (nodes t)"
  by (induction t rule: nodes.induct) simp_all

lemma rbt_height: "rbt T \<Longrightarrow> 2 ^ height T \<le> (length (nodes T) + 1)\<^sup>2"
proof -
  assume "rbt T"
  then obtain h where h: "rb T h" "blk T" by (auto simp: rbt_def)
  have "height T \<le> 2 * h" using rb_height [OF h(1)] h(2) by simp
  then have "(2::nat) ^ height T \<le> 2 ^ (2 * h)" by (rule power_increasing) simp
  also have "\<dots> = (2 ^ h)\<^sup>2" by (simp add: power_mult mult.commute [of 2])
  also have "\<dots> \<le> (length (nodes T) + 1)\<^sup>2"
    using rb_size [OF h(1)] by (intro power_mono) (simp_all add: size1_size size_nodes)
  finally show ?thesis .
qed

section \<open>Every history of calls\<close>

text \<open>
  The states that callers produce from an empty root by linking new nodes, erasing and replacing, with the list of the
  linked nodes; between the calls, memory that is not linked may change in any way.
\<close>

inductive rb_history :: "rb_state \<Rightarrow> u64 list \<Rightarrow> bool" where
  empty: "rb_root st = 0 \<Longrightarrow> rb_history st []"
| linked: "rb_history st (xs @ ys) \<Longrightarrow> gap st xs ys p lnk \<Longrightarrow> okaddr n \<Longrightarrow> rb_mem st n \<noteq> None \<Longrightarrow> n \<notin> set (xs @ ys)
    \<Longrightarrow> rb_link_node st n p lnk = Some st1 \<Longrightarrow> rb_insert_color st1 n = Some st2 \<Longrightarrow> rb_history st2 (xs @ n # ys)"
| erased: "rb_history st (xs @ n # ys) \<Longrightarrow> rb_erase st n = Some st2 \<Longrightarrow> rb_history st2 (xs @ ys)"
| replaced: "rb_history st (xs @ n # ys) \<Longrightarrow> okaddr b \<Longrightarrow> rb_mem st b \<noteq> None \<Longrightarrow> b \<notin> set (xs @ n # ys)
    \<Longrightarrow> rb_replace_node st n b = Some st2 \<Longrightarrow> rb_history st2 (xs @ b # ys)"
| other: "rb_history st xs \<Longrightarrow> rb_root st' = rb_root st \<Longrightarrow> (\<And>a. a \<in> set xs \<Longrightarrow> rb_mem st' a = rb_mem st a)
    \<Longrightarrow> rb_history st' xs"

lemma history_represents: "rb_history st xs \<Longrightarrow> \<exists>T. represents st T \<and> rbt T \<and> nodes T = xs"
proof (induction rule: rb_history.induct)
  case (empty st)
  then show ?case by (intro exI [of _ Leaf]) (simp add: represents_def foc_def rbt_def)
next
  case (linked st xs ys p lnk n st1 st2)
  then obtain T where T: "represents st T" "rbt T" "nodes T = xs @ ys" by blast
  obtain s1 s2 T' where "rb_link_node st n p lnk = Some s1" "rb_insert_color s1 n = Some s2"
    "represents s2 T'" "rbt T'" "nodes T' = xs @ n # ys"
    by (rule insert_spec [OF T linked.hyps(2-4)]) (use linked.hyps(5) T(3) in auto)
  then show ?case using linked.hyps(6,7) by auto
next
  case (erased st xs n ys st2)
  then obtain T where T: "represents st T" "rbt T" "nodes T = xs @ n # ys" by blast
  obtain s2 T' where "rb_erase st n = Some s2" "represents s2 T'" "rbt T'" "nodes T' = xs @ ys" by (rule rb_erase_spec [OF T])
  then show ?case using erased.hyps(2) by auto
next
  case (replaced st xs n ys b st2)
  then obtain T where T: "represents st T" "rbt T" "nodes T = xs @ n # ys" by blast
  obtain s2 T' where "rb_replace_node st n b = Some s2" "represents s2 T'" "rbt T'" "nodes T' = xs @ b # ys"
    by (rule rb_replace_spec [OF T replaced.hyps(2,3)]) (use replaced.hyps(4) T(3) in auto)
  then show ?case using replaced.hyps(5) by auto
next
  case (other st xs st')
  then obtain T where T: "represents st T" "rbt T" "nodes T = xs" by blast
  have "cells st' a = cells st a" if "a \<in> set (nodes T)" for a using that other.hyps(3) T(3) by (simp add: cells_def rb_get_def)
  from rep_cong [of T, OF this] have "represents st' T" using T(1) other.hyps(2) by (simp add: represents_def foc_def)
  then show ?case using T(2,3) by blast
qed

section \<open>The contract\<close>

text \<open>A concrete memory: a tree of three nodes and an unlinked node.\<close>

definition demo :: rb_state where
  "demo = \<lparr>rb_mem = [8 \<mapsto> \<lparr>rb_parent_color = 1, rb_right = 12, rb_left = 4\<rparr>,
                  4 \<mapsto> \<lparr>rb_parent_color = 8, rb_right = 0, rb_left = 0\<rparr>,
                  12 \<mapsto> \<lparr>rb_parent_color = 8, rb_right = 0, rb_left = 0\<rparr>,
                  16 \<mapsto> \<lparr>rb_parent_color = 16, rb_right = 0, rb_left = 0\<rparr>], rb_root = 8\<rparr>"

definition demo_tree :: rbtree where
  "demo_tree = Node (Node Leaf (Red, 4) Leaf) (Black, 8) (Node Leaf (Red, 12) Leaf)"

lemma demo_ok: "represents demo demo_tree" "rbt demo_tree" "nodes demo_tree = [4, 8, 12]" "okaddr 16" "rb_mem demo 16 \<noteq> None"
  "gap demo [4, 8, 12] [] 12 (Link_right 12)"
  by (auto simp: demo_def demo_tree_def represents_def foc_def rbt_def okaddr_def cells_def view_def rb_get_def kids_def
      rb_parent_def rb_is_red_def rb_color_def fun_eq_iff)

text \<open>
  C6. \<open>rb_link_node\<close> followed by \<open>rb_insert_color\<close>: when the memory represents a red-black tree with the nodes
  \<open>xs @ ys\<close> in order and the caller links a new node at the place between \<open>xs\<close> and \<open>ys\<close>, no access faults, and the
  resulting memory represents a red-black tree (black root, no red node with a red child, equal black heights) with the
  nodes \<open>xs @ n # ys\<close>, whose height is logarithmic.
\<close>

theorem rb_insert_ok:
  assumes "represents st T" and "rbt T" and "nodes T = xs @ ys" and "gap st xs ys p lnk"
    and "okaddr n" and "rb_mem st n \<noteq> None" and "n \<notin> set (nodes T)"
  shows "\<exists>st1 st2 T'. rb_link_node st n p lnk = Some st1 \<and> rb_insert_color st1 n = Some st2 \<and>
    represents st2 T' \<and> rbt T' \<and> nodes T' = xs @ n # ys \<and> 2 ^ height T' \<le> (length (nodes T') + 1)\<^sup>2"
  using insert_spec [OF assms] rbt_height by metis

theorem rb_insert_ok_witness:
  "\<exists>st1 st2 T'. rb_link_node demo 16 12 (Link_right 12) = Some st1 \<and> rb_insert_color st1 16 = Some st2 \<and>
    represents st2 T' \<and> rbt T' \<and> nodes T' = [4, 8, 12] @ [16] \<and> 2 ^ height T' \<le> (length (nodes T') + 1)\<^sup>2"
  by (rule rb_insert_ok [OF demo_ok(1,2) _ demo_ok(6,4,5)]) (simp_all add: demo_ok(3))

text \<open>
  C2. \<open>rb_erase\<close> of a node of a red-black tree, with none, one or two children: no access faults, and the resulting
  memory represents a red-black tree with the same nodes in the same order, without the erased one.
\<close>

theorem rb_erase_ok:
  assumes "represents st T" and "rbt T" and "nodes T = xs @ n # ys"
  shows "\<exists>st' T'. rb_erase st n = Some st' \<and> represents st' T' \<and> rbt T' \<and> nodes T' = xs @ ys \<and>
    2 ^ height T' \<le> (length (nodes T') + 1)\<^sup>2"
  using rb_erase_spec [OF assms] rbt_height by metis

theorem rb_erase_ok_witness:
  "\<exists>st' T'. rb_erase demo 8 = Some st' \<and> represents st' T' \<and> rbt T' \<and> nodes T' = [4] @ [12] \<and>
    2 ^ height T' \<le> (length (nodes T') + 1)\<^sup>2"
  by (rule rb_erase_ok [OF demo_ok(1,2)]) (simp add: demo_ok(3))

text \<open>
  C19. The traversal functions follow the list of nodes: \<open>rb_first\<close> and \<open>rb_last\<close> return its ends, \<open>rb_next\<close> and \<open>rb_prev\<close>
  the neighbours of a node, and each of them the null pointer where the list ends.
\<close>

theorem rb_traversal_ok:
  assumes "represents st T"
  shows "rb_first st = Some (first_of (nodes T)) \<and> rb_last st = Some (first_of (rev (nodes T))) \<and>
    (\<forall>xs a ys. nodes T = xs @ a # ys \<longrightarrow> rb_next st a = Some (first_of ys) \<and> rb_prev st a = Some (first_of (rev xs)))"
proof (intro conjI allI impI)
  show "rb_first st = Some (first_of (nodes T))" using rb_end_spec [OF assms, of True] by (simp add: nds_def)
  show "rb_last st = Some (first_of (rev (nodes T)))" using rb_end_spec [OF assms, of False] by (simp add: nds_def)
  fix xs a ys assume n: "nodes T = xs @ a # ys"
  show "rb_next st a = Some (first_of ys)" using rb_step_spec [OF assms, of True xs a ys] n by (simp add: nds_def rb_step_def)
  show "rb_prev st a = Some (first_of (rev xs))"
    using rb_step_spec [OF assms, of False "rev ys" a "rev xs"] n by (simp add: nds_def rb_step_def)
qed

theorem rb_traversal_ok_witness: "rb_first demo = Some 4 \<and> rb_next demo 4 = Some 8 \<and> rb_next demo 12 = Some 0 \<and> rb_prev demo 12 = Some 8"
proof -
  note t = rb_traversal_ok [OF demo_ok(1), unfolded demo_ok(3)]
  have "rb_next demo 4 = Some (first_of [8, 12])" using t by (metis append_Nil)
  moreover have "rb_next demo 12 = Some (first_of []) \<and> rb_prev demo 12 = Some (first_of (rev [4, 8]))"
    using t by (metis append_Cons append_Nil)
  ultimately show ?thesis using t by (simp add: first_of_def)
qed

text \<open>
  \<open>rb_replace_node\<close> puts an unlinked node in the place of a linked one: no access faults, and the tree has the same
  list of nodes with the one exchanged for the other, still balanced.
\<close>

theorem rb_replace_ok:
  assumes "represents st T" and "rbt T" and "nodes T = xs @ n # ys" and "okaddr b" and "rb_mem st b \<noteq> None" and "b \<notin> set (nodes T)"
  shows "\<exists>st' T'. rb_replace_node st n b = Some st' \<and> represents st' T' \<and> rbt T' \<and> nodes T' = xs @ b # ys"
  using rb_replace_spec [OF assms] by metis

theorem rb_replace_ok_witness:
  "\<exists>st' T'. rb_replace_node demo 8 16 = Some st' \<and> represents st' T' \<and> rbt T' \<and> nodes T' = [4] @ 16 # [12]"
  by (rule rb_replace_ok [OF demo_ok(1,2) _ demo_ok(4,5)]) (simp_all add: demo_ok(3))

text \<open>
  C18. Every history of calls: from an empty root, whatever nodes callers link at their places, erase and replace, and
  whatever happens to unlinked memory in between, the memory represents a red-black tree of the linked nodes of
  logarithmic height, \<open>rb_first\<close> and \<open>rb_last\<close> give its ends, and no erasure of a linked node faults.
\<close>

theorem rb_history_ok:
  assumes "rb_history st xs"
  shows "(\<exists>T. represents st T \<and> rbt T \<and> nodes T = xs \<and> 2 ^ height T \<le> (length xs + 1)\<^sup>2) \<and> distinct xs \<and>
    rb_first st = Some (first_of xs) \<and> rb_last st = Some (first_of (rev xs)) \<and> (\<forall>n \<in> set xs. rb_erase st n \<noteq> None)"
proof -
  obtain T where T: "represents st T" "rbt T" "nodes T = xs" using history_represents [OF assms] by blast
  have "rb_erase st n \<noteq> None" if n: "n \<in> set xs" for n
  proof -
    obtain us vs where "nodes T = us @ n # vs" using split_list [OF n] T(3) by blast
    then show ?thesis using rb_erase_spec [OF T(1,2)] by blast
  qed
  then show ?thesis
    using T rbt_height [OF T(2)] represents_distinct [OF T(1)] rb_end_spec [OF T(1), of True] rb_end_spec [OF T(1), of False]
    by (auto simp: nds_def)
qed

theorem rb_history_ok_witness: "\<exists>st. rb_history st [8] \<and> rb_first st = Some 8 \<and> rb_erase st 8 \<noteq> None"
proof -
  define st where "st = demo\<lparr>rb_root := 0\<rparr>"
  have st: "represents st Leaf" "rbt Leaf" "rb_root st = 0" "rb_mem st 8 \<noteq> None" "okaddr 8"
    by (simp_all add: st_def demo_def represents_def foc_def rbt_def okaddr_def)
  obtain st1 st2 where s: "rb_link_node st 8 0 Link_root = Some st1" "rb_insert_color st1 8 = Some st2"
    by (rule insert_spec [OF st(1,2) _ _ st(5,4), of "[]" "[]" 0 Link_root]) simp_all
  have "rb_history st2 ([] @ 8 # [])"
    using rb_history.linked [OF _ _ st(5,4) _ s, of "[]" "[]"] rb_history.empty [OF st(3)] by simp
  then show ?thesis using rb_history_ok [of st2 "[8]"] by (auto simp: first_of_def)
qed

end
