(* ===== verification/Calendar.thy ===== *)
theory Calendar
  imports Kernel_Prelude "HOL-Library.Signed_Division"
begin

text \<open>
  \<open>time_to_tm\<close> of \<open>kernel/time/timeconv.c\<close> and \<open>mktime\<close> of \<open>kernel/time.c\<close>: seconds since 1970 to a date of the
  Gregorian calendar and back.  The signed \<open>long\<close>s of \<open>time_to_tm\<close> are integers, and an operation whose result is
  not a 64-bit number is a fault; division and remainder truncate, as in C.  \<open>mktime\<close> computes in unsigned words that
  wrap around.
\<close>

section \<open>Model\<close>

definition ck :: "int \<Rightarrow> int option" where
  "ck x = (if - (2 ^ 63) \<le> x \<and> x < 2 ^ 63 then Some x else None)"

definition raw_isleap :: "int \<Rightarrow> bool" where
  "raw_isleap year \<longleftrightarrow> year smod 4 = 0 \<and> (year smod 100 \<noteq> 0 \<or> year smod 400 = 0)"

definition math_div :: "int \<Rightarrow> int \<Rightarrow> int" where
  "math_div a b = a sdiv b - (if a smod b < 0 then 1 else 0)"

definition leaps_between :: "int \<Rightarrow> int \<Rightarrow> int option" where
  "leaps_between y1 y2 = do {
     a \<leftarrow> ck (y1 - 1);
     leaps1 \<leftarrow> ck (math_div a 4 - math_div a 100 + math_div a 400);
     b \<leftarrow> ck (y2 - 1);
     leaps2 \<leftarrow> ck (math_div b 4 - math_div b 100 + math_div b 400);
     ck (leaps2 - leaps1) }"

definition raw_mon_yday :: "bool \<Rightarrow> int list" where
  "raw_mon_yday leap =
     (if leap then [0, 31, 60, 91, 121, 152, 182, 213, 244, 274, 305, 335, 366]
      else [0, 31, 59, 90, 120, 151, 181, 212, 243, 273, 304, 334, 365])"

definition SECS_PER_HOUR :: int where "SECS_PER_HOUR = 60 * 60"
definition SECS_PER_DAY :: int where "SECS_PER_DAY = SECS_PER_HOUR * 24"

record tm =
  tm_sec :: int
  tm_min :: int
  tm_hour :: int
  tm_mday :: int
  tm_mon :: int
  tm_year :: int
  tm_wday :: int
  tm_yday :: int

partial_function (option) rem_up :: "int \<Rightarrow> int \<Rightarrow> (int \<times> int) option" where
  "rem_up rem days =
     (if rem < 0 then do { rem \<leftarrow> ck (rem + SECS_PER_DAY); days \<leftarrow> ck (days - 1); rem_up rem days } else Some (rem, days))"

partial_function (option) rem_down :: "int \<Rightarrow> int \<Rightarrow> (int \<times> int) option" where
  "rem_down rem days =
     (if rem \<ge> SECS_PER_DAY then do { rem \<leftarrow> ck (rem - SECS_PER_DAY); days \<leftarrow> ck (days + 1); rem_down rem days }
      else Some (rem, days))"

partial_function (option) year_loop :: "int \<Rightarrow> int \<Rightarrow> (int \<times> int) option" where
  "year_loop days y =
     (if days < 0 \<or> days \<ge> (if raw_isleap y then 366 else 365)
      then do {
        yg \<leftarrow> ck (y + math_div days 365);
        n \<leftarrow> ck (yg - y);
        n \<leftarrow> ck (n * 365);
        leaps \<leftarrow> leaps_between y yg;
        n \<leftarrow> ck (n + leaps);
        days \<leftarrow> ck (days - n);
        year_loop days yg }
      else Some (days, y))"

text \<open>The scan for the month; below index 0 the table would be read out of bounds.\<close>

fun month_loop :: "int list \<Rightarrow> int \<Rightarrow> nat \<Rightarrow> nat option" where
  "month_loop ip days y = do {
     v \<leftarrow> aget ip y;
     if days < v then (case y of 0 \<Rightarrow> None | Suc y' \<Rightarrow> month_loop ip days y') else Some y }"

definition time_to_tm :: "int \<Rightarrow> int \<Rightarrow> tm option" where
  "time_to_tm totalsecs offset = do {
     let days = totalsecs sdiv SECS_PER_DAY;
     rem \<leftarrow> ck (totalsecs smod SECS_PER_DAY + offset);
     (rem, days) \<leftarrow> rem_up rem days;
     (rem, days) \<leftarrow> rem_down rem days;
     let hour = rem sdiv SECS_PER_HOUR;
     let rem = rem smod SECS_PER_HOUR;
     d4 \<leftarrow> ck (4 + days);
     let wday = d4 smod 7;
     let wday = (if wday < 0 then wday + 7 else wday);
     (days, y) \<leftarrow> year_loop days 1970;
     year \<leftarrow> ck (y - 1900);
     let ip = raw_mon_yday (raw_isleap y);
     mon \<leftarrow> month_loop ip days 11;
     v \<leftarrow> aget ip mon;
     Some \<lparr>tm_sec = rem smod 60, tm_min = rem sdiv 60, tm_hour = hour, tm_mday = days - v + 1, tm_mon = int mon,
       tm_year = year, tm_wday = wday, tm_yday = days\<rparr> }"

text \<open>Unsigned: the sums of the divisions in 32 bits, the rest in 64.\<close>

definition mktime :: "u32 \<Rightarrow> u32 \<Rightarrow> u32 \<Rightarrow> u32 \<Rightarrow> u32 \<Rightarrow> u32 \<Rightarrow> u64" where
  "mktime year0 mon0 day hour minute sec =
     (let mon = mon0 - 2;
          (mon, year) = (if sint mon \<le> 0 then (mon + 12, year0 - 1) else (mon, year0))
      in (((ucast (year div 4 - year div 100 + year div 400 + 367 * mon div 12 + day) + ucast (year * 365) - 719499) * 24
           + ucast hour) * 60 + ucast minute) * 60 + ucast sec)"

section \<open>The calendar\<close>

text \<open>The reference: the length of the months, the day after a date and the day before it.\<close>

type_synonym date = "int \<times> int \<times> int"

definition leap :: "int \<Rightarrow> bool" where
  "leap y \<longleftrightarrow> 4 dvd y \<and> (\<not> 100 dvd y \<or> 400 dvd y)"

definition month_len :: "int \<Rightarrow> int \<Rightarrow> int" where
  "month_len y m = (if m = 2 then (if leap y then 29 else 28) else if m \<in> {4, 6, 9, 11} then 30 else 31)"

definition valid_date :: "date \<Rightarrow> bool" where
  "valid_date = (\<lambda>(y, m, d). 1 \<le> m \<and> m \<le> 12 \<and> 1 \<le> d \<and> d \<le> month_len y m)"

definition tomorrow :: "date \<Rightarrow> date" where
  "tomorrow = (\<lambda>(y, m, d). if d < month_len y m then (y, m, d + 1) else if m < 12 then (y, m + 1, 1) else (y + 1, 1, 1))"

definition yesterday :: "date \<Rightarrow> date" where
  "yesterday = (\<lambda>(y, m, d). if 1 < d then (y, m, d - 1) else if 1 < m then (y, m - 1, month_len y (m - 1)) else (y - 1, 12, 31))"

text \<open>The date of day \<open>n\<close>, where day 0 is 1 January 1970.\<close>

definition civil :: "int \<Rightarrow> date" where
  "civil n = (if 0 \<le> n then (tomorrow ^^ nat n) (1970, 1, 1) else (yesterday ^^ nat (- n)) (1970, 1, 1))"

text \<open>Numbering the days.\<close>

definition leaps :: "int \<Rightarrow> int" where
  "leaps y = (y - 1) div 4 - (y - 1) div 100 + (y - 1) div 400"

definition year_start :: "int \<Rightarrow> int" where
  "year_start y = 365 * (y - 1970) + leaps y - leaps 1970"

definition year_len :: "int \<Rightarrow> int" where
  "year_len y = (if leap y then 366 else 365)"

definition month_start :: "int \<Rightarrow> int \<Rightarrow> int" where
  "month_start y m = (\<Sum>i \<in> {1..<m}. month_len y i)"

definition day_number :: "date \<Rightarrow> int" where
  "day_number = (\<lambda>(y, m, d). year_start y + month_start y m + d - 1)"

lemma div_pred: "0 < k \<Longrightarrow> y div k - (y - 1) div k = (if k dvd y then 1 else 0)" for y k :: int
proof -
  assume k: "0 < k"
  define q r where "q = y div k" and "r = y mod k"
  have y: "y = q * k + r" "0 \<le> r" "r < k" using k by (simp_all add: q_def r_def)
  show ?thesis
  proof (cases "r = 0")
    case True
    then have "(y - 1) div k = q - 1" using k y by (intro int_div_pos_eq [of _ _ _ "k - 1"]) (simp_all add: algebra_simps)
    then show ?thesis using True by (simp add: q_def r_def dvd_eq_mod_eq_0)
  next
    case False
    then have "(y - 1) div k = q" using k y by (intro int_div_pos_eq [of _ _ _ "r - 1"]) (simp_all add: algebra_simps)
    then show ?thesis using False by (simp add: q_def r_def dvd_eq_mod_eq_0)
  qed
qed

lemma leaps_step: "leaps (y + 1) - leaps y = (if leap y then 1 else 0)"
proof -
  have "(400::int) = 100 * 4" "(100::int) = 4 * 25" by simp_all
  then have d: "400 dvd y \<Longrightarrow> 100 dvd y" "100 dvd y \<Longrightarrow> 4 dvd y" by (metis dvd_mult_left)+
  have "leaps (y + 1) - leaps y
      = (y div 4 - (y - 1) div 4) - (y div 100 - (y - 1) div 100) + (y div 400 - (y - 1) div 400)"
    unfolding leaps_def by simp
  also have "\<dots> = (if 4 dvd y then 1 else 0) - (if 100 dvd y then 1 else 0) + (if 400 dvd y then 1 else 0)"
    by (simp only: div_pred zero_less_numeral)
  finally show ?thesis unfolding leap_def using d by presburger
qed

lemma year_start_step: "year_start (y + 1) = year_start y + year_len y"
  using leaps_step [of y] by (simp add: year_start_def year_len_def split: if_splits)

lemma leaps_mono: "y1 \<le> y2 \<Longrightarrow> 0 \<le> leaps y2 - leaps y1 \<and> leaps y2 - leaps y1 \<le> y2 - y1"
proof (induction y2 rule: int_ge_induct)
  case (step i)
  then show ?case using leaps_step [of i] by (auto split: if_splits)
qed simp

lemma month_start_1 [simp]: "month_start y 1 = 0"
  by (simp add: month_start_def)

lemma month_start_step: "1 \<le> m \<Longrightarrow> month_start y (m + 1) = month_start y m + month_len y m"
proof -
  assume "1 \<le> m"
  then have "{1..<m + 1} = insert m {1..<m}" by auto
  then show ?thesis by (simp add: month_start_def)
qed

lemma month_start_table:
  "month_start y 2 = 31" "month_start y 3 = (if leap y then 60 else 59)" "month_start y 4 = (if leap y then 91 else 90)"
  "month_start y 5 = (if leap y then 121 else 120)" "month_start y 6 = (if leap y then 152 else 151)"
  "month_start y 7 = (if leap y then 182 else 181)" "month_start y 8 = (if leap y then 213 else 212)"
  "month_start y 9 = (if leap y then 244 else 243)" "month_start y 10 = (if leap y then 274 else 273)"
  "month_start y 11 = (if leap y then 305 else 304)" "month_start y 12 = (if leap y then 335 else 334)"
  "month_start y 13 = year_len y"
proof -
  note st = month_start_step [of _ y] and ml = month_len_def
  show m2: "month_start y 2 = 31" using st [of 1] by (simp add: ml)
  show m3: "month_start y 3 = (if leap y then 60 else 59)" using st [of 2] m2 by (simp add: ml)
  show m4: "month_start y 4 = (if leap y then 91 else 90)" using st [of 3] m3 by (simp add: ml)
  show m5: "month_start y 5 = (if leap y then 121 else 120)" using st [of 4] m4 by (simp add: ml)
  show m6: "month_start y 6 = (if leap y then 152 else 151)" using st [of 5] m5 by (simp add: ml)
  show m7: "month_start y 7 = (if leap y then 182 else 181)" using st [of 6] m6 by (simp add: ml)
  show m8: "month_start y 8 = (if leap y then 213 else 212)" using st [of 7] m7 by (simp add: ml)
  show m9: "month_start y 9 = (if leap y then 244 else 243)" using st [of 8] m8 by (simp add: ml)
  show m10: "month_start y 10 = (if leap y then 274 else 273)" using st [of 9] m9 by (simp add: ml)
  show m11: "month_start y 11 = (if leap y then 305 else 304)" using st [of 10] m10 by (simp add: ml)
  show m12: "month_start y 12 = (if leap y then 335 else 334)" using st [of 11] m11 by (simp add: ml)
  show "month_start y 13 = year_len y" using st [of 12] m12 by (simp add: ml year_len_def)
qed

lemma month_len_pos: "28 \<le> month_len y m" "month_len y m \<le> 31"
  by (simp_all add: month_len_def)

lemma month_start_mono: "1 \<le> m \<Longrightarrow> m < k \<Longrightarrow> month_start y m + month_len y m \<le> month_start y k"
proof -
  assume m: "1 \<le> m" "m < k"
  have "sum (month_len y) {1..<m + 1} \<le> sum (month_len y) {1..<k}"
    by (rule sum_mono2) (use m month_len_pos(1) [of y] in \<open>auto intro: order_trans [of 0 28]\<close>)
  then show ?thesis using month_start_step [OF m(1), of y] by (simp add: month_start_def)
qed

lemma day_in_year:
  assumes "valid_date (y, m, d)"
  shows "0 \<le> month_start y m + d - 1" and "month_start y m + d - 1 < year_len y"
proof -
  have v: "1 \<le> m" "m \<le> 12" "1 \<le> d" "d \<le> month_len y m" using assms by (simp_all add: valid_date_def)
  have "0 \<le> month_start y m" unfolding month_start_def by (rule sum_nonneg) (use month_len_pos(1) [of y] in \<open>auto intro: order_trans [of 0 28]\<close>)
  then show "0 \<le> month_start y m + d - 1" using v by simp
  show "month_start y m + d - 1 < year_len y" using month_start_mono [of m 13 y] v month_start_table(12) [of y] by simp
qed

lemma year_start_mono: "y1 < y2 \<Longrightarrow> year_start y1 + year_len y1 \<le> year_start y2"
proof (induction y2 rule: int_gr_induct)
  case base
  then show ?case by (simp add: year_start_step)
next
  case (step i)
  then show ?case by (simp add: year_start_step year_len_def split: if_splits)
qed

lemma year_start_le: "y1 \<le> y2 \<Longrightarrow> year_start y1 \<le> year_start y2"
  using leaps_mono [of y1 y2] by (simp add: year_start_def)

lemma number_inj:
  assumes "valid_date (y, m, d)" and "valid_date (y', m', d')" and "day_number (y, m, d) = day_number (y', m', d')"
  shows "(y, m, d) = (y', m', d')"
proof -
  note day_in_year [OF assms(1)] day_in_year [OF assms(2)]
  moreover have "y < y' \<Longrightarrow> year_start y + year_len y \<le> year_start y'" "y' < y \<Longrightarrow> year_start y' + year_len y' \<le> year_start y"
    by (rule year_start_mono; assumption)+
  ultimately have y: "y = y'" using assms(3) by (cases y y' rule: linorder_cases) (simp_all add: day_number_def)
  have v: "1 \<le> m" "1 \<le> d" "d \<le> month_len y m" "1 \<le> m'" "1 \<le> d'" "d' \<le> month_len y m'" using assms(1,2) y by (simp_all add: valid_date_def)
  have "m < m' \<Longrightarrow> month_start y m + month_len y m \<le> month_start y m'" "m' < m \<Longrightarrow> month_start y m' + month_len y m' \<le> month_start y m"
    using v by (simp_all add: month_start_mono)
  then have "m = m'" using v assms(3) y by (cases m m' rule: linorder_cases) (simp_all add: day_number_def)
  then show ?thesis using assms(3) y by (simp add: day_number_def)
qed

lemma tomorrow_number:
  assumes "valid_date x"
  shows "valid_date (tomorrow x)" and "day_number (tomorrow x) = day_number x + 1"
proof -
  obtain y m d where x: "x = (y, m, d)" by (cases x)
  have v: "1 \<le> m" "m \<le> 12" "1 \<le> d" "d \<le> month_len y m" using assms x by (simp_all add: valid_date_def)
  show "valid_date (tomorrow x)" using v month_len_pos(1) [of y "m + 1"] x
    by (auto simp: tomorrow_def valid_date_def month_len_def)
  have "year_start (y + 1) = year_start y + month_start y 12 + 31"
    using year_start_step [of y] month_start_step [of 12 y] month_start_table(12) [of y] by (simp add: month_len_def)
  then show "day_number (tomorrow x) = day_number x + 1" using v x month_start_step [OF v(1), of y]
    by (cases "m = 12") (auto simp: tomorrow_def day_number_def month_len_def)
qed

lemma yesterday_number:
  assumes "valid_date x"
  shows "valid_date (yesterday x)" and "day_number (yesterday x) = day_number x - 1"
proof -
  obtain y m d where x: "x = (y, m, d)" by (cases x)
  have v: "1 \<le> m" "m \<le> 12" "1 \<le> d" "d \<le> month_len y m" using assms x by (simp_all add: valid_date_def)
  show "valid_date (yesterday x)" using v month_len_pos(1) [of y "m - 1"] x
    by (auto simp: yesterday_def valid_date_def month_len_def)
  have "year_start y = year_start (y - 1) + month_start (y - 1) 12 + 31"
    using year_start_step [of "y - 1"] month_start_step [of 12 "y - 1"] month_start_table(12) [of "y - 1"]
    by (simp add: month_len_def)
  then show "day_number (yesterday x) = day_number x - 1" using v x month_start_step [of "m - 1" y]
    by (cases "m = 1") (auto simp: yesterday_def day_number_def)
qed

lemma civil_spec: "valid_date (civil n)" "day_number (civil n) = n"
proof -
  have e: "valid_date (1970, 1, 1)" "day_number (1970, 1, 1) = 0" by (simp_all add: valid_date_def month_len_def day_number_def year_start_def)
  have t: "valid_date ((tomorrow ^^ k) (1970, 1, 1)) \<and> day_number ((tomorrow ^^ k) (1970, 1, 1)) = int k" for k
    using e tomorrow_number by (induction k) simp_all
  have y: "valid_date ((yesterday ^^ k) (1970, 1, 1)) \<and> day_number ((yesterday ^^ k) (1970, 1, 1)) = - int k" for k
    using e yesterday_number by (induction k) simp_all
  show "valid_date (civil n)" "day_number (civil n) = n" using t [of "nat n"] y [of "nat (- n)"] by (simp_all add: civil_def)
qed

lemma civil_unique: "valid_date x \<Longrightarrow> day_number x = n \<Longrightarrow> x = civil n"
  using number_inj civil_spec [of n] by (cases x; cases "civil n") metis

section \<open>The helpers of the code\<close>

lemma ck_Some [simp]: "- (2 ^ 63) \<le> x \<Longrightarrow> x < 2 ^ 63 \<Longrightarrow> ck x = Some x"
  by (simp add: ck_def)

lemma sdiv_smod_nonneg: "0 \<le> a \<Longrightarrow> 0 < b \<Longrightarrow> a sdiv b = a div b \<and> a smod b = a mod b" for a b :: int
  by (cases "a = 0") (simp_all add: signed_divide_int_def signed_modulo_int_def)

lemma sdiv_smod_neg: "a < 0 \<Longrightarrow> 0 < b \<Longrightarrow> a sdiv b = - ((- a) div b) \<and> a smod b = - ((- a) mod b)" for a b :: int
  by (simp add: signed_divide_int_def signed_modulo_int_def)

lemma sdiv_smod: "0 < b \<Longrightarrow> a sdiv b * b + a smod b = a" "0 < b \<Longrightarrow> \<bar>a smod b\<bar> < b" for a b :: int
proof -
  assume b: "0 < b"
  show "a sdiv b * b + a smod b = a"
  proof (cases "0 \<le> a")
    case False
    define q m where "q = - a div b" and "m = - a mod b"
    have "a sdiv b = - q" "a smod b = - m" using False sdiv_smod_neg [of a b] b by (simp_all add: q_def m_def)
    moreover have "q * b + m = - a" unfolding q_def m_def by (rule div_mult_mod_eq)
    ultimately show ?thesis by simp
  qed (use sdiv_smod_nonneg [of a b] b in simp)
  show "\<bar>a smod b\<bar> < b" using sdiv_smod_nonneg [of a b] sdiv_smod_neg [of a b] b by (cases "0 \<le> a") simp_all
qed

lemma math_div_eq: "0 < b \<Longrightarrow> math_div a b = a div b"
proof (cases "0 \<le> a")
  case False
  assume b: "0 < b"
  define m where "m = - a mod b"
  have "a div b = (if m = 0 then - ((- a) div b) else - ((- a) div b) - 1)"
    using zdiv_zminus1_eq_if [of b "- a"] b by (simp add: m_def)
  moreover have "0 \<le> m" using b by (simp add: m_def)
  moreover have "a sdiv b = - (- a div b)" "a smod b = - m" using False b sdiv_smod_neg [of a b] by (simp_all add: m_def)
  ultimately show ?thesis by (simp add: math_div_def)
qed (simp add: math_div_def sdiv_smod_nonneg not_less)

lemma smod_eq_0: "0 < b \<Longrightarrow> a smod b = 0 \<longleftrightarrow> b dvd a" for a b :: int
  using sdiv_smod_nonneg [of a b] sdiv_smod_neg [of a b] by (cases "0 \<le> a") (simp_all add: dvd_eq_mod_eq_0 [symmetric])

lemma raw_isleap_eq [simp]: "raw_isleap y = leap y"
  by (simp add: raw_isleap_def leap_def smod_eq_0)

lemma leaps_between_eq:
  assumes "\<bar>y1\<bar> < 2 ^ 60" and "\<bar>y2\<bar> < 2 ^ 60"
  shows "leaps_between y1 y2 = Some (leaps y2 - leaps y1)"
proof -
  have b: "\<bar>leaps y\<bar> \<le> 2 ^ 61" if "\<bar>y\<bar> < 2 ^ 60" for y
  proof -
    have "\<bar>leaps y\<bar> \<le> \<bar>y - 1\<bar> + 2" unfolding leaps_def by linarith
    then show ?thesis using that by simp
  qed
  show ?thesis using b [OF assms(1)] b [OF assms(2)] assms
    by (simp add: leaps_between_def math_div_eq leaps_def [symmetric])
qed

lemma rem_up_eq:
  assumes "rem < 0 \<Longrightarrow> \<bar>days\<bar> - rem \<le> 2 ^ 60"
  shows "rem_up rem days = Some (if rem < 0 then (rem mod 86400, days + rem div 86400) else (rem, days))"
  using assms
proof (induction "nat (- rem)" arbitrary: rem days rule: less_induct)
  case less
  show ?case
  proof (cases "rem < 0")
    case True
    then have b: "\<bar>days\<bar> - rem \<le> 2 ^ 60" by (rule less.prems)
    have "rem_up (rem + 86400) (days - 1)
        = Some (if rem + 86400 < 0 then ((rem + 86400) mod 86400, days - 1 + (rem + 86400) div 86400) else (rem + 86400, days - 1))"
      by (rule less.hyps) (use True b in auto)
    also have "\<dots> = Some (rem mod 86400, days + rem div 86400)"
      using True mod_add_self2 [of rem 86400] mod_pos_pos_trivial [of "rem + 86400" 86400] by auto
    finally show ?thesis using True b by (subst rem_up.simps) (simp add: SECS_PER_DAY_def SECS_PER_HOUR_def)
  qed (simp add: rem_up.simps)
qed

lemma rem_down_eq:
  assumes "0 \<le> rem" and "\<bar>days\<bar> + rem \<le> 2 ^ 60"
  shows "rem_down rem days = Some (rem mod 86400, days + rem div 86400)"
  using assms
proof (induction "nat rem" arbitrary: rem days rule: less_induct)
  case less
  show ?case
  proof (cases "rem < 86400")
    case True
    then show ?thesis using less.prems by (subst rem_down.simps) (simp add: SECS_PER_DAY_def SECS_PER_HOUR_def)
  next
    case False
    have "rem_down (rem - 86400) (days + 1) = Some ((rem - 86400) mod 86400, days + 1 + (rem - 86400) div 86400)"
      by (rule less.hyps) (use False less.prems in auto)
    also have "\<dots> = Some (rem mod 86400, days + rem div 86400)" by (simp add: mod_diff_right_eq)
    finally show ?thesis using False less.prems by (subst rem_down.simps) (simp add: SECS_PER_DAY_def SECS_PER_HOUR_def)
  qed
qed

section \<open>The loop over the years\<close>

text \<open>
  The loop guesses the year from the days as if every year had 365, and corrects the guess.  It may overshoot in both
  directions; the weight of the remaining days decreases.
\<close>

definition weight :: "int \<Rightarrow> int" where
  "weight days = (if 0 \<le> days then days else 400 - 4 * days)"

lemma year_start_bound: "\<bar>y - 1970\<bar> \<le> \<bar>year_start y\<bar>"
  using leaps_mono [of 1970 y] leaps_mono [of y 1970] by (cases "1970 \<le> y") (simp_all add: year_start_def)

lemma year_guess:
  assumes "days < 0 \<or> days \<ge> year_len y"
  defines "q \<equiv> days div 365"
  defines "n \<equiv> days - (q * 365 + (leaps (y + q) - leaps y))"
  shows "0 \<le> weight n" and "weight n < weight days" and "\<bar>q\<bar> \<le> \<bar>days\<bar>"
proof -
  define r where "r = days mod 365"
  have r: "days = 365 * q + r" "0 \<le> r" "r \<le> 364" by (simp_all add: r_def q_def)
  have n: "n = r - (leaps (y + q) - leaps y)" using r(1) by (simp add: n_def)
  show "0 \<le> weight n" by (simp add: weight_def)
  show "\<bar>q\<bar> \<le> \<bar>days\<bar>" using r by linarith
  show "weight n < weight days"
  proof (cases "days < 0")
    case True
    then have "q \<le> - 1" using r by linarith
    then show ?thesis using leaps_mono [of "y + q" y] n r True by (auto simp: weight_def)
  next
    case False
    then have d: "year_len y \<le> days" using assms(1) by simp
    then have q: "1 \<le> q" using r by (simp add: year_len_def split: if_splits)
    have L: "0 \<le> leaps (y + q) - leaps y" "leaps (y + q) - leaps y \<le> q" using leaps_mono [of y "y + q"] q by simp_all
    show ?thesis
    proof (cases "q = 1")
      case True
      then have "leaps (y + q) - leaps y = (if leap y then 1 else 0)" using leaps_step by simp
      then have "0 \<le> n" using n r True d by (auto simp: year_len_def split: if_splits)
      then show ?thesis using n r L True False by (simp add: weight_def)
    next
      case False
      then show ?thesis using n r L q \<open>\<not> days < 0\<close> by (simp add: weight_def)
    qed
  qed
qed

lemma year_loop_spec:
  assumes "weight days \<le> 2 ^ 52" and "\<bar>year_start y + days\<bar> \<le> 2 ^ 52"
  shows "\<exists>d y'. year_loop days y = Some (d, y') \<and> 0 \<le> d \<and> d < year_len y' \<and> year_start y' + d = year_start y + days"
  using assms
proof (induction "nat (weight days)" arbitrary: days y rule: less_induct)
  case less
  show ?case
  proof (cases "days < 0 \<or> days \<ge> year_len y")
    case True
    define q where "q = days div 365"
    define n where "n = days - (q * 365 + (leaps (y + q) - leaps y))"
    note g = year_guess [OF True, folded q_def, folded n_def]
    have days: "\<bar>days\<bar> \<le> 2 ^ 52" "\<bar>n\<bar> \<le> 2 ^ 52" using less.prems(1) g(2) by (auto simp: weight_def split: if_splits)
    have inv: "year_start (y + q) + n = year_start y + days" by (simp add: n_def year_start_def)
    have p: "(4503599627370496 :: int) = 2 ^ 52" "(18014398509481984 :: int) = 2 ^ 54" by simp_all
    have y: "\<bar>y\<bar> < 2 ^ 54" "\<bar>y + q\<bar> < 2 ^ 54"
      using year_start_bound [of y] year_start_bound [of "y + q"] inv less.prems(2) days unfolding p [symmetric] by linarith+
    have "year_loop days y = year_loop n (y + q)"
      using True y days g(3) by (subst year_loop.simps) (simp add: math_div_eq leaps_between_eq q_def [symmetric] n_def year_len_def)
    moreover have "\<exists>d y'. year_loop n (y + q) = Some (d, y') \<and> 0 \<le> d \<and> d < year_len y' \<and> year_start y' + d = year_start (y + q) + n"
      by (rule less.hyps) (use g(1,2) less.prems inv in auto)
    ultimately show ?thesis using inv by simp
  next
    case False
    then show ?thesis by (subst year_loop.simps) (simp add: year_len_def)
  qed
qed

lemma month_loop_spec:
  assumes "0 \<le> d" and "d < year_len y"
  shows "\<exists>m \<le> 11. month_loop (raw_mon_yday (leap y)) d 11 = Some m \<and> aget (raw_mon_yday (leap y)) m = Some (month_start y (int m + 1)) \<and>
    month_start y (int m + 1) \<le> d \<and> d < month_start y (int m + 2)"
proof -
  have t: "aget (raw_mon_yday (leap y)) k = Some (month_start y (int k + 1))" if "k \<le> 12" for k
  proof -
    from that have "k \<in> {0, 1, 2, 3, 4, 5, 6, 7, 8, 9, 10, 11, 12}" unfolding insert_iff empty_iff by arith
    then show ?thesis by (auto simp: aget_def raw_mon_yday_def month_start_table year_len_def)
  qed
  have "\<exists>m \<le> k. month_loop (raw_mon_yday (leap y)) d k = Some m \<and> month_start y (int m + 1) \<le> d \<and> d < month_start y (int m + 2)"
    if "k \<le> 11" "d < month_start y (int k + 2)" for k
    using that
  proof (induction k)
    case 0
    then show ?case using assms(1) t [of 0] by simp
  next
    case (Suc k)
    show ?case
    proof (cases "d < month_start y (int (Suc k) + 1)")
      case True
      then have "\<exists>m \<le> k. month_loop (raw_mon_yday (leap y)) d k = Some m \<and> month_start y (int m + 1) \<le> d \<and> d < month_start y (int m + 2)"
        using Suc by (simp add: add.commute)
      then show ?thesis using True t [of "Suc k"] Suc.prems by (auto intro: le_SucI)
    next
      case False
      then show ?thesis using t [of "Suc k"] Suc.prems by (intro exI [of _ "Suc k"]) (simp add: add.commute)
    qed
  qed
  from this [of 11] show ?thesis using assms(2) month_start_table(12) [of y] t by auto
qed

section \<open>Seconds to a date\<close>

lemma split_day:
  fixes t off :: int
  assumes t: "- (2 ^ 63) \<le> t" "t < 2 ^ 63" and off: "- (2 ^ 31) \<le> off" "off < 2 ^ 31"
  shows "(do { rem \<leftarrow> ck (t smod SECS_PER_DAY + off);
               (rem, days) \<leftarrow> rem_up rem (t sdiv SECS_PER_DAY);
               rem_down rem days }) = Some ((t + off) mod 86400, (t + off) div 86400)"
proof -
  define q r where "q = t sdiv 86400" and "r = t smod 86400"
  have qr: "t = 86400 * q + r" "\<bar>r\<bar> < 86400" using sdiv_smod [of 86400 t] by (simp_all add: q_def r_def mult.commute)
  have q: "\<bar>q\<bar> \<le> 2 ^ 50" using qr t by (auto simp: abs_le_iff)
  have tt: "t + off = r + off + 86400 * q" using qr by simp
  have e: "(t + off) mod 86400 = (r + off) mod 86400" "(t + off) div 86400 = q + (r + off) div 86400"
    unfolding tt by simp_all
  have S: "SECS_PER_DAY = 86400" by (simp add: SECS_PER_DAY_def SECS_PER_HOUR_def)
  have up: "rem_up (r + off) q = Some (if r + off < 0 then ((r + off) mod 86400, q + (r + off) div 86400) else (r + off, q))"
    by (rule rem_up_eq) (use q qr off in simp)
  have "rem_down (r + off) q = Some ((r + off) mod 86400, q + (r + off) div 86400)" if "0 \<le> r + off"
    by (rule rem_down_eq) (use that q qr off in simp_all)
  moreover have "rem_down ((r + off) mod 86400) (q + (r + off) div 86400)
      = Some (((r + off) mod 86400) mod 86400, (q + (r + off) div 86400) + ((r + off) mod 86400) div 86400)"
  proof (rule rem_down_eq)
    have "\<bar>(r + off) div 86400\<bar> \<le> 2 ^ 31" using qr off by (auto simp: abs_le_iff)
    moreover have "(r + off) mod 86400 < 86400" by simp
    ultimately show "\<bar>q + (r + off) div 86400\<bar> + (r + off) mod 86400 \<le> 2 ^ 60" using q by simp
  qed simp
  ultimately show ?thesis using up qr(2) off by (simp add: S q_def [symmetric] r_def [symmetric] e)
qed

definition tm_date :: "tm \<Rightarrow> date" where
  "tm_date r = (tm_year r + 1900, tm_mon r + 1, tm_mday r)"

definition tm_of :: "int \<Rightarrow> int \<Rightarrow> tm \<Rightarrow> bool" where
  "tm_of days secs r \<longleftrightarrow> tm_date r = civil days \<and> tm_yday r = days - day_number (tm_year r + 1900, 1, 1) \<and>
     tm_wday r = (4 + days) mod 7 \<and> tm_hour r = secs div 3600 \<and> tm_min r = secs mod 3600 div 60 \<and> tm_sec r = secs mod 60"

lemma weekday: "(if x smod 7 < 0 then x smod 7 + 7 else x smod 7) = x mod 7" for x :: int
proof -
  have "x mod 7 = (x sdiv 7 * 7 + x smod 7) mod 7" by (simp only: sdiv_smod zero_less_numeral)
  also have "\<dots> = x smod 7 mod 7" by simp
  finally have e: "x mod 7 = x smod 7 mod 7" .
  have "\<bar>x smod 7\<bar> < 7" by (rule sdiv_smod) simp
  then show ?thesis unfolding e using mod_pos_pos_trivial [of "x smod 7 + 7" 7] mod_pos_pos_trivial [of "x smod 7" 7] by auto
qed

lemma time_to_tm_spec:
  assumes "- (2 ^ 63) \<le> t" and "t < 2 ^ 63" and "- (2 ^ 31) \<le> off" and "off < 2 ^ 31"
  shows "\<exists>r. time_to_tm t off = Some r \<and> tm_of ((t + off) div 86400) ((t + off) mod 86400) r"
proof -
  define D S where "D = (t + off) div 86400" and "S = (t + off) mod 86400"
  have S: "0 \<le> S" "S < 86400" by (simp_all add: S_def)
  have D: "\<bar>D\<bar> \<le> 2 ^ 48" using assms by (auto simp: D_def abs_le_iff)
  have "weight D \<le> 2 ^ 52" "\<bar>year_start 1970 + D\<bar> \<le> 2 ^ 52" using D by (auto simp: weight_def year_start_def)
  from year_loop_spec [OF this] obtain d y where
    y: "year_loop D 1970 = Some (d, y)" "0 \<le> d" "d < year_len y" "year_start y + d = D" by (auto simp: year_start_def)
  have yb: "\<bar>y\<bar> < 2 ^ 60" using year_start_bound [of y] y D by (simp add: year_len_def split: if_splits)
  obtain m where m: "m \<le> 11" "month_loop (raw_mon_yday (leap y)) d 11 = Some m"
    "aget (raw_mon_yday (leap y)) m = Some (month_start y (int m + 1))" "month_start y (int m + 1) \<le> d" "d < month_start y (int m + 2)"
    using month_loop_spec [OF y(2,3)] by blast
  define r where "r = \<lparr>tm_sec = S mod 3600 mod 60, tm_min = S mod 3600 div 60, tm_hour = S div 3600,
    tm_mday = d - month_start y (int m + 1) + 1, tm_mon = int m, tm_year = y - 1900, tm_wday = (4 + D) mod 7, tm_yday = d\<rparr>"
  have "time_to_tm t off = Some r"
  proof -
    obtain r0 r1 d1 where "ck (t smod SECS_PER_DAY + off) = Some r0" "rem_up r0 (t sdiv SECS_PER_DAY) = Some (r1, d1)"
      "rem_down r1 d1 = Some (S, D)"
      using split_day [OF assms, folded D_def S_def] by (auto simp: bind_eq_Some_conv)
    then show ?thesis
      using S D y yb m by (simp add: time_to_tm_def SECS_PER_HOUR_def sdiv_smod_nonneg weekday r_def Let_def del: month_loop.simps)
  qed
  moreover have "tm_date r = civil D"
  proof (rule civil_unique)
    have "int m + 2 = (int m + 1) + 1" by simp
    then have "month_start y (int m + 2) = month_start y (int m + 1) + month_len y (int m + 1)" by (simp only: month_start_step)
    then show "valid_date (tm_date r)" using m by (simp add: tm_date_def r_def valid_date_def)
    show "day_number (tm_date r) = D" using y(4) by (simp add: tm_date_def r_def day_number_def)
  qed
  moreover have "d = D - day_number (y, 1, 1)" using y(4) by (simp add: day_number_def)
  moreover have "S mod 3600 mod 60 = S mod 60" by (rule mod_mod_cancel) simp
  ultimately show ?thesis by (simp add: tm_of_def r_def D_def [symmetric] S_def [symmetric])
qed

section \<open>A date to seconds\<close>

lemma div_word_of_int:
  assumes "0 \<le> a" "a < 2 ^ 32" "0 < b" "b < 2 ^ 32"
  shows "(word_of_int a :: u32) div word_of_int b = word_of_int (a div b)"
proof -
  have w: "uint (word_of_int k :: u32) = k" if "0 \<le> k" "k < 2 ^ 32" for k
    using that by (simp add: uint_word_of_int_eq take_bit_int_eq_self)
  have "a div b \<le> a" using assms zdiv_mono2 [of a 1 b] by simp
  then have "0 \<le> a div b" "a div b < 2 ^ 32" using assms by (simp_all add: pos_imp_zdiv_nonneg_iff)
  then show ?thesis using assms w by (simp add: word_uint_eq_iff uint_div)
qed

lemma ucast_word_of_int: "0 \<le> a \<Longrightarrow> a < 2 ^ 32 \<Longrightarrow> (ucast (word_of_int a :: u32) :: u64) = word_of_int a"
  by (rule word_uint_eqI) (simp add: uint_word_of_int_eq unsigned_ucast_eq take_bit_int_eq_self take_bit_take_bit min_def)

lemma sint_word_of_int_small: "- (2 ^ 31) \<le> a \<Longrightarrow> a < 2 ^ 31 \<Longrightarrow> sint (word_of_int a :: u32) = a"
  by (simp add: sint_sbintrunc' signed_take_bit_int_eq_self)

text \<open>The month count from March, and the year it belongs to.\<close>

definition march :: "int \<Rightarrow> int \<Rightarrow> int \<times> int" where
  "march y m = (if m \<le> 2 then (m + 10, y - 1) else (m - 2, y))"

lemma gauss:
  assumes v: "valid_date (y, m, d)" and "march y m = (mon, year)"
  shows "year div 4 - year div 100 + year div 400 + 367 * mon div 12 + d + year * 365 - 719499 = day_number (y, m, d)"
proof -
  have L: "leaps (year + 1) = year div 4 - year div 100 + year div 400" by (simp add: leaps_def)
  have n: "day_number (y, m, d) = 365 * y - 719528 + leaps y + month_start y m + d" by (simp add: day_number_def year_start_def leaps_def)
  from v have "1 \<le> m" "m \<le> 12" by (simp_all add: valid_date_def)
  then have "m \<in> {1, 2, 3, 4, 5, 6, 7, 8, 9, 10, 11, 12}" unfolding insert_iff empty_iff by arith
  then have "367 * mon div 12 + 365 * year + leaps (year + 1) - 719499 = 365 * y - 719528 + leaps y + month_start y m"
    using assms(2) leaps_step [of y] unfolding insert_iff empty_iff march_def
    by (elim disjE) (auto simp: month_start_table split: if_splits)
  then show ?thesis unfolding n L by simp
qed

lemma mktime_eq:
  assumes v: "valid_date (y, m, d)" and y: "1 \<le> y" "y \<le> 11767032"
    and hms: "0 \<le> h" "h < 2 ^ 32" "0 \<le> mi" "mi < 2 ^ 32" "0 \<le> s" "s < 2 ^ 32"
  shows "mktime (word_of_int y) (word_of_int m) (word_of_int d) (word_of_int h) (word_of_int mi) (word_of_int s)
    = word_of_int (day_number (y, m, d) * 86400 + h * 3600 + mi * 60 + s)"
proof -
  obtain mon year where my: "march y m = (mon, year)" by (cases "march y m")
  have m: "1 \<le> m" "m \<le> 12" "1 \<le> d" "d \<le> 31" using v month_len_pos(2) [of y m] by (auto simp: valid_date_def)
  have r: "1 \<le> mon" "mon \<le> 12" "0 \<le> year" "year \<le> 11767032" using my m y by (auto simp: march_def split: if_splits)
  have mon: "(word_of_int m :: u32) - 2 = word_of_int (m - 2)" by simp
  have sel: "(if sint (word_of_int (m - 2) :: u32) \<le> 0 then (word_of_int (m - 2) + 12, word_of_int y - 1) else (word_of_int (m - 2), word_of_int y))
      = (word_of_int mon :: u32, word_of_int year :: u32)"
    using sint_word_of_int_small [of "m - 2"] m my by (auto simp: march_def)
  define A where "A = year div 4 - year div 100 + year div 400 + 367 * mon div 12 + d"
  have A: "(word_of_int year div 4 - word_of_int year div 100 + word_of_int year div 400 + 367 * word_of_int mon div 12 + word_of_int d :: u32) = word_of_int A"
    using r div_word_of_int [of year 4] div_word_of_int [of year 100] div_word_of_int [of year 400] div_word_of_int [of "367 * mon" 12]
    by (simp add: A_def)
  have "year div 100 \<le> year div 4" "year div 4 \<le> year" "year div 400 \<le> year" "0 \<le> year div 400" "0 \<le> year div 100"
    using r zdiv_mono2 [of year 4 100] zdiv_mono2 [of year 1 4] zdiv_mono2 [of year 1 400] by (simp_all add: pos_imp_zdiv_nonneg_iff)
  moreover have "0 \<le> 367 * mon div 12" "367 * mon div 12 \<le> 367" using r by linarith+
  ultimately have "0 \<le> A" "A < 4294967296" using m r unfolding A_def by linarith+
  then have Ab: "0 \<le> A" "A < 2 ^ 32" by simp_all
  have B: "(word_of_int year * 365 :: u32) = word_of_int (year * 365)" "0 \<le> year * 365" "year * 365 < 2 ^ 32" using r by simp_all
  have "mktime (word_of_int y) (word_of_int m) (word_of_int d) (word_of_int h) (word_of_int mi) (word_of_int s)
      = (((word_of_int A + word_of_int (year * 365) - 719499) * 24 + word_of_int h) * 60 + word_of_int mi) * 60 + word_of_int s"
    unfolding mktime_def Let_def mon sel prod.case A B(1)
    using ucast_word_of_int [OF Ab] ucast_word_of_int [OF B(2,3)] ucast_word_of_int [OF hms(1,2)] ucast_word_of_int [OF hms(3,4)]
      ucast_word_of_int [OF hms(5,6)] by simp
  also have "\<dots> = word_of_int (((((A + year * 365) - 719499) * 24 + h) * 60 + mi) * 60 + s)" by simp
  also have "A + year * 365 - 719499 = day_number (y, m, d)" using gauss [OF v my] by (simp add: A_def)
  finally show ?thesis by (simp add: algebra_simps)
qed

lemma clock:
  fixes S :: int
  assumes "0 \<le> S" and "S < 86400"
  shows "S div 3600 * 3600 + S mod 3600 div 60 * 60 + S mod 60 = S" and "0 \<le> S div 3600" and "S div 3600 \<le> 23"
    and "0 \<le> S mod 3600 div 60" and "S mod 3600 div 60 \<le> 59" and "0 \<le> S mod 60" and "S mod 60 \<le> 59"
proof -
  define M where "M = S mod 3600"
  have M: "0 \<le> M" "M < 3600" "S div 3600 * 3600 + M = S" by (simp_all add: M_def)
  have "S mod 60 = M mod 60" unfolding M_def by (rule mod_mod_cancel [symmetric]) simp
  moreover have "M div 60 * 60 + M mod 60 = M" by simp
  ultimately show "S div 3600 * 3600 + S mod 3600 div 60 * 60 + S mod 60 = S" using M by (simp add: M_def [symmetric])
  show "0 \<le> S div 3600" "S div 3600 \<le> 23" using assms by linarith+
  show "0 \<le> S mod 3600 div 60" "S mod 3600 div 60 \<le> 59" unfolding M_def [symmetric] using M by linarith+
qed simp_all

text \<open>
  C14. \<open>time_to_tm\<close> on every 64-bit time and every \<open>int\<close> offset: no signed operation overflows, all loops end, and the
  result is the date of the Gregorian calendar (obtained from 1 January 1970 by going day by day forward or backward),
  its day of the year and of the week, and the time of the day.
\<close>

theorem time_to_tm_ok:
  assumes "- (2 ^ 63) \<le> t" and "t < 2 ^ 63" and "- (2 ^ 31) \<le> offset" and "offset < 2 ^ 31"
  shows "\<exists>r. time_to_tm t offset = Some r \<and> tm_date r = civil ((t + offset) div 86400) \<and> valid_date (tm_date r) \<and>
    tm_yday r = (t + offset) div 86400 - day_number (tm_year r + 1900, 1, 1) \<and> tm_wday r = (4 + (t + offset) div 86400) mod 7 \<and>
    tm_hour r * 3600 + tm_min r * 60 + tm_sec r = (t + offset) mod 86400 \<and> tm_hour r \<in> {0..23} \<and> tm_min r \<in> {0..59} \<and> tm_sec r \<in> {0..59}"
proof -
  define S where "S = (t + offset) mod 86400"
  have S: "0 \<le> S" "S < 86400" by (simp_all add: S_def)
  obtain r where r: "time_to_tm t offset = Some r" "tm_of ((t + offset) div 86400) S r"
    using time_to_tm_spec [OF assms] unfolding S_def by blast
  have h: "tm_hour r = S div 3600" "tm_min r = S mod 3600 div 60" "tm_sec r = S mod 60" using r(2) unfolding tm_of_def by blast+
  have "tm_hour r * 3600 + tm_min r * 60 + tm_sec r = S" "tm_hour r \<in> {0..23}" "tm_min r \<in> {0..59}" "tm_sec r \<in> {0..59}"
    unfolding h atLeastAtMost_iff using clock [OF S] by blast+
  moreover have "tm_date r = civil ((t + offset) div 86400)" "tm_yday r = (t + offset) div 86400 - day_number (tm_year r + 1900, 1, 1)"
    "tm_wday r = (4 + (t + offset) div 86400) mod 7" using r(2) unfolding tm_of_def by blast+
  moreover from this(1) have "valid_date (tm_date r)" using civil_spec(1) by simp
  ultimately show ?thesis using r(1) unfolding S_def by blast
qed

theorem time_to_tm_ok_witness:
  "\<exists>r. time_to_tm (-1) 0 = Some r \<and> tm_date r = (1969, 12, 31) \<and> tm_hour r * 3600 + tm_min r * 60 + tm_sec r = 86399"
proof -
  have "civil (- 1) = (1969, 12, 31)" by (simp add: civil_def yesterday_def)
  then show ?thesis using time_to_tm_ok [of "- 1" 0] by auto
qed

text \<open>
  C37. \<open>mktime\<close> and \<open>time_to_tm\<close> are inverse to each other: for every time from the year 1 to the year 11767032
  \<open>mktime\<close> maps the fields that \<open>time_to_tm\<close> computes back to the time (modulo \<open>2 ^ 64\<close>, for times before 1970).
\<close>

theorem mktime_time_to_tm:
  assumes "- 62135596800 \<le> t" and "t < 371269528387200"
  shows "\<exists>r. time_to_tm t 0 = Some r \<and>
    mktime (word_of_int (tm_year r + 1900)) (word_of_int (tm_mon r + 1)) (word_of_int (tm_mday r))
      (word_of_int (tm_hour r)) (word_of_int (tm_min r)) (word_of_int (tm_sec r)) = word_of_int t"
proof -
  obtain r where r: "time_to_tm t 0 = Some r" "tm_of (t div 86400) (t mod 86400) r"
    using time_to_tm_spec [of t 0] assms by auto
  define S where "S = t mod 86400"
  have S: "0 \<le> S" "S < 86400" "t = t div 86400 * 86400 + S" by (simp_all add: S_def)
  define y where "y = tm_year r + 1900"
  have d: "(y, tm_mon r + 1, tm_mday r) = civil (t div 86400)" using r(2) by (simp add: tm_of_def tm_date_def y_def)
  then have n: "valid_date (y, tm_mon r + 1, tm_mday r)" "day_number (y, tm_mon r + 1, tm_mday r) = t div 86400"
    using civil_spec [of "t div 86400"] by simp_all
  have "y < 1 \<Longrightarrow> year_start y + year_len y \<le> year_start 1" "11767033 \<le> y \<Longrightarrow> year_start 11767033 \<le> year_start y"
    using year_start_mono [of y 1] year_start_le [of 11767033 y] by blast+
  moreover have "year_start 1 = - 719162" "year_start 11767033 = 4297101023" by (simp_all add: year_start_def leaps_def)
  moreover have "- 719162 \<le> t div 86400" "t div 86400 < 4297101023" using assms by linarith+
  moreover have "year_start y + (month_start y (tm_mon r + 1) + tm_mday r - 1) = t div 86400" using n(2) by (simp add: day_number_def)
  ultimately have yb: "1 \<le> y" "y \<le> 11767032" using day_in_year [OF n(1)] by linarith+
  have h: "tm_hour r = S div 3600" "tm_min r = S mod 3600 div 60" "tm_sec r = S mod 60"
    using r(2) unfolding tm_of_def S_def by blast+
  have hb: "0 \<le> tm_hour r" "tm_hour r \<le> 23" "0 \<le> tm_min r" "tm_min r \<le> 59" "0 \<le> tm_sec r" "tm_sec r \<le> 59"
    unfolding h by (fact clock(2-7) [OF S(1,2)])+
  have hs: "t div 86400 * 86400 + tm_hour r * 3600 + tm_min r * 60 + tm_sec r = t"
    unfolding h using clock(1) [OF S(1,2)] S(3) by linarith
  have "mktime (word_of_int y) (word_of_int (tm_mon r + 1)) (word_of_int (tm_mday r))
      (word_of_int (tm_hour r)) (word_of_int (tm_min r)) (word_of_int (tm_sec r)) = word_of_int t"
    using mktime_eq [OF n(1) yb hb(1) _ hb(3) _ hb(5), unfolded n(2) hs] hb by simp
  then show ?thesis using r(1) unfolding y_def by blast
qed

theorem mktime_time_to_tm_witness:
  "\<exists>r. time_to_tm 1000000000 0 = Some r \<and>
    mktime (word_of_int (tm_year r + 1900)) (word_of_int (tm_mon r + 1)) (word_of_int (tm_mday r))
      (word_of_int (tm_hour r)) (word_of_int (tm_min r)) (word_of_int (tm_sec r)) = word_of_int 1000000000"
  by (rule mktime_time_to_tm) simp_all

end
