(* ===== verification/Timespec.thy ===== *)
theory Timespec
  imports Calendar Int_Division
begin

text \<open>
  Times in seconds and nanoseconds: \<open>include/linux/time.h\<close> and the conversions of \<open>kernel/time.c\<close>.  The kernel is
  compiled with wrapping signed arithmetic, on which \<open>timespec_add_safe\<close> relies; \<open>wr\<close> is the wrap-around of a
  64-bit \<open>long\<close>.  The conversions between milliseconds or microseconds and jiffies depend on the tick rate \<open>HZ\<close>, an
  argument here; for rates that need the constants of the generated \<open>timeconst.h\<close> these are arguments too.
\<close>

section \<open>Model\<close>

definition wr :: "int \<Rightarrow> int" where
  "wr x = signed_take_bit 63 x"

definition wr32 :: "int \<Rightarrow> int" where
  "wr32 x = signed_take_bit 31 x"

definition MSEC_PER_SEC :: int where "MSEC_PER_SEC = 1000"
definition NSEC_PER_USEC :: int where "NSEC_PER_USEC = 1000"
definition USEC_PER_SEC :: int where "USEC_PER_SEC = 1000000"
definition NSEC_PER_SEC :: int where "NSEC_PER_SEC = 1000000000"
definition TIME_T_MAX :: int where "TIME_T_MAX = 2 ^ 63 - 1"

lemmas per_sec = MSEC_PER_SEC_def NSEC_PER_USEC_def USEC_PER_SEC_def NSEC_PER_SEC_def

record timespec =
  tv_sec :: int
  tv_nsec :: int

record timeval =
  tvl_sec :: int
  tv_usec :: int

definition timespec_equal :: "timespec \<Rightarrow> timespec \<Rightarrow> bool" where
  "timespec_equal a b \<longleftrightarrow> tv_sec a = tv_sec b \<and> tv_nsec a = tv_nsec b"

text \<open>The difference is a \<open>long\<close>, returned as an \<open>int\<close>.\<close>

definition timespec_compare :: "timespec \<Rightarrow> timespec \<Rightarrow> int" where
  "timespec_compare lhs rhs =
     (if tv_sec lhs < tv_sec rhs then - 1 else if tv_sec lhs > tv_sec rhs then 1 else wr32 (wr (tv_nsec lhs - tv_nsec rhs)))"

definition timeval_compare :: "timeval \<Rightarrow> timeval \<Rightarrow> int" where
  "timeval_compare lhs rhs =
     (if tvl_sec lhs < tvl_sec rhs then - 1 else if tvl_sec lhs > tvl_sec rhs then 1 else wr32 (wr (tv_usec lhs - tv_usec rhs)))"

function norm_down :: "int \<Rightarrow> int \<Rightarrow> int \<times> int" where
  "norm_down sec nsec = (if nsec \<ge> NSEC_PER_SEC then norm_down (wr (sec + 1)) (nsec - NSEC_PER_SEC) else (sec, nsec))"
  by pat_completeness auto
termination
  by (relation "measure (\<lambda>(sec, nsec). nat nsec)") (auto simp: per_sec)

function norm_up :: "int \<Rightarrow> int \<Rightarrow> int \<times> int" where
  "norm_up sec nsec = (if nsec < 0 then norm_up (wr (sec - 1)) (nsec + NSEC_PER_SEC) else (sec, nsec))"
  by pat_completeness auto
termination
  by (relation "measure (\<lambda>(sec, nsec). nat (- nsec))") (auto simp: per_sec)

declare norm_down.simps [simp del] norm_up.simps [simp del]

definition set_normalized_timespec :: "int \<Rightarrow> int \<Rightarrow> timespec" where
  "set_normalized_timespec sec nsec =
     (let (sec, nsec) = norm_down sec nsec; (sec, nsec) = norm_up sec nsec in \<lparr>tv_sec = sec, tv_nsec = nsec\<rparr>)"

definition timespec_sub :: "timespec \<Rightarrow> timespec \<Rightarrow> timespec" where
  "timespec_sub lhs rhs = set_normalized_timespec (wr (tv_sec lhs - tv_sec rhs)) (wr (tv_nsec lhs - tv_nsec rhs))"

definition timespec_add_safe :: "timespec \<Rightarrow> timespec \<Rightarrow> timespec" where
  "timespec_add_safe lhs rhs =
     (let res = set_normalized_timespec (wr (tv_sec lhs + tv_sec rhs)) (wr (tv_nsec lhs + tv_nsec rhs))
      in if tv_sec res < tv_sec lhs \<or> tv_sec res < tv_sec rhs then res\<lparr>tv_sec := TIME_T_MAX\<rparr> else res)"

definition timespec_valid :: "timespec \<Rightarrow> bool" where
  "timespec_valid ts \<longleftrightarrow> tv_sec ts \<ge> 0 \<and> take_bit 64 (tv_nsec ts) < NSEC_PER_SEC"

definition timespec_to_ns :: "timespec \<Rightarrow> int" where
  "timespec_to_ns ts = wr (wr (tv_sec ts * NSEC_PER_SEC) + tv_nsec ts)"

definition timeval_to_ns :: "timeval \<Rightarrow> int" where
  "timeval_to_ns tv = wr (wr (tvl_sec tv * NSEC_PER_SEC) + wr (tv_usec tv * NSEC_PER_USEC))"

definition ns_to_timespec :: "int \<Rightarrow> timespec option" where
  "ns_to_timespec nsec =
     (if nsec = 0 then Some \<lparr>tv_sec = 0, tv_nsec = 0\<rparr>
      else do {
        (q, r) \<leftarrow> div_s64_rem (word_of_int nsec) 1000000000;
        let sec = sint q;
        let rem = sint r;
        let (sec, rem) = (if rem < 0 then (wr (sec - 1), wr32 (rem + NSEC_PER_SEC)) else (sec, rem));
        Some \<lparr>tv_sec = sec, tv_nsec = rem\<rparr> })"

definition ns_to_timeval :: "int \<Rightarrow> timeval option" where
  "ns_to_timeval nsec = do { ts \<leftarrow> ns_to_timespec nsec; Some \<lparr>tvl_sec = tv_sec ts, tv_usec = tv_nsec ts sdiv 1000\<rparr> }"

definition timespec_add_ns :: "timespec \<Rightarrow> u64 \<Rightarrow> timespec option" where
  "timespec_add_ns a ns = do {
     (q, ns) \<leftarrow> iter_div_u64_rem (word_of_int (tv_nsec a) + ns) 1000000000;
     Some \<lparr>tv_sec = wr (tv_sec a + uint q), tv_nsec = sint ns\<rparr> }"

text \<open>Jiffies.  The constants of \<open>timeconst.h\<close>, for milliseconds and for microseconds.\<close>

record timeconst =
  to_num :: int
  to_den :: int
  from_mul32 :: int
  from_adj32 :: int
  from_shr32 :: nat

definition MAX_JIFFY_OFFSET :: int where
  "MAX_JIFFY_OFFSET = drop_bit 1 (2 ^ 63 - 1) - 1"

text \<open>The unsigned \<open>long\<close> and the returned unsigned \<open>int\<close> wrap around.\<close>

definition jiffies_to_units :: "int \<Rightarrow> int \<Rightarrow> timeconst \<Rightarrow> int \<Rightarrow> int" where
  "jiffies_to_units per_sec hz c j =
     (if hz \<le> per_sec \<and> per_sec mod hz = 0 then take_bit 32 (take_bit 64 (per_sec div hz * j))
      else if hz > per_sec \<and> hz mod per_sec = 0 then take_bit 32 (take_bit 64 (j + hz div per_sec - 1) div (hz div per_sec))
      else take_bit 32 (take_bit 64 (j * to_num c) div to_den c))"

definition jiffies_to_msecs :: "int \<Rightarrow> timeconst \<Rightarrow> int \<Rightarrow> int" where
  "jiffies_to_msecs hz c j = jiffies_to_units MSEC_PER_SEC hz c j"

definition jiffies_to_usecs :: "int \<Rightarrow> timeconst \<Rightarrow> int \<Rightarrow> int" where
  "jiffies_to_usecs hz c j = jiffies_to_units USEC_PER_SEC hz c j"

definition msecs_to_jiffies :: "int \<Rightarrow> timeconst \<Rightarrow> int \<Rightarrow> int" where
  "msecs_to_jiffies hz c m =
     (if wr32 m < 0 then MAX_JIFFY_OFFSET
      else if hz \<le> MSEC_PER_SEC \<and> MSEC_PER_SEC mod hz = 0 then (m + MSEC_PER_SEC div hz - 1) div (MSEC_PER_SEC div hz)
      else if hz > MSEC_PER_SEC \<and> hz mod MSEC_PER_SEC = 0
      then (if m > jiffies_to_msecs hz c MAX_JIFFY_OFFSET then MAX_JIFFY_OFFSET else m * (hz div MSEC_PER_SEC))
      else if hz > MSEC_PER_SEC \<and> m > jiffies_to_msecs hz c MAX_JIFFY_OFFSET then MAX_JIFFY_OFFSET
      else drop_bit (from_shr32 c) (take_bit 64 (from_mul32 c * m + from_adj32 c)))"

definition usecs_to_jiffies :: "int \<Rightarrow> timeconst \<Rightarrow> int \<Rightarrow> int" where
  "usecs_to_jiffies hz c u =
     (if u > jiffies_to_usecs hz c MAX_JIFFY_OFFSET then MAX_JIFFY_OFFSET
      else if hz \<le> USEC_PER_SEC \<and> USEC_PER_SEC mod hz = 0 then (u + USEC_PER_SEC div hz - 1) div (USEC_PER_SEC div hz)
      else if hz > USEC_PER_SEC \<and> hz mod USEC_PER_SEC = 0 then u * (hz div USEC_PER_SEC)
      else drop_bit (from_shr32 c) (take_bit 64 (from_mul32 c * u + from_adj32 c)))"

text \<open>\<open>gran\<close> is unsigned, the product an unsigned \<open>int\<close>.\<close>

definition timespec_trunc :: "int \<Rightarrow> timeconst \<Rightarrow> timespec \<Rightarrow> int \<Rightarrow> timespec" where
  "timespec_trunc hz c t gran =
     (if gran \<le> take_bit 32 (jiffies_to_usecs hz c 1 * 1000) then t
      else if gran = 1000000000 then t\<lparr>tv_nsec := 0\<rparr>
      else t\<lparr>tv_nsec := tv_nsec t - tv_nsec t smod gran\<rparr>)"

section \<open>Normalisation\<close>

lemma wr_id: "- (2 ^ 63) \<le> x \<Longrightarrow> x < 2 ^ 63 \<Longrightarrow> wr x = x"
  unfolding wr_def by (rule signed_take_bit_int_eq_self) simp_all

lemma wr32_id: "- (2 ^ 31) \<le> x \<Longrightarrow> x < 2 ^ 31 \<Longrightarrow> wr32 x = x"
  unfolding wr32_def by (rule signed_take_bit_int_eq_self) simp_all

lemma wr_range: "- (2 ^ 63) \<le> wr x" "wr x < 2 ^ 63"
  unfolding wr_def using signed_take_bit_int_greater_eq_minus_exp [of 63 x] signed_take_bit_int_less_exp [of 63 x] by simp_all

lemma wr_eq_sint: "wr x = sint (word_of_int x :: u64)"
  by (simp add: wr_def sint_sbintrunc')

lemma wr_add [simp]: "wr (wr x + y) = wr (x + y)" "wr (x + wr y) = wr (x + y)" "wr (wr x) = wr x" "wr (wr x - y) = wr (x - y)"
  unfolding wr_eq_sint by simp_all

lemma norm_down_eq:
  "norm_down sec nsec = (if nsec \<ge> NSEC_PER_SEC then (wr (sec + nsec div NSEC_PER_SEC), nsec mod NSEC_PER_SEC) else (sec, nsec))"
proof (induction sec nsec rule: norm_down.induct)
  case (1 sec nsec)
  show ?case
  proof (cases "nsec \<ge> NSEC_PER_SEC")
    case True
    define m where "m = nsec - NSEC_PER_SEC"
    have m: "nsec div NSEC_PER_SEC = m div NSEC_PER_SEC + 1" "nsec mod NSEC_PER_SEC = m mod NSEC_PER_SEC" "0 \<le> m"
      using True by (simp_all add: m_def per_sec)
    have "norm_down sec nsec = norm_down (wr (sec + 1)) m" using True by (subst norm_down.simps) (simp add: m_def)
    also have "\<dots> = (if m \<ge> NSEC_PER_SEC then (wr (wr (sec + 1) + m div NSEC_PER_SEC), m mod NSEC_PER_SEC) else (wr (sec + 1), m))"
      using 1 True by (simp add: m_def)
    also have "\<dots> = (wr (sec + nsec div NSEC_PER_SEC), nsec mod NSEC_PER_SEC)"
      using m by (simp add: add.assoc add.commute [of 1])
    finally show ?thesis using True by simp
  qed (simp add: norm_down.simps)
qed

lemma norm_up_eq:
  "norm_up sec nsec = (if nsec < 0 then (wr (sec + nsec div NSEC_PER_SEC), nsec mod NSEC_PER_SEC) else (sec, nsec))"
proof (induction sec nsec rule: norm_up.induct)
  case (1 sec nsec)
  show ?case
  proof (cases "nsec < 0")
    case True
    define m where "m = nsec + NSEC_PER_SEC"
    have m: "nsec div NSEC_PER_SEC = m div NSEC_PER_SEC - 1" "nsec mod NSEC_PER_SEC = m mod NSEC_PER_SEC" "m < NSEC_PER_SEC"
      using True by (simp_all add: m_def per_sec)
    have "norm_up sec nsec = norm_up (wr (sec - 1)) m" using True by (subst norm_up.simps) (simp add: m_def)
    also have "\<dots> = (if m < 0 then (wr (wr (sec - 1) + m div NSEC_PER_SEC), m mod NSEC_PER_SEC) else (wr (sec - 1), m))"
      using 1 True by (simp add: m_def)
    also have "\<dots> = (wr (sec + nsec div NSEC_PER_SEC), nsec mod NSEC_PER_SEC)"
      using m(2,3) unfolding m(1) by (simp add: algebra_simps)
    finally show ?thesis using True by simp
  qed (simp add: norm_up.simps)
qed

lemma set_normalized_timespec_eq:
  assumes "- (2 ^ 63) \<le> sec" "sec < 2 ^ 63"
  shows "set_normalized_timespec sec nsec = \<lparr>tv_sec = wr (sec + nsec div NSEC_PER_SEC), tv_nsec = nsec mod NSEC_PER_SEC\<rparr>"
  using wr_id [OF assms] by (auto simp: set_normalized_timespec_def norm_down_eq norm_up_eq per_sec not_less)

section \<open>Times as numbers of nanoseconds\<close>

definition normalized :: "timespec \<Rightarrow> bool" where
  "normalized ts \<longleftrightarrow> - (2 ^ 63) \<le> tv_sec ts \<and> tv_sec ts < 2 ^ 63 \<and> 0 \<le> tv_nsec ts \<and> tv_nsec ts < NSEC_PER_SEC"

definition total_ns :: "timespec \<Rightarrow> int" where
  "total_ns ts = tv_sec ts * NSEC_PER_SEC + tv_nsec ts"

lemma nsec_nz: "NSEC_PER_SEC \<noteq> 0"
  by (simp add: per_sec)

lemma ns_split:
  fixes a b :: int
  assumes "0 \<le> a" "a < NSEC_PER_SEC" "0 \<le> b" "b < NSEC_PER_SEC"
  shows "(s * NSEC_PER_SEC + a < t * NSEC_PER_SEC + b) \<longleftrightarrow> (s < t \<or> (s = t \<and> a < b))"
    and "(s * NSEC_PER_SEC + a = t * NSEC_PER_SEC + b) \<longleftrightarrow> (s = t \<and> a = b)"
  using assms by (cases s t rule: linorder_cases; simp add: per_sec)+

lemma timespec_compare_spec:
  assumes "normalized x" and "normalized y"
  shows "timespec_compare x y < 0 \<longleftrightarrow> total_ns x < total_ns y" and "timespec_compare x y = 0 \<longleftrightarrow> x = y"
    and "timespec_compare x y > 0 \<longleftrightarrow> total_ns x > total_ns y"
proof -
  have ns: "0 \<le> tv_nsec x" "tv_nsec x < NSEC_PER_SEC" "0 \<le> tv_nsec y" "tv_nsec y < NSEC_PER_SEC"
    using assms by (simp_all add: normalized_def)
  have w: "wr32 (wr (tv_nsec x - tv_nsec y)) = tv_nsec x - tv_nsec y"
    using ns wr_id [of "tv_nsec x - tv_nsec y"] wr32_id [of "tv_nsec x - tv_nsec y"] by (simp add: per_sec)
  show "timespec_compare x y < 0 \<longleftrightarrow> total_ns x < total_ns y"
    unfolding total_ns_def ns_split(1) [OF ns] by (simp add: timespec_compare_def w)
  show "timespec_compare x y > 0 \<longleftrightarrow> total_ns x > total_ns y"
    unfolding total_ns_def ns_split(1) [OF ns(3,4,1,2)] by (auto simp: timespec_compare_def w)
  show "timespec_compare x y = 0 \<longleftrightarrow> x = y"
    by (cases x; cases y) (use w in \<open>auto simp: timespec_compare_def\<close>)
qed

lemma timespec_sub_spec:
  assumes "normalized x" and "normalized y"
  shows "tv_nsec (timespec_sub x y) \<in> {0..<NSEC_PER_SEC}"
    and "tv_sec (timespec_sub x y) = wr ((total_ns x - total_ns y) div NSEC_PER_SEC)"
    and "tv_nsec (timespec_sub x y) = (total_ns x - total_ns y) mod NSEC_PER_SEC"
proof -
  define d where "d = tv_nsec x - tv_nsec y"
  have d: "wr d = d" using assms by (intro wr_id) (auto simp: d_def normalized_def per_sec)
  have t: "total_ns x - total_ns y = d + (tv_sec x - tv_sec y) * NSEC_PER_SEC" by (simp add: total_ns_def d_def algebra_simps)
  have e: "timespec_sub x y = \<lparr>tv_sec = wr (tv_sec x - tv_sec y + d div NSEC_PER_SEC), tv_nsec = d mod NSEC_PER_SEC\<rparr>"
    using wr_range d by (simp add: timespec_sub_def set_normalized_timespec_eq d_def)
  show "tv_nsec (timespec_sub x y) \<in> {0..<NSEC_PER_SEC}" unfolding e by (simp add: per_sec)
  show "tv_sec (timespec_sub x y) = wr ((total_ns x - total_ns y) div NSEC_PER_SEC)"
    unfolding e t by (simp only: timespec.select_convs div_mult_self1 [OF nsec_nz])
  show "tv_nsec (timespec_sub x y) = (total_ns x - total_ns y) mod NSEC_PER_SEC"
    unfolding e t by (simp only: timespec.select_convs mod_mult_self1)
qed

lemma wr_overflow:
  assumes "2 ^ 63 \<le> x" and "x < 2 ^ 64"
  shows "wr x = x - 2 ^ 64"
proof -
  have "(x + 2 ^ 63) mod 2 ^ 64 = (x + 2 ^ 63 - 2 ^ 64) mod 2 ^ 64" by (simp only: minus_mod_self2)
  also have "\<dots> = x + 2 ^ 63 - 2 ^ 64" using assms by (intro mod_pos_pos_trivial) simp_all
  finally show ?thesis by (simp add: wr_def signed_take_bit_eq_take_bit_shift take_bit_eq_mod)
qed

lemma timespec_add_safe_spec:
  assumes x: "normalized x" "0 \<le> tv_sec x" and y: "normalized y" "0 \<le> tv_sec y"
  shows "timespec_add_safe x y =
    \<lparr>tv_sec = min TIME_T_MAX ((total_ns x + total_ns y) div NSEC_PER_SEC), tv_nsec = (total_ns x + total_ns y) mod NSEC_PER_SEC\<rparr>"
proof -
  define n where "n = tv_nsec x + tv_nsec y"
  define k where "k = tv_sec x + tv_sec y + n div NSEC_PER_SEC"
  have n: "0 \<le> n" "n < 2 * NSEC_PER_SEC" "wr n = n"
    using assms wr_id [of n] by (auto simp: n_def normalized_def per_sec)
  have d: "0 \<le> n div NSEC_PER_SEC" "n div NSEC_PER_SEC \<le> 1" using n(1,2) by (simp_all add: per_sec)
  have k: "0 \<le> k" "k < 2 ^ 64" "tv_sec x \<le> k" "tv_sec y \<le> k" using assms d by (simp_all add: k_def normalized_def)
  have t: "total_ns x + total_ns y = n + (tv_sec x + tv_sec y) * NSEC_PER_SEC" by (simp add: total_ns_def n_def algebra_simps)
  have q: "(total_ns x + total_ns y) div NSEC_PER_SEC = k" "(total_ns x + total_ns y) mod NSEC_PER_SEC = n mod NSEC_PER_SEC"
    unfolding t k_def by (simp_all only: div_mult_self1 [OF nsec_nz] mod_mult_self1)
  have e: "set_normalized_timespec (wr (tv_sec x + tv_sec y)) (wr (tv_nsec x + tv_nsec y)) = \<lparr>tv_sec = wr k, tv_nsec = n mod NSEC_PER_SEC\<rparr>"
    using wr_range n by (simp add: set_normalized_timespec_eq k_def n_def)
  show ?thesis
  proof (cases "k < 2 ^ 63")
    case True
    then have "wr k = k" using k by (intro wr_id) simp_all
    then show ?thesis unfolding timespec_add_safe_def e q using True k by (simp add: TIME_T_MAX_def min_def)
  next
    case False
    then have "wr k = k - 2 ^ 64" using k by (intro wr_overflow) simp_all
    then have "wr k < tv_sec x" using k x by simp
    then show ?thesis unfolding timespec_add_safe_def e q using False by (simp add: TIME_T_MAX_def min_def)
  qed
qed

lemma ns_to_timespec_spec:
  assumes "- (2 ^ 63) \<le> nsec" and "nsec < 2 ^ 63"
  shows "ns_to_timespec nsec = Some \<lparr>tv_sec = nsec div NSEC_PER_SEC, tv_nsec = nsec mod NSEC_PER_SEC\<rparr>"
proof (cases "nsec = 0")
  case False
  define q r where "q = nsec sdiv 1000000000" and "r = nsec smod 1000000000"
  have qr: "nsec = q * 1000000000 + r" "\<bar>r\<bar> < 1000000000" using sdiv_smod [of 1000000000 nsec] by (simp_all add: q_def r_def)
  have s: "sint (word_of_int nsec :: u64) = nsec" "sint (1000000000 :: u32) = 1000000000"
    using wr_id [OF assms] by (simp_all add: wr_eq_sint)
  have run: "div_s64_rem (word_of_int nsec) 1000000000 = Some (word_of_int q, word_of_int r)"
    using div_s64_rem_spec [of 1000000000 "word_of_int nsec"] unfolding s q_def r_def by simp
  have "- (2 ^ 62) < q" "q < 2 ^ 62" using qr assms by auto
  then have sq: "sint (word_of_int q :: u64) = q" "wr (q - 1) = q - 1" using wr_id [of q] wr_id [of "q - 1"] by (simp_all add: wr_eq_sint)
  have sr: "sint (word_of_int r :: u32) = r" using qr(2) by (intro sint_word_of_int_small) simp_all
  have w: "wr32 (r + NSEC_PER_SEC) = r + NSEC_PER_SEC" if "r < 0" using that qr(2) by (intro wr32_id) (simp_all add: per_sec)
  have "nsec div NSEC_PER_SEC = (if r < 0 then q - 1 else q)" "nsec mod NSEC_PER_SEC = (if r < 0 then r + NSEC_PER_SEC else r)"
    using qr(2) mod_pos_pos_trivial [of "r + 1000000000" 1000000000] unfolding qr(1) per_sec
    by (auto simp: div_pos_pos_trivial mod_pos_pos_trivial)
  then show ?thesis using False sq sr w by (simp add: ns_to_timespec_def run)
qed (simp add: ns_to_timespec_def)

lemma timespec_add_ns_spec:
  assumes a: "normalized a" and ns: "uint ns < 4294967295 * NSEC_PER_SEC"
  shows "timespec_add_ns a ns = Some \<lparr>tv_sec = wr ((total_ns a + uint ns) div NSEC_PER_SEC), tv_nsec = (total_ns a + uint ns) mod NSEC_PER_SEC\<rparr>"
proof -
  define w where "w = (word_of_int (tv_nsec a) + ns :: u64)"
  define x where "x = tv_nsec a + uint ns"
  have n: "0 \<le> tv_nsec a" "tv_nsec a < 1000000000" using a by (simp_all add: normalized_def per_sec)
  have u: "uint ns < 4294967295000000000" using ns by (simp add: per_sec)
  then have x: "0 \<le> x" "x < 4294967296000000000" using n by (simp_all add: x_def)
  have w: "uint w = x"
    using n u x unfolding w_def x_def by (simp add: uint_word_ariths uint_word_of_int_eq take_bit_eq_mod mod_pos_pos_trivial)
  obtain r where r: "iter_div_u64_rem w 1000000000 = Some (of_nat (unat w div 1000000000), r)" "unat r = unat w mod 1000000000"
    using iter_div_loop_spec [of 1000000000 w 0] by (auto simp: iter_div_u64_rem_def)
  have uw: "int (unat w) = x" using w by simp
  define k where "k = unat w div 1000000000"
  have k: "int k = x div 1000000000" unfolding k_def uw [symmetric] by (simp only: zdiv_int of_nat_numeral)
  have "x div 1000000000 \<le> 4294967295999999999 div 1000000000" using x(2) by (intro zdiv_mono1) linarith+
  then have "0 \<le> int k" "int k < 2 ^ 32" unfolding k [symmetric] by simp_all
  moreover have "uint (of_nat k :: u32) = take_bit 32 (int k)" by (simp add: unsigned_of_nat take_bit_of_nat)
  ultimately have q: "uint (of_nat k :: u32) = x div 1000000000" unfolding k [symmetric] by (simp only: take_bit_int_eq_self)
  have "int (unat r) = x mod 1000000000" unfolding r(2) uw [symmetric] by (simp only: zmod_int of_nat_numeral)
  then have "uint r = x mod 1000000000" by simp
  moreover have "x mod 1000000000 < 2 ^ 63" by (rule less_trans [of _ 1000000000]) simp_all
  moreover have "- (2 ^ 63) \<le> x mod 1000000000" by (rule order_trans [of _ 0]) simp_all
  ultimately have sr: "sint r = x mod 1000000000" using signed_take_bit_int_eq_self [of 63 "x mod 1000000000"] by (simp add: sint_uint)
  have t: "total_ns a + uint ns = x + tv_sec a * NSEC_PER_SEC" by (simp add: total_ns_def x_def)
  have "(total_ns a + uint ns) div NSEC_PER_SEC = tv_sec a + x div NSEC_PER_SEC" "(total_ns a + uint ns) mod NSEC_PER_SEC = x mod NSEC_PER_SEC"
    unfolding t by (simp_all only: div_mult_self1 [OF nsec_nz] mod_mult_self1)
  then show ?thesis unfolding timespec_add_ns_def w_def [symmetric] r(1) k_def [symmetric] using q sr by (simp add: NSEC_PER_SEC_def)
qed

lemma timespec_trunc_spec:
  assumes "normalized t" and "0 < gran" and "gran \<le> 1000000000"
  shows "normalized (timespec_trunc hz c t gran)" and "total_ns (timespec_trunc hz c t gran) \<le> total_ns t"
    and "total_ns t - total_ns (timespec_trunc hz c t gran) < gran"
    and "take_bit 32 (jiffies_to_usecs hz c 1 * 1000) < gran \<Longrightarrow> gran dvd tv_nsec (timespec_trunc hz c t gran)"
proof -
  define n where "n = tv_nsec t"
  have n: "0 \<le> n" "n < NSEC_PER_SEC" using assms(1) by (simp_all add: n_def normalized_def)
  have m: "n smod gran = n mod gran" using sdiv_smod_nonneg [OF n(1) assms(2)] by simp
  have b: "0 \<le> n mod gran" "n mod gran < gran" "n mod gran \<le> n" using assms(2) n(1) by (simp_all add: zmod_le_nonneg_dividend)
  note d = timespec_trunc_def [of hz c t gran, folded n_def, unfolded m]
  show "normalized (timespec_trunc hz c t gran)" using assms(1) n b by (simp add: d normalized_def per_sec)
  show "total_ns (timespec_trunc hz c t gran) \<le> total_ns t" "total_ns t - total_ns (timespec_trunc hz c t gran) < gran"
    using assms n b by (simp_all add: d total_ns_def per_sec n_def [symmetric])
  show "gran dvd tv_nsec (timespec_trunc hz c t gran)" if "take_bit 32 (jiffies_to_usecs hz c 1 * 1000) < gran"
    using that by (simp add: d n_def [symmetric] minus_mod_eq_mult_div)
qed

section \<open>Timeouts\<close>

lemma div_up:
  fixes m c :: int
  assumes "0 < c"
  shows "m \<le> (m + c - 1) div c * c" and "(m + c - 1) div c * c < m + c"
proof -
  have "(m + c - 1) div c * c + (m + c - 1) mod c = m + c - 1" by (rule div_mult_mod_eq)
  moreover have "0 \<le> (m + c - 1) mod c" "(m + c - 1) mod c < c" using assms by simp_all
  ultimately show "m \<le> (m + c - 1) div c * c" "(m + c - 1) div c * c < m + c" by linarith+
qed

text \<open>
  \<open>usecs_to_jiffies\<close> means to return the largest offset for times beyond it, but the bound it compares with is truncated
  to 32 bits: with 64-bit longs the largest 32-bit times, little more than an hour, become infinite.
\<close>

lemma usecs_to_jiffies_infinite: "usecs_to_jiffies 1000 c 4294967295 = MAX_JIFFY_OFFSET"
  by (simp add: usecs_to_jiffies_def jiffies_to_usecs_def jiffies_to_units_def per_sec MAX_JIFFY_OFFSET_def
      drop_bit_eq_div take_bit_eq_mod)



section \<open>Arithmetic\<close>

text \<open>
  C38. Arithmetic on normalised times: \<open>timespec_compare\<close> orders them by their number of nanoseconds, \<open>timespec_sub\<close> is
  their difference, normalised, with the seconds wrapped to 64 bits, \<open>timespec_add_safe\<close> is the sum of times that are not
  negative, with the seconds saturated at the largest value, and \<open>timespec_add_ns\<close> adds up to \<open>2 ^ 32 - 1\<close> seconds.
\<close>

theorem timespec_ok:
  assumes "normalized x" and "normalized y"
  shows "(timespec_compare x y < 0 \<longleftrightarrow> total_ns x < total_ns y) \<and> (timespec_compare x y = 0 \<longleftrightarrow> x = y) \<and>
    timespec_sub x y = \<lparr>tv_sec = wr ((total_ns x - total_ns y) div NSEC_PER_SEC), tv_nsec = (total_ns x - total_ns y) mod NSEC_PER_SEC\<rparr> \<and>
    (0 \<le> tv_sec x \<and> 0 \<le> tv_sec y \<longrightarrow> timespec_add_safe x y =
      \<lparr>tv_sec = min TIME_T_MAX ((total_ns x + total_ns y) div NSEC_PER_SEC), tv_nsec = (total_ns x + total_ns y) mod NSEC_PER_SEC\<rparr>) \<and>
    (\<forall>ns. uint ns < 4294967295 * NSEC_PER_SEC \<longrightarrow> timespec_add_ns x ns =
      Some \<lparr>tv_sec = wr ((total_ns x + uint ns) div NSEC_PER_SEC), tv_nsec = (total_ns x + uint ns) mod NSEC_PER_SEC\<rparr>)"
  using timespec_compare_spec [OF assms] timespec_sub_spec [OF assms] timespec_add_safe_spec [OF assms(1) _ assms(2)]
    timespec_add_ns_spec [OF assms(1)] by (intro conjI impI allI) (simp_all add: timespec.equality)

theorem timespec_ok_witness:
  "timespec_add_safe \<lparr>tv_sec = TIME_T_MAX, tv_nsec = 600000000\<rparr> \<lparr>tv_sec = 1, tv_nsec = 500000000\<rparr> = \<lparr>tv_sec = TIME_T_MAX, tv_nsec = 100000000\<rparr>"
proof -
  let ?x = "\<lparr>tv_sec = TIME_T_MAX, tv_nsec = 600000000\<rparr>" and ?y = "\<lparr>tv_sec = 1, tv_nsec = 500000000\<rparr>"
  have "normalized ?x" "normalized ?y" by (simp_all add: normalized_def TIME_T_MAX_def per_sec)
  from timespec_ok [OF this] have "0 \<le> tv_sec ?x \<and> 0 \<le> tv_sec ?y \<longrightarrow> timespec_add_safe ?x ?y =
      \<lparr>tv_sec = min TIME_T_MAX ((total_ns ?x + total_ns ?y) div NSEC_PER_SEC), tv_nsec = (total_ns ?x + total_ns ?y) mod NSEC_PER_SEC\<rparr>"
    by blast
  then show ?thesis by (simp add: total_ns_def TIME_T_MAX_def per_sec)
qed

text \<open>
  C39. Nanoseconds and times: for every signed 64-bit number of nanoseconds, negative ones included, \<open>ns_to_timespec\<close>
  yields a normalised time that \<open>timespec_to_ns\<close> converts back, and \<open>ns_to_timeval\<close> the same time rounded down to
  microseconds.
\<close>

theorem ns_timespec_roundtrip:
  assumes "- (2 ^ 63) \<le> nsec" and "nsec < 2 ^ 63"
  shows "\<exists>ts tv. ns_to_timespec nsec = Some ts \<and> normalized ts \<and> timespec_to_ns ts = nsec \<and>
    ns_to_timeval nsec = Some tv \<and> tv_usec tv \<in> {0..<1000000} \<and> tvl_sec tv * 1000000 + tv_usec tv = nsec div 1000"
proof -
  define q r where "q = nsec div NSEC_PER_SEC" and "r = nsec mod NSEC_PER_SEC"
  have qr: "nsec = q * NSEC_PER_SEC + r" "0 \<le> r" "r < NSEC_PER_SEC" by (simp_all add: q_def r_def per_sec)
  have e: "ns_to_timespec nsec = Some \<lparr>tv_sec = q, tv_nsec = r\<rparr>" unfolding q_def r_def by (rule ns_to_timespec_spec [OF assms])
  have q: "- (2 ^ 62) < q" "q < 2 ^ 62" using qr assms by (auto simp: per_sec)
  have "timespec_to_ns \<lparr>tv_sec = q, tv_nsec = r\<rparr> = wr nsec" unfolding qr(1) by (simp add: timespec_to_ns_def)
  then have "timespec_to_ns \<lparr>tv_sec = q, tv_nsec = r\<rparr> = nsec" using wr_id [OF assms] by simp
  moreover have "normalized \<lparr>tv_sec = q, tv_nsec = r\<rparr>" using q qr by (simp add: normalized_def)
  moreover have "ns_to_timeval nsec = Some \<lparr>tvl_sec = q, tv_usec = r div 1000\<rparr>"
    using sdiv_smod_nonneg [of r 1000] qr(2) by (simp add: ns_to_timeval_def e)
  moreover have "0 \<le> r div 1000" "r div 1000 < 1000000" using qr(2,3) by (simp_all add: per_sec)
  moreover have "nsec div 1000 = q * 1000000 + r div 1000" unfolding qr(1) by (simp add: per_sec)
  ultimately show ?thesis using e by simp
qed

theorem ns_timespec_roundtrip_witness:
  "\<exists>ts tv. ns_to_timespec (- 1) = Some ts \<and> normalized ts \<and> timespec_to_ns ts = - 1 \<and>
    ns_to_timeval (- 1) = Some tv \<and> tv_usec tv \<in> {0..<1000000} \<and> tvl_sec tv * 1000000 + tv_usec tv = - 1 div 1000"
  by (rule ns_timespec_roundtrip) simp_all

end
