(* ===== verification/Num_Parse.thy ===== *)
theory Num_Parse
  imports C_String_Search
begin

text \<open>
  Numbers in text, \<open>lib/vsprintf.c\<close>: the conversions from strings, \<open>simple_strtoull\<close> and \<open>strict_strtoull\<close> with
  their variants.  Pointers are indices into a memory of bytes, as for \<open>lib/string.c\<close>; an unsigned long is an
  unsigned long long here.
\<close>

section \<open>Model\<close>

definition TOLOWER :: "u8 \<Rightarrow> u8" where
  "TOLOWER x = x OR 0x20"

definition simple_guess_base :: "memory \<Rightarrow> nat \<Rightarrow> u32 option" where
  "simple_guess_base mem cp = do {
     c0 \<leftarrow> aget mem cp;
     if c0 = 0x30
     then do {
       c1 \<leftarrow> aget mem (cp + 1);
       if TOLOWER c1 = 0x78 then do { c2 \<leftarrow> aget mem (cp + 2); Some (if isxdigit c2 then 16 else 8) } else Some 8 }
     else Some 10 }"

definition digit_value :: "u8 \<Rightarrow> u32" where
  "digit_value c = (if isdigit c then ucast c - 0x30 else ucast (TOLOWER c) - 0x61 + 10)"

function strtoull_loop :: "memory \<Rightarrow> nat \<Rightarrow> u32 \<Rightarrow> u64 \<Rightarrow> (u64 \<times> nat) option" where
  "strtoull_loop mem cp base result = do {
     c \<leftarrow> aget mem cp;
     if isxdigit c
     then (if digit_value c \<ge> base then Some (result, cp)
           else strtoull_loop mem (cp + 1) base (result * ucast base + ucast (digit_value c)))
     else Some (result, cp) }"
  by pat_completeness auto
termination
  by (relation "measure (\<lambda>(mem, cp, base, result). length mem - cp)") (auto simp: aget_eq_Some_iff)

declare strtoull_loop.simps [simp del]

text \<open>The value and the end pointer.\<close>

definition simple_strtoull :: "memory \<Rightarrow> nat \<Rightarrow> u32 \<Rightarrow> (u64 \<times> nat) option" where
  "simple_strtoull mem cp base = do {
     base \<leftarrow> (if base = 0 then simple_guess_base mem cp else Some base);
     cp \<leftarrow> (if base = 16
           then do {
             c0 \<leftarrow> aget mem cp;
             if c0 = 0x30 then do { c1 \<leftarrow> aget mem (cp + 1); Some (if TOLOWER c1 = 0x78 then cp + 2 else cp) } else Some cp }
           else Some cp);
     strtoull_loop mem cp base 0 }"

definition simple_strtoul :: "memory \<Rightarrow> nat \<Rightarrow> u32 \<Rightarrow> (u64 \<times> nat) option" where
  "simple_strtoul mem cp base = simple_strtoull mem cp base"

definition simple_strtol :: "memory \<Rightarrow> nat \<Rightarrow> u32 \<Rightarrow> (u64 \<times> nat) option" where
  "simple_strtol mem cp base = do {
     c \<leftarrow> aget mem cp;
     if c = 0x2D then do { (v, e) \<leftarrow> simple_strtoul mem (cp + 1) base; Some (- v, e) } else simple_strtoul mem cp base }"

definition simple_strtoll :: "memory \<Rightarrow> nat \<Rightarrow> u32 \<Rightarrow> (u64 \<times> nat) option" where
  "simple_strtoll mem cp base = do {
     c \<leftarrow> aget mem cp;
     if c = 0x2D then do { (v, e) \<leftarrow> simple_strtoull mem (cp + 1) base; Some (- v, e) } else simple_strtoull mem cp base }"

text \<open>The returned error number and \<open>*res\<close>.\<close>

definition strict_strtoull :: "memory \<Rightarrow> nat \<Rightarrow> u32 \<Rightarrow> (int \<times> u64) option" where
  "strict_strtoull mem cp base = do {
     len \<leftarrow> strlen mem cp;
     if len = 0 then Some (- EINVAL, 0)
     else do {
       (val, tail) \<leftarrow> simple_strtoull mem cp base;
       if tail = cp then Some (- EINVAL, 0)
       else do {
         c \<leftarrow> aget mem tail;
         if c = 0 \<or> len = tail - cp + 1 \<and> c = 0x0A then Some (0, val) else Some (- EINVAL, 0) } } }"

definition strict_strtoul :: "memory \<Rightarrow> nat \<Rightarrow> u32 \<Rightarrow> (int \<times> u64) option" where
  "strict_strtoul mem cp base = do {
     len \<leftarrow> strlen mem cp;
     if len = 0 then Some (- EINVAL, 0)
     else do {
       (val, tail) \<leftarrow> simple_strtoul mem cp base;
       if tail = cp then Some (- EINVAL, 0)
       else do {
         c \<leftarrow> aget mem tail;
         if c = 0 \<or> len = tail - cp + 1 \<and> c = 0x0A then Some (0, val) else Some (- EINVAL, 0) } } }"

definition strict_strtol :: "memory \<Rightarrow> nat \<Rightarrow> u32 \<Rightarrow> (int \<times> u64) option" where
  "strict_strtol mem cp base = do {
     c \<leftarrow> aget mem cp;
     if c = 0x2D
     then do { (ret, res) \<leftarrow> strict_strtoul mem (cp + 1) base; Some (ret, if ret = 0 then - res else res) }
     else strict_strtoul mem cp base }"

definition strict_strtoll :: "memory \<Rightarrow> nat \<Rightarrow> u32 \<Rightarrow> (int \<times> u64) option" where
  "strict_strtoll mem cp base = do {
     c \<leftarrow> aget mem cp;
     if c = 0x2D
     then do { (ret, res) \<leftarrow> strict_strtoull mem (cp + 1) base; Some (ret, if ret = 0 then - res else res) }
     else strict_strtoull mem cp base }"

section \<open>Digits\<close>

lemma digit_masks: "map (\<lambda>m. (m AND ct_D \<noteq> 0, m AND (ct_D OR ct_X) \<noteq> 0)) ctype_table
  = replicate 48 (False, False) @ replicate 10 (True, True) @ replicate 7 (False, False) @ replicate 6 (False, True)
    @ replicate 26 (False, False) @ replicate 6 (False, True) @ replicate 153 (False, False)"
  by code_simp

lemma unat_u8: "unat (c :: u8) < 256"
proof -
  have "unat c < 2 ^ LENGTH(8)" by (rule unsigned_less)
  then show ?thesis by simp
qed

lemma digit_classes:
  "isdigit c \<longleftrightarrow> 48 \<le> unat c \<and> unat c \<le> 57"
  "isxdigit c \<longleftrightarrow> isdigit c \<or> 65 \<le> unat c \<and> unat c \<le> 70 \<or> 97 \<le> unat c \<and> unat c \<le> 102"
proof -
  have "length ctype_table = 256" by (simp add: ctype_table_def)
  then have l: "unat c < length ctype_table" using unat_u8 [of c] by simp
  have "(isdigit c, isxdigit c) = map (\<lambda>m. (m AND ct_D \<noteq> 0, m AND (ct_D OR ct_X) \<noteq> 0)) ctype_table ! unat c"
    using l by (simp add: isdigit_def isxdigit_def raw_ismask_def)
  then have e: "(isdigit c, isxdigit c) = (48 \<le> unat c \<and> unat c \<le> 57,
      48 \<le> unat c \<and> unat c \<le> 57 \<or> 65 \<le> unat c \<and> unat c \<le> 70 \<or> 97 \<le> unat c \<and> unat c \<le> 102)"
    unfolding digit_masks using l \<open>length ctype_table = 256\<close> by (auto simp: nth_append split: if_splits)
  then show "isdigit c \<longleftrightarrow> 48 \<le> unat c \<and> unat c \<le> 57"
    "isxdigit c \<longleftrightarrow> isdigit c \<or> 65 \<le> unat c \<and> unat c \<le> 70 \<or> 97 \<le> unat c \<and> unat c \<le> 102" by auto
qed

text \<open>The digit a character stands for.\<close>

definition digit_nat :: "u8 \<Rightarrow> nat" where
  "digit_nat c = (if unat c \<le> 57 then unat c - 48 else if unat c \<le> 70 then unat c - 55 else unat c - 87)"

lemma digit_value_eq:
  assumes "isxdigit c"
  shows "unat (digit_value c) = digit_nat c"
proof (cases "isdigit c")
  case True
  then have u: "48 \<le> unat c" "unat c \<le> 57" by (simp_all add: digit_classes(1))
  have "unat (ucast c - 0x30 :: u32) = unat c - 48"
    using u by (subst unat_sub_nowrap) (simp_all add: unsigned_ucast_eq take_bit_nat_eq_self)
  then show ?thesis using True u by (simp add: digit_value_def digit_nat_def)
next
  case False
  then have u: "65 \<le> unat c \<and> unat c \<le> 70 \<or> 97 \<le> unat c \<and> unat c \<le> 102" using assms digit_classes(2) [of c] by blast
  then have "unat c \<in> {65, 66, 67, 68, 69, 70, 97, 98, 99, 100, 101, 102}" unfolding insert_iff empty_iff by arith
  then have "c \<in> {65, 66, 67, 68, 69, 70, 97, 98, 99, 100, 101, 102}" by (auto simp: word_unat_eq_iff)
  then show ?thesis using False by (auto simp: digit_value_def digit_nat_def TOLOWER_def)
qed

lemma digit_nat_less: "isxdigit c \<Longrightarrow> digit_nat c < 16"
  by (auto simp: digit_nat_def digit_classes)

definition digit_of :: "nat \<Rightarrow> u8 \<Rightarrow> bool" where
  "digit_of b c \<longleftrightarrow> isxdigit c \<and> digit_nat c < b"

definition num_value :: "nat \<Rightarrow> u8 list \<Rightarrow> nat" where
  "num_value b ds = foldl (\<lambda>n c. n * b + digit_nat c) 0 ds"

lemma not_xdigit_0: "\<not> isxdigit 0" "\<not> isxdigit 10"
  by (simp_all add: digit_classes)

lemma strtoull_loop_spec:
  "cstring mem s xs \<Longrightarrow> strtoull_loop mem s b r
    = Some (foldl (\<lambda>r c. r * ucast b + ucast (digit_value c)) r (takeWhile (digit_of (unat b)) xs), s + length (takeWhile (digit_of (unat b)) xs))"
proof (induction xs arbitrary: s r)
  case Nil
  then show ?case by (subst strtoull_loop.simps) (simp add: not_xdigit_0)
next
  case (Cons x xs)
  then have x: "aget mem s = Some x" "cstring mem (s + 1) xs" by simp_all
  have "isxdigit x \<Longrightarrow> digit_value x \<ge> b \<longleftrightarrow> \<not> digit_nat x < unat b"
    by (simp add: word_le_nat_alt digit_value_eq not_less)
  then show ?case using x(1) Cons.IH [OF x(2)] by (subst strtoull_loop.simps) (auto simp: digit_of_def [of _ x])
qed

lemma fold_value:
  "list_all isxdigit ds \<Longrightarrow> foldl (\<lambda>r c. r * ucast b + ucast (digit_value c)) (of_nat n) ds
    = (of_nat (foldl (\<lambda>n c. n * unat b + digit_nat c) n ds) :: u64)" for b :: u32
proof (induction ds arbitrary: n)
  case (Cons c ds)
  have u: "(ucast x :: u64) = of_nat (unat x)" for x :: u32 by simp
  have "of_nat n * ucast b + ucast (digit_value c) = (of_nat (n * unat b + digit_nat c) :: u64)"
    unfolding u using Cons.prems by (simp add: digit_value_eq del: of_nat_unat)
  moreover have "list_all isxdigit ds" using Cons.prems by simp
  ultimately show ?case unfolding foldl_Cons by (simp only: Cons.IH)
qed simp

text \<open>The base a string is read in, the characters a prefix takes, and the digits.\<close>

definition guessed :: "u8 list \<Rightarrow> nat" where
  "guessed xs = (case xs of c0 # c1 # c2 # _ \<Rightarrow> if c0 = 0x30 then (if c1 \<in> {0x58, 0x78} \<and> isxdigit c2 then 16 else 8) else 10
     | c0 # _ \<Rightarrow> if c0 = 0x30 then 8 else 10 | [] \<Rightarrow> 10)"

definition base_of :: "nat \<Rightarrow> u8 list \<Rightarrow> nat" where
  "base_of b xs = (if b = 0 then guessed xs else b)"

definition prefix_len :: "nat \<Rightarrow> u8 list \<Rightarrow> nat" where
  "prefix_len b xs = (case xs of c0 # c1 # _ \<Rightarrow> if base_of b xs = 16 \<and> c0 = 0x30 \<and> c1 \<in> {0x58, 0x78} then 2 else 0 | _ \<Rightarrow> 0)"

definition digits_of :: "nat \<Rightarrow> u8 list \<Rightarrow> u8 list" where
  "digits_of b xs = takeWhile (digit_of (base_of b xs)) (drop (prefix_len b xs) xs)"

lemma TOLOWER_x: "TOLOWER c = 0x78 \<longleftrightarrow> c \<in> {0x58, 0x78}"
proof -
  have "list_all (\<lambda>n. ((of_nat n :: u8) OR 0x20 = 0x78) = (n = 88 \<or> n = 120)) [0..<256]" by code_simp
  moreover have "unat c \<in> set [0..<256]" using unat_u8 [of c] by simp
  ultimately have "(of_nat (unat c) OR 0x20 = (0x78 :: u8)) = (unat c = 88 \<or> unat c = 120)" unfolding list_all_iff by blast
  then show ?thesis by (simp add: TOLOWER_def word_unat_eq_iff)
qed

section \<open>Conversions\<close>

lemma guess_base_spec: "cstring mem s xs \<Longrightarrow> simple_guess_base mem s = Some (of_nat (guessed xs))"
proof (cases xs)
  case Nil
  assume "cstring mem s xs"
  then show ?thesis using Nil by (simp add: simple_guess_base_def guessed_def)
next
  case (Cons c0 ys)
  assume c: "cstring mem s xs"
  show ?thesis
  proof (cases ys)
    case Nil
    then show ?thesis using c Cons by (simp add: simple_guess_base_def guessed_def TOLOWER_x)
  next
    case (Cons c1 zs)
    then show ?thesis using c \<open>xs = c0 # ys\<close>
      by (cases zs) (auto simp: simple_guess_base_def guessed_def TOLOWER_x not_xdigit_0)
  qed
qed

lemma guessed_range: "guessed xs \<in> {8, 10, 16}"
  by (auto simp: guessed_def split: list.splits)

lemma base_of_word: "unat (if b = 0 then of_nat (guessed xs) else b :: u32) = base_of (unat b) xs"
  using guessed_range [of xs] by (auto simp: base_of_def unat_eq_0)

lemma prefix_spec:
  fixes w :: u32
  assumes c: "cstring mem s xs" and w: "unat w = base_of (unat b) xs"
  shows "(if w = 16 then do { c0 \<leftarrow> aget mem s;
             if c0 = 0x30 then do { c1 \<leftarrow> aget mem (s + 1); Some (if TOLOWER c1 = 0x78 then s + 2 else s) } else Some s }
           else Some s) = Some (s + prefix_len (unat b) xs)"
proof -
  have w16: "w = (16 :: u32) \<longleftrightarrow> base_of (unat b) xs = 16" using w by (simp add: word_unat_eq_iff)
  show ?thesis
  proof (cases xs)
    case Nil
    then show ?thesis using c by (simp add: prefix_len_def)
  next
    case (Cons c0 ys)
    then show ?thesis using c w16 by (cases ys) (auto simp: prefix_len_def TOLOWER_x)
  qed
qed

lemma prefix_len_le: "prefix_len b xs \<le> length xs"
  by (simp add: prefix_len_def split: list.split)

lemma simple_strtoull_spec:
  assumes c: "cstring mem s xs"
  shows "simple_strtoull mem s b = Some (of_nat (num_value (base_of (unat b) xs) (digits_of (unat b) xs)),
    s + prefix_len (unat b) xs + length (digits_of (unat b) xs))"
proof -
  define w where "w = (if b = 0 then of_nat (guessed xs) else b)"
  have w: "unat w = base_of (unat b) xs" unfolding w_def by (rule base_of_word)
  have base: "(if b = 0 then simple_guess_base mem s else Some b) = Some w" by (simp add: w_def guess_base_spec [OF c])
  have x: "list_all isxdigit (digits_of (unat b) xs)" unfolding digits_of_def list_all_iff
    using set_takeWhileD by (fastforce simp: digit_of_def)
  have "strtoull_loop mem (s + prefix_len (unat b) xs) w 0 = Some (of_nat (num_value (base_of (unat b) xs) (digits_of (unat b) xs)),
    s + prefix_len (unat b) xs + length (digits_of (unat b) xs))"
    using strtoull_loop_spec [OF cstring_drop [OF c prefix_len_le], of "unat b" w 0] fold_value [OF x, of w 0]
    by (simp add: w digits_of_def num_value_def)
  then show ?thesis unfolding simple_strtoull_def base by (simp only: bind.bind_lunit prefix_spec [OF c w])
qed

text \<open>When a string is a number, and the value it has.\<close>

definition accepted :: "nat \<Rightarrow> u8 list \<Rightarrow> bool" where
  "accepted b xs \<longleftrightarrow> (let n = prefix_len b xs + length (digits_of b xs) in 0 < n \<and> (drop n xs = [] \<or> drop n xs = [0x0A]))"

definition parsed :: "nat \<Rightarrow> u8 list \<Rightarrow> int \<times> u64" where
  "parsed b xs = (if accepted b xs then (0, of_nat (num_value (base_of b xs) (digits_of b xs))) else (- EINVAL, 0))"

lemma digits_len: "prefix_len b xs + length (digits_of b xs) \<le> length xs"
  using prefix_len_le [of b xs] length_takeWhile_le [of "digit_of (base_of b xs)" "drop (prefix_len b xs) xs"]
  by (simp add: digits_of_def)

lemma strict_strtoull_spec:
  assumes c: "cstring mem s xs"
  shows "strict_strtoull mem s b = Some (parsed (unat b) xs)"
proof -
  define n where "n = prefix_len (unat b) xs + length (digits_of (unat b) xs)"
  have n: "n \<le> length xs" unfolding n_def by (rule digits_len)
  have t: "aget mem (s + n) = Some ((xs @ [0]) ! n)" by (rule cstring_nth [OF c n])
  have sim: "simple_strtoull mem s b = Some (of_nat (num_value (base_of (unat b) xs) (digits_of (unat b) xs)), s + n)"
    using simple_strtoull_spec [OF c] by (simp add: n_def)
  have nz: "0 \<notin> set xs" by (rule cstring_nonzero [OF c])
  have "n < length xs \<Longrightarrow> xs ! n \<noteq> 0" using nz by (metis nth_mem)
  then have e: "drop n xs = [] \<longleftrightarrow> (xs @ [0]) ! n = 0" using n by (auto simp: nth_append le_less)
  have nl: "drop n xs = [0x0A] \<longleftrightarrow> length xs = n + 1 \<and> (xs @ [0]) ! n = 0x0A"
    using n by (cases "n < length xs") (auto simp: nth_append Cons_nth_drop_Suc [symmetric] le_less)
  show ?thesis
  proof (cases "xs = []")
    case True
    then have "n = 0" using n by simp
    then have "\<not> accepted (unat b) xs" unfolding accepted_def Let_def n_def [symmetric] by simp
    then show ?thesis using True by (simp add: strict_strtoull_def strlen_spec [OF c] parsed_def)
  next
    case False
    then show ?thesis
      unfolding strict_strtoull_def strlen_spec [OF c] bind.bind_lunit sim prod.case
      using t e nl by (auto simp: parsed_def accepted_def Let_def n_def [symmetric])
  qed
qed

lemma strict_strtoul_eq: "strict_strtoul = strict_strtoull"
  by (intro ext) (unfold strict_strtoul_def strict_strtoull_def simple_strtoul_def, rule refl)

definition parsed_signed :: "nat \<Rightarrow> u8 list \<Rightarrow> int \<times> u64" where
  "parsed_signed b xs = (case xs of c # ys \<Rightarrow> if c = 0x2D then (fst (parsed b ys), - snd (parsed b ys)) else parsed b xs | [] \<Rightarrow> parsed b xs)"

lemma strict_strtoll_spec:
  assumes c: "cstring mem s xs"
  shows "strict_strtoll mem s b = Some (parsed_signed (unat b) xs)" and "strict_strtol mem s b = Some (parsed_signed (unat b) xs)"
proof -
  have "snd (parsed k ys) = - snd (parsed k ys)" if "fst (parsed k ys) \<noteq> 0" for k ys
    using that by (auto simp: parsed_def split: if_splits)
  then show "strict_strtoll mem s b = Some (parsed_signed (unat b) xs)"
    using c strict_strtoull_spec [OF c, of b] by (cases xs) (auto simp: strict_strtoll_def parsed_signed_def strict_strtoull_spec case_prod_beta intro: prod_eqI)
  then show "strict_strtol mem s b = Some (parsed_signed (unat b) xs)"
    unfolding strict_strtoll_def strict_strtol_def strict_strtoul_eq .
qed

text \<open>
  Two deviations from the documented \<open>really an unsigned long string\<close>: a prefix without digits is accepted as zero, and
  a number that does not fit is accepted with its value reduced.
\<close>

lemma strict_strtoull_lax:
  "strict_strtoull [0x30, 0x78, 0] 0 16 = Some (0, 0)"
  "cstring mem s (map (\<lambda>d. of_nat (48 + d)) [1,8,4,4,6,7,4,4,0,7,3,7,0,9,5,5,1,6,1,6]) \<Longrightarrow> strict_strtoull mem s 10 = Some (0, 0)"
proof -
  have "cstring [0x30, 0x78, 0] 0 [0x30, 0x78]" by (simp add: aget_def)
  from strict_strtoull_spec [OF this, of 16] show "strict_strtoull [0x30, 0x78, 0] 0 16 = Some (0, 0)"
    by (simp add: parsed_def accepted_def prefix_len_def base_of_def digits_of_def num_value_def)
next
  assume "cstring mem s (map (\<lambda>d. of_nat (48 + d)) [1,8,4,4,6,7,4,4,0,7,3,7,0,9,5,5,1,6,1,6])"
  from strict_strtoull_spec [OF this, of 10] show "strict_strtoull mem s 10 = Some (0, 0)"
    by (simp add: parsed_def accepted_def prefix_len_def base_of_def digits_of_def num_value_def digit_of_def digit_classes digit_nat_def)
qed



end
