(* ===== verification/Num_Print.thy ===== *)
theory Num_Print
  imports Num_Parse Timespec
begin

text \<open>
  Numbers and strings as text, \<open>lib/vsprintf.c\<close>: \<open>put_dec\<close>, \<open>number\<close> and \<open>string\<close>.  The output goes to a buffer of
  its own; every character is written only below \<open>end\<close>, while the position advances beyond it, and a write outside the
  buffer object is a fault.  The 16-bit field width and precision wrap around.
\<close>

section \<open>Model\<close>

type_synonym out = "u8 list \<times> nat"

text \<open>\<open>if (buf < end) *buf = c; ++buf;\<close>\<close>

definition put :: "nat \<Rightarrow> u8 \<Rightarrow> out \<Rightarrow> out option" where
  "put e c = (\<lambda>(b, s). if s < e then do { b \<leftarrow> aset b s c; Some (b, s + 1) } else Some (b, s + 1))"

text \<open>A write to \<open>tmp[66]\<close>.\<close>

definition push :: "u8 list \<Rightarrow> u8 \<Rightarrow> u8 list option" where
  "push tmp c = (if length tmp < 66 then Some (tmp @ [c]) else None)"

definition ascii_digit :: "u32 \<Rightarrow> u8" where
  "ascii_digit d = ucast (d + 0x30)"

definition put_dec_trunc :: "u8 list \<Rightarrow> u32 \<Rightarrow> u8 list option" where
  "put_dec_trunc buf q = do {
     let d1 = drop_bit 4 q AND 0xf;
     let d2 = drop_bit 8 q AND 0xf;
     let d3 = drop_bit 12 q;
     let d0 = 6 * (d3 + d2 + d1) + (q AND 0xf);
     let q = drop_bit 11 (d0 * 0xcd);
     buf \<leftarrow> push buf (ascii_digit (d0 - 10 * q));
     let d1 = q + 9 * d3 + 5 * d2 + d1;
     if d1 \<noteq> 0
     then do {
       let q = drop_bit 11 (d1 * 0xcd);
       buf \<leftarrow> push buf (ascii_digit (d1 - 10 * q));
       let d2 = q + 2 * d2;
       if d2 \<noteq> 0 \<or> d3 \<noteq> 0
       then do {
         let q = drop_bit 7 (d2 * 0xd);
         buf \<leftarrow> push buf (ascii_digit (d2 - 10 * q));
         let d3 = q + 4 * d3;
         if d3 \<noteq> 0
         then do {
           let q = drop_bit 11 (d3 * 0xcd);
           buf \<leftarrow> push buf (ascii_digit (d3 - 10 * q));
           if q \<noteq> 0 then push buf (ascii_digit q) else Some buf }
         else Some buf }
       else Some buf }
     else Some buf }"

definition put_dec_full :: "u8 list \<Rightarrow> u32 \<Rightarrow> u8 list option" where
  "put_dec_full buf q = do {
     let d1 = drop_bit 4 q AND 0xf;
     let d2 = drop_bit 8 q AND 0xf;
     let d3 = drop_bit 12 q;
     let d0 = 6 * (d3 + d2 + d1) + (q AND 0xf);
     let q = drop_bit 11 (d0 * 0xcd);
     buf \<leftarrow> push buf (ascii_digit (d0 - 10 * q));
     let d1 = q + 9 * d3 + 5 * d2 + d1;
     let q = drop_bit 11 (d1 * 0xcd);
     buf \<leftarrow> push buf (ascii_digit (d1 - 10 * q));
     let d2 = q + 2 * d2;
     let q = drop_bit 7 (d2 * 0xd);
     buf \<leftarrow> push buf (ascii_digit (d2 - 10 * q));
     let d3 = q + 4 * d3;
     let q = drop_bit 11 (d3 * 0xcd);
     buf \<leftarrow> push buf (ascii_digit (d3 - 10 * q));
     push buf (ascii_digit q) }"

partial_function (option) put_dec :: "u8 list \<Rightarrow> u64 \<Rightarrow> u8 list option" where
  "put_dec buf num =
     (if num < 100000 then put_dec_trunc buf (ucast num)
      else do { (num, rem) \<leftarrow> do_div num 100000; buf \<leftarrow> put_dec_full buf rem; put_dec buf num })"

definition fl_ZEROPAD :: u8 where "fl_ZEROPAD = 1"
definition fl_SIGN :: u8 where "fl_SIGN = 2"
definition fl_PLUS :: u8 where "fl_PLUS = 4"
definition fl_SPACE :: u8 where "fl_SPACE = 8"
definition fl_LEFT :: u8 where "fl_LEFT = 16"
definition fl_SMALL :: u8 where "fl_SMALL = 32"
definition fl_SPECIAL :: u8 where "fl_SPECIAL = 64"

datatype format_type =
  FORMAT_TYPE_NONE | FORMAT_TYPE_WIDTH | FORMAT_TYPE_PRECISION | FORMAT_TYPE_CHAR | FORMAT_TYPE_STR | FORMAT_TYPE_PTR
| FORMAT_TYPE_PERCENT_CHAR | FORMAT_TYPE_INVALID | FORMAT_TYPE_LONG_LONG | FORMAT_TYPE_ULONG | FORMAT_TYPE_LONG
| FORMAT_TYPE_UBYTE | FORMAT_TYPE_BYTE | FORMAT_TYPE_USHORT | FORMAT_TYPE_SHORT | FORMAT_TYPE_UINT | FORMAT_TYPE_INT
| FORMAT_TYPE_NRCHARS | FORMAT_TYPE_SIZE_T | FORMAT_TYPE_PTRDIFF

record printf_spec =
  ftype :: format_type
  flags :: u8
  nbase :: u8
  qualifier :: u8
  field_width :: int
  precision :: int

definition wr16 :: "int \<Rightarrow> int" where
  "wr16 x = signed_take_bit 15 x"

definition number_digits :: "u8 list" where
  "number_digits = [0x30, 0x31, 0x32, 0x33, 0x34, 0x35, 0x36, 0x37, 0x38, 0x39, 0x41, 0x42, 0x43, 0x44, 0x45, 0x46]"

lemma unat_drop_bit_less: "0 < k \<Longrightarrow> drop_bit k w \<noteq> 0 \<Longrightarrow> unat (drop_bit k w) < unat w" for w :: u64
proof -
  assume k: "0 < k" "drop_bit k w \<noteq> 0"
  have u: "unat (drop_bit k w) = unat w div 2 ^ k" by (rule unat_shift_right)
  have "0 < unat w" using k(2) by (intro gr0I) (simp add: unat_eq_0)
  moreover have "(1::nat) < 2 ^ k" by (rule one_less_power) (use k(1) in simp_all)
  ultimately show ?thesis unfolding u by (rule div_less_dividend [rotated])
qed

text \<open>The loop for the bases 8 and 16.\<close>

function hex_loop :: "u8 \<Rightarrow> u8 \<Rightarrow> u64 \<Rightarrow> u8 list \<Rightarrow> u8 list option" where
  "hex_loop base locase num tmp = do {
     d \<leftarrow> aget number_digits (unat (ucast num AND (base - 1)));
     tmp \<leftarrow> push tmp (d OR locase);
     let num' = drop_bit (if base = 16 then 4 else 3) num;
     if num' \<noteq> 0 then hex_loop base locase num' tmp else Some tmp }"
  by pat_completeness auto
termination
  by (relation "measure (\<lambda>(base, locase, num, tmp). unat num)") (auto intro: unat_drop_bit_less)

declare hex_loop.simps [simp del]

lemma wr16_range: "- 32768 \<le> wr16 x" "wr16 x < 32768"
  unfolding wr16_def using signed_take_bit_int_greater_eq_minus_exp [of 15 x] signed_take_bit_int_less_exp [of 15 x] by simp_all

lemma wr16_id: "- 32768 \<le> x \<Longrightarrow> x < 32768 \<Longrightarrow> wr16 x = x"
  unfolding wr16_def by (rule signed_take_bit_int_eq_self) simp_all

text \<open>\<open>while (--field_width >= 0)\<close>; the remaining field width is returned.\<close>

function pad :: "nat \<Rightarrow> u8 \<Rightarrow> int \<Rightarrow> out \<Rightarrow> (int \<times> out) option" where
  "pad e c fw out =
     (let fw = wr16 (fw - 1) in if fw \<ge> 0 then do { out \<leftarrow> put e c out; pad e c fw out } else Some (fw, out))"
  by pat_completeness auto
termination
proof (relation "measure (\<lambda>(e, c, fw, out). if 0 \<le> fw \<and> fw \<le> 32767 then nat fw else 40000)")
  fix e c fw out x and y :: out
  assume "x = wr16 (fw - 1)" "0 \<le> x" "put e c out = Some y"
  then show "((e, c, x, y), (e, c, fw, out)) \<in> measure (\<lambda>(e, c, fw, out). if 0 \<le> fw \<and> fw \<le> 32767 then nat fw else 40000)"
    using wr16_range [of "fw - 1"] wr16_id [of "fw - 1"] by (cases "fw = 0") auto
qed simp

declare pad.simps [simp del]

text \<open>\<open>while (i <= --precision)\<close>.\<close>

function zeros :: "nat \<Rightarrow> nat \<Rightarrow> int \<Rightarrow> out \<Rightarrow> out option" where
  "zeros e i prec out =
     (let prec = wr16 (prec - 1) in if int i \<le> prec then do { out \<leftarrow> put e 0x30 out; zeros e i prec out } else Some out)"
  by pat_completeness auto
termination
proof (relation "measure (\<lambda>(e, i, prec, out). if 0 \<le> prec \<and> prec \<le> 32767 then nat prec else 40000)")
  fix e i prec out x and y :: out
  assume "x = wr16 (prec - 1)" "int i \<le> x" "put e 0x30 out = Some y"
  then show "((e, i, x, y), (e, i, prec, out)) \<in> measure (\<lambda>(e, i, prec, out). if 0 \<le> prec \<and> prec \<le> 32767 then nat prec else 40000)"
    using wr16_range [of "prec - 1"] wr16_id [of "prec - 1"] by (cases "prec = 0") auto
qed simp

declare zeros.simps [simp del]

text \<open>\<open>while (--i >= 0)\<close>.\<close>

fun digits_out :: "nat \<Rightarrow> u8 list \<Rightarrow> nat \<Rightarrow> out \<Rightarrow> out option" where
  "digits_out e tmp 0 out = Some out"
| "digits_out e tmp (Suc i) out = do { c \<leftarrow> aget tmp i; out \<leftarrow> put e c out; digits_out e tmp i out }"

definition number :: "nat \<Rightarrow> u64 \<Rightarrow> printf_spec \<Rightarrow> out \<Rightarrow> out option" where
  "number e num spec out = do {
     let need_pfx = (flags spec AND fl_SPECIAL \<noteq> 0 \<and> nbase spec \<noteq> 10);
     let locase = flags spec AND fl_SMALL;
     let fl = (if flags spec AND fl_LEFT \<noteq> 0 then flags spec AND NOT fl_ZEROPAD else flags spec);
     let fw = field_width spec;
     let (sign, num, fw) =
       (if fl AND fl_SIGN \<noteq> 0
        then (if sint num < 0 then (0x2D, - num, wr16 (fw - 1))
              else if fl AND fl_PLUS \<noteq> 0 then (0x2B, num, wr16 (fw - 1))
              else if fl AND fl_SPACE \<noteq> 0 then (0x20, num, wr16 (fw - 1))
              else (0, num, fw))
        else (0, num, fw));
     let fw = (if need_pfx then (if nbase spec = 16 then wr16 (wr16 (fw - 1) - 1) else wr16 (fw - 1)) else fw);
     tmp \<leftarrow> (if num = 0 then push [] 0x30
            else if nbase spec \<noteq> 10 then hex_loop (nbase spec) locase num []
            else put_dec [] num);
     let i = length tmp;
     let prec = (if int i > precision spec then int i else precision spec);
     let fw = wr16 (fw - prec);
     (fw, out) \<leftarrow> (if fl AND (fl_ZEROPAD + fl_LEFT) = 0 then pad e 0x20 fw out else Some (fw, out));
     out \<leftarrow> (if sign \<noteq> 0 then put e sign out else Some out);
     out \<leftarrow> (if need_pfx
            then do { out \<leftarrow> put e 0x30 out; if nbase spec = 16 then put e (0x58 OR locase) out else Some out }
            else Some out);
     (fw, out) \<leftarrow> (if fl AND fl_LEFT = 0 then pad e (if fl AND fl_ZEROPAD \<noteq> 0 then 0x30 else 0x20) fw out else Some (fw, out));
     out \<leftarrow> zeros e i prec out;
     out \<leftarrow> digits_out e tmp i out;
     (fw, out) \<leftarrow> pad e 0x20 fw out;
     Some out }"

section \<open>Decimal digits\<close>

text \<open>The digits of a number, least significant first, and their characters.\<close>

function rdigits :: "nat \<Rightarrow> nat \<Rightarrow> nat list" where
  "rdigits b n = (if n < b \<or> b < 2 then [n] else n mod b # rdigits b (n div b))"
  by pat_completeness auto
termination
  by (relation "measure (\<lambda>(b, n). n)") (auto intro!: div_less_dividend)

declare rdigits.simps [simp del]

definition digit_char :: "nat \<Rightarrow> u8" where
  "digit_char d = of_nat (48 + d)"

definition pushes :: "u8 list \<Rightarrow> u8 list \<Rightarrow> u8 list option" where
  "pushes tmp xs = (if length tmp + length xs \<le> 66 then Some (tmp @ xs) else None)"

lemma pushes_simps [simp]:
  "length tmp \<le> 66 \<Longrightarrow> pushes tmp [] = Some tmp" "push tmp c = pushes tmp [c]"
  "pushes tmp xs \<bind> (\<lambda>t. pushes t ys) = pushes tmp (xs @ ys)"
  by (auto simp: pushes_def push_def)

lemma drop_bit_of_nat: "a < 2 ^ 32 \<Longrightarrow> drop_bit k (of_nat a :: u32) = of_nat (a div 2 ^ k)"
proof -
  assume a: "a < 2 ^ 32"
  have "a div 2 ^ k \<le> a" by simp
  then have "a div 2 ^ k < 2 ^ 32" using a by (rule le_less_trans)
  then show ?thesis using a unat_shift_right [of k "of_nat a :: u32"]
    by (simp add: word_unat_eq_iff unsigned_of_nat take_bit_nat_eq_self)
qed

lemma and_15_of_nat: "(of_nat a AND 15 :: u32) = of_nat (a mod 16)"
proof -
  have "(15 :: u32) = mask 4" by (simp add: mask_eq_exp_minus_1)
  then have "(of_nat a AND 15 :: u32) = take_bit 4 (of_nat a)" by (simp only: take_bit_eq_mask)
  also have "\<dots> = of_nat (take_bit 4 a)" by (simp add: take_bit_of_nat)
  finally show ?thesis by (simp add: take_bit_eq_mod)
qed

lemma div10_trick:
  "a < 1000 \<Longrightarrow> a * 205 div 2048 = a div 10" "a < 69 \<Longrightarrow> a * 13 div 128 = a div 10" for a :: nat
proof -
  define k r where "k = a div 10" and "r = a mod 10"
  have a: "a = 10 * k + r" "r \<le> 9" by (simp_all add: k_def r_def)
  { assume "a < 1000"
    then show "a * 205 div 2048 = a div 10" unfolding k_def [symmetric] using a by (intro div_nat_eqI) auto }
  { assume "a < 69"
    then show "a * 13 div 128 = a div 10" unfolding k_def [symmetric] using a by (intro div_nat_eqI; cases "k \<le> 5") auto }
qed

lemma word_div10:
  "a < 1000 \<Longrightarrow> drop_bit 11 (of_nat a * 205 :: u32) = of_nat (a div 10)"
  "a < 69 \<Longrightarrow> drop_bit 7 (of_nat a * 13 :: u32) = of_nat (a div 10)"
  "(of_nat a - 10 * of_nat (a div 10) :: u32) = of_nat (a mod 10)"
proof -
  { assume a: "a < 1000"
    have "drop_bit 11 (of_nat (a * 205) :: u32) = of_nat (a * 205 div 2 ^ 11)" using a by (intro drop_bit_of_nat) simp
    then show "drop_bit 11 (of_nat a * 205 :: u32) = of_nat (a div 10)" using div10_trick(1) [OF a] by simp }
  { assume a: "a < 69"
    have "drop_bit 7 (of_nat (a * 13) :: u32) = of_nat (a * 13 div 2 ^ 7)" using a by (intro drop_bit_of_nat) simp
    then show "drop_bit 7 (of_nat a * 13 :: u32) = of_nat (a div 10)" using div10_trick(2) [OF a] by simp }
  have "(of_nat a :: u32) = of_nat (10 * (a div 10) + a mod 10)" by simp
  then show "(of_nat a - 10 * of_nat (a div 10) :: u32) = of_nat (a mod 10)" by (simp only: of_nat_add of_nat_mult of_nat_numeral) simp
qed

text \<open>The hexadecimal digits of a number below 100000 give its decimal digits.\<close>

lemma nibbles:
  fixes n :: nat
  assumes "n < 100000"
  obtains c0 c1 c2 c3 where "n = 4096 * c3 + 256 * c2 + 16 * c1 + c0" "c0 \<le> 15" "c1 \<le> 15" "c2 \<le> 15" "c3 \<le> 24"
    "(of_nat n AND 15 :: u32) = of_nat c0" "drop_bit 4 (of_nat n :: u32) AND 15 = of_nat c1"
    "drop_bit 8 (of_nat n :: u32) AND 15 = of_nat c2" "drop_bit 12 (of_nat n :: u32) = of_nat c3"
proof -
  define c0 c1 c2 c3 where "c0 = n mod 16" and "c1 = n div 16 mod 16" and "c2 = n div 256 mod 16" and "c3 = n div 4096"
  have "n div 16 div 16 = n div 256" "n div 256 div 16 = n div 4096" by (simp_all add: div_mult2_eq [symmetric])
  then have "n div 16 = 16 * (n div 256) + c1" "n div 256 = 16 * c3 + c2" "n = 16 * (n div 16) + c0"
    using div_mult_mod_eq [of "n div 16" 16] div_mult_mod_eq [of "n div 256" 16] by (simp_all add: c0_def c1_def c2_def c3_def)
  then have "n = 4096 * c3 + 256 * c2 + 16 * c1 + c0" by linarith
  moreover have "c0 \<le> 15" "c1 \<le> 15" "c2 \<le> 15" by (simp_all add: c0_def c1_def c2_def less_Suc_eq_le [symmetric])
  moreover have "c3 \<le> 24" using assms by (simp add: c3_def)
  ultimately show ?thesis using that [of c3 c2 c1 c0] assms
    by (simp add: drop_bit_of_nat and_15_of_nat c0_def c1_def c2_def c3_def)
qed

lemma ascii_digit_of_nat: "d < 1000 \<Longrightarrow> ascii_digit (of_nat d) = digit_char d"
proof -
  assume d: "d < 1000"
  have "(ucast (of_nat k :: u32) :: u8) = of_nat (take_bit 32 k)" for k by (simp add: unsigned_of_nat)
  from this [of "d + 48"] have "(ucast (of_nat d + 48 :: u32) :: u8) = of_nat (take_bit 32 (d + 48))" by simp
  also have "take_bit 32 (d + 48) = d + 48" using d by (intro take_bit_nat_eq_self) simp
  finally show ?thesis by (simp add: ascii_digit_def digit_char_def add.commute)
qed

text \<open>The values that \<open>put_dec_trunc\<close> and \<open>put_dec_full\<close> compute one after the other.\<close>

lemma decimal_steps:
  fixes n c0 c1 c2 c3 :: nat
  assumes "n = 4096 * c3 + 256 * c2 + 16 * c1 + c0" "c0 \<le> 15" "c1 \<le> 15" "c2 \<le> 15" "c3 \<le> 24"
  defines "d0 \<equiv> 6 * (c3 + c2 + c1) + c0"
  defines "d1 \<equiv> d0 div 10 + 9 * c3 + 5 * c2 + c1"
  defines "d2 \<equiv> d1 div 10 + 2 * c2"
  defines "d3 \<equiv> d2 div 10 + 4 * c3"
  shows "d0 < 1000" "d1 < 1000" "d2 < 69" "d3 < 1000"
    "d0 mod 10 = n mod 10" "d1 mod 10 = n div 10 mod 10" "d2 mod 10 = n div 100 mod 10" "d3 = n div 1000"
    "n div 10 = d1 + 400 * c3 + 20 * c2" "n div 100 = d2 + 40 * c3"
proof -
  have b0: "d0 \<le> 339" using assms(2-5) by (simp add: d0_def)
  then have "d0 div 10 \<le> 33" by linarith
  then have b1: "d1 \<le> 339" using assms(2-5) by (simp add: d1_def)
  then have "d1 div 10 \<le> 33" by linarith
  then have b2: "d2 \<le> 63" using assms(2-5) by (simp add: d2_def)
  then have "d2 div 10 \<le> 6" by linarith
  then have b3: "d3 \<le> 102" using assms(2-5) by (simp add: d3_def)
  show "d0 < 1000" "d1 < 1000" "d2 < 69" "d3 < 1000" using b0 b1 b2 b3 by simp_all
  have n: "n = d0 + 10 * (409 * c3 + 25 * c2 + c1)" using assms(1) by (simp add: d0_def)
  then show "d0 mod 10 = n mod 10" by (simp only: mod_mult_self2)
  have "n div 10 = 409 * c3 + 25 * c2 + c1 + d0 div 10" unfolding n by (rule div_mult_self2) simp
  then show n1: "n div 10 = d1 + 400 * c3 + 20 * c2" by (simp add: d1_def)
  have n1': "n div 10 = d1 + 10 * (40 * c3 + 2 * c2)" using n1 by simp
  then show "d1 mod 10 = n div 10 mod 10" by (simp only: mod_mult_self2)
  have "n div 100 = n div 10 div 10" by (simp add: div_mult2_eq [symmetric])
  also have "\<dots> = 40 * c3 + 2 * c2 + d1 div 10" unfolding n1' by (rule div_mult_self2) simp
  finally show n2: "n div 100 = d2 + 40 * c3" by (simp add: d2_def)
  then have n2': "n div 100 = d2 + 10 * (4 * c3)" by simp
  then show "d2 mod 10 = n div 100 mod 10" by (simp only: mod_mult_self2)
  have "n div 1000 = n div 100 div 10" by (simp add: div_mult2_eq [symmetric])
  also have "\<dots> = 4 * c3 + d2 div 10" unfolding n2' by (rule div_mult_self2) simp
  finally show "d3 = n div 1000" by (simp add: d3_def)
qed

lemma put_dec_full_spec:
  assumes "n < 100000"
  shows "put_dec_full buf (of_nat n) = pushes buf (map digit_char [n mod 10, n div 10 mod 10, n div 100 mod 10, n div 1000 mod 10, n div 10000])"
proof -
  obtain c0 c1 c2 c3 where c: "n = 4096 * c3 + 256 * c2 + 16 * c1 + c0" "c0 \<le> 15" "c1 \<le> 15" "c2 \<le> 15" "c3 \<le> 24"
    and w: "(of_nat n AND 15 :: u32) = of_nat c0" "drop_bit 4 (of_nat n :: u32) AND 15 = of_nat c1"
    "drop_bit 8 (of_nat n :: u32) AND 15 = of_nat c2" "drop_bit 12 (of_nat n :: u32) = of_nat c3" by (rule nibbles [OF assms])
  define d0 where "d0 = 6 * (c3 + c2 + c1) + c0"
  define d1 where "d1 = d0 div 10 + 9 * c3 + 5 * c2 + c1"
  define d2 where "d2 = d1 div 10 + 2 * c2"
  define d3 where "d3 = d2 div 10 + 4 * c3"
  note st = decimal_steps [OF c, folded d0_def, folded d1_def, folded d2_def, folded d3_def]
  have e: "(6 * (of_nat c3 + of_nat c2 + of_nat c1) + of_nat c0 :: u32) = of_nat d0"
    "(of_nat (d0 div 10) + 9 * of_nat c3 + 5 * of_nat c2 + of_nat c1 :: u32) = of_nat d1"
    "(of_nat (d1 div 10) + 2 * of_nat c2 :: u32) = of_nat d2" "(of_nat (d2 div 10) + 4 * of_nat c3 :: u32) = of_nat d3"
    by (simp_all add: d0_def d1_def d2_def d3_def)
  have "n div 10000 = d3 div 10" using st(8) by (simp add: div_mult2_eq [symmetric])
  moreover have "d3 div 10 < 1000" "d0 mod 10 < 1000" "d1 mod 10 < 1000" "d2 mod 10 < 1000" "d3 mod 10 < 1000"
    using st(4) by (simp_all add: less_trans [OF mod_less_divisor])
  ultimately show ?thesis
    unfolding put_dec_full_def Let_def w e word_div10(1) [OF st(1)] word_div10(1) [OF st(2)] word_div10(2) [OF st(3)] word_div10(1) [OF st(4)] word_div10(3)
    by (simp add: ascii_digit_of_nat st(5-8) [symmetric])
qed

lemma rdigits_step: "2 \<le> b \<Longrightarrow> rdigits b n = n mod b # (if n div b = 0 then [] else rdigits b (n div b))"
  by (subst rdigits.simps) (auto simp: div_eq_0_iff)

lemma of_nat_u32_0: "d < 1000 \<Longrightarrow> (of_nat d :: u32) = 0 \<longleftrightarrow> d = 0"
  by (simp add: word_unat_eq_iff unsigned_of_nat take_bit_nat_eq_self)

lemma put_dec_trunc_spec:
  assumes "n < 100000"
  shows "put_dec_trunc buf (of_nat n) = pushes buf (map digit_char (rdigits 10 n))"
proof -
  obtain c0 c1 c2 c3 where c: "n = 4096 * c3 + 256 * c2 + 16 * c1 + c0" "c0 \<le> 15" "c1 \<le> 15" "c2 \<le> 15" "c3 \<le> 24"
    and w: "(of_nat n AND 15 :: u32) = of_nat c0" "drop_bit 4 (of_nat n :: u32) AND 15 = of_nat c1"
    "drop_bit 8 (of_nat n :: u32) AND 15 = of_nat c2" "drop_bit 12 (of_nat n :: u32) = of_nat c3" by (rule nibbles [OF assms])
  define d0 where "d0 = 6 * (c3 + c2 + c1) + c0"
  define d1 where "d1 = d0 div 10 + 9 * c3 + 5 * c2 + c1"
  define d2 where "d2 = d1 div 10 + 2 * c2"
  define d3 where "d3 = d2 div 10 + 4 * c3"
  note st = decimal_steps [OF c, folded d0_def, folded d1_def, folded d2_def, folded d3_def]
  have e: "(6 * (of_nat c3 + of_nat c2 + of_nat c1) + of_nat c0 :: u32) = of_nat d0"
    "(of_nat (d0 div 10) + 9 * of_nat c3 + 5 * of_nat c2 + of_nat c1 :: u32) = of_nat d1"
    "(of_nat (d1 div 10) + 2 * of_nat c2 :: u32) = of_nat d2" "(of_nat (d2 div 10) + 4 * of_nat c3 :: u32) = of_nat d3"
    by (simp_all add: d0_def d1_def d2_def d3_def)
  have z: "(of_nat d1 :: u32) = 0 \<longleftrightarrow> n div 10 = 0" "(of_nat d2 :: u32) \<noteq> 0 \<or> (of_nat c3 :: u32) \<noteq> 0 \<longleftrightarrow> n div 100 \<noteq> 0"
    "(of_nat d3 :: u32) = 0 \<longleftrightarrow> n div 1000 = 0" "(of_nat (d3 div 10) :: u32) = 0 \<longleftrightarrow> n div 10000 = 0"
  proof -
    have d4: "d3 div 10 = n div 10000" "d3 div 10 < 1000" using st(4,8) by (simp_all add: div_mult2_eq [symmetric])
    have "d1 = 0 \<longleftrightarrow> n div 10 = 0" using st(9) by (auto simp: d1_def)
    then show "(of_nat d1 :: u32) = 0 \<longleftrightarrow> n div 10 = 0" using of_nat_u32_0 [OF st(2)] by blast
    show "(of_nat d2 :: u32) \<noteq> 0 \<or> (of_nat c3 :: u32) \<noteq> 0 \<longleftrightarrow> n div 100 \<noteq> 0"
      using st(3,10) c(5) of_nat_u32_0 [of d2] of_nat_u32_0 [of c3] by auto
    show "(of_nat d3 :: u32) = 0 \<longleftrightarrow> n div 1000 = 0" using of_nat_u32_0 [OF st(4)] st(8) by simp
    show "(of_nat (d3 div 10) :: u32) = 0 \<longleftrightarrow> n div 10000 = 0" using of_nat_u32_0 [OF d4(2)] d4(1) by simp
  qed
  have a: "ascii_digit (of_nat (x mod 10)) = digit_char (x mod 10)" for x
    by (rule ascii_digit_of_nat) (rule less_trans [OF mod_less_divisor], simp_all)
  have "n div 10000 < 10" using assms by simp
  then have q: "ascii_digit (of_nat (d3 div 10)) = digit_char (n div 10000 mod 10)" "n div 100000 = 0"
    using ascii_digit_of_nat [of "n div 10000"] st(8) assms by (simp_all add: div_mult2_eq [symmetric])
  have d3: "d3 mod 10 = n div 1000 mod 10" using st(8) by simp
  have r: "rdigits 10 n = n mod 10 # (if n div 10 = 0 then [] else n div 10 mod 10 # (if n div 100 = 0 then [] else
      n div 100 mod 10 # (if n div 1000 = 0 then [] else n div 1000 mod 10 # (if n div 10000 = 0 then [] else [n div 10000 mod 10]))))"
    using q(2) by (subst rdigits_step, simp, subst rdigits_step, simp, subst rdigits_step, simp, subst rdigits_step, simp, subst rdigits_step, simp)
      (simp add: div_mult2_eq [symmetric])
  show ?thesis
    unfolding put_dec_trunc_def Let_def w e word_div10(1) [OF st(1)] word_div10(1) [OF st(2)] word_div10(2) [OF st(3)] word_div10(1) [OF st(4)]
      word_div10(3) z a q(1) st(5-7) d3 r
    by (cases "n div 10 = 0"; cases "n div 100 = 0"; cases "n div 1000 = 0"; cases "n div 10000 = 0") (simp_all add: pushes_def)
qed

lemma rdigits_five:
  assumes "100000 \<le> n"
  shows "rdigits 10 n = (let r = n mod 100000 in [r mod 10, r div 10 mod 10, r div 100 mod 10, r div 1000 mod 10, r div 10000]) @ rdigits 10 (n div 100000)"
proof -
  define r q where "r = n mod 100000" and "q = n div 100000"
  have n: "n = 100000 * q + r" "r < 100000" by (simp_all add: r_def q_def)
  have q: "q \<noteq> 0" using assms by (simp add: q_def)
  have step: "rdigits 10 m = m mod 10 # rdigits 10 (m div 10)" if "10 \<le> m" for m
    using that by (subst rdigits.simps) simp
  have d: "n div 10 = 10000 * q + r div 10" "n div 100 = 1000 * q + r div 100" "n div 1000 = 100 * q + r div 1000"
    "n div 10000 = 10 * q + r div 10000" unfolding n(1) by simp_all
  have f: "n = r + 10 * (10000 * q)" "n div 10 = r div 10 + 10 * (1000 * q)" "n div 100 = r div 100 + 10 * (100 * q)"
    "n div 1000 = r div 1000 + 10 * (10 * q)" "n div 10000 = r div 10000 + 10 * q" unfolding d using n(1) by simp_all
  have m: "n mod 10 = r mod 10" "n div 10 mod 10 = r div 10 mod 10" "n div 100 mod 10 = r div 100 mod 10"
    "n div 1000 mod 10 = r div 1000 mod 10"
    by (subst f(1), rule mod_mult_self2) (subst f(2), rule mod_mult_self2, subst f(3), rule mod_mult_self2, subst f(4), rule mod_mult_self2)
  have "r div 10000 < 10" using n(2) by linarith
  then have m5: "n div 10000 mod 10 = r div 10000" unfolding f(5) mod_mult_self2 by (rule mod_less)
  have b: "10 \<le> n" "10 \<le> n div 10" "10 \<le> n div 100" "10 \<le> n div 1000" "10 \<le> n div 10000"
    unfolding d using q assms by (simp, (cases q, simp, simp)+)
  have c: "n div 10 div 10 = n div 100" "n div 100 div 10 = n div 1000" "n div 1000 div 10 = n div 10000" "n div 10000 div 10 = q"
    by (simp_all add: div_mult2_eq [symmetric] q_def)
  show ?thesis using step [OF b(1)] step [OF b(2)] step [OF b(3)] step [OF b(4)] step [OF b(5)]
    by (simp only: c m m5 Let_def r_def [symmetric] q_def [symmetric] append.simps)
qed

lemma put_dec_spec: "put_dec buf num = pushes buf (map digit_char (rdigits 10 (unat num)))"
proof (induction "unat num" arbitrary: num buf rule: less_induct)
  case less
  show ?case
  proof (cases "num < 100000")
    case True
    then have n: "unat num < 100000" by (simp add: word_less_nat_alt)
    have "(ucast num :: u32) = of_nat (unat num)" by simp
    then show ?thesis using True put_dec_trunc_spec [OF n] by (subst put_dec.simps) simp
  next
    case False
    then have n: "100000 \<le> unat num" by (simp add: word_less_nat_alt)
    obtain q r where qr: "do_div num 100000 = Some (q, r)" "unat q = unat num div 100000" "unat r = unat num mod 100000"
      using do_div_spec [of 100000 num] by auto
    have "unat q < unat num" unfolding qr(2) using n by (intro div_less_dividend) simp_all
    then have ih: "put_dec b q = pushes b (map digit_char (rdigits 10 (unat q)))" for b by (rule less)
    have "r = of_nat (unat num mod 100000)" by (simp flip: qr(3))
    then have "put_dec_full buf r = pushes buf (map digit_char (let r = unat num mod 100000 in [r mod 10, r div 10 mod 10, r div 100 mod 10, r div 1000 mod 10, r div 10000]))"
      unfolding Let_def using put_dec_full_spec [of "unat num mod 100000" buf] by simp
    then have "do { (num, rem) \<leftarrow> do_div num 100000; buf \<leftarrow> put_dec_full buf rem; put_dec buf num }
        = pushes buf (map digit_char (rdigits 10 (unat num)))"
      unfolding qr(1) rdigits_five [OF n] map_append qr(2) [symmetric] by (simp add: ih)
    then show ?thesis using False by (subst put_dec.simps) simp
  qed
qed

end
