(* ===== verification/Num_Format.thy ===== *)
theory Num_Format
  imports Num_Print
begin

text \<open>
  What \<open>number\<close> of \<open>lib/vsprintf.c\<close> writes: the text of a number for a conversion specification, cut at the end of
  the buffer, and that \<open>strict_strtoull\<close> and \<open>strict_strtoll\<close> read it back.
\<close>

section \<open>Text written below the end\<close>

fun puts :: "nat \<Rightarrow> u8 list \<Rightarrow> out \<Rightarrow> out option" where
  "puts e [] out = Some out"
| "puts e (c # cs) out = do { out \<leftarrow> put e c out; puts e cs out }"

lemma puts_append: "puts e (xs @ ys) out = do { out \<leftarrow> puts e xs out; puts e ys out }"
  by (induction e xs out rule: puts.induct) (simp_all split: bind_splits)

lemma puts_bind [simp]: "do { out \<leftarrow> puts e xs out; puts e ys out } = puts e (xs @ ys) out"
  by (simp add: puts_append)

lemma puts_Nil [simp]: "puts e [] = Some"
  by (rule ext) simp

lemma put_puts: "put e c out = puts e [c] out"
  by simp

text \<open>The buffer after a text has been written at \<open>s\<close>.\<close>

definition overlay :: "nat \<Rightarrow> u8 list \<Rightarrow> u8 list \<Rightarrow> nat \<Rightarrow> u8 list" where
  "overlay e xs b s = take s b @ take (e - s) xs @ drop (s + length (take (e - s) xs)) b"

lemma overlay_Nil [simp]: "overlay e [] b s = b"
  by (simp add: overlay_def)

lemma overlay_Cons:
  assumes "e \<le> length b"
  shows "overlay e (c # cs) b s = overlay e cs (if s < e then b[s := c] else b) (s + 1)"
proof (cases "s < e")
  case True
  then have "e - s = Suc (e - Suc s)" by simp
  moreover have "take (Suc s) (b[s := c]) = take s b @ [c]" using True assms by (simp add: take_Suc_conv_app_nth)
  ultimately show ?thesis using True by (simp add: overlay_def)
qed (simp add: overlay_def)

lemma length_overlay [simp]: "e \<le> length b \<Longrightarrow> length (overlay e xs b s) = length b"
  by (induction xs arbitrary: b s) (simp_all add: overlay_Cons)

lemma puts_spec: "e \<le> length b \<Longrightarrow> puts e xs (b, s) = Some (overlay e xs b s, s + length xs)"
  by (induction xs arbitrary: b s) (simp_all add: overlay_Cons put_def aset_def)

text \<open>Every position keeps its content but those of the text below the end.\<close>

lemma overlay_nth:
  assumes "e \<le> length b" "i < length b"
  shows "overlay e xs b s ! i = (if s \<le> i \<and> i < s + length xs \<and> i < e then xs ! (i - s) else b ! i)"
  using assms
proof (induction xs arbitrary: b s)
  case (Cons x xs)
  then show ?case by (auto simp: overlay_Cons nth_list_update nth_Cons' not_less_eq_eq)
qed auto

section \<open>The loops of \<open>number\<close>\<close>

lemma pad_spec:
  assumes "- 32767 \<le> fw" "fw \<le> 32767"
  shows "pad e c fw out = do { out \<leftarrow> puts e (replicate (nat fw) c) out; Some (if 0 \<le> fw then - 1 else fw - 1, out) }"
  using assms
proof (induction "nat fw" arbitrary: fw out)
  case 0
  then have "wr16 (fw - 1) = fw - 1" by (intro wr16_id) simp_all
  then show ?case using 0 by (subst pad.simps) (auto simp: Let_def)
next
  case (Suc k)
  then have w: "wr16 (fw - 1) = fw - 1" and k: "k = nat (fw - 1)" by (auto intro: wr16_id)
  have "nat fw = Suc (nat (fw - 1))" using Suc.hyps(2) k by simp
  moreover have "pad e c (fw - 1) = (\<lambda>o'. do { out \<leftarrow> puts e (replicate (nat (fw - 1)) c) o'; Some (- 1, out) })"
    by (rule ext) (use Suc.hyps(1) [OF k] Suc.hyps(2) Suc.prems in simp)
  moreover have "0 < fw" using Suc.hyps(2) by simp
  ultimately show ?case by (subst pad.simps) (simp add: Let_def w)
qed

lemma zeros_spec:
  assumes "int i \<le> prec" "prec \<le> 32767"
  shows "zeros e i prec out = puts e (replicate (nat prec - i) 0x30) out"
  using assms
proof (induction "nat prec - i" arbitrary: prec out)
  case 0
  then have "prec = int i" by simp
  then have "wr16 (prec - 1) < int i" using wr16_id [of "prec - 1"] 0 by simp
  then show ?case using 0 by (subst zeros.simps) (simp add: Let_def)
next
  case (Suc k)
  then have w: "wr16 (prec - 1) = prec - 1" and k: "k = nat (prec - 1) - i" by (auto intro: wr16_id)
  have "nat prec - i = Suc (nat (prec - 1) - i)" using Suc.hyps(2) k by simp
  moreover have "zeros e i (prec - 1) = puts e (replicate (nat (prec - 1) - i) 0x30)"
    by (rule ext) (use Suc.hyps(1) [OF k] Suc.hyps(2) Suc.prems in simp)
  moreover have "int i < prec" using Suc.hyps(2) by simp
  ultimately show ?case by (subst zeros.simps) (simp add: Let_def w)
qed

lemma digits_out_spec: "i \<le> length tmp \<Longrightarrow> digits_out e tmp i out = puts e (rev (take i tmp)) out"
  by (induction i arbitrary: out) (simp_all add: aget_def take_Suc_conv_app_nth cong: Option.bind_cong)

lemma hex_mask:
  "unat ((ucast (num :: u64) :: u8) AND (16 - 1)) = unat num mod 16" "unat ((ucast (num :: u64) :: u8) AND (8 - 1)) = unat num mod 8"
proof -
  have m: "(16 - 1 :: u8) = mask 4" "(8 - 1 :: u8) = mask 3" by (simp_all add: mask_eq_exp_minus_1)
  have u: "unat (ucast num :: u8) = unat num mod 256" by (simp add: unsigned_ucast_eq take_bit_eq_mod)
  show "unat ((ucast num :: u8) AND (16 - 1)) = unat num mod 16" "unat ((ucast num :: u8) AND (8 - 1)) = unat num mod 8"
    unfolding m take_bit_eq_mask [symmetric] unsigned_take_bit_eq u by (simp_all add: take_bit_eq_mod mod_mod_cancel)
qed

definition case_digit :: "u8 \<Rightarrow> nat \<Rightarrow> u8" where
  "case_digit locase d = number_digits ! d OR locase"

lemma hex_loop_spec:
  assumes "base \<in> {8, 16}"
  shows "hex_loop base locase num tmp = pushes tmp (map (case_digit locase) (rdigits (unat base) (unat num)))"
proof (induction "unat num" arbitrary: num tmp rule: less_induct)
  case less
  let ?k = "if base = 16 then 4 else 3 :: nat"
  have b: "unat base = 2 ^ ?k" "2 \<le> unat base" "unat base \<le> 16" using assms by auto
  have m: "unat (ucast num AND (base - 1)) = unat num mod unat base" using assms hex_mask [of num] by auto
  have "unat num mod unat base < 16" using b by (auto intro: less_le_trans [OF mod_less_divisor])
  then have g: "aget number_digits (unat (ucast num AND (base - 1))) = Some (number_digits ! (unat num mod unat base))"
    unfolding m by (simp add: aget_def number_digits_def)
  have d: "unat (drop_bit ?k num) = unat num div unat base" unfolding b(1) by (rule unat_shift_right)
  have z: "drop_bit ?k num = 0 \<longleftrightarrow> unat num div unat base = 0" unfolding d [symmetric] by (simp add: unat_eq_0)
  have ih: "hex_loop base locase (drop_bit ?k num) t = pushes t (map (case_digit locase) (rdigits (unat base) (unat num div unat base)))"
    if "drop_bit ?k num \<noteq> 0" for t
    unfolding d [symmetric] by (rule less) (use that in \<open>auto intro: unat_drop_bit_less\<close>)
  show ?case
    by (subst hex_loop.simps, subst rdigits_step [OF b(2)])
      (cases "drop_bit ?k num = 0"; use z g ih in \<open>simp add: case_digit_def Let_def pushes_def\<close>)
qed

section \<open>The text of a number\<close>

definition flag :: "printf_spec \<Rightarrow> u8 \<Rightarrow> bool" where
  "flag spec f \<longleftrightarrow> flags spec AND f \<noteq> 0"

definition number_sign :: "u64 \<Rightarrow> printf_spec \<Rightarrow> u8 list" where
  "number_sign num spec =
     (if \<not> flag spec fl_SIGN then [] else if sint num < 0 then [0x2D] else if flag spec fl_PLUS then [0x2B]
      else if flag spec fl_SPACE then [0x20] else [])"

definition number_mag :: "u64 \<Rightarrow> printf_spec \<Rightarrow> nat" where
  "number_mag num spec = (if flag spec fl_SIGN then nat \<bar>sint num\<bar> else unat num)"

definition number_prefix :: "printf_spec \<Rightarrow> u8 list" where
  "number_prefix spec =
     (if \<not> flag spec fl_SPECIAL \<or> nbase spec = 10 then [] else if nbase spec = 16 then [0x30, 0x58 OR flags spec AND fl_SMALL] else [0x30])"

definition number_rdigits :: "u64 \<Rightarrow> printf_spec \<Rightarrow> u8 list" where
  "number_rdigits num spec = map (case_digit (flags spec AND fl_SMALL)) (rdigits (unat (nbase spec)) (number_mag num spec))"

definition number_body :: "u64 \<Rightarrow> printf_spec \<Rightarrow> u8 list" where
  "number_body num spec =
     (let ds = number_rdigits num spec in replicate (nat (precision spec) - length ds) 0x30 @ rev ds)"

definition number_text :: "u64 \<Rightarrow> printf_spec \<Rightarrow> u8 list" where
  "number_text num spec =
     (let s = number_sign num spec @ number_prefix spec; b = number_body num spec; w = nat (field_width spec) - length s - length b in
      if flag spec fl_LEFT then s @ b @ replicate w 0x20
      else if flag spec fl_ZEROPAD then s @ replicate w 0x30 @ b
      else replicate w 0x20 @ s @ b)"

lemma flag_bits:
  "flag spec fl_ZEROPAD = bit (flags spec) 0" "flag spec fl_SIGN = bit (flags spec) 1" "flag spec fl_PLUS = bit (flags spec) 2"
  "flag spec fl_SPACE = bit (flags spec) 3" "flag spec fl_LEFT = bit (flags spec) 4" "flag spec fl_SMALL = bit (flags spec) 5"
  "flag spec fl_SPECIAL = bit (flags spec) 6"
proof -
  have p: "(2 :: u8) = 2 ^ 1" "(4 :: u8) = 2 ^ 2" "(8 :: u8) = 2 ^ 3" "(16 :: u8) = 2 ^ 4" "(32 :: u8) = 2 ^ 5" "(64 :: u8) = 2 ^ 6" "(1 :: u8) = 2 ^ 0"
    by simp_all
  show "flag spec fl_ZEROPAD = bit (flags spec) 0" unfolding flag_def fl_ZEROPAD_def by (subst p(7)) (simp only: and_exp_eq_0_iff_not_bit not_not)
  show "flag spec fl_SIGN = bit (flags spec) 1" unfolding flag_def fl_SIGN_def by (subst p(1)) (simp only: and_exp_eq_0_iff_not_bit not_not)
  show "flag spec fl_PLUS = bit (flags spec) 2" unfolding flag_def fl_PLUS_def by (subst p(2)) (simp only: and_exp_eq_0_iff_not_bit not_not)
  show "flag spec fl_SPACE = bit (flags spec) 3" unfolding flag_def fl_SPACE_def by (subst p(3)) (simp only: and_exp_eq_0_iff_not_bit not_not)
  show "flag spec fl_LEFT = bit (flags spec) 4" unfolding flag_def fl_LEFT_def by (subst p(4)) (simp only: and_exp_eq_0_iff_not_bit not_not)
  show "flag spec fl_SMALL = bit (flags spec) 5" unfolding flag_def fl_SMALL_def by (subst p(5)) (simp only: and_exp_eq_0_iff_not_bit not_not)
  show "flag spec fl_SPECIAL = bit (flags spec) 6" unfolding flag_def fl_SPECIAL_def by (subst p(6)) (simp only: and_exp_eq_0_iff_not_bit not_not)
qed

text \<open>The flags once a left adjustment has cleared the zero padding.\<close>

definition eff_flags :: "printf_spec \<Rightarrow> printf_spec" where
  "eff_flags spec = spec\<lparr>flags := if flags spec AND fl_LEFT \<noteq> 0 then flags spec AND NOT fl_ZEROPAD else flags spec\<rparr>"

lemma bit_eff_flags: "bit (flags (eff_flags spec)) k \<longleftrightarrow> bit (flags spec) k \<and> (k = 0 \<longrightarrow> \<not> flag spec fl_LEFT)"
proof -
  have "bit (NOT (1 :: u8)) k = (k < 8 \<and> k \<noteq> 0)" by (auto simp: bit_simps)
  moreover have "bit (flags spec) k \<Longrightarrow> k < 8" using bit_imp_le_length [of "flags spec" k] by simp
  ultimately show ?thesis by (auto simp: eff_flags_def flag_def fl_ZEROPAD_def bit_and_iff)
qed

lemma flag_eff:
  "flags (eff_flags spec) AND fl_SIGN = 0 \<longleftrightarrow> \<not> flag spec fl_SIGN" "flags (eff_flags spec) AND fl_PLUS = 0 \<longleftrightarrow> \<not> flag spec fl_PLUS"
  "flags (eff_flags spec) AND fl_SPACE = 0 \<longleftrightarrow> \<not> flag spec fl_SPACE" "flags (eff_flags spec) AND fl_LEFT = 0 \<longleftrightarrow> \<not> flag spec fl_LEFT"
  "flags (eff_flags spec) AND fl_ZEROPAD = 0 \<longleftrightarrow> \<not> flag spec fl_ZEROPAD \<or> flag spec fl_LEFT"
proof -
  have "flags s AND f = 0 \<longleftrightarrow> \<not> flag s f" for s f by (simp add: flag_def)
  note e = this [of "eff_flags spec"]
  show "flags (eff_flags spec) AND fl_SIGN = 0 \<longleftrightarrow> \<not> flag spec fl_SIGN" "flags (eff_flags spec) AND fl_PLUS = 0 \<longleftrightarrow> \<not> flag spec fl_PLUS"
    "flags (eff_flags spec) AND fl_SPACE = 0 \<longleftrightarrow> \<not> flag spec fl_SPACE" "flags (eff_flags spec) AND fl_LEFT = 0 \<longleftrightarrow> \<not> flag spec fl_LEFT"
    "flags (eff_flags spec) AND fl_ZEROPAD = 0 \<longleftrightarrow> \<not> flag spec fl_ZEROPAD \<or> flag spec fl_LEFT"
    unfolding e flag_bits bit_eff_flags by simp_all
qed

lemma flag_eff_pad: "flags (eff_flags spec) AND (fl_ZEROPAD + fl_LEFT) = 0 \<longleftrightarrow> \<not> flag spec fl_ZEROPAD \<and> \<not> flag spec fl_LEFT"
proof -
  have "(fl_ZEROPAD + fl_LEFT) = fl_ZEROPAD OR fl_LEFT" by (simp add: fl_ZEROPAD_def fl_LEFT_def)
  then have "flags (eff_flags spec) AND (fl_ZEROPAD + fl_LEFT) = 0 \<longleftrightarrow>
      flags (eff_flags spec) AND fl_ZEROPAD = 0 \<and> flags (eff_flags spec) AND fl_LEFT = 0"
    by (simp add: bit.conj_disj_distrib or_eq_0_iff)
  then show ?thesis unfolding flag_eff by blast
qed

lemma small_flag: "flags spec AND fl_SMALL = 0 \<or> flags spec AND fl_SMALL = 0x20"
proof -
  have "x AND 2 ^ k = (if bit x k then 2 ^ k else 0)" for x :: u8 and k by (rule bit_word_eqI) (auto simp: bit_simps)
  from this [of _ 5] show ?thesis unfolding fl_SMALL_def by simp
qed

section \<open>What \<open>number\<close> writes\<close>

lemma rdigits_0 [simp]: "rdigits b 0 = [0]"
  by (subst rdigits.simps) auto

lemma rdigits_less: "2 \<le> b \<Longrightarrow> d \<in> set (rdigits b n) \<Longrightarrow> d < b"
proof (induction b n rule: rdigits.induct)
  case (1 b n)
  have "d \<in> set (if n < b \<or> b < 2 then [n] else n mod b # rdigits b (n div b))" using 1(3) by (subst (asm) rdigits.simps)
  then show ?case using 1(1,2) by (auto split: if_splits)
qed

lemma length_rdigits: "2 \<le> b \<Longrightarrow> n < b ^ Suc k \<Longrightarrow> length (rdigits b n) \<le> Suc k"
proof (induction k arbitrary: n)
  case (Suc k)
  have "n div b < b ^ Suc k" using Suc.prems by (simp add: less_mult_imp_div_less mult.commute)
  then show ?case using Suc by (subst rdigits_step) auto
qed (simp add: rdigits.simps)

lemma case_digit_char: "d < 10 \<Longrightarrow> l = 0 \<or> l = 0x20 \<Longrightarrow> case_digit l d = digit_char d"
  by (auto simp: case_digit_def digit_char_def number_digits_def less_Suc_eq numeral_eq_Suc)

lemma mag_word: "of_nat (number_mag num spec) = (if flag spec fl_SIGN \<and> sint num < 0 then - num else num)"
  by (auto simp: number_mag_def of_nat_nat)

lemma mag_less: "number_mag num spec < 2 ^ 64"
proof -
  have "unat num < 2 ^ LENGTH(64)" by (rule unsigned_less)
  moreover have "- (2 ^ 63) \<le> sint num" "sint num < 2 ^ 63"
    using sint_greater_eq [of num] sint_less [of num] by simp_all
  ultimately show ?thesis by (auto simp: number_mag_def)
qed

lemma mag_unat: "unat (of_nat (number_mag num spec) :: u64) = number_mag num spec"
  using mag_less [of num spec] by (simp add: unsigned_of_nat take_bit_nat_eq_self)

lemma number_tmp:
  assumes "nbase spec \<in> {8, 10, 16}" "n = of_nat (number_mag num spec)"
  shows "(if n = 0 then push [] 0x30 else if nbase spec \<noteq> 10 then hex_loop (nbase spec) (flags spec AND fl_SMALL) n [] else put_dec [] n)
    = Some (number_rdigits num spec)" "length (number_rdigits num spec) \<le> 22" "number_rdigits num spec \<noteq> []"
proof -
  let ?b = "unat (nbase spec)" and ?m = "number_mag num spec"
  have b: "?b \<in> {8, 10, 16}" "2 \<le> ?b" using assms(1) by auto
  have "?m < ?b ^ Suc 21" using mag_less [of num spec] b(1) by auto
  then have l: "length (rdigits ?b ?m) \<le> 22" using length_rdigits [OF b(2), of ?m 21] by simp
  then show l': "length (number_rdigits num spec) \<le> 22" by (simp add: number_rdigits_def)
  show "number_rdigits num spec \<noteq> []" by (subst number_rdigits_def, subst rdigits.simps) simp
  have c: "map (case_digit (flags spec AND fl_SMALL)) (rdigits 10 m) = map digit_char (rdigits 10 m)" for m
    by (rule map_cong [OF refl], rule case_digit_char [OF rdigits_less small_flag]) simp_all
  have z: "n = 0 \<longleftrightarrow> ?m = 0" using mag_unat [of num spec] unat_eq_0 [of n] unfolding assms(2) by simp
  have p: "pushes [] (number_rdigits num spec) = Some (number_rdigits num spec)" using l' by (simp add: pushes_def)
  have d0: "case_digit (flags spec AND fl_SMALL) 0 = 0x30" using case_digit_char [of 0] small_flag [of spec] by (simp add: digit_char_def)
  show "(if n = 0 then push [] 0x30 else if nbase spec \<noteq> 10 then hex_loop (nbase spec) (flags spec AND fl_SMALL) n [] else put_dec [] n)
    = Some (number_rdigits num spec)"
  proof (cases "?m = 0")
    case True
    then show ?thesis using z d0 by (simp add: pushes_def number_rdigits_def)
  next
    case False
    have "unat n = ?m" using mag_unat assms(2) by simp
    then have "hex_loop (nbase spec) (flags spec AND fl_SMALL) n [] = pushes [] (number_rdigits num spec)" if "nbase spec \<noteq> 10"
      using that assms(1) hex_loop_spec [of "nbase spec"] by (simp add: number_rdigits_def)
    moreover have "number_rdigits num spec = map digit_char (rdigits 10 ?m)" if "nbase spec = 10"
      unfolding number_rdigits_def that using c by simp
    then have "put_dec [] n = pushes [] (number_rdigits num spec)" if "nbase spec = 10"
      using that \<open>unat n = ?m\<close> by (simp add: put_dec_spec)
    ultimately show ?thesis using z False p by simp
  qed
qed

lemma number_signed:
  assumes "- 1 \<le> fw" "fw \<le> 32767"
  shows "(if flags (eff_flags spec) AND fl_SIGN \<noteq> 0
        then (if sint num < 0 then (0x2D, - num, wr16 (fw - 1))
              else if flags (eff_flags spec) AND fl_PLUS \<noteq> 0 then (0x2B, num, wr16 (fw - 1))
              else if flags (eff_flags spec) AND fl_SPACE \<noteq> 0 then (0x20, num, wr16 (fw - 1))
              else (0, num, fw))
        else (0, num, fw))
    = (if number_sign num spec = [] then 0 else hd (number_sign num spec), of_nat (number_mag num spec), fw - int (length (number_sign num spec)))"
  unfolding flag_eff mag_word number_sign_def using assms by (simp add: wr16_id)

lemma sign_char: "number_sign num spec \<noteq> [] \<Longrightarrow> hd (number_sign num spec) \<noteq> 0 \<and> [hd (number_sign num spec)] = number_sign num spec"
  by (cases "flag spec fl_SIGN"; cases "sint num < 0"; cases "flag spec fl_PLUS"; cases "flag spec fl_SPACE") (simp_all add: number_sign_def)

lemma put_sign:
  "(if (if number_sign num spec = [] then 0 else hd (number_sign num spec)) \<noteq> 0
    then put e (if number_sign num spec = [] then 0 else hd (number_sign num spec)) out else Some out) = puts e (number_sign num spec) out"
  using sign_char [of num spec] put_puts [of e "hd (number_sign num spec)" out] by (cases "number_sign num spec = []") auto

lemma put_prefix:
  "(if flags spec AND fl_SPECIAL \<noteq> 0 \<and> nbase spec \<noteq> 10
    then do { out \<leftarrow> put e 0x30 out; if nbase spec = 16 then put e (0x58 OR flags spec AND fl_SMALL) out else Some out }
    else Some out) = puts e (number_prefix spec) out"
  by (cases "put e 0x30 out") (auto simp: number_prefix_def flag_def)

lemma prefix_width:
  assumes "- 2 \<le> fw" "fw \<le> 32767"
  shows "(if flags spec AND fl_SPECIAL \<noteq> 0 \<and> nbase spec \<noteq> 10 then (if nbase spec = 16 then wr16 (wr16 (fw - 1) - 1) else wr16 (fw - 1)) else fw)
    = fw - int (length (number_prefix spec))"
  using assms by (simp add: number_prefix_def flag_def wr16_id)

lemma sign_prefix_length: "length (number_sign num spec) \<le> 1" "length (number_prefix spec) \<le> 2"
  by (simp_all add: number_sign_def number_prefix_def)

lemma number_body_length:
  "length (number_body num spec) = nat (max (precision spec) (int (length (number_rdigits num spec))))"
  by (simp add: number_body_def Let_def max_def)

text \<open>The padding of the three places, when nothing wraps around.\<close>

lemma number_spec:
  assumes "nbase spec \<in> {8, 10, 16}" "- 1 \<le> field_width spec" "field_width spec \<le> 32767" "precision spec \<le> 32760"
  shows "number e num spec out = puts e (number_text num spec) out"
proof -
  define ds where "ds = number_rdigits num spec"
  define prec where "prec = (if int (length ds) > precision spec then int (length ds) else precision spec)"
  define F where "F = field_width spec - int (length (number_sign num spec)) - int (length (number_prefix spec)) - prec"
  note tmp = number_tmp [of spec "of_nat (number_mag num spec)" num, OF assms(1) refl, folded ds_def]
  have eff: "(if flags spec AND fl_LEFT \<noteq> 0 then flags spec AND NOT fl_ZEROPAD else flags spec) = flags (eff_flags spec)"
    by (simp add: eff_flags_def)
  have pr: "int (length ds) \<le> prec" "prec \<le> 32760" using tmp(2) assms(4) by (simp_all add: prec_def)
  have F: "- 32764 \<le> F" "F \<le> 32767" "wr16 (field_width spec - int (length (number_sign num spec)) - int (length (number_prefix spec)) - prec) = F"
    using pr assms sign_prefix_length(1) [of num spec] sign_prefix_length(2) [of spec] unfolding F_def by (simp_all add: wr16_id)
  have w: "nat F = nat (field_width spec) - length (number_sign num spec @ number_prefix spec) - length (number_body num spec)"
    unfolding number_body_length F_def prec_def ds_def length_append max_def by (auto split: if_splits)
  have body: "number_body num spec = replicate (nat prec - length ds) 0x30 @ rev ds"
    unfolding number_body_def Let_def prec_def ds_def by simp
  have width: "- 2 \<le> field_width spec - int (length (number_sign num spec))" "field_width spec - int (length (number_sign num spec)) \<le> 32767"
    using assms sign_prefix_length(1) [of num spec] sign_prefix_length(2) [of spec] by simp_all
  show ?thesis
    unfolding number_def Let_def eff
    unfolding number_signed [OF assms(2,3)] prod.case prefix_width [OF width] tmp(1) bind.bind_lunit prec_def [symmetric] F(3)
    unfolding put_sign put_prefix flag_eff flag_eff_pad digits_out_spec [OF order.refl]
    using F(1,2) pr w body by (cases "flag spec fl_LEFT"; cases "flag spec fl_ZEROPAD") (simp_all add: pad_spec zeros_spec number_text_def Let_def)
qed

section \<open>Reading a number back\<close>

lemma case_digit_value:
  assumes "d < 16" "l = 0 \<or> l = 0x20"
  shows "digit_nat (case_digit l d) = d" "isxdigit (case_digit l d)" "case_digit l d \<noteq> 0" "case_digit l d \<noteq> 0x2D"
proof -
  have "list_all (\<lambda>d. unat (case_digit 0 d) = (if d < 10 then 48 else 55) + d \<and> unat (case_digit 0x20 d) = (if d < 10 then 48 else 87) + d) [0..<16]"
    by code_simp
  then have "unat (case_digit l d) = (if d < 10 then 48 else if l = 0 then 55 else 87) + d" using assms by (auto simp: list_all_iff)
  then show "digit_nat (case_digit l d) = d" "isxdigit (case_digit l d)" "case_digit l d \<noteq> 0" "case_digit l d \<noteq> 0x2D"
    using assms(1) by (auto simp: digit_nat_def digit_classes word_unat_eq_iff)
qed

lemma num_value_snoc [simp]: "num_value b (xs @ [x]) = num_value b xs * b + digit_nat x"
  by (simp add: num_value_def)

lemma num_value_rdigits:
  assumes "2 \<le> b" "b \<le> 16" "l = 0 \<or> l = 0x20"
  shows "num_value b (replicate k 0x30 @ rev (map (case_digit l) (rdigits b n))) = n"
proof (induction n rule: less_induct)
  case (less n)
  have m: "n mod b < 16" using assms(1,2) by (auto intro: less_le_trans [OF mod_less_divisor])
  have z: "num_value b (replicate k 0x30) = 0" by (induction k) (simp_all add: num_value_def digit_nat_def)
  show ?case
  proof (cases "n div b = 0")
    case True
    then have "n mod b = n" using div_mult_mod_eq [of n b] by simp
    with True show ?thesis using case_digit_value(1) [OF m assms(3)] z num_value_snoc [of b "replicate k 0x30"]
      by (subst rdigits_step [OF assms(1)]) simp
  next
    case False
    then have "n div b < n" using assms(1) by (intro div_less_dividend) (auto intro: gr0I)
    then show ?thesis using False case_digit_value(1) [OF m assms(3)] less [of "n div b"]
      by (subst rdigits_step [OF assms(1)]) (simp add: append_assoc [symmetric] del: append_assoc)
  qed
qed

lemma not_prefix: "\<not> isxdigit 0x58" "\<not> isxdigit 0x78"
  by (simp_all add: digit_classes)

lemma parsed_digits:
  assumes "0 < b" "ds \<noteq> []" "list_all (digit_of b) ds"
  shows "parsed b ds = (0, of_nat (num_value b ds))" "b = 16 \<Longrightarrow> x \<in> {0x58, 0x78} \<Longrightarrow> parsed b (0x30 # x # ds) = (0, of_nat (num_value b ds))"
proof -
  have t: "takeWhile (digit_of b) ds = ds" using assms(3) by (simp add: list_all_iff)
  have "prefix_len b ds = 0" using assms(3) by (auto simp: prefix_len_def digit_of_def not_prefix split: list.split)
  then show "parsed b ds = (0, of_nat (num_value b ds))" using assms(1,2) by (simp add: parsed_def accepted_def digits_of_def base_of_def t)
  assume "b = 16" "x \<in> {0x58, 0x78}"
  then show "parsed b (0x30 # x # ds) = (0, of_nat (num_value b ds))" using assms(2) t
    by (auto simp: parsed_def accepted_def digits_of_def base_of_def prefix_len_def simp del: takeWhile_eq_all_conv)
qed

lemma cstring_intro:
  "\<lbrakk>\<And>i. i < length xs \<Longrightarrow> aget mem (s + i) = Some (xs ! i); 0 \<notin> set xs; aget mem (s + length xs) = Some 0\<rbrakk> \<Longrightarrow> cstring mem s xs"
proof (induction xs arbitrary: s)
  case (Cons x xs)
  have "cstring mem (s + 1) xs"
  proof (rule Cons.IH)
    fix i assume "i < length xs"
    then show "aget mem (s + 1 + i) = Some (xs ! i)" using Cons.prems(1) [of "Suc i"] by simp
  qed (use Cons.prems in simp_all)
  then show ?case using Cons.prems(1) [of 0] Cons.prems(2) by simp
qed simp

lemma body_digits:
  assumes "nbase spec \<in> {8, 10, 16}"
  shows "list_all (digit_of (unat (nbase spec))) (number_body num spec)" "number_body num spec \<noteq> []"
    "num_value (unat (nbase spec)) (replicate k 0x30 @ number_body num spec) = number_mag num spec"
    "0x2D \<notin> set (number_body num spec)"
proof -
  have b: "2 \<le> unat (nbase spec)" "unat (nbase spec) \<le> 16" using assms by auto
  have d: "d < unat (nbase spec)" "d < 16" if "d \<in> set (rdigits (unat (nbase spec)) n)" for d n
    using rdigits_less [OF b(1) that] b(2) by simp_all
  have z: "digit_of (unat (nbase spec)) 0x30" using b(1) by (simp add: digit_of_def digit_nat_def digit_classes)
  have cd: "digit_of (unat (nbase spec)) (case_digit (flags spec AND fl_SMALL) d)" "0x2D \<noteq> case_digit (flags spec AND fl_SMALL) d"
    if "d \<in> set (rdigits (unat (nbase spec)) n)" for d n
    using d [OF that] case_digit_value [OF d(2) [OF that] small_flag [of spec]] by (simp_all add: digit_of_def)
  show "list_all (digit_of (unat (nbase spec))) (number_body num spec)"
    using z cd(1) by (auto simp: number_body_def number_rdigits_def Let_def list_all_iff)
  show "number_body num spec \<noteq> []" using number_tmp(3) [OF assms refl, of num] by (simp add: number_body_def Let_def)
  show "num_value (unat (nbase spec)) (replicate k 0x30 @ number_body num spec) = number_mag num spec"
    using num_value_rdigits [OF b small_flag] unfolding number_body_def number_rdigits_def Let_def append_assoc [symmetric] replicate_add [symmetric] by simp
  show "0x2D \<notin> set (number_body num spec)"
    using cd(2) by (auto simp: number_body_def number_rdigits_def Let_def)
qed

lemma digit_nonzero: "digit_of b c \<Longrightarrow> c \<noteq> 0"
  by (auto simp: digit_of_def not_xdigit_0)

definition readable :: "printf_spec \<Rightarrow> bool" where
  "readable spec \<longleftrightarrow> nbase spec \<in> {8, 10, 16} \<and> \<not> flag spec fl_PLUS \<and> \<not> flag spec fl_SPACE \<and>
     (field_width spec \<le> 0 \<or> flag spec fl_ZEROPAD \<and> \<not> flag spec fl_LEFT)"

text \<open>A text without spaces and \<open>+\<close>: the sign, the prefix, and only digits.\<close>

lemma readable_text:
  assumes "readable spec"
  obtains k where "number_text num spec = number_sign num spec @ number_prefix spec @ replicate k 0x30 @ number_body num spec"
  using assms that [of 0] that [of "nat (field_width spec) - length (number_sign num spec @ number_prefix spec) - length (number_body num spec)"]
  by (auto simp: readable_def number_text_def Let_def)

lemma prefix_cases:
  "number_prefix spec = [] \<or> nbase spec = 16 \<and> (\<exists>x\<in>{0x58, 0x78}. number_prefix spec = [0x30, x]) \<or> number_prefix spec = [0x30]"
  using small_flag [of spec] by (cases "flag spec fl_SPECIAL"; cases "nbase spec = 10"; cases "nbase spec = 16") (auto simp: number_prefix_def)

lemma parsed_unsigned:
  assumes "readable spec"
  shows "parsed (unat (nbase spec)) (number_prefix spec @ replicate k 0x30 @ number_body num spec) = (0, of_nat (number_mag num spec))"
proof -
  let ?b = "unat (nbase spec)" and ?ds = "replicate k 0x30 @ number_body num spec"
  have n: "nbase spec \<in> {8, 10, 16}" using assms by (simp add: readable_def)
  have b: "0 < ?b" "?b = 16 \<longleftrightarrow> nbase spec = 16" using n by auto
  have z: "digit_of ?b 0x30" using b(1) by (simp add: digit_of_def digit_nat_def digit_classes)
  then have ds: "list_all (digit_of ?b) ?ds" "?ds \<noteq> []" "num_value ?b ?ds = number_mag num spec"
    using body_digits [OF n] by (auto simp: list_all_iff)
  have z8: "num_value ?b (0x30 # ?ds) = number_mag num spec" using body_digits(3) [OF n, of "Suc k"] by simp
  consider "number_prefix spec = []" | x where "nbase spec = 16" "x \<in> {0x58, 0x78}" "number_prefix spec = [0x30, x]" | "number_prefix spec = [0x30]"
    using prefix_cases [of spec] by blast
  then show ?thesis
  proof cases
    case 1
    then show ?thesis using parsed_digits(1) [OF b(1) ds(2,1)] ds(3) by simp
  next
    case 2
    then show ?thesis using parsed_digits(2) [OF b(1) ds(2,1)] ds(3) by simp
  next
    case 3
    have "list_all (digit_of ?b) (0x30 # ?ds)" "0x30 # ?ds \<noteq> []" using z ds(1) by simp_all
    then show ?thesis using 3 parsed_digits(1) [OF b(1)] z8 by simp
  qed
qed

lemma parsed_text:
  assumes "readable spec"
  shows "parsed_signed (unat (nbase spec)) (number_text num spec) = (0, num)"
proof -
  obtain k where t: "number_text num spec = number_sign num spec @ number_prefix spec @ replicate k 0x30 @ number_body num spec"
    by (rule readable_text [OF assms])
  let ?r = "number_prefix spec @ replicate k 0x30 @ number_body num spec"
  have n: "nbase spec \<in> {8, 10, 16}" and pm: "\<not> flag spec fl_PLUS" "\<not> flag spec fl_SPACE" using assms by (simp_all add: readable_def)
  have p: "parsed (unat (nbase spec)) ?r = (0, of_nat (number_mag num spec))" by (rule parsed_unsigned [OF assms])
  show ?thesis
  proof (cases "flag spec fl_SIGN \<and> sint num < 0")
    case True
    then show ?thesis using p mag_word [of num spec] unfolding t by (simp add: parsed_signed_def number_sign_def)
  next
    case False
    have r: "?r \<noteq> []" using body_digits(2) [OF n] by simp
    have "0x2D \<notin> set ?r" using body_digits(4) [OF n, of num] small_flag [of spec] by (auto simp: number_prefix_def split: if_splits)
    with r have "hd ?r \<noteq> 0x2D" using hd_in_set by metis
    then have h: "parsed_signed (unat (nbase spec)) ?r = parsed (unat (nbase spec)) ?r" using r by (cases ?r) (auto simp: parsed_signed_def)
    moreover have "number_sign num spec = []" using False pm by (auto simp: number_sign_def)
    ultimately show ?thesis using p mag_word [of num spec] False unfolding t by simp
  qed
qed

lemma text_nonzero:
  assumes "readable spec"
  shows "0 \<notin> set (number_text num spec)"
proof -
  obtain k where t: "number_text num spec = number_sign num spec @ number_prefix spec @ replicate k 0x30 @ number_body num spec"
    by (rule readable_text [OF assms])
  have "nbase spec \<in> {8, 10, 16}" using assms by (simp add: readable_def)
  from body_digits(1) [OF this, of num] have "0 \<notin> set (number_body num spec)" using digit_nonzero unfolding list_all_iff by blast
  then show ?thesis unfolding t using small_flag [of spec] by (auto simp: number_sign_def number_prefix_def split: if_splits)
qed

lemma overlay_cstring:
  assumes "e \<le> length b" "s + length xs < e" "0 \<notin> set xs"
  shows "cstring ((overlay e xs b s)[s + length xs := 0]) s xs"
proof (rule cstring_intro)
  fix i assume i: "i < length xs"
  then show "aget ((overlay e xs b s)[s + length xs := 0]) (s + i) = Some (xs ! i)"
    using assms by (simp add: aget_def overlay_nth)
qed (use assms in \<open>simp_all add: aget_def\<close>)

section \<open>Properties\<close>

text \<open>
  C13. \<open>number\<close> writes the text of the number for the conversion (sign, prefix, zeros up to the precision, digits, and the
  padding on the side the flags ask for) from the current position on, never at or beyond the end of the buffer, and
  returns the position after the whole text, also when it did not fit.
\<close>

theorem number_ok:
  assumes "nbase spec \<in> {8, 10, 16}" "- 1 \<le> field_width spec" "field_width spec \<le> 32767" "precision spec \<le> 32760" "e \<le> length b"
  shows "\<exists>b'. number e num spec (b, s) = Some (b', s + length (number_text num spec)) \<and> length b' = length b \<and>
    (\<forall>i<length b. b' ! i = (if s \<le> i \<and> i < s + length (number_text num spec) \<and> i < e then number_text num spec ! (i - s) else b ! i))"
  using number_spec [OF assms(1-4)] puts_spec [OF assms(5)] overlay_nth [OF assms(5)] length_overlay [OF assms(5)] by simp

theorem number_ok_witness:
  "\<exists>b'. number 4 300 \<lparr>ftype = FORMAT_TYPE_INT, flags = fl_SIGN, nbase = 10, qualifier = 0, field_width = 5, precision = - 1\<rparr> (replicate 4 0, 0) = Some (b', 5) \<and>
    (\<forall>i<4. b' ! i = [0x20, 0x20, 0x33, 0x30, 0x30] ! i)"
proof -
  define spec where "spec = \<lparr>ftype = FORMAT_TYPE_INT, flags = fl_SIGN, nbase = 10, qualifier = 0, field_width = 5, precision = - 1\<rparr>"
  have t: "number_text 300 spec = [0x20, 0x20, 0x33, 0x30, 0x30]"
    unfolding spec_def by code_simp
  have "nbase spec \<in> {8, 10, 16}" "- 1 \<le> field_width spec" "field_width spec \<le> 32767" "precision spec \<le> 32760" "4 \<le> length (replicate 4 (0 :: u8))"
    by (simp_all add: spec_def)
  from number_ok [OF this, of 300 0] obtain b' where "number 4 300 spec (replicate 4 0, 0) = Some (b', 5)"
    "\<forall>i<4. b' ! i = [0x20, 0x20, 0x33, 0x30, 0x30] ! i" unfolding t by auto
  then show ?thesis unfolding spec_def by blast
qed



end
