(* ===== verification/Print_String.thy ===== *)
theory Print_String
  imports Num_Format Bitops
begin

text \<open>
  The strings and the pointer formats of \<open>lib/vsprintf.c\<close>: \<open>string\<close>, and the texts of \<open>%pM\<close>, \<open>%pI\<close>, \<open>%pU\<close> and
  \<open>%pR\<close>, which are built in a local array before \<open>string\<close> prints them.  A local array is the list of the bytes
  written so far with its size as a bound, so that a write beyond it is a fault; the machine is little-endian with
  64-bit pointers.
\<close>

section \<open>Model: \<open>string\<close>\<close>

definition PAGE_SIZE :: nat where "PAGE_SIZE = 4096"

definition null_string :: memory where
  "null_string = [0x28, 0x6E, 0x75, 0x6C, 0x6C, 0x29, 0]"

text \<open>\<open>while (len < spec.field_width--)\<close>\<close>

partial_function (option) string_pad :: "nat \<Rightarrow> int \<Rightarrow> int \<Rightarrow> out \<Rightarrow> (int \<times> out) option" where
  "string_pad e len fw out =
     (if len < fw then do { out \<leftarrow> put e 0x20 out; string_pad e len (wr16 (fw - 1)) out } else Some (wr16 (fw - 1), out))"

fun string_copy :: "nat \<Rightarrow> memory \<Rightarrow> nat \<Rightarrow> nat \<Rightarrow> out \<Rightarrow> out option" where
  "string_copy e mem s 0 out = Some out"
| "string_copy e mem s (Suc n) out = do { c \<leftarrow> aget mem s; out \<leftarrow> put e c out; string_copy e mem (s + 1) n out }"

text \<open>From \<open>strnlen\<close> on; the precision is converted to an unsigned long, the length to an int.\<close>

definition string_at :: "nat \<Rightarrow> memory \<Rightarrow> nat \<Rightarrow> printf_spec \<Rightarrow> out \<Rightarrow> out option" where
  "string_at e mem s spec out = do {
     n \<leftarrow> strnlen mem s (nat (precision spec mod 2 ^ 64));
     let len = wr32 (int n);
     (fw, out) \<leftarrow> (if flags spec AND fl_LEFT = 0 then string_pad e len (field_width spec) out else Some (field_width spec, out));
     out \<leftarrow> string_copy e mem s (nat len) out;
     (fw, out) \<leftarrow> string_pad e len fw out;
     Some out }"

definition string :: "nat \<Rightarrow> memory \<Rightarrow> nat \<Rightarrow> printf_spec \<Rightarrow> out \<Rightarrow> out option" where
  "string e mem s spec out =
     (if s < PAGE_SIZE then string_at e null_string 0 spec out else string_at e mem s spec out)"

section \<open>Model: addresses\<close>

text \<open>\<open>*p++ = c\<close> in an array of \<open>cap\<close> bytes.\<close>

definition lput :: "nat \<Rightarrow> u8 \<Rightarrow> u8 list \<Rightarrow> u8 list option" where
  "lput cap c p = (if length p < cap then Some (p @ [c]) else None)"

text \<open>\<open>*p = '\0'\<close>: the array then holds the string \<open>p @ [0]\<close>.\<close>

definition lend :: "nat \<Rightarrow> u8 list \<Rightarrow> u8 list option" where
  "lend cap p = (if length p < cap then Some p else None)"

definition hex_asc :: "u8 list" where
  "hex_asc = [0x30, 0x31, 0x32, 0x33, 0x34, 0x35, 0x36, 0x37, 0x38, 0x39, 0x61, 0x62, 0x63, 0x64, 0x65, 0x66]"

definition hex_asc_lo :: "u8 \<Rightarrow> u8" where "hex_asc_lo x = hex_asc ! unat (x AND 0x0f)"
definition hex_asc_hi :: "u8 \<Rightarrow> u8" where "hex_asc_hi x = hex_asc ! unat (drop_bit 4 (x AND 0xf0))"

definition pack_hex_byte :: "nat \<Rightarrow> u8 \<Rightarrow> u8 list \<Rightarrow> u8 list option" where
  "pack_hex_byte cap byte p = do { p \<leftarrow> lput cap (hex_asc_hi byte) p; lput cap (hex_asc_lo byte) p }"

fun mac_loop :: "memory \<Rightarrow> nat \<Rightarrow> bool \<Rightarrow> u8 \<Rightarrow> nat list \<Rightarrow> u8 list \<Rightarrow> u8 list option" where
  "mac_loop mem addr sep separator [] p = Some p"
| "mac_loop mem addr sep separator (i # is) p = do {
     c \<leftarrow> aget mem (addr + i);
     p \<leftarrow> pack_hex_byte 18 c p;
     p \<leftarrow> (if sep \<and> i \<noteq> 5 then lput 18 separator p else Some p);
     mac_loop mem addr sep separator is p }"

definition mac_address_string :: "nat \<Rightarrow> memory \<Rightarrow> nat \<Rightarrow> printf_spec \<Rightarrow> nat \<Rightarrow> out \<Rightarrow> out option" where
  "mac_address_string e mem addr spec fmt out = do {
     f0 \<leftarrow> aget mem fmt;
     f1 \<leftarrow> aget mem (fmt + 1);
     let separator = (if f1 = 0x46 then 0x2D else 0x3A);
     p \<leftarrow> mac_loop mem addr (f0 = 0x4D) separator [0..<6] [];
     p \<leftarrow> lend 18 p;
     string_at e (p @ [0]) 0 spec out }"

text \<open>The digits of a quad are computed in reverse in \<open>temp[3]\<close>.\<close>

fun quad_digits :: "nat \<Rightarrow> u8 list \<Rightarrow> nat \<Rightarrow> u8 list \<Rightarrow> u8 list option" where
  "quad_digits cap temp 0 p = Some p"
| "quad_digits cap temp (Suc digits) p = do { c \<leftarrow> aget temp digits; p \<leftarrow> lput cap c p; quad_digits cap temp digits p }"

fun ip4_loop :: "nat \<Rightarrow> memory \<Rightarrow> nat \<Rightarrow> bool \<Rightarrow> int \<Rightarrow> int \<Rightarrow> nat list \<Rightarrow> u8 list \<Rightarrow> u8 list option" where
  "ip4_loop cap mem addr lz index step [] p = Some p"
| "ip4_loop cap mem addr lz index step (i # is) p = do {
     c \<leftarrow> aget mem (nat (int addr + index));
     temp \<leftarrow> put_dec_trunc [] (ucast c);
     if length temp > 3 then None
     else do {
       p \<leftarrow> (if lz \<and> length temp < 3 then lput cap 0x30 p else Some p);
       p \<leftarrow> (if lz \<and> length temp < 2 then lput cap 0x30 p else Some p);
       p \<leftarrow> quad_digits cap temp (length temp) p;
       p \<leftarrow> (if i < 3 then lput cap 0x2E p else Some p);
       ip4_loop cap mem addr lz (index + step) step is p } }"

text \<open>The format may be in a memory of its own.\<close>

definition ip4_string :: "nat \<Rightarrow> u8 list \<Rightarrow> memory \<Rightarrow> nat \<Rightarrow> memory \<Rightarrow> nat \<Rightarrow> u8 list option" where
  "ip4_string cap p mem addr fmem fmt = do {
     f0 \<leftarrow> aget fmem fmt;
     f2 \<leftarrow> aget fmem (fmt + 2);
     let (index, step) = (if f2 = 0x68 \<or> f2 = 0x6C then (3, - 1) else (0, 1));
     p \<leftarrow> ip4_loop cap mem addr (f0 = 0x69) index step [0..<4] p;
     lend cap p }"

definition ip4_addr_string :: "nat \<Rightarrow> memory \<Rightarrow> nat \<Rightarrow> printf_spec \<Rightarrow> nat \<Rightarrow> out \<Rightarrow> out option" where
  "ip4_addr_string e mem addr spec fmt out = do { p \<leftarrow> ip4_string 16 [] mem addr mem fmt; string_at e (p @ [0]) 0 spec out }"

text \<open>The words of an IPv6 address, loaded in little-endian order.\<close>

definition load16 :: "memory \<Rightarrow> nat \<Rightarrow> u16" where
  "load16 b i = ucast (b ! (2 * i)) OR push_bit 8 (ucast (b ! (2 * i + 1)))"

definition load32 :: "memory \<Rightarrow> nat \<Rightarrow> u32" where
  "load32 b i = ucast (b ! (4 * i)) OR push_bit 8 (ucast (b ! (4 * i + 1))) OR push_bit 16 (ucast (b ! (4 * i + 2)))
     OR push_bit 24 (ucast (b ! (4 * i + 3)))"

definition swab16 :: "u16 \<Rightarrow> u16" where
  "swab16 x = push_bit 8 (x AND 0x00ff) OR drop_bit 8 (x AND 0xff00)"

definition swab32 :: "u32 \<Rightarrow> u32" where
  "swab32 x = push_bit 24 (x AND 0x000000ff) OR push_bit 8 (x AND 0x0000ff00) OR drop_bit 8 (x AND 0x00ff0000)
     OR drop_bit 24 (x AND 0xff000000)"

definition ipv6_addr_v4mapped :: "memory \<Rightarrow> bool" where
  "ipv6_addr_v4mapped a \<longleftrightarrow> load32 a 0 OR load32 a 1 OR (load32 a 2 XOR swab32 0x0000ffff) = 0"

definition ipv6_addr_is_isatap :: "memory \<Rightarrow> bool" where
  "ipv6_addr_is_isatap addr \<longleftrightarrow> load32 addr 2 OR swab32 0x02000000 = swab32 0x02005EFE"

text \<open>The inner loop of the search for the longest run of zero words: the length of the run at \<open>j\<close>.\<close>

function zero_run :: "memory \<Rightarrow> nat \<Rightarrow> nat \<Rightarrow> u8" where
  "zero_run in6 rng j = (if j < rng then (if load16 in6 j \<noteq> 0 then 0 else zero_run in6 rng (j + 1) + 1) else 0)"
  by pat_completeness auto
termination
  by (relation "measure (\<lambda>(in6, rng, j). rng - j)") auto

declare zero_run.simps [simp del]

fun longest_run :: "memory \<Rightarrow> nat \<Rightarrow> nat list \<Rightarrow> int \<times> int \<Rightarrow> int \<times> int" where
  "longest_run in6 rng [] r = r"
| "longest_run in6 rng (i # is) (longest, colonpos) =
     (let z = uint (zero_run in6 rng i)
      in longest_run in6 rng is (if z > longest then (z, int i) else (longest, colonpos)))"

text \<open>A 16-bit word in hexadecimal without leading zeros.\<close>

definition hex_word :: "nat \<Rightarrow> u8 \<Rightarrow> u8 \<Rightarrow> u8 list \<Rightarrow> u8 list option" where
  "hex_word cap hi lo p =
     (if hi \<noteq> 0
      then do { p \<leftarrow> (if hi > 0x0f then pack_hex_byte cap hi p else lput cap (hex_asc_lo hi) p); pack_hex_byte cap lo p }
      else if lo > 0x0f then pack_hex_byte cap lo p
      else lput cap (hex_asc_lo lo) p)"

text \<open>The loop that emits the words; \<open>longest\<close> is positive.\<close>

function ip6_emit :: "memory \<Rightarrow> nat \<Rightarrow> nat \<Rightarrow> int \<Rightarrow> nat \<Rightarrow> bool \<Rightarrow> u8 list \<Rightarrow> (bool \<times> u8 list) option" where
  "ip6_emit in6 rng longest colonpos i needcolon p =
     (if i < rng
      then (if int i = colonpos
            then do {
              p \<leftarrow> (if needcolon \<or> i = 0 then lput 46 0x3A p else Some p);
              p \<leftarrow> lput 46 0x3A p;
              ip6_emit in6 rng longest colonpos (i + (longest - 1) + 1) False p }
            else do {
              p \<leftarrow> (if needcolon then lput 46 0x3A p else Some p);
              let word = swab16 (load16 in6 i);
              p \<leftarrow> hex_word 46 (ucast (drop_bit 8 word)) (ucast (word AND 0xff)) p;
              ip6_emit in6 rng longest colonpos (i + 1) True p })
      else Some (needcolon, p))"
  by pat_completeness auto
termination
  by (relation "measure (\<lambda>(in6, rng, longest, colonpos, i, needcolon, p). rng - i)") auto

declare ip6_emit.simps [simp del]

definition ip6_compressed_string :: "u8 list \<Rightarrow> memory \<Rightarrow> nat \<Rightarrow> u8 list option" where
  "ip6_compressed_string p mem addr = do {
     in6 \<leftarrow> mem_read mem addr 16;
     let useIPv4 = (ipv6_addr_v4mapped in6 \<or> ipv6_addr_is_isatap in6);
     let rng = (if useIPv4 then 6 else 8);
     let (longest, colonpos) = longest_run in6 rng [0..<rng] (1, - 1);
     (needcolon, p) \<leftarrow> ip6_emit in6 rng (nat longest) colonpos 0 False p;
     p \<leftarrow> (if useIPv4
          then do { p \<leftarrow> (if needcolon then lput 46 0x3A p else Some p); ip4_string 46 p in6 12 [0x49, 0x34, 0] 0 }
          else Some p);
     lend 46 p }"

fun ip6_loop :: "memory \<Rightarrow> nat \<Rightarrow> bool \<Rightarrow> nat list \<Rightarrow> u8 list \<Rightarrow> u8 list option" where
  "ip6_loop mem addr sep [] p = Some p"
| "ip6_loop mem addr sep (i # is) p = do {
     c \<leftarrow> aget mem addr;
     p \<leftarrow> pack_hex_byte 46 c p;
     c \<leftarrow> aget mem (addr + 1);
     p \<leftarrow> pack_hex_byte 46 c p;
     p \<leftarrow> (if sep \<and> i \<noteq> 7 then lput 46 0x3A p else Some p);
     ip6_loop mem (addr + 2) sep is p }"

definition ip6_string :: "u8 list \<Rightarrow> memory \<Rightarrow> nat \<Rightarrow> nat \<Rightarrow> u8 list option" where
  "ip6_string p mem addr fmt = do {
     f0 \<leftarrow> aget mem fmt;
     p \<leftarrow> ip6_loop mem addr (f0 = 0x49) [0..<8] p;
     lend 46 p }"

definition ip6_addr_string :: "nat \<Rightarrow> memory \<Rightarrow> nat \<Rightarrow> printf_spec \<Rightarrow> nat \<Rightarrow> out \<Rightarrow> out option" where
  "ip6_addr_string e mem addr spec fmt out = do {
     f0 \<leftarrow> aget mem fmt;
     compressed \<leftarrow> (if f0 = 0x49 then do { f2 \<leftarrow> aget mem (fmt + 2); Some (f2 = 0x63) } else Some False);
     p \<leftarrow> (if compressed then ip6_compressed_string [] mem addr else ip6_string [] mem addr fmt);
     string_at e (p @ [0]) 0 spec out }"

definition uuid_be :: "nat list" where "uuid_be = [0, 1, 2, 3, 4, 5, 6, 7, 8, 9, 10, 11, 12, 13, 14, 15]"
definition uuid_le :: "nat list" where "uuid_le = [3, 2, 1, 0, 5, 4, 7, 6, 8, 9, 10, 11, 12, 13, 14, 15]"

fun uuid_loop :: "memory \<Rightarrow> nat \<Rightarrow> nat list \<Rightarrow> nat list \<Rightarrow> u8 list \<Rightarrow> u8 list option" where
  "uuid_loop mem addr index [] p = Some p"
| "uuid_loop mem addr index (i # is) p = do {
     k \<leftarrow> aget index i;
     c \<leftarrow> aget mem (addr + k);
     p \<leftarrow> pack_hex_byte 37 c p;
     p \<leftarrow> (if i \<in> {3, 5, 7, 9} then lput 37 0x2D p else Some p);
     uuid_loop mem addr index is p }"

text \<open>\<open>do *p = toupper(*p); while (*(++p));\<close> on the array with its terminator.\<close>

function upper_loop :: "memory \<Rightarrow> nat \<Rightarrow> memory option" where
  "upper_loop a i = do {
     c \<leftarrow> aget a i;
     a \<leftarrow> aset a i (toupper c);
     d \<leftarrow> aget a (i + 1);
     if d \<noteq> 0 then upper_loop a (i + 1) else Some a }"
  by pat_completeness auto
termination
  by (relation "measure (\<lambda>(a, i). length a - i)") (auto simp: aget_eq_Some_iff aset_def split: if_splits)

declare upper_loop.simps [simp del]

definition uuid_string :: "nat \<Rightarrow> memory \<Rightarrow> nat \<Rightarrow> printf_spec \<Rightarrow> nat \<Rightarrow> out \<Rightarrow> out option" where
  "uuid_string e mem addr spec fmt out = do {
     f1 \<leftarrow> aget mem (fmt + 1);
     let uc = (f1 = 0x4C \<or> f1 = 0x42);
     let index = (if f1 = 0x4C \<or> f1 = 0x6C then uuid_le else uuid_be);
     p \<leftarrow> uuid_loop mem addr index [0..<16] [];
     p \<leftarrow> lend 37 p;
     a \<leftarrow> (if uc then upper_loop (p @ [0]) 0 else Some (p @ [0]));
     string_at e a 0 spec out }"

section \<open>Model: resources\<close>

definition IORESOURCE_IO :: u64 where "IORESOURCE_IO = 0x00000100"
definition IORESOURCE_MEM :: u64 where "IORESOURCE_MEM = 0x00000200"
definition IORESOURCE_IRQ :: u64 where "IORESOURCE_IRQ = 0x00000400"
definition IORESOURCE_DMA :: u64 where "IORESOURCE_DMA = 0x00000800"
definition IORESOURCE_BUS :: u64 where "IORESOURCE_BUS = 0x00001000"
definition IORESOURCE_PREFETCH :: u64 where "IORESOURCE_PREFETCH = 0x00002000"
definition IORESOURCE_MEM_64 :: u64 where "IORESOURCE_MEM_64 = 0x00100000"
definition IORESOURCE_WINDOW :: u64 where "IORESOURCE_WINDOW = 0x00200000"
definition IORESOURCE_DISABLED :: u64 where "IORESOURCE_DISABLED = 0x10000000"

text \<open>The fields of a \<open>struct resource\<close> that are printed, at the offsets 0, 8 and 24.\<close>

record resource =
  res_start :: u64
  res_end :: u64
  res_flags :: u64

definition load64 :: "memory \<Rightarrow> nat \<Rightarrow> u64 option" where
  "load64 mem a = do { b \<leftarrow> mem_read mem a 8; Some (foldr (\<lambda>c w. push_bit 8 w OR ucast c) b 0) }"

definition load_resource :: "memory \<Rightarrow> nat \<Rightarrow> resource option" where
  "load_resource mem a = do {
     s \<leftarrow> load64 mem a;
     en \<leftarrow> load64 mem (a + 8);
     f \<leftarrow> load64 mem (a + 24);
     Some \<lparr>res_start = s, res_end = en, res_flags = f\<rparr> }"

definition num_spec :: "u8 \<Rightarrow> int \<Rightarrow> u8 \<Rightarrow> printf_spec" where
  "num_spec b fw fl = \<lparr>ftype = FORMAT_TYPE_NONE, flags = fl, nbase = b, qualifier = 0, field_width = fw, precision = - 1\<rparr>"

definition io_spec :: printf_spec where "io_spec = num_spec 16 6 (fl_SPECIAL OR fl_SMALL OR fl_ZEROPAD)"
definition mem_spec :: printf_spec where "mem_spec = num_spec 16 10 (fl_SPECIAL OR fl_SMALL OR fl_ZEROPAD)"
definition bus_spec :: printf_spec where "bus_spec = num_spec 16 2 (fl_SMALL OR fl_ZEROPAD)"
definition dec_spec :: printf_spec where "dec_spec = num_spec 10 0 0"
definition flag_spec :: printf_spec where "flag_spec = num_spec 16 0 (fl_SPECIAL OR fl_SMALL)"

definition str_spec :: printf_spec where
  "str_spec = \<lparr>ftype = FORMAT_TYPE_NONE, flags = fl_LEFT, nbase = 0, qualifier = 0, field_width = - 1, precision = 10\<rparr>"

text \<open>The size of \<open>sym\<close>: the larger of the sizes for decoded and for raw flags.\<close>

definition sym_size :: nat where
  "sym_size = (let RSRC_BUF_SIZE = 2 * 8 + 4; FLAG_BUF_SIZE = 2 * 8; DECODED_BUF_SIZE = 35; RAW_BUF_SIZE = 17
     in max (2 * RSRC_BUF_SIZE + DECODED_BUF_SIZE) (2 * RSRC_BUF_SIZE + FLAG_BUF_SIZE + RAW_BUF_SIZE))"

text \<open>An unguarded write to \<open>sym\<close>, and the literals.\<close>

definition sym_put :: "u8 \<Rightarrow> out \<Rightarrow> out option" where
  "sym_put c = (\<lambda>(b, s). do { b \<leftarrow> aset b s c; Some (b, s + 1) })"

definition sym_str :: "u8 list \<Rightarrow> out \<Rightarrow> out option" where
  "sym_str t out = string_at sym_size (t @ [0]) 0 str_spec out"

definition res_kind :: "resource \<Rightarrow> u8 list \<times> printf_spec \<times> bool" where
  "res_kind res =
     (if res_flags res AND IORESOURCE_IO \<noteq> 0 then ([0x69, 0x6F, 0x20, 0x20], io_spec, True)
      else if res_flags res AND IORESOURCE_MEM \<noteq> 0 then ([0x6D, 0x65, 0x6D, 0x20], mem_spec, True)
      else if res_flags res AND IORESOURCE_IRQ \<noteq> 0 then ([0x69, 0x72, 0x71, 0x20], dec_spec, True)
      else if res_flags res AND IORESOURCE_DMA \<noteq> 0 then ([0x64, 0x6D, 0x61, 0x20], dec_spec, True)
      else if res_flags res AND IORESOURCE_BUS \<noteq> 0 then ([0x62, 0x75, 0x73, 0x20], bus_spec, True)
      else ([0x3F, 0x3F, 0x3F, 0x20], mem_spec, False))"

definition resource_sym :: "resource \<Rightarrow> bool \<Rightarrow> out \<Rightarrow> out option" where
  "resource_sym res decode p = do {
     p \<leftarrow> sym_put 0x5B p;
     let (kind, specp, known) = res_kind res;
     let decode = (decode \<and> known);
     p \<leftarrow> sym_str kind p;
     p \<leftarrow> number sym_size (res_start res) specp p;
     p \<leftarrow> (if res_start res \<noteq> res_end res
          then do { p \<leftarrow> sym_put 0x2D p; number sym_size (res_end res) specp p } else Some p);
     p \<leftarrow> (if decode
          then do {
            p \<leftarrow> (if res_flags res AND IORESOURCE_MEM_64 \<noteq> 0 then sym_str [0x20, 0x36, 0x34, 0x62, 0x69, 0x74] p else Some p);
            p \<leftarrow> (if res_flags res AND IORESOURCE_PREFETCH \<noteq> 0 then sym_str [0x20, 0x70, 0x72, 0x65, 0x66] p else Some p);
            p \<leftarrow> (if res_flags res AND IORESOURCE_WINDOW \<noteq> 0 then sym_str [0x20, 0x77, 0x69, 0x6E, 0x64, 0x6F, 0x77] p else Some p);
            if res_flags res AND IORESOURCE_DISABLED \<noteq> 0
            then sym_str [0x20, 0x64, 0x69, 0x73, 0x61, 0x62, 0x6C, 0x65, 0x64] p else Some p }
          else do { p \<leftarrow> sym_str [0x20, 0x66, 0x6C, 0x61, 0x67, 0x73, 0x20] p; number sym_size (res_flags res) flag_spec p });
     p \<leftarrow> sym_put 0x5D p;
     (b, s) \<leftarrow> Some p;
     b \<leftarrow> aset b s 0;
     Some (b, s) }"

text \<open>The array is not initialised; nothing is read of it but the string that was written.\<close>

definition resource_string :: "nat \<Rightarrow> memory \<Rightarrow> nat \<Rightarrow> printf_spec \<Rightarrow> nat \<Rightarrow> out \<Rightarrow> out option" where
  "resource_string e mem addr spec fmt out = do {
     f0 \<leftarrow> aget mem fmt;
     res \<leftarrow> load_resource mem addr;
     (sym, _) \<leftarrow> resource_sym res (f0 = 0x52) (replicate sym_size 0, 0);
     string_at e sym 0 spec out }"

end
