(* ===== verification/Printf.thy ===== *)
theory Printf
  imports Print_String
begin

text \<open>
  \<open>format_decode\<close>, \<open>pointer\<close> and \<open>vsnprintf\<close> of \<open>lib/vsprintf.c\<close>.  The format and the strings are in a memory of
  bytes that the call does not change; the arguments are a list of 64-bit words, of which \<open>va_arg\<close> takes what the
  type asks for, and taking more than there are is a fault.  What \<open>%n\<close> stores is returned as a list of stores.
  The names of kernel symbols are a parameter: the text that \<open>kallsyms\<close> gives for an address, or \<open>None\<close> without
  \<open>CONFIG_KALLSYMS\<close>.
\<close>

section \<open>Model: decoding the format\<close>

function skip_atoi :: "memory \<Rightarrow> nat \<Rightarrow> int \<Rightarrow> (int \<times> nat) option" where
  "skip_atoi mem s i = do {
     c \<leftarrow> aget mem s;
     if isdigit c then skip_atoi mem (s + 1) (wr32 (i * 10 + uint c - 0x30)) else Some (i, s) }"
  by pat_completeness auto
termination
  by (relation "measure (\<lambda>(mem, s, i). length mem - s)") (auto simp: aget_eq_Some_iff)

declare skip_atoi.simps [simp del]

text \<open>The scan for the next \<open>%\<close>.\<close>

function text_end :: "memory \<Rightarrow> nat \<Rightarrow> nat option" where
  "text_end mem fmt = do { c \<leftarrow> aget mem fmt; if c = 0 \<or> c = 0x25 then Some fmt else text_end mem (fmt + 1) }"
  by pat_completeness auto
termination
  by (relation "measure (\<lambda>(mem, fmt). length mem - fmt)") (auto simp: aget_eq_Some_iff)

declare text_end.simps [simp del]

definition flag_char :: "u8 \<Rightarrow> u8 option" where
  "flag_char c =
     (if c = 0x2D then Some fl_LEFT else if c = 0x2B then Some fl_PLUS else if c = 0x20 then Some fl_SPACE
      else if c = 0x23 then Some fl_SPECIAL else if c = 0x30 then Some fl_ZEROPAD else None)"

function read_flags :: "memory \<Rightarrow> nat \<Rightarrow> u8 \<Rightarrow> (u8 \<times> nat) option" where
  "read_flags mem fmt fl = do {
     c \<leftarrow> aget mem (fmt + 1);
     case flag_char c of Some f \<Rightarrow> read_flags mem (fmt + 1) (fl OR f) | None \<Rightarrow> Some (fl, fmt + 1) }"
  by pat_completeness auto
termination
  by (relation "measure (\<lambda>(mem, fmt, fl). length mem - fmt)") (auto simp: aget_eq_Some_iff)

declare read_flags.simps [simp del]

text \<open>The type of an integer conversion.\<close>

definition number_type :: "printf_spec \<Rightarrow> format_type" where
  "number_type spec =
     (let sign = (flags spec AND fl_SIGN \<noteq> 0) in
      if qualifier spec = 0x4C then FORMAT_TYPE_LONG_LONG
      else if qualifier spec = 0x6C then (if sign then FORMAT_TYPE_LONG else FORMAT_TYPE_ULONG)
      else if TOLOWER (qualifier spec) = 0x7A then FORMAT_TYPE_SIZE_T
      else if qualifier spec = 0x74 then FORMAT_TYPE_PTRDIFF
      else if qualifier spec = 0x48 then (if sign then FORMAT_TYPE_BYTE else FORMAT_TYPE_UBYTE)
      else if qualifier spec = 0x68 then (if sign then FORMAT_TYPE_SHORT else FORMAT_TYPE_USHORT)
      else (if sign then FORMAT_TYPE_INT else FORMAT_TYPE_UINT))"

definition decode_conversion :: "memory \<Rightarrow> nat \<Rightarrow> printf_spec \<Rightarrow> (nat \<times> printf_spec) option" where
  "decode_conversion mem fmt spec = do {
     c \<leftarrow> aget mem fmt;
     let spec = spec\<lparr>nbase := 10\<rparr>;
     if c = 0x63 then Some (fmt + 1, spec\<lparr>ftype := FORMAT_TYPE_CHAR\<rparr>)
     else if c = 0x73 then Some (fmt + 1, spec\<lparr>ftype := FORMAT_TYPE_STR\<rparr>)
     else if c = 0x70 then Some (fmt, spec\<lparr>ftype := FORMAT_TYPE_PTR\<rparr>)
     else if c = 0x6E then Some (fmt + 1, spec\<lparr>ftype := FORMAT_TYPE_NRCHARS\<rparr>)
     else if c = 0x25 then Some (fmt + 1, spec\<lparr>ftype := FORMAT_TYPE_PERCENT_CHAR\<rparr>)
     else if c \<in> {0x6F, 0x78, 0x58, 0x64, 0x69, 0x75}
     then do {
       let spec = (if c = 0x6F then spec\<lparr>nbase := 8\<rparr>
                   else if c = 0x78 then spec\<lparr>flags := flags spec OR fl_SMALL, nbase := 16\<rparr>
                   else if c = 0x58 then spec\<lparr>nbase := 16\<rparr>
                   else if c = 0x75 then spec
                   else spec\<lparr>flags := flags spec OR fl_SIGN\<rparr>);
       Some (fmt + 1, spec\<lparr>ftype := number_type spec\<rparr>) }
     else Some (fmt, spec\<lparr>ftype := FORMAT_TYPE_INVALID\<rparr>) }"

text \<open>From the label \<open>qualifier\<close> on.\<close>

definition decode_qualifier :: "memory \<Rightarrow> nat \<Rightarrow> printf_spec \<Rightarrow> (nat \<times> printf_spec) option" where
  "decode_qualifier mem fmt spec = do {
     c \<leftarrow> aget mem fmt;
     if c = 0x68 \<or> TOLOWER c = 0x6C \<or> TOLOWER c = 0x7A \<or> c = 0x74
     then do {
       d \<leftarrow> aget mem (fmt + 1);
       if c = d \<and> c = 0x6C then decode_conversion mem (fmt + 2) (spec\<lparr>qualifier := 0x4C\<rparr>)
       else if c = d \<and> c = 0x68 then decode_conversion mem (fmt + 2) (spec\<lparr>qualifier := 0x48\<rparr>)
       else decode_conversion mem (fmt + 1) (spec\<lparr>qualifier := c\<rparr>) }
     else decode_conversion mem fmt (spec\<lparr>qualifier := 0xFF\<rparr>) }"

text \<open>From the label \<open>precision\<close> on.\<close>

definition decode_precision :: "memory \<Rightarrow> nat \<Rightarrow> printf_spec \<Rightarrow> (nat \<times> printf_spec) option" where
  "decode_precision mem fmt spec = do {
     let spec = spec\<lparr>precision := - 1\<rparr>;
     c \<leftarrow> aget mem fmt;
     if c = 0x2E
     then do {
       d \<leftarrow> aget mem (fmt + 1);
       if isdigit d
       then do {
         (n, fmt) \<leftarrow> skip_atoi mem (fmt + 1) 0;
         decode_qualifier mem fmt (spec\<lparr>precision := if wr16 n < 0 then 0 else wr16 n\<rparr>) }
       else if d = 0x2A then Some (fmt + 2, spec\<lparr>ftype := FORMAT_TYPE_PRECISION\<rparr>)
       else decode_qualifier mem (fmt + 1) spec }
     else decode_qualifier mem fmt spec }"

text \<open>The position after the token, and the specification; the source returns the number of characters read.\<close>

definition format_decode :: "memory \<Rightarrow> nat \<Rightarrow> printf_spec \<Rightarrow> (nat \<times> printf_spec) option" where
  "format_decode mem start spec =
     (if ftype spec = FORMAT_TYPE_WIDTH
      then decode_precision mem start
        (if field_width spec < 0
         then spec\<lparr>field_width := wr16 (- field_width spec), flags := flags spec OR fl_LEFT, ftype := FORMAT_TYPE_NONE\<rparr>
         else spec\<lparr>ftype := FORMAT_TYPE_NONE\<rparr>)
      else if ftype spec = FORMAT_TYPE_PRECISION
      then decode_qualifier mem start
        (spec\<lparr>precision := if precision spec < 0 then 0 else precision spec, ftype := FORMAT_TYPE_NONE\<rparr>)
      else do {
        let spec = spec\<lparr>ftype := FORMAT_TYPE_NONE\<rparr>;
        fmt \<leftarrow> text_end mem start;
        c \<leftarrow> aget mem fmt;
        if fmt \<noteq> start \<or> c = 0 then Some (fmt, spec)
        else do {
          (fl, fmt) \<leftarrow> read_flags mem fmt 0;
          let spec = spec\<lparr>flags := fl, field_width := - 1\<rparr>;
          c \<leftarrow> aget mem fmt;
          if isdigit c
          then do { (n, fmt) \<leftarrow> skip_atoi mem fmt 0; decode_precision mem fmt (spec\<lparr>field_width := wr16 n\<rparr>) }
          else if c = 0x2A then Some (fmt + 1, spec\<lparr>ftype := FORMAT_TYPE_WIDTH\<rparr>)
          else decode_precision mem fmt spec } })"

section \<open>Every token is read in finitely many steps\<close>

definition pending :: "printf_spec \<Rightarrow> bool" where
  "pending spec \<longleftrightarrow> ftype spec = FORMAT_TYPE_WIDTH \<or> ftype spec = FORMAT_TYPE_PRECISION"

lemma skip_atoi_mono: "skip_atoi mem s i = Some (n, s') \<Longrightarrow> s \<le> s'"
proof (induction mem s i rule: skip_atoi.induct)
  case (1 mem s i)
  show ?case using "1.prems" by (subst (asm) skip_atoi.simps) (auto simp: bind_eq_Some_conv split: if_splits dest!: "1.IH")
qed

lemma text_end_mono: "text_end mem s = Some s' \<Longrightarrow> s \<le> s'"
proof (induction mem s rule: text_end.induct)
  case (1 mem s)
  show ?case using "1.prems" by (subst (asm) text_end.simps) (auto simp: bind_eq_Some_conv split: if_splits dest!: "1.IH")
qed

lemma read_flags_mono: "read_flags mem s fl = Some (fl', s') \<Longrightarrow> s < s'"
proof (induction mem s fl rule: read_flags.induct)
  case (1 mem s fl)
  show ?case using "1.prems" by (subst (asm) read_flags.simps) (auto simp: bind_eq_Some_conv split: option.splits dest!: "1.IH" [simplified])
qed

lemma number_type_not_pending: "number_type spec \<noteq> FORMAT_TYPE_WIDTH \<and> number_type spec \<noteq> FORMAT_TYPE_PRECISION"
  by (simp add: number_type_def Let_def)

lemma decode_conversion_mono: "decode_conversion mem s spec = Some (s', spec') \<Longrightarrow> s \<le> s' \<and> \<not> pending spec'"
  by (auto simp: decode_conversion_def Let_def bind_eq_Some_conv pending_def number_type_not_pending split: if_splits)

lemma decode_qualifier_mono: "decode_qualifier mem s spec = Some (s', spec') \<Longrightarrow> s \<le> s' \<and> \<not> pending spec'"
  by (auto simp: decode_qualifier_def bind_eq_Some_conv split: if_splits dest!: decode_conversion_mono)

lemma decode_precision_mono: "decode_precision mem s spec = Some (s', spec') \<Longrightarrow> s \<le> s' \<and> (pending spec' \<longrightarrow> s < s')"
  by (auto simp: decode_precision_def bind_eq_Some_conv Let_def split: if_splits dest!: decode_qualifier_mono skip_atoi_mono)

lemma format_decode_mono:
  assumes "format_decode mem s spec = Some (s', spec')" "aget mem s = Some c" "c \<noteq> 0"
  shows "s < s' \<or> s = s' \<and> pending spec \<and> \<not> pending spec'"
proof (cases "pending spec")
  case True
  then show ?thesis using assms(1) unfolding format_decode_def
    by (auto simp: pending_def [of spec] split: if_splits dest!: decode_precision_mono decode_qualifier_mono)
next
  case False
  then obtain fmt c' where t: "text_end mem s = Some fmt" "aget mem fmt = Some c'"
    using assms(1) by (auto simp: format_decode_def Let_def pending_def bind_eq_Some_conv)
  have "s \<le> fmt" using t(1) by (rule text_end_mono)
  show ?thesis
  proof (cases "fmt \<noteq> s \<or> c' = 0")
    case True
    then have "fmt \<noteq> s" using t assms(2,3) by auto
    then show ?thesis using True False assms(1) t \<open>s \<le> fmt\<close> by (simp add: format_decode_def Let_def pending_def)
  next
    case F: False
    then obtain fl fmt' spec1 where r: "read_flags mem s 0 = Some (fl, fmt')" using False assms(1) t
      by (auto simp: format_decode_def Let_def pending_def bind_eq_Some_conv)
    have "s < fmt'" using r by (rule read_flags_mono)
    moreover have "fmt' \<le> s'" using F False assms(1) t r
      by (auto simp: format_decode_def Let_def pending_def bind_eq_Some_conv split: if_splits dest!: decode_precision_mono skip_atoi_mono)
    ultimately show ?thesis by simp
  qed
qed

section \<open>Model: printing\<close>

type_synonym kallsyms = "(u64 \<Rightarrow> u8 \<Rightarrow> u8 list) option"

definition symbol_string :: "kallsyms \<Rightarrow> nat \<Rightarrow> u64 \<Rightarrow> printf_spec \<Rightarrow> u8 \<Rightarrow> out \<Rightarrow> out option" where
  "symbol_string ks e val spec ext out =
     (case ks of Some names \<Rightarrow> string_at e (names val ext) 0 spec out
      | None \<Rightarrow> number e val (spec\<lparr>field_width := 16, flags := flags spec OR (fl_SPECIAL OR fl_SMALL OR fl_ZEROPAD), nbase := 16\<rparr>) out)"

definition pointer :: "kallsyms \<Rightarrow> memory \<Rightarrow> nat \<Rightarrow> nat \<Rightarrow> u64 \<Rightarrow> printf_spec \<Rightarrow> out \<Rightarrow> out option" where
  "pointer ks mem fmt e ptr spec out =
     (if ptr = 0 then string_at e null_string 0 spec out
      else do {
        c \<leftarrow> aget mem fmt;
        ip \<leftarrow> (if c = 0x49 \<or> c = 0x69 then do { f1 \<leftarrow> aget mem (fmt + 1); Some f1 } else Some 0);
        if c \<in> {0x46, 0x66, 0x53, 0x73} then symbol_string ks e ptr spec c out
        else if c = 0x52 \<or> c = 0x72 then resource_string e mem (unat ptr) spec fmt out
        else if c = 0x4D \<or> c = 0x6D then mac_address_string e mem (unat ptr) spec fmt out
        else if ip = 0x36 then ip6_addr_string e mem (unat ptr) spec fmt out
        else if ip = 0x34 then ip4_addr_string e mem (unat ptr) spec fmt out
        else if c = 0x55 then uuid_string e mem (unat ptr) spec fmt out
        else do {
          let spec = spec\<lparr>flags := flags spec OR fl_SMALL\<rparr>;
          let spec = (if field_width spec = - 1 then spec\<lparr>field_width := 16, flags := flags spec OR fl_ZEROPAD\<rparr> else spec);
          number e ptr (spec\<lparr>nbase := 16\<rparr>) out } })"

fun va_arg :: "u64 list \<Rightarrow> (u64 \<times> u64 list) option" where
  "va_arg [] = None"
| "va_arg (a # args) = Some (a, args)"

definition va_int :: "u64 \<Rightarrow> int" where
  "va_int a = sint (ucast a :: u32)"

definition va_number :: "format_type \<Rightarrow> u64 \<Rightarrow> u64" where
  "va_number t a =
     (case t of FORMAT_TYPE_LONG_LONG \<Rightarrow> a | FORMAT_TYPE_ULONG \<Rightarrow> a | FORMAT_TYPE_LONG \<Rightarrow> a | FORMAT_TYPE_SIZE_T \<Rightarrow> a
      | FORMAT_TYPE_PTRDIFF \<Rightarrow> a | FORMAT_TYPE_UBYTE \<Rightarrow> ucast (ucast a :: u8) | FORMAT_TYPE_BYTE \<Rightarrow> scast (ucast a :: u8)
      | FORMAT_TYPE_USHORT \<Rightarrow> ucast (ucast a :: u16) | FORMAT_TYPE_SHORT \<Rightarrow> scast (ucast a :: u16)
      | FORMAT_TYPE_INT \<Rightarrow> scast (ucast a :: u32) | _ \<Rightarrow> ucast (ucast a :: u32))"

text \<open>\<open>while (--spec.field_width > 0)\<close>\<close>

function char_pad :: "nat \<Rightarrow> int \<Rightarrow> out \<Rightarrow> (int \<times> out) option" where
  "char_pad e fw out =
     (let fw = wr16 (fw - 1) in if fw > 0 then do { out \<leftarrow> put e 0x20 out; char_pad e fw out } else Some (fw, out))"
  by pat_completeness auto
termination
proof (relation "measure (\<lambda>(e, fw, out). if 0 \<le> fw \<and> fw \<le> 32767 then nat fw else 40000)")
  fix e fw out x and y :: out
  assume "x = wr16 (fw - 1)" "0 < x" "put e 0x20 out = Some y"
  then show "((e, x, y), (e, fw, out)) \<in> measure (\<lambda>(e, fw, out). if 0 \<le> fw \<and> fw \<le> 32767 then nat fw else 40000)"
    using wr16_range [of "fw - 1"] wr16_id [of "fw - 1"] by (cases "fw = 0") auto
qed simp

declare char_pad.simps [simp del]

function skip_alnum :: "memory \<Rightarrow> nat \<Rightarrow> nat option" where
  "skip_alnum mem fmt = do { c \<leftarrow> aget mem fmt; if isalnum c then skip_alnum mem (fmt + 1) else Some fmt }"
  by pat_completeness auto
termination
  by (relation "measure (\<lambda>(mem, fmt). length mem - fmt)") (auto simp: aget_eq_Some_iff)

declare skip_alnum.simps [simp del]

lemma skip_alnum_mono: "skip_alnum mem s = Some s' \<Longrightarrow> s \<le> s'"
proof (induction mem s rule: skip_alnum.induct)
  case (1 mem s)
  show ?case using "1.prems" by (subst (asm) skip_alnum.simps) (auto simp: bind_eq_Some_conv split: if_splits dest!: "1.IH")
qed

text \<open>The stores of \<open>%n\<close>: the address, the width in bytes and the value.\<close>

type_synonym store = "u64 \<times> nat \<times> nat"

text \<open>The plain text of the format, from \<open>old_fmt\<close> to \<open>fmt\<close>, is copied as far as it fits.\<close>

definition copy_text :: "memory \<Rightarrow> nat \<Rightarrow> nat \<Rightarrow> nat \<Rightarrow> out \<Rightarrow> out option" where
  "copy_text mem e old_fmt read = (\<lambda>(b, s).
     if s < e
     then do { xs \<leftarrow> mem_read mem old_fmt (if read > e - s then e - s else read); b \<leftarrow> mem_write b s xs; Some (b, s + read) }
     else Some (b, s + read))"

definition char_conv :: "nat \<Rightarrow> printf_spec \<Rightarrow> u64 list \<Rightarrow> out \<Rightarrow> (printf_spec \<times> u64 list \<times> out) option" where
  "char_conv e spec args out = do {
     (fw, out) \<leftarrow> (if flags spec AND fl_LEFT = 0 then char_pad e (field_width spec) out else Some (field_width spec, out));
     (a, args) \<leftarrow> va_arg args;
     out \<leftarrow> put e (ucast a) out;
     (fw, out) \<leftarrow> char_pad e fw out;
     Some (spec\<lparr>field_width := fw\<rparr>, args, out) }"

text \<open>The switch on the type of the token.\<close>

definition vs_step ::
  "kallsyms \<Rightarrow> memory \<Rightarrow> nat \<Rightarrow> nat \<Rightarrow> nat \<Rightarrow> printf_spec \<Rightarrow> u64 list \<Rightarrow> store list \<Rightarrow> out
    \<Rightarrow> (nat \<times> printf_spec \<times> u64 list \<times> store list \<times> out) option" where
  "vs_step ks mem e old_fmt fmt spec args st out =
     (case ftype spec of
        FORMAT_TYPE_NONE \<Rightarrow> do { out \<leftarrow> copy_text mem e old_fmt (fmt - old_fmt) out; Some (fmt, spec, args, st, out) }
      | FORMAT_TYPE_WIDTH \<Rightarrow> do { (a, args) \<leftarrow> va_arg args; Some (fmt, spec\<lparr>field_width := wr16 (va_int a)\<rparr>, args, st, out) }
      | FORMAT_TYPE_PRECISION \<Rightarrow> do { (a, args) \<leftarrow> va_arg args; Some (fmt, spec\<lparr>precision := wr16 (va_int a)\<rparr>, args, st, out) }
      | FORMAT_TYPE_CHAR \<Rightarrow> do { (spec, args, out) \<leftarrow> char_conv e spec args out; Some (fmt, spec, args, st, out) }
      | FORMAT_TYPE_STR \<Rightarrow> do {
          (a, args) \<leftarrow> va_arg args;
          out \<leftarrow> string e mem (unat a) spec out;
          Some (fmt, spec, args, st, out) }
      | FORMAT_TYPE_PTR \<Rightarrow> do {
          (a, args) \<leftarrow> va_arg args;
          out \<leftarrow> pointer ks mem (fmt + 1) e a spec out;
          fmt \<leftarrow> skip_alnum mem fmt;
          Some (fmt, spec, args, st, out) }
      | FORMAT_TYPE_PERCENT_CHAR \<Rightarrow> do { out \<leftarrow> put e 0x25 out; Some (fmt, spec, args, st, out) }
      | FORMAT_TYPE_INVALID \<Rightarrow> do { out \<leftarrow> put e 0x25 out; Some (fmt, spec, args, st, out) }
      | FORMAT_TYPE_NRCHARS \<Rightarrow> do {
          (a, args) \<leftarrow> va_arg args;
          let width = (if qualifier spec = 0x6C \<or> TOLOWER (qualifier spec) = 0x7A then 8 else 4);
          Some (fmt, spec, args, st @ [(a, width, snd out)], out) }
      | t \<Rightarrow> do { (a, args) \<leftarrow> va_arg args; out \<leftarrow> number e (va_number t a) spec out; Some (fmt, spec, args, st, out) })"

lemma vs_step_mono:
  "vs_step ks mem e s0 s spec args st out = Some (s', spec', args', st', out') \<Longrightarrow> s \<le> s' \<and> ftype spec' = ftype spec"
  by (cases "ftype spec") (auto simp: vs_step_def char_conv_def bind_eq_Some_conv Let_def dest!: skip_alnum_mono)

text \<open>The loop of \<open>vsnprintf\<close>.\<close>

function vs_loop ::
  "kallsyms \<Rightarrow> memory \<Rightarrow> nat \<Rightarrow> nat \<Rightarrow> printf_spec \<Rightarrow> u64 list \<Rightarrow> store list \<Rightarrow> out \<Rightarrow> (u64 list \<times> store list \<times> out) option" where
  "vs_loop ks mem e fmt spec args st out = do {
     c \<leftarrow> aget mem fmt;
     if c = 0 then Some (args, st, out)
     else do {
       (fmt', spec') \<leftarrow> format_decode mem fmt spec;
       (fmt', spec', args, st, out) \<leftarrow> vs_step ks mem e fmt fmt' spec' args st out;
       vs_loop ks mem e fmt' spec' args st out } }"
  by pat_completeness auto
termination
proof (relation "measures [\<lambda>(ks, mem, e, fmt, spec, args, st, out). length mem - fmt,
    \<lambda>(ks, mem, e, fmt, spec, args, st, out). if pending spec then 1 else 0]", simp, clarify)
  fix ks mem e fmt spec args st b s c fmt1 spec1 fmt2 spec2 args2 st2 b2 s2
  assume a: "aget mem fmt = Some c" "c \<noteq> 0" "format_decode mem fmt spec = Some (fmt1, spec1)"
    "vs_step ks mem e fmt fmt1 spec1 args st (b, s) = Some (fmt2, spec2, args2, st2, b2, s2)"
  have "fmt < length mem" using a(1) by (simp add: aget_eq_Some_iff)
  moreover have "fmt1 \<le> fmt2" "pending spec2 = pending spec1" using vs_step_mono [OF a(4)] by (simp_all add: pending_def)
  ultimately show "((ks, mem, e, fmt2, spec2, args2, st2, b2, s2), (ks, mem, e, fmt, spec, args, st, b, s))
      \<in> measures [\<lambda>(ks, mem, e, fmt, spec, args, st, out). length mem - fmt,
          \<lambda>(ks, mem, e, fmt, spec, args, st, out). if pending spec then 1 else 0]"
    using format_decode_mono [OF a(3,1,2)] by auto
qed

declare vs_loop.simps [simp del]

definition empty_spec :: printf_spec where
  "empty_spec = \<lparr>ftype = FORMAT_TYPE_NONE, flags = 0, nbase = 0, qualifier = 0, field_width = 0, precision = 0\<rparr>"

text \<open>The end of the buffer relative to its address, which must not wrap around.\<close>

definition buf_end :: "nat \<Rightarrow> nat \<Rightarrow> nat" where
  "buf_end buf sz = (if buf + sz \<ge> 2 ^ 64 then 2 ^ 64 - 1 - buf else sz)"

definition vsnprintf :: "kallsyms \<Rightarrow> memory \<Rightarrow> nat \<Rightarrow> u8 list \<Rightarrow> u64 \<Rightarrow> nat \<Rightarrow> u64 list \<Rightarrow> (int \<times> u8 list \<times> store list) option" where
  "vsnprintf ks mem buf b sz fmt args =
     (if sint (ucast sz :: u32) < 0 then Some (0, b, [])
      else do {
        let e = buf_end buf (unat sz);
        (args, st, b, s) \<leftarrow> vs_loop ks mem e fmt empty_spec args [] (b, 0);
        b \<leftarrow> (if e > 0 then (if s < e then aset b s 0 else aset b (e - 1) 0) else Some b);
        Some (wr32 (int s), b, st) })"

text \<open>\<open>(i >= sz) ? (sz - 1) : i\<close>, where the comparison is unsigned.\<close>

definition clip_count :: "u64 \<Rightarrow> int \<Rightarrow> int" where
  "clip_count sz i = (if word_of_int i \<ge> sz then sint (ucast (sz - 1) :: u32) else i)"

definition vscnprintf :: "kallsyms \<Rightarrow> memory \<Rightarrow> nat \<Rightarrow> u8 list \<Rightarrow> u64 \<Rightarrow> nat \<Rightarrow> u64 list \<Rightarrow> (int \<times> u8 list \<times> store list) option" where
  "vscnprintf ks mem buf b sz fmt args = do { (i, b, st) \<leftarrow> vsnprintf ks mem buf b sz fmt args; Some (clip_count sz i, b, st) }"

definition snprintf :: "kallsyms \<Rightarrow> memory \<Rightarrow> nat \<Rightarrow> u8 list \<Rightarrow> u64 \<Rightarrow> nat \<Rightarrow> u64 list \<Rightarrow> (int \<times> u8 list \<times> store list) option" where
  "snprintf ks mem buf b sz fmt args = vsnprintf ks mem buf b sz fmt args"

definition scnprintf :: "kallsyms \<Rightarrow> memory \<Rightarrow> nat \<Rightarrow> u8 list \<Rightarrow> u64 \<Rightarrow> nat \<Rightarrow> u64 list \<Rightarrow> (int \<times> u8 list \<times> store list) option" where
  "scnprintf ks mem buf b sz fmt args = do { (i, b, st) \<leftarrow> vsnprintf ks mem buf b sz fmt args; Some (clip_count sz i, b, st) }"

definition vsprintf :: "kallsyms \<Rightarrow> memory \<Rightarrow> nat \<Rightarrow> u8 list \<Rightarrow> nat \<Rightarrow> u64 list \<Rightarrow> (int \<times> u8 list \<times> store list) option" where
  "vsprintf ks mem buf b fmt args = vsnprintf ks mem buf b 0x7FFFFFFF fmt args"

definition sprintf :: "kallsyms \<Rightarrow> memory \<Rightarrow> nat \<Rightarrow> u8 list \<Rightarrow> nat \<Rightarrow> u64 list \<Rightarrow> (int \<times> u8 list \<times> store list) option" where
  "sprintf ks mem buf b fmt args = vsnprintf ks mem buf b 0x7FFFFFFF fmt args"

end
