(* ===== verification/Printf_Emit.thy ===== *)
theory Printf_Emit
  imports Printf
begin

text \<open>
  What the conversions of \<open>lib/vsprintf.c\<close> write does not depend on the buffer: each of them faults for every buffer,
  or it writes the same text for every buffer and every end.  The laws of such writers carry over to \<open>vsnprintf\<close>.
\<close>

section \<open>Writers\<close>

text \<open>A writer with a result: the text and the result are the same for all ends and buffers.\<close>

definition emitr :: "(nat \<Rightarrow> out \<Rightarrow> ('r \<times> out) option) \<Rightarrow> bool" where
  "emitr h \<longleftrightarrow> (\<exists>t. \<forall>e out. h e out = (case t of None \<Rightarrow> None | Some (xs, r) \<Rightarrow> do { out \<leftarrow> puts e xs out; Some (r, out) }))"

definition emit :: "(nat \<Rightarrow> out \<Rightarrow> out option) \<Rightarrow> bool" where
  "emit h \<longleftrightarrow> (\<exists>t. \<forall>e out. h e out = (case t of None \<Rightarrow> None | Some xs \<Rightarrow> puts e xs out))"

named_theorems emit_intros

lemma emit_puts [emit_intros]: "emit (\<lambda>e. puts e xs)"
  unfolding emit_def by (rule exI [of _ "Some xs"]) simp

lemma emit_put [emit_intros]: "emit (\<lambda>e. put e c)"
  using emit_puts [of "[c]"] unfolding emit_def by (simp only: put_puts)

lemma emit_Some [emit_intros]: "emit (\<lambda>e out. Some out)"
  using emit_puts [of "[]"] by simp

lemma emit_None [emit_intros]: "emit (\<lambda>e out. None)"
  unfolding emit_def by (rule exI [of _ None]) simp

lemma emitr_None [emit_intros]: "emitr (\<lambda>e out. None)"
  unfolding emitr_def by (rule exI [of _ None]) simp

lemma emitr_Some [emit_intros]: "emitr (\<lambda>e out. Some (r, out))"
  unfolding emitr_def by (rule exI [of _ "Some ([], r)"]) simp

lemma emitr_seq [emit_intros]:
  assumes "emit h" "emitr k"
  shows "emitr (\<lambda>e out. do { out \<leftarrow> h e out; k e out })"
proof -
  obtain t u where t: "h = (\<lambda>e out. case t of None \<Rightarrow> None | Some xs \<Rightarrow> puts e xs out)"
    and u: "k = (\<lambda>e out. case u of None \<Rightarrow> None | Some (xs, r) \<Rightarrow> do { out \<leftarrow> puts e xs out; Some (r, out) })"
    using assms unfolding emit_def emitr_def fun_eq_iff by blast
  show ?thesis unfolding emitr_def t u
    by (rule exI [of _ "case (t, u) of (Some xs, Some (ys, r)) \<Rightarrow> Some (xs @ ys, r) | _ \<Rightarrow> None"])
      (auto simp: puts_append simp del: puts_bind split: option.split)
qed

lemma emitr_bind [emit_intros]:
  assumes "emitr h" "\<And>r. emitr (k r)"
  shows "emitr (\<lambda>e out. do { (r, out) \<leftarrow> h e out; k r e out })"
proof -
  obtain t where t: "h = (\<lambda>e out. case t of None \<Rightarrow> None | Some (xs, r) \<Rightarrow> do { out \<leftarrow> puts e xs out; Some (r, out) })"
    using assms(1) unfolding emitr_def fun_eq_iff by blast
  show ?thesis
  proof (cases t)
    case None
    then show ?thesis using t emitr_None by simp
  next
    case (Some xr)
    obtain xs r where "xr = (xs, r)" by (cases xr)
    then have "(\<lambda>e out. do { (r, out) \<leftarrow> h e out; k r e out }) = (\<lambda>e out. do { out \<leftarrow> puts e xs out; k r e out })"
      using t Some by (auto simp: fun_eq_iff)
    then show ?thesis using emitr_seq [OF emit_puts assms(2)] by simp
  qed
qed

lemma emit_iff_emitr: "emit h \<longleftrightarrow> emitr (\<lambda>e out. do { out \<leftarrow> h e out; Some ((), out) })"
proof
  assume "emit h"
  then show "emitr (\<lambda>e out. do { out \<leftarrow> h e out; Some ((), out) })" by (intro emit_intros)
next
  assume "emitr (\<lambda>e out. do { out \<leftarrow> h e out; Some ((), out) })"
  then obtain t where t: "\<And>e out. do { out \<leftarrow> h e out; Some ((), out) }
      = (case t of None \<Rightarrow> None | Some (xs, r) \<Rightarrow> do { out \<leftarrow> puts e xs out; Some (r, out) })"
    unfolding emitr_def by blast
  have inj: "x = y" if "do { out \<leftarrow> x; Some ((), out) } = do { out \<leftarrow> y; Some ((), out) }" for x y :: "out option"
    using that by (cases x; cases y) simp_all
  have "h e out = (case t of None \<Rightarrow> None | Some (xs, r) \<Rightarrow> puts e xs out)" for e out
    by (rule inj) (simp add: t split: option.split)
  then show "emit h" unfolding emit_def by (intro exI [of _ "map_option fst t"]) (auto split: option.split)
qed

lemma emit_seq [emit_intros]: "emit h \<Longrightarrow> emit k \<Longrightarrow> emit (\<lambda>e out. do { out \<leftarrow> h e out; k e out })"
  using emitr_seq [of h "\<lambda>e out. do { out \<leftarrow> k e out; Some ((), out) }"] unfolding emit_iff_emitr [of k]
    emit_iff_emitr [of "\<lambda>e out. do { out \<leftarrow> h e out; k e out }"] by simp

lemma emit_bind [emit_intros]: "emitr h \<Longrightarrow> (\<And>r. emit (k r)) \<Longrightarrow> emit (\<lambda>e out. do { (r, out) \<leftarrow> h e out; k r e out })"
  using emitr_bind [of h "\<lambda>r e out. do { out \<leftarrow> k r e out; Some ((), out) }"]
  unfolding emit_iff_emitr [of "\<lambda>e out. do { (r, out) \<leftarrow> h e out; k r e out }"] emit_iff_emitr [of "k _"] case_prod_beta
  by simp

text \<open>What does not use the buffer may come first, and choices keep a writer a writer.\<close>

lemma emit_pure [emit_intros]: "(\<And>r. emit (k r)) \<Longrightarrow> emit (\<lambda>e out. do { r \<leftarrow> m; k r e out })"
  using emit_None by (cases m) simp_all

lemma emitr_pure [emit_intros]: "(\<And>r. emitr (k r)) \<Longrightarrow> emitr (\<lambda>e out. do { r \<leftarrow> m; k r e out })"
  using emitr_None by (cases m) simp_all

lemma emit_if [emit_intros]: "emit h \<Longrightarrow> emit k \<Longrightarrow> emit (\<lambda>e out. if c then h e out else k e out)"
  by (cases c) simp_all

lemma emitr_if [emit_intros]: "emitr h \<Longrightarrow> emitr k \<Longrightarrow> emitr (\<lambda>e out. if c then h e out else k e out)"
  by (cases c) simp_all

lemma emit_case_prod [emit_intros]: "(\<And>a b. emit (k a b)) \<Longrightarrow> emit (\<lambda>e out. case p of (a, b) \<Rightarrow> k a b e out)"
  by (cases p) simp

section \<open>The conversions are writers\<close>

definition loop_rank :: "int \<Rightarrow> nat" where
  "loop_rank fw = (if 0 \<le> fw \<and> fw \<le> 32767 then nat fw else 40000)"

lemma loop_rank_step: "0 \<le> wr16 (fw - 1) \<Longrightarrow> loop_rank (wr16 (fw - 1)) < loop_rank fw"
  using wr16_range [of "fw - 1"] wr16_id [of "fw - 1"] by (cases "fw = 0") (auto simp: loop_rank_def)

lemma emitr_pad [emit_intros]: "emitr (\<lambda>e. pad e c fw)"
proof (induction "loop_rank fw" arbitrary: fw rule: less_induct)
  case less
  have "(\<lambda>e. pad e c fw) = (\<lambda>e out. if wr16 (fw - 1) \<ge> 0 then do { out \<leftarrow> put e c out; pad e c (wr16 (fw - 1)) out }
      else Some (wr16 (fw - 1), out))"
    by (intro ext, subst pad.simps) (simp add: Let_def)
  then show ?case using less [OF loop_rank_step] emitr_seq [OF emit_put] emitr_Some by (cases "0 \<le> wr16 (fw - 1)") simp_all
qed

lemma emit_zeros [emit_intros]: "emit (\<lambda>e. zeros e i prec)"
proof (induction "loop_rank prec" arbitrary: prec rule: less_induct)
  case less
  have e: "(\<lambda>e. zeros e i prec) = (\<lambda>e out. if int i \<le> wr16 (prec - 1) then do { out \<leftarrow> put e 0x30 out; zeros e i (wr16 (prec - 1)) out } else Some out)"
    by (intro ext, subst zeros.simps) (simp add: Let_def)
  show ?case
  proof (cases "int i \<le> wr16 (prec - 1)")
    case True
    then have "0 \<le> wr16 (prec - 1)" by simp
    from less [OF loop_rank_step [OF this]] show ?thesis using True emit_seq [OF emit_put] unfolding e by simp
  next
    case False
    then show ?thesis using emit_Some unfolding e by simp
  qed
qed

lemma emitr_char_pad [emit_intros]: "emitr (\<lambda>e. char_pad e fw)"
proof (induction "loop_rank fw" arbitrary: fw rule: less_induct)
  case less
  have "(\<lambda>e. char_pad e fw) = (\<lambda>e out. if wr16 (fw - 1) > 0 then do { out \<leftarrow> put e 0x20 out; char_pad e (wr16 (fw - 1)) out }
      else Some (wr16 (fw - 1), out))"
    by (intro ext, subst char_pad.simps) (simp add: Let_def)
  then show ?case using less [OF loop_rank_step] emitr_seq [OF emit_put] emitr_Some by (cases "0 < wr16 (fw - 1)") simp_all
qed

lemma emit_digits_out [emit_intros]: "emit (\<lambda>e. digits_out e tmp i)"
proof (induction i)
  case 0
  have "(\<lambda>e. digits_out e tmp 0) = (\<lambda>e. Some)" by (intro ext) simp
  then show ?case using emit_Some by simp
next
  case (Suc i)
  have "(\<lambda>e. digits_out e tmp (Suc i)) = (\<lambda>e out. do { c \<leftarrow> aget tmp i; out \<leftarrow> put e c out; digits_out e tmp i out })"
    by (intro ext) simp
  then show ?case using emit_pure [OF emit_seq [OF emit_put Suc]] by simp
qed

lemma emit_number [emit_intros]: "emit (\<lambda>e. number e num spec)"
  unfolding number_def Let_def by (intro emit_intros)

lemma emit_string_copy [emit_intros]: "emit (\<lambda>e. string_copy e mem s n)"
proof (induction n arbitrary: s)
  case 0
  have "(\<lambda>e. string_copy e mem s 0) = (\<lambda>e. Some)" by (intro ext) simp
  then show ?case using emit_Some by simp
next
  case (Suc n)
  have "(\<lambda>e. string_copy e mem s (Suc n)) = (\<lambda>e out. do { c \<leftarrow> aget mem s; out \<leftarrow> put e c out; string_copy e mem (s + 1) n out })"
    by (intro ext) simp
  then show ?case using emit_pure [OF emit_seq [OF emit_put Suc]] by simp
qed

text \<open>With a length below every 16-bit width the padding of \<open>string\<close> does not end.\<close>

lemma string_pad_diverges: "len < - 32768 \<Longrightarrow> len < fw \<Longrightarrow> string_pad e len fw out = None"
proof (rule ccontr)
  assume a: "len < - 32768" "len < fw" "string_pad e len fw out \<noteq> None"
  then obtain r where "string_pad e len fw out = Some r" by blast
  then have "len < - 32768 \<longrightarrow> \<not> len < fw"
  proof (rule string_pad.raw_induct [rotated])
    fix f e len fw out r
    assume ih: "\<And>e len fw out r. f e len fw out = Some r \<Longrightarrow> len < - 32768 \<longrightarrow> \<not> len < fw"
      and s: "(if len < fw then do { out \<leftarrow> put e 0x20 out; f e len (wr16 (fw - 1)) out } else Some (wr16 (fw - 1), out)) = Some r"
    show "len < - 32768 \<longrightarrow> \<not> len < fw"
      using s wr16_range(1) [of "fw - 1"] by (auto simp: bind_eq_Some_conv split: if_splits dest!: ih)
  qed
  then show False using a by simp
qed

lemma emitr_string_pad [emit_intros]: "emitr (\<lambda>e. string_pad e len fw)"
proof (cases "len < - 32768")
  case True
  then show ?thesis
  proof (cases "len < fw")
    case F: True
    have "(\<lambda>e. string_pad e len fw) = (\<lambda>e out. None)" by (intro ext) (rule string_pad_diverges [OF True F])
    then show ?thesis using emitr_None by simp
  next
    case False
    have "(\<lambda>e. string_pad e len fw) = (\<lambda>e out. Some (wr16 (fw - 1), out))" by (intro ext, subst string_pad.simps) (use False in simp)
    then show ?thesis using emitr_Some by simp
  qed
next
  case len: False
  show ?thesis
  proof (induction "if fw \<le> 32768 then nat (fw - len) else 100000 + nat (- len)" arbitrary: fw rule: less_induct)
    case less
    have e: "(\<lambda>e. string_pad e len fw) = (\<lambda>e out. if len < fw then do { out \<leftarrow> put e 0x20 out; string_pad e len (wr16 (fw - 1)) out }
        else Some (wr16 (fw - 1), out))"
      by (intro ext, subst string_pad.simps) simp
    show ?case
    proof (cases "len < fw")
      case True
      then have "(if wr16 (fw - 1) \<le> 32768 then nat (wr16 (fw - 1) - len) else 100000 + nat (- len))
          < (if fw \<le> 32768 then nat (fw - len) else 100000 + nat (- len))"
        using len wr16_range [of "fw - 1"] wr16_id [of "fw - 1"] by (cases "fw \<le> 32768") auto
      from less [OF this] show ?thesis using True emitr_seq [OF emit_put] unfolding e by simp
    next
      case False
      then show ?thesis using emitr_Some unfolding e by simp
    qed
  qed
qed

lemma emit_string_at [emit_intros]: "emit (\<lambda>e. string_at e mem s spec)"
  unfolding string_at_def Let_def by (intro emit_intros)

lemma emit_string [emit_intros]: "emit (\<lambda>e. string e mem s spec)"
  unfolding string_def by (intro emit_intros)

lemma emit_addresses [emit_intros]:
  "emit (\<lambda>e. mac_address_string e mem addr spec fmt)" "emit (\<lambda>e. ip4_addr_string e mem addr spec fmt)"
  "emit (\<lambda>e. ip6_addr_string e mem addr spec fmt)" "emit (\<lambda>e. uuid_string e mem addr spec fmt)"
  "emit (\<lambda>e. resource_string e mem addr spec fmt)"
  unfolding mac_address_string_def ip4_addr_string_def ip6_addr_string_def uuid_string_def resource_string_def Let_def
  by (intro emit_intros)+

lemma emit_symbol_string [emit_intros]: "emit (\<lambda>e. symbol_string ks e val spec ext)"
  unfolding symbol_string_def by (cases ks) (simp_all add: emit_intros)

lemma emit_pointer [emit_intros]: "emit (\<lambda>e. pointer ks mem fmt e ptr spec)"
  unfolding pointer_def Let_def by (intro emit_intros)

section \<open>\<open>vsnprintf\<close> is a writer\<close>

text \<open>A text is written, or it faults when it needs a position below the end that is not in the buffer.\<close>

lemma puts_total:
  "puts e xs (b, s) = (if e \<le> s \<or> xs = [] \<or> min e (s + length xs) \<le> length b then Some (overlay e xs b s, s + length xs) else None)"
proof (induction xs arbitrary: b s)
  case (Cons x xs)
  show ?case
  proof (cases "s < e \<and> s < length b")
    case True
    then have "take (Suc s) (b[s := x]) = take s b @ [x]" "e - s = Suc (e - Suc s)" by (auto simp: take_Suc_conv_app_nth)
    then have "overlay e (x # xs) b s = overlay e xs (b[s := x]) (Suc s)" by (simp add: overlay_def)
    then show ?thesis using True by (auto simp: Cons.IH put_def aset_def)
  next
    case False
    then show ?thesis by (auto simp: Cons.IH put_def aset_def overlay_def)
  qed
qed simp

lemma copy_text_puts:
  assumes "mem_read mem f n = Some xs" "0 < n"
  shows "copy_text mem e f n out = puts e xs out"
proof -
  obtain b s where out: "out = (b, s)" by (cases out)
  have x: "xs = take n (drop f mem)" "f + n \<le> length mem" "length xs = n" using assms(1) by (auto simp: mem_read_def split: if_splits)
  define k where "k = (if n > e - s then e - s else n)"
  have k: "k \<le> n" by (simp add: k_def)
  then have "mem_read mem f k = Some (take k xs)" "length (take k xs) = k" using x by (auto simp: mem_read_def min_absorb1)
  moreover have "take (e - s) xs = take k xs" using x(3) by (simp add: k_def)
  ultimately show ?thesis unfolding out puts_total using x(3) assms(2)
    by (auto simp: copy_text_def k_def [symmetric] mem_write_def overlay_def) (auto simp: k_def split: if_splits)
qed

text \<open>A step of the loop: the text, and the stores of \<open>%n\<close> for the position.\<close>

definition emitst :: "(nat \<Rightarrow> store list \<Rightarrow> out \<Rightarrow> ('r \<times> store list \<times> out) option) \<Rightarrow> bool" where
  "emitst h \<longleftrightarrow> (\<exists>t. \<forall>e st b s. h e st (b, s) =
     (case t of None \<Rightarrow> None | Some (xs, r, R) \<Rightarrow> do { out \<leftarrow> puts e xs (b, s); Some (r, st @ R s, out) }))"

lemma emitst_None: "emitst (\<lambda>e st out. None)"
  unfolding emitst_def by (rule exI [of _ None]) simp

lemma emitst_emitr:
  assumes "emitr h"
  shows "emitst (\<lambda>e st out. do { (r, out) \<leftarrow> h e out; Some (r, st, out) })"
proof -
  obtain t where "\<And>e out. h e out = (case t of None \<Rightarrow> None | Some (xs, r) \<Rightarrow> do { out \<leftarrow> puts e xs out; Some (r, out) })"
    using assms unfolding emitr_def by blast
  then show ?thesis unfolding emitst_def
    by (intro exI [of _ "map_option (\<lambda>(xs, r). (xs, r, \<lambda>s. [])) t"]) (auto split: option.split)
qed

lemma emitst_bind:
  assumes "emitst h" "\<And>e st out r st' out'. h e st out = Some (r, st', out') \<Longrightarrow> emitst (k r)"
  shows "emitst (\<lambda>e st out. do { (r, st, out) \<leftarrow> h e st out; k r e st out })"
proof -
  obtain t where t: "\<And>e st b s. h e st (b, s) = (case t of None \<Rightarrow> None | Some (xs, r, R) \<Rightarrow> do { out \<leftarrow> puts e xs (b, s); Some (r, st @ R s, out) })"
    using assms(1) unfolding emitst_def by blast
  show ?thesis
  proof (cases t)
    case None
    then show ?thesis unfolding emitst_def using t by (intro exI [of _ None]) simp
  next
    case (Some xr)
    then obtain xs r R where t': "t = Some (xs, r, R)" by (cases xr) auto
    have "h 0 [] ([], 0) = Some (r, R 0, overlay 0 xs [] 0, length xs)" by (simp add: t t' puts_total)
    then have "emitst (k r)" by (rule assms(2))
    then obtain u where u: "\<And>e st b s. k r e st (b, s) = (case u of None \<Rightarrow> None | Some (ys, r, R) \<Rightarrow> do { out \<leftarrow> puts e ys (b, s); Some (r, st @ R s, out) })"
      unfolding emitst_def by blast
    show ?thesis unfolding emitst_def
    proof (intro exI [of _ "case u of None \<Rightarrow> None | Some (ys, q, Q) \<Rightarrow> Some (xs @ ys, q, \<lambda>s. R s @ Q (s + length xs))"] allI)
      fix e st b s
      show "do { (r, st, out) \<leftarrow> h e st (b, s); k r e st out } = (case (case u of None \<Rightarrow> None | Some (ys, q, Q) \<Rightarrow> Some (xs @ ys, q, \<lambda>s. R s @ Q (s + length xs))) of
          None \<Rightarrow> None | Some (xs, r, R) \<Rightarrow> do { out \<leftarrow> puts e xs (b, s); Some (r, st @ R s, out) })"
      proof (cases "puts e xs (b, s)")
        case None
        then show ?thesis by (auto simp: t t' puts_append simp del: puts_bind split: option.split)
      next
        case (Some o')
        then have "o' = (overlay e xs b s, s + length xs)" by (simp add: puts_total split: if_splits)
        then show ?thesis using Some by (auto simp: t t' u puts_append simp del: puts_bind split: option.split)
      qed
    qed
  qed
qed

definition regroup :: "(nat \<times> printf_spec \<times> u64 list \<times> store list \<times> out) option \<Rightarrow> ((nat \<times> printf_spec \<times> u64 list) \<times> store list \<times> out) option" where
  "regroup x = do { (f, spec, args, st, out) \<leftarrow> x; Some ((f, spec, args), st, out) }"

lemma emitst_cong: "(\<And>e st out. F e st out = do { (r, out) \<leftarrow> h e out; Some (r, st, out) }) \<Longrightarrow> emitr h \<Longrightarrow> emitst F"
proof -
  assume "\<And>e st out. F e st out = do { (r, out) \<leftarrow> h e out; Some (r, st, out) }" "emitr h"
  then have "F = (\<lambda>e st out. do { (r, out) \<leftarrow> h e out; Some (r, st, out) })" by blast
  then show "emitst F" using emitst_emitr [OF \<open>emitr h\<close>] by simp
qed

lemma emit_char_conv: "emitr (\<lambda>e out. do { (spec, args, out) \<leftarrow> char_conv e spec args out; Some ((f, spec, args), out) })"
proof -
  have "emitr (\<lambda>e out. do {
      (fw, out) \<leftarrow> (if flags spec AND fl_LEFT = 0 then char_pad e (field_width spec) out else Some (field_width spec, out));
      a \<leftarrow> va_arg args;
      out \<leftarrow> put e (ucast (fst a)) out;
      (fw, out) \<leftarrow> char_pad e fw out;
      Some ((f, spec\<lparr>field_width := fw\<rparr>, snd a), out) })"
    by (intro emit_intros)
  then show ?thesis by (simp add: char_conv_def case_prod_unfold)
qed

lemma vs_step_emitst:
  assumes "ftype spec = FORMAT_TYPE_NONE \<Longrightarrow> f0 < f \<and> f \<le> length mem"
  shows "emitst (\<lambda>e st out. regroup (vs_step ks mem e f0 f spec args st out))"
proof -
  note d = vs_step_def regroup_def
  have num: "emitr (\<lambda>e out. do { a \<leftarrow> va_arg args; out \<leftarrow> number e (va_number (ftype spec) (fst a)) spec out; Some ((f, spec, snd a), out) })"
    by (intro emit_intros)
  have pct: "emitr (\<lambda>e out. do { out \<leftarrow> put e 0x25 out; Some ((f, spec, args), out) })" by (intro emit_intros)
  show ?thesis
  proof (cases "ftype spec")
    case FORMAT_TYPE_NONE
    then have r: "mem_read mem f0 (f - f0) = Some (take (f - f0) (drop f0 mem))" "0 < f - f0" using assms by (simp_all add: mem_read_def)
    have "emitr (\<lambda>e out. do { out \<leftarrow> puts e (take (f - f0) (drop f0 mem)) out; Some ((f, spec, args), out) })" by (intro emit_intros)
    then show ?thesis by (rule emitst_cong [rotated]) (simp add: d FORMAT_TYPE_NONE copy_text_puts [OF r] case_prod_unfold)
  next
    case FORMAT_TYPE_WIDTH
    have "emitr (\<lambda>e out. do { a \<leftarrow> va_arg args; Some ((f, spec\<lparr>field_width := wr16 (va_int (fst a))\<rparr>, snd a), out) })" by (intro emit_intros)
    then show ?thesis by (rule emitst_cong [rotated]) (simp add: d FORMAT_TYPE_WIDTH case_prod_unfold)
  next
    case FORMAT_TYPE_PRECISION
    have "emitr (\<lambda>e out. do { a \<leftarrow> va_arg args; Some ((f, spec\<lparr>precision := wr16 (va_int (fst a))\<rparr>, snd a), out) })" by (intro emit_intros)
    then show ?thesis by (rule emitst_cong [rotated]) (simp add: d FORMAT_TYPE_PRECISION case_prod_unfold)
  next
    case FORMAT_TYPE_CHAR
    show ?thesis by (rule emitst_cong [OF _ emit_char_conv [of spec args f]]) (simp add: d FORMAT_TYPE_CHAR case_prod_unfold)
  next
    case FORMAT_TYPE_STR
    have "emitr (\<lambda>e out. do { a \<leftarrow> va_arg args; out \<leftarrow> string e mem (unat (fst a)) spec out; Some ((f, spec, snd a), out) })" by (intro emit_intros)
    then show ?thesis by (rule emitst_cong [rotated]) (simp add: d FORMAT_TYPE_STR case_prod_unfold)
  next
    case FORMAT_TYPE_PTR
    have "emitr (\<lambda>e out. do { a \<leftarrow> va_arg args; out \<leftarrow> pointer ks mem (f + 1) e (fst a) spec out; f \<leftarrow> skip_alnum mem f; Some ((f, spec, snd a), out) })"
      by (intro emit_intros)
    then show ?thesis by (rule emitst_cong [rotated]) (simp add: d FORMAT_TYPE_PTR case_prod_unfold)
  next
    case FORMAT_TYPE_PERCENT_CHAR
    show ?thesis by (rule emitst_cong [OF _ pct]) (simp add: d FORMAT_TYPE_PERCENT_CHAR case_prod_unfold)
  next
    case FORMAT_TYPE_INVALID
    show ?thesis by (rule emitst_cong [OF _ pct]) (simp add: d FORMAT_TYPE_INVALID case_prod_unfold)
  next
    case FORMAT_TYPE_NRCHARS
    show ?thesis
    proof (cases args)
      case Nil
      then show ?thesis using FORMAT_TYPE_NRCHARS emitst_None by (simp add: d)
    next
      case (Cons a args')
      let ?w = "if qualifier spec = 0x6C \<or> TOLOWER (qualifier spec) = 0x7A then 8 else 4"
      show ?thesis unfolding emitst_def
        by (rule exI [of _ "Some ([], (f, spec, args'), \<lambda>s. [(a, ?w, s)])"]) (simp add: d FORMAT_TYPE_NRCHARS Cons Let_def)
    qed
  qed (rule emitst_cong [OF _ num], simp add: d case_prod_unfold)+
qed

lemma decode_conversion_type: "decode_conversion mem s spec = Some (s', spec') \<Longrightarrow> ftype spec' \<noteq> FORMAT_TYPE_NONE"
proof -
  have "number_type x \<noteq> FORMAT_TYPE_NONE" for x by (simp add: number_type_def Let_def)
  then show "decode_conversion mem s spec = Some (s', spec') \<Longrightarrow> ftype spec' \<noteq> FORMAT_TYPE_NONE"
    by (auto simp: decode_conversion_def Let_def bind_eq_Some_conv split: if_splits)
qed

lemma decode_qualifier_type: "decode_qualifier mem s spec = Some (s', spec') \<Longrightarrow> ftype spec' \<noteq> FORMAT_TYPE_NONE"
  by (auto simp: decode_qualifier_def bind_eq_Some_conv split: if_splits dest!: decode_conversion_type)

lemma decode_precision_type: "decode_precision mem s spec = Some (s', spec') \<Longrightarrow> ftype spec' \<noteq> FORMAT_TYPE_NONE"
  by (auto simp: decode_precision_def bind_eq_Some_conv Let_def split: if_splits dest!: decode_qualifier_type)

lemma format_decode_text:
  assumes "format_decode mem s spec = Some (s', spec')" "aget mem s = Some c" "c \<noteq> 0" "ftype spec' = FORMAT_TYPE_NONE"
  shows "s < s' \<and> s' \<le> length mem"
proof -
  have "\<not> pending spec" using assms(1,4) by (auto simp: format_decode_def pending_def dest!: decode_precision_type decode_qualifier_type)
  then have t: "text_end mem s = Some s'" "\<exists>c. aget mem s' = Some c" using assms(1,4)
    by (auto simp: format_decode_def Let_def pending_def bind_eq_Some_conv split: if_splits dest!: decode_precision_type)
  then have "s' \<le> length mem" by (auto simp: aget_eq_Some_iff)
  moreover have "s < s'" using format_decode_mono [OF assms(1-3)] \<open>\<not> pending spec\<close> by blast
  ultimately show ?thesis by simp
qed

lemma vs_loop_step:
  assumes "aget mem f = Some c" "c \<noteq> 0" "format_decode mem f spec = Some (f1, spec1)"
  shows "vs_loop ks mem e f spec args st out = do {
    (r, st, out) \<leftarrow> regroup (vs_step ks mem e f f1 spec1 args st out);
    (case r of (f2, spec2, args2) \<Rightarrow> vs_loop ks mem e f2 spec2 args2 st out) }"
  using assms by (subst vs_loop.simps) (simp add: regroup_def case_prod_unfold)

lemma vs_loop_emitst: "emitst (\<lambda>e st out. vs_loop ks mem e f spec args st out)"
proof (induction "2 * (length mem - f) + (if pending spec then 1 else 0)" arbitrary: f spec args rule: less_induct)
  case less
  consider "aget mem f = None" | "aget mem f = Some 0" | c where "aget mem f = Some c" "c \<noteq> 0" by (cases "aget mem f") auto
  then show ?case
  proof cases
    case 1
    have "(\<lambda>e st out. vs_loop ks mem e f spec args st out) = (\<lambda>e st out. None)" by (intro ext, subst vs_loop.simps) (simp add: 1)
    then show ?thesis using emitst_None by simp
  next
    case 2
    have "emitst (\<lambda>e st out. Some (args, st, out))" unfolding emitst_def by (rule exI [of _ "Some ([], args, \<lambda>s. [])"]) simp
    moreover have "(\<lambda>e st out. vs_loop ks mem e f spec args st out) = (\<lambda>e st out. Some (args, st, out))"
      by (intro ext, subst vs_loop.simps) (simp add: 2)
    ultimately show ?thesis by simp
  next
    case 3
    show ?thesis
    proof (cases "format_decode mem f spec")
      case None
      then have "(\<lambda>e st out. vs_loop ks mem e f spec args st out) = (\<lambda>e st out. None)" by (intro ext, subst vs_loop.simps) (simp add: 3)
      then show ?thesis using emitst_None by simp
    next
      case (Some p)
      then obtain f1 spec1 where fd: "format_decode mem f spec = Some (f1, spec1)" by (cases p) simp
      have m: "f < f1 \<or> f = f1 \<and> pending spec \<and> \<not> pending spec1" by (rule format_decode_mono [OF fd 3])
      have "f < length mem" using 3(1) by (simp add: aget_eq_Some_iff)
      have "emitst (\<lambda>e st out. do { (r, st, out) \<leftarrow> regroup (vs_step ks mem e f f1 spec1 args st out);
          (case r of (f2, spec2, args2) \<Rightarrow> vs_loop ks mem e f2 spec2 args2 st out) })"
      proof (rule emitst_bind [OF vs_step_emitst])
        assume "ftype spec1 = FORMAT_TYPE_NONE"
        then show "f < f1 \<and> f1 \<le> length mem" by (rule format_decode_text [OF fd 3])
      next
        fix e st out r st' out'
        assume "regroup (vs_step ks mem e f f1 spec1 args st out) = Some (r, st', out')"
        then obtain f2 spec2 args2 where r: "r = (f2, spec2, args2)" "vs_step ks mem e f f1 spec1 args st out = Some (f2, spec2, args2, st', out')"
          by (auto simp: regroup_def bind_eq_Some_conv)
        have "f1 \<le> f2" "pending spec2 = pending spec1" using vs_step_mono [OF r(2)] by (simp_all add: pending_def)
        then have "2 * (length mem - f2) + (if pending spec2 then 1 else 0) < 2 * (length mem - f) + (if pending spec then 1 else 0)"
          using m \<open>f < length mem\<close> by auto
        then show "emitst (\<lambda>e st out. case r of (f2, spec2, args2) \<Rightarrow> vs_loop ks mem e f2 spec2 args2 st out)"
          unfolding r(1) prod.case by (rule less)
      qed
      moreover have "(\<lambda>e st out. vs_loop ks mem e f spec args st out) = (\<lambda>e st out. do { (r, st, out) \<leftarrow> regroup (vs_step ks mem e f f1 spec1 args st out);
          (case r of (f2, spec2, args2) \<Rightarrow> vs_loop ks mem e f2 spec2 args2 st out) })"
        by (intro ext) (rule vs_loop_step [OF 3 fd])
      ultimately show ?thesis by (simp only:)
    qed
  qed
qed

end
