(* ===== verification/Printf_Ok.thy ===== *)
theory Printf_Ok
  imports Printf_Emit
begin

text \<open>
  The properties of \<open>vsnprintf\<close> and its variants: the text does not depend on the size, nothing is written beyond the
  size, the result is terminated, and what a format of plain text and simple conversions prints.
\<close>

section \<open>Any size\<close>

lemma small_size: "unat (sz :: u64) < 2 ^ 31 \<Longrightarrow> sint (ucast sz :: u32) = int (unat sz)"
proof -
  assume s: "unat sz < 2 ^ 31"
  have "unat (ucast sz :: u32) = unat sz" using s by (simp add: unsigned_ucast_eq take_bit_nat_eq_self)
  then have u: "uint (ucast sz :: u32) = int (unat sz)" by (metis uint_nat)
  have "int (unat sz) < int (2 ^ 31)" using s by (simp only: of_nat_less_iff)
  then have "signed_take_bit 31 (int (unat sz)) = int (unat sz)" by (intro signed_take_bit_int_eq_self) (auto intro: order_trans [of _ 0])
  then show ?thesis by (simp only: sint_uint u) simp
qed

text \<open>The buffer after a call: the text as far as it fits, and the terminator.\<close>

definition printed :: "u8 list \<Rightarrow> nat \<Rightarrow> u8 list \<Rightarrow> u8 list" where
  "printed text sz b = (if sz = 0 then b else (overlay sz text b 0)[min (length text) (sz - 1) := 0])"

lemma printed_spec:
  assumes "sz \<le> length b"
  shows "length (printed text sz b) = length b" "drop sz (printed text sz b) = drop sz b"
    "0 < sz \<Longrightarrow> take (min (length text) (sz - 1)) (printed text sz b) = take (sz - 1) text"
    "0 < sz \<Longrightarrow> printed text sz b ! min (length text) (sz - 1) = 0"
proof -
  let ?n = "min (length text) (sz - 1)"
  show l: "length (printed text sz b) = length b" using assms by (simp add: printed_def)
  show "drop sz (printed text sz b) = drop sz b"
    by (rule nth_equalityI) (use assms l in \<open>auto simp: printed_def overlay_nth nth_list_update\<close>)
  assume z: "0 < sz"
  show "take ?n (printed text sz b) = take (sz - 1) text"
    by (rule nth_equalityI) (use assms z l in \<open>auto simp: printed_def overlay_nth nth_list_update\<close>)
  show "printed text sz b ! ?n = 0" using assms z by (simp add: printed_def)
qed

lemma overlay_end_0 [simp]: "overlay 0 xs b 0 = b"
  by (simp add: overlay_def)

lemma vsnprintf_text:
  assumes "vsnprintf ks mem buf0 b0 0 fmt args = Some (r, b1, st)"
  obtains xs where "r = wr32 (int (length xs))"
    "\<And>buf b sz. unat sz < 2 ^ 31 \<Longrightarrow> buf + unat sz < 2 ^ 64 \<Longrightarrow> unat sz \<le> length b \<Longrightarrow>
      vsnprintf ks mem buf b sz fmt args = Some (r, printed xs (unat sz) b, st)"
proof -
  obtain t where t: "\<And>e st b s. vs_loop ks mem e fmt empty_spec args st (b, s)
      = (case t of None \<Rightarrow> None | Some (xs, r, R) \<Rightarrow> do { out \<leftarrow> puts e xs (b, s); Some (r, st @ R s, out) })"
    using vs_loop_emitst [of ks mem fmt empty_spec args] unfolding emitst_def by blast
  obtain xs q R where x: "t = Some (xs, q, R)" using assms t [of _ _ b0 0]
    by (cases t) (auto simp: vsnprintf_def Let_def bind_eq_Some_conv)
  show thesis
  proof (rule that [of xs])
    show "r = wr32 (int (length xs))" using assms t [of "buf_end buf0 0" "[]" b0 0] x
      by (auto simp: vsnprintf_def Let_def bind_eq_Some_conv puts_total split: if_splits)
    fix buf :: nat and b :: "u8 list" and sz :: u64
    assume s: "unat sz < 2 ^ 31" "buf + unat sz < 2 ^ 64" "unat sz \<le> length b"
    have e: "buf_end buf (unat sz) = unat sz" using s(2) by (simp add: buf_end_def)
    have "st = R 0" using assms t [of "buf_end buf0 0" "[]" b0 0] x
      by (auto simp: vsnprintf_def Let_def bind_eq_Some_conv puts_total split: if_splits)
    then show "vsnprintf ks mem buf b sz fmt args = Some (r, printed xs (unat sz) b, st)"
      using small_size [OF s(1)] puts_spec [OF s(3), of xs 0] s(3) \<open>r = _\<close>
      by (auto simp: vsnprintf_def Let_def e t x aset_def printed_def min_def)
  qed
qed

lemma clip_count_spec:
  assumes "0 < unat sz" "unat sz < 2 ^ 31" "n < 2 ^ 31"
  shows "clip_count sz (int n) = int (min n (unat sz - 1))"
proof -
  have "unat (word_of_int (int n) :: u64) = n" using assms(3) by (simp add: unsigned_of_nat take_bit_nat_eq_self)
  then have c: "word_of_int (int n) \<ge> sz \<longleftrightarrow> unat sz \<le> n" by (simp add: word_le_nat_alt)
  have "sz \<noteq> 0" using assms(1) by auto
  then have "unat (sz - 1) = unat sz - 1" by (rule unat_minus_one)
  then have "sint (ucast (sz - 1) :: u32) = int (unat sz - 1)" using small_size [of "sz - 1"] assms(2) by simp
  then show ?thesis using c assms(1) by (auto simp: clip_count_def min_def)
qed

lemma wr32_small: "n < 2 ^ 31 \<Longrightarrow> wr32 (int n) = int n"
  unfolding wr32_def by (rule signed_take_bit_int_eq_self) auto

section \<open>Conversions\<close>

text \<open>The text of a string and of a character in a field.\<close>

definition field :: "printf_spec \<Rightarrow> u8 list \<Rightarrow> u8 list" where
  "field spec t = (let w = replicate (nat (field_width spec) - length t) 0x20 in if flag spec fl_LEFT then t @ w else w @ t)"

definition string_text :: "u8 list \<Rightarrow> printf_spec \<Rightarrow> u8 list" where
  "string_text xs spec = field spec (if precision spec < 0 then xs else take (nat (precision spec)) xs)"

lemma string_pad_spec:
  assumes "- 32767 \<le> fw" "fw \<le> 32767"
  shows "string_pad e (int n) fw out = do { out \<leftarrow> puts e (replicate (nat fw - n) 0x20) out; Some ((if int n < fw then int n else fw) - 1, out) }"
  using assms
proof (induction "nat fw - n" arbitrary: fw out)
  case 0
  then have "\<not> int n < fw" "wr16 (fw - 1) = fw - 1" by (auto intro: wr16_id)
  then show ?case using 0 by (subst string_pad.simps) simp
next
  case (Suc k)
  then have c: "int n < fw" "wr16 (fw - 1) = fw - 1" "k = nat (fw - 1) - n" by (auto intro: wr16_id)
  have r: "nat fw - n = Suc (nat (fw - 1) - n)" using Suc.hyps(2) c(3) by simp
  have "string_pad e (int n) (fw - 1) = (\<lambda>o'. do { out \<leftarrow> puts e (replicate (nat (fw - 1) - n) 0x20) o'; Some (int n - 1, out) })"
    by (rule ext) (use Suc.hyps(1) [OF c(3)] Suc.prems c(1) in auto)
  then show ?case using c(1,2) by (subst string_pad.simps) (simp add: r)
qed

lemma string_copy_spec: "mem_read mem s n = Some xs \<Longrightarrow> string_copy e mem s n out = puts e xs out"
proof (induction n arbitrary: s xs out)
  case (Suc n)
  then have l: "s + Suc n \<le> length mem" and x: "xs = take (Suc n) (drop s mem)" by (auto simp: mem_read_def split: if_splits)
  have "xs = mem ! s # take n (drop (s + 1) mem)" using l x by (simp add: Cons_nth_drop_Suc [symmetric])
  moreover have "mem_read mem (s + 1) n = Some (take n (drop (s + 1) mem))" using l by (simp add: mem_read_def)
  from Suc.IH [OF this] have "string_copy e mem (s + 1) n = puts e (take n (drop (s + 1) mem))" by (rule ext)
  ultimately show ?case using l by (simp add: aget_def)
qed (simp add: mem_read_def split: if_splits)

lemma string_at_spec:
  assumes c: "cstring mem s xs" and l: "length xs < 2 ^ 31" and fw: "- 32766 \<le> field_width spec" "field_width spec \<le> 32767"
    and p: "- 1 \<le> precision spec" "precision spec \<le> 32767"
  shows "string_at e mem s spec out = puts e (string_text xs spec) out"
proof -
  define t where "t = (if precision spec < 0 then xs else take (nat (precision spec)) xs)"
  have "precision spec mod 2 ^ 64 = (if precision spec < 0 then 2 ^ 64 - 1 else precision spec)"
  proof (cases "precision spec < 0")
    case True
    then have "precision spec = - 1" using p(1) by simp
    then show ?thesis by simp
  qed (use p(2) in simp)
  then have n: "strnlen mem s (nat (precision spec mod 2 ^ 64)) = Some (length t)"
    using strnlen_spec [OF c] l by (auto simp: t_def min_def)
  have "length t \<le> length xs" by (simp add: t_def)
  then have w: "wr32 (int (length t)) = int (length t)" using l by (intro wr32_small) simp
  have "mem_read mem s (length xs) = Some xs" by (rule cstring_read [OF c])
  then have x: "s + length xs \<le> length mem" "take (length xs) (drop s mem) = xs" by (auto simp: mem_read_def split: if_splits)
  have "t = take (length t) xs" by (auto simp: t_def min_def)
  also have "\<dots> = take (length t) (drop s mem)" by (subst x(2) [symmetric]) (use \<open>length t \<le> _\<close> in \<open>simp add: min_absorb1\<close>)
  finally have "mem_read mem s (length t) = Some t" using x(1) \<open>length t \<le> _\<close> by (simp add: mem_read_def)
  note sc = string_copy_spec [OF this]
  define nt where "nt = length t"
  have fl: "flags spec AND fl_LEFT = 0 \<longleftrightarrow> \<not> flag spec fl_LEFT" by (simp add: flag_def)
  show ?thesis
    unfolding string_at_def n bind.bind_lunit Let_def w nat_int sc
    unfolding string_text_def t_def [symmetric] field_def Let_def fl nt_def [symmetric]
    using fw by (cases "flag spec fl_LEFT"; cases "int nt < field_width spec") (simp_all add: string_pad_spec)
qed

lemma char_pad_spec:
  assumes "- 32767 \<le> fw" "fw \<le> 32767"
  shows "char_pad e fw out = do { out \<leftarrow> puts e (replicate (nat fw - 1) 0x20) out; Some (if 0 < fw then 0 else fw - 1, out) }"
  using assms
proof (induction "nat fw - 1" arbitrary: fw out)
  case 0
  then have "wr16 (fw - 1) = fw - 1" by (intro wr16_id) simp_all
  then show ?case using 0 by (subst char_pad.simps) (auto simp: Let_def)
next
  case (Suc k)
  then have c: "1 < fw" "wr16 (fw - 1) = fw - 1" "k = nat (fw - 1) - 1" by (auto intro: wr16_id)
  define m where "m = nat (fw - 2)"
  have m: "nat (fw - 1) - 1 = m" "nat fw - 1 = Suc m" using c(1) by (simp_all add: m_def)
  have "char_pad e (fw - 1) = (\<lambda>o'. do { out \<leftarrow> puts e (replicate m 0x20) o'; Some (0, out) })"
    by (rule ext) (use Suc.hyps(1) [OF c(3)] Suc.prems c(1) in \<open>simp add: m(1) [simplified]\<close>)
  then show ?case unfolding m(2) using c(1,2) by (subst char_pad.simps) (simp add: Let_def)
qed

lemma char_conv_spec:
  assumes "- 1 \<le> field_width spec" "field_width spec \<le> 32767"
  shows "\<exists>fw. \<forall>e out. char_conv e spec (a # args) out = do { out \<leftarrow> puts e (field spec [ucast a]) out; Some (spec\<lparr>field_width := fw\<rparr>, args, out) }"
proof -
  have fl: "flags spec AND fl_LEFT = 0 \<longleftrightarrow> \<not> flag spec fl_LEFT" by (simp add: flag_def)
  define fw where "fw = (if flag spec fl_LEFT then (if 0 < field_width spec then 0 else field_width spec - 1)
    else if 0 < field_width spec then - 1 else field_width spec - 2)"
  have "char_conv e spec (a # args) out = do { out \<leftarrow> puts e (field spec [ucast a]) out; Some (spec\<lparr>field_width := fw\<rparr>, args, out) }" for e out
    unfolding char_conv_def fl put_puts va_arg.simps bind.bind_lunit prod.case field_def Let_def fw_def
    using assms by (cases "flag spec fl_LEFT"; cases "0 < field_width spec") (simp_all add: char_pad_spec puts_append del: puts_bind)
  then show ?thesis by blast
qed

section \<open>Directives\<close>

text \<open>A conversion with its flags, width, precision and qualifier, and the format it is written as.\<close>

record directive =
  d_flags :: "u8 list"
  d_width :: "nat option"
  d_prec :: "nat option"
  d_qual :: "u8 list"
  d_conv :: u8

definition decimal :: "nat \<Rightarrow> u8 list" where
  "decimal n = rev (map digit_char (rdigits 10 n))"

definition width_format :: "nat option \<Rightarrow> u8 list" where
  "width_format w = (case w of None \<Rightarrow> [] | Some n \<Rightarrow> decimal n)"

definition prec_format :: "nat option \<Rightarrow> u8 list" where
  "prec_format p = (case p of None \<Rightarrow> [] | Some n \<Rightarrow> 0x2E # decimal n)"

definition directive_format :: "directive \<Rightarrow> u8 list" where
  "directive_format d = 0x25 # d_flags d @ width_format (d_width d) @ prec_format (d_prec d) @ d_qual d @ [d_conv d]"

definition qualifiers :: "u8 list list" where
  "qualifiers = [[], [0x68], [0x68, 0x68], [0x6C], [0x6C, 0x6C], [0x4C], [0x7A], [0x5A], [0x74]]"

definition number_convs :: "u8 list" where
  "number_convs = [0x6F, 0x78, 0x58, 0x64, 0x69, 0x75]"

definition directive_ok :: "directive \<Rightarrow> bool" where
  "directive_ok d \<longleftrightarrow> list_all (\<lambda>c. flag_char c \<noteq> None) (d_flags d) \<and> (case d_width d of None \<Rightarrow> True | Some n \<Rightarrow> 0 < n \<and> n \<le> 32767) \<and>
     (case d_prec d of None \<Rightarrow> True | Some n \<Rightarrow> n \<le> 32760) \<and> d_qual d \<in> set qualifiers \<and>
     d_conv d \<in> set (0x63 # 0x73 # 0x25 # number_convs)"

definition flag_bits_of :: "u8 list \<Rightarrow> u8" where
  "flag_bits_of cs = foldl (\<lambda>fl c. case flag_char c of Some f \<Rightarrow> fl OR f | None \<Rightarrow> fl) 0 cs"

definition qual_of :: "u8 list \<Rightarrow> u8" where
  "qual_of q = (if q = [] then 0xFF else if q = [0x6C, 0x6C] then 0x4C else if q = [0x68, 0x68] then 0x48 else hd q)"

text \<open>The specification a directive stands for.\<close>

definition directive_spec :: "directive \<Rightarrow> printf_spec" where
  "directive_spec d =
     (let c = d_conv d;
          spec = \<lparr>ftype = FORMAT_TYPE_NONE,
            flags = flag_bits_of (d_flags d) OR (if c = 0x78 then fl_SMALL else if c = 0x64 \<or> c = 0x69 then fl_SIGN else 0),
            nbase = (if c = 0x6F then 8 else if c = 0x78 \<or> c = 0x58 then 16 else 10), qualifier = qual_of (d_qual d),
            field_width = (case d_width d of None \<Rightarrow> - 1 | Some n \<Rightarrow> int n), precision = (case d_prec d of None \<Rightarrow> - 1 | Some n \<Rightarrow> int n)\<rparr>
      in spec\<lparr>ftype := if c = 0x63 then FORMAT_TYPE_CHAR else if c = 0x73 then FORMAT_TYPE_STR else if c = 0x25 then FORMAT_TYPE_PERCENT_CHAR
           else number_type spec\<rparr>)"

lemma cstring_front: "cstring mem s (xs @ ys) \<Longrightarrow> cstring mem (s + length xs) ys"
  by (simp add: cstring_append)

lemma unat_digit_char: "d < 10 \<Longrightarrow> unat (digit_char d) = 48 + d"
proof -
  have "unat (of_nat k :: u8) = k" if "k < 256" for k using that by (simp add: unsigned_of_nat take_bit_nat_eq_self)
  then show "d < 10 \<Longrightarrow> unat (digit_char d) = 48 + d" unfolding digit_char_def by (simp only:)
qed

lemma decimal_digits: "list_all isdigit (decimal n)" "decimal n \<noteq> []"
proof -
  have "isdigit (digit_char d)" if "d < 10" for d using unat_digit_char [OF that] that by (simp add: digit_classes)
  then show "list_all isdigit (decimal n)" using rdigits_less [of 10] by (auto simp: decimal_def list_all_iff)
  show "decimal n \<noteq> []" by (simp add: decimal_def) (subst rdigits.simps, simp)
qed

end
