(* ===== verification/Printf_Format.thy ===== *)
theory Printf_Format
  imports Printf_Ok
begin

text \<open>
  Formats of plain text and directives: \<open>format_decode\<close> reads a directive as the specification it stands for, and
  \<open>vsnprintf\<close> prints the texts and the converted arguments one after the other.
\<close>

section \<open>Decoding a directive\<close>

lemma atoi_fold:
  "cstring mem s (ds @ rest) \<Longrightarrow> list_all isdigit ds \<Longrightarrow> rest = [] \<or> \<not> isdigit (hd rest) \<Longrightarrow>
    skip_atoi mem s i = Some (foldl (\<lambda>i c. wr32 (i * 10 + uint c - 0x30)) i ds, s + length ds)"
proof (induction ds arbitrary: s i)
  case Nil
  have "\<exists>c. aget mem s = Some c \<and> \<not> isdigit c" using Nil by (cases rest) (auto simp: digit_classes)
  then show ?case by (subst skip_atoi.simps) auto
next
  case (Cons d ds)
  then have "aget mem s = Some d" "cstring mem (s + 1) (ds @ rest)" "isdigit d" "list_all isdigit ds" by simp_all
  then show ?case using Cons.IH [OF _ _ Cons.prems(3), of "s + 1"] by (subst skip_atoi.simps) simp
qed

lemma fold_decimal: "n < 2 ^ 31 \<Longrightarrow> foldl (\<lambda>i c. wr32 (i * 10 + uint c - 0x30)) 0 (decimal n) = int n"
proof (induction n rule: less_induct)
  case (less n)
  have d: "uint (digit_char (n mod 10)) = 48 + int (n mod 10)"
  proof -
    have "uint (digit_char (n mod 10)) = int (unat (digit_char (n mod 10)))" by (rule uint_nat)
    also have "\<dots> = int (48 + n mod 10)" by (subst unat_digit_char) simp_all
    finally show ?thesis by simp
  qed
  have w: "wr32 (int (n div 10) * 10 + uint (digit_char (n mod 10)) - 0x30) = int n"
  proof -
    have "int (n div 10) * 10 + uint (digit_char (n mod 10)) - 0x30 = int (n div 10 * 10 + n mod 10)"
      unfolding d of_nat_add of_nat_mult of_nat_numeral by linarith
    then show ?thesis using wr32_small [OF less.prems] by (simp only: div_mult_mod_eq)
  qed
  show ?case
  proof (cases "n div 10 = 0")
    case True
    then show ?thesis using w unfolding decimal_def by (subst rdigits_step) simp_all
  next
    case False
    then have "n div 10 < n" by (intro div_less_dividend) (auto intro: gr0I)
    moreover have "n div 10 < 2 ^ 31" using less.prems \<open>n div 10 < n\<close> by (rule less_trans [rotated])
    ultimately have "foldl (\<lambda>i c. wr32 (i * 10 + uint c - 0x30)) 0 (decimal (n div 10)) = int (n div 10)" by (rule less.IH)
    moreover have "decimal n = decimal (n div 10) @ [digit_char (n mod 10)]" using False unfolding decimal_def by (subst rdigits_step) simp_all
    ultimately show ?thesis using w by (simp only: foldl_append foldl_Cons foldl_Nil)
  qed
qed

lemma skip_atoi_decimal:
  assumes "cstring mem s (decimal n @ rest)" "rest = [] \<or> \<not> isdigit (hd rest)" "n < 2 ^ 31"
  shows "skip_atoi mem s 0 = Some (int n, s + length (decimal n))"
  using atoi_fold [OF assms(1) decimal_digits(1) assms(2), of 0] fold_decimal [OF assms(3)] by simp

lemma read_flags_spec:
  "cstring mem s (x # fs @ rest) \<Longrightarrow> list_all (\<lambda>c. flag_char c \<noteq> None) fs \<Longrightarrow> rest = [] \<or> flag_char (hd rest) = None \<Longrightarrow>
    read_flags mem s fl = Some (foldl (\<lambda>fl c. case flag_char c of Some f \<Rightarrow> fl OR f | None \<Rightarrow> fl) fl fs, s + 1 + length fs)"
proof (induction fs arbitrary: s x fl)
  case Nil
  have "\<exists>c. aget mem (s + 1) = Some c \<and> flag_char c = None" using Nil by (cases rest) (auto simp: flag_char_def)
  then show ?case by (subst read_flags.simps) auto
next
  case (Cons f fs)
  then obtain v where v: "aget mem (s + 1) = Some f" "flag_char f = Some v" by auto
  have "cstring mem (s + 1) (f # fs @ rest)" "list_all (\<lambda>c. flag_char c \<noteq> None) fs" using Cons.prems by simp_all
  from Cons.IH [OF this Cons.prems(3), of "fl OR v"] show ?case using v by (subst read_flags.simps) simp
qed

lemma text_end_spec:
  "cstring mem s (l @ rest) \<Longrightarrow> 0x25 \<notin> set l \<Longrightarrow> rest = [] \<or> hd rest = 0x25 \<Longrightarrow> text_end mem s = Some (s + length l)"
proof (induction l arbitrary: s)
  case Nil
  then show ?case by (subst text_end.simps) (cases rest; auto)
next
  case (Cons c l)
  then show ?case using Cons.IH [of "s + 1"] by (subst text_end.simps) auto
qed

definition conv_chars :: "u8 set" where
  "conv_chars = set (0x63 # 0x73 # 0x25 # number_convs)"

definition conv_spec :: "u8 \<Rightarrow> printf_spec \<Rightarrow> printf_spec" where
  "conv_spec c spec =
     (let spec = spec\<lparr>flags := flags spec OR (if c = 0x78 then fl_SMALL else if c = 0x64 \<or> c = 0x69 then fl_SIGN else 0),
        nbase := if c = 0x6F then 8 else if c = 0x78 \<or> c = 0x58 then 16 else 10\<rparr>
      in spec\<lparr>ftype := if c = 0x63 then FORMAT_TYPE_CHAR else if c = 0x73 then FORMAT_TYPE_STR else if c = 0x25 then FORMAT_TYPE_PERCENT_CHAR
           else number_type spec\<rparr>)"

lemma decode_conversion_spec:
  assumes "aget mem s = Some c" "c \<in> conv_chars"
  shows "decode_conversion mem s spec = Some (s + 1, conv_spec c spec)"
  using assms by (cases spec) (auto simp: decode_conversion_def conv_spec_def conv_chars_def number_convs_def Let_def)

lemma decode_qualifier_spec:
  assumes m: "cstring mem s (q @ c # rest)" and q: "q \<in> set qualifiers" and c: "c \<in> conv_chars"
  shows "decode_qualifier mem s spec = Some (s + length q + 1, conv_spec c (spec\<lparr>qualifier := qual_of q\<rparr>))"
proof -
  have nq: "c \<noteq> 0x68" "TOLOWER c \<noteq> 0x6C" "TOLOWER c \<noteq> 0x7A" "c \<noteq> 0x74" "c \<noteq> 0x6C" "c \<noteq> 0x4C" "c \<noteq> 0x7A" "c \<noteq> 0x5A"
    using c by (auto simp: conv_chars_def number_convs_def TOLOWER_def)
  consider "q = []" | a where "q = [a]" "a \<in> {0x68, 0x6C, 0x4C, 0x7A, 0x5A, 0x74}" | a where "q = [a, a]" "a \<in> {0x68, 0x6C}"
    using q by (auto simp: qualifiers_def)
  then show ?thesis
  proof cases
    case 1
    then have "aget mem s = Some c" using m by simp
    then show ?thesis using 1 nq decode_conversion_spec [OF _ c] by (simp add: decode_qualifier_def qual_of_def)
  next
    case 2
    then have g: "aget mem s = Some a" "aget mem (s + 1) = Some c" using m by simp_all
    have "a = 0x68 \<or> TOLOWER a = 0x6C \<or> TOLOWER a = 0x7A \<or> a = 0x74" "a \<noteq> c" using 2 nq by (auto simp: TOLOWER_def)
    then show ?thesis using 2 g decode_conversion_spec [OF g(2) c] by (simp add: decode_qualifier_def qual_of_def)
  next
    case 3
    then have g: "aget mem s = Some a" "aget mem (s + 1) = Some a" "aget mem (s + 2) = Some c" using m by simp_all
    have "a = 0x68 \<or> TOLOWER a = 0x6C" using 3 by (auto simp: TOLOWER_def)
    then show ?thesis using 3 g decode_conversion_spec [OF g(3) c] by (auto simp: decode_qualifier_def qual_of_def)
  qed
qed

lemma tail_head:
  assumes "q \<in> set qualifiers" "c \<in> conv_chars"
  shows "\<not> isdigit (hd (q @ c # rest))" "hd (q @ c # rest) \<notin> {0x2A, 0x2E}"
    "flag_char (hd (q @ c # rest)) = None" "hd (q @ c # rest) \<noteq> 0"
proof -
  have "hd (q @ c # rest) \<in> set (0x68 # 0x6C # 0x4C # 0x7A # 0x5A # 0x74 # 0x63 # 0x73 # 0x25 # number_convs)"
    using assms by (auto simp: qualifiers_def conv_chars_def)
  then show "\<not> isdigit (hd (q @ c # rest))" "hd (q @ c # rest) \<notin> {0x2A, 0x2E}"
    "flag_char (hd (q @ c # rest)) = None" "hd (q @ c # rest) \<noteq> 0"
    by (auto simp: number_convs_def digit_classes flag_char_def)
qed

lemma decode_precision_spec:
  assumes m: "cstring mem s (prec_format p @ q @ c # rest)" and q: "q \<in> set qualifiers" and c: "c \<in> conv_chars"
    and p: "case p of None \<Rightarrow> True | Some n \<Rightarrow> n \<le> 32760"
  shows "decode_precision mem s spec = Some (s + length (prec_format p) + length q + 1,
    conv_spec c (spec\<lparr>precision := case p of None \<Rightarrow> - 1 | Some n \<Rightarrow> int n, qualifier := qual_of q\<rparr>))"
proof (cases p)
  case None
  have "aget mem s = Some (hd (q @ c # rest))" using m None by (cases q) (simp_all add: prec_format_def)
  then show ?thesis using None m tail_head(2) [OF q c] decode_qualifier_spec [OF _ q c]
    by (simp add: decode_precision_def prec_format_def)
next
  case (Some n)
  have g: "aget mem s = Some 0x2E" "cstring mem (s + 1) (decimal n @ q @ c # rest)" using m Some by (simp_all add: prec_format_def)
  obtain d ds where d: "decimal n = d # ds" "isdigit d" using decimal_digits [of n] by (cases "decimal n") auto
  have g1: "aget mem (s + 1) = Some d" using g(2) d by simp
  have n: "n < 2 ^ 31" "wr16 (int n) = int n" using p Some by (auto intro: wr16_id)
  have "skip_atoi mem (s + 1) 0 = Some (int n, s + 1 + length (decimal n))"
    using skip_atoi_decimal [OF g(2) _ n(1)] tail_head(1) [OF q c] by blast
  moreover have "cstring mem (s + 1 + length (decimal n)) (q @ c # rest)" by (rule cstring_front [OF g(2)])
  ultimately show ?thesis using Some g(1) g1 d(2) n(2) decode_qualifier_spec [OF _ q c]
    by (simp add: decode_precision_def prec_format_def)
qed

lemma last_rdigits: "0 < n \<Longrightarrow> last (rdigits 10 n) \<noteq> 0"
proof (induction n rule: less_induct)
  case (less n)
  show ?case
  proof (cases "n div 10 = 0")
    case True
    then have "n mod 10 = n" using div_mult_mod_eq [of n 10] by simp
    then show ?thesis using True less.prems by (subst rdigits_step) simp_all
  next
    case False
    then have "n div 10 < n" by (intro div_less_dividend) (auto intro: gr0I)
    with False have "last (rdigits 10 (n div 10)) \<noteq> 0" by (intro less.IH) simp_all
    moreover have "rdigits 10 (n div 10) \<noteq> []" by (subst rdigits.simps) simp
    ultimately show ?thesis using False by (subst rdigits_step) simp_all
  qed
qed

lemma hd_decimal: "0 < n \<Longrightarrow> flag_char (hd (decimal n)) = None \<and> isdigit (hd (decimal n))"
proof -
  assume n: "0 < n"
  have r: "rdigits 10 n \<noteq> []" by (subst rdigits.simps) simp
  define d where "d = last (rdigits 10 n)"
  have d: "d < 10" "d \<noteq> 0" using last_rdigits [OF n] rdigits_less [of 10 d n] r by (auto simp: d_def)
  have h: "hd (decimal n) = digit_char d" using r by (simp add: decimal_def d_def hd_rev last_map)
  have "unat (hd (decimal n)) = 48 + d" unfolding h by (rule unat_digit_char [OF d(1)])
  then show ?thesis using d by (auto simp: flag_char_def digit_classes word_unat_eq_iff)
qed

lemma directive_spec_conv:
  "directive_spec d = conv_spec (d_conv d) \<lparr>ftype = FORMAT_TYPE_NONE, flags = flag_bits_of (d_flags d), nbase = b, qualifier = qual_of (d_qual d),
     field_width = (case d_width d of None \<Rightarrow> - 1 | Some n \<Rightarrow> int n), precision = (case d_prec d of None \<Rightarrow> - 1 | Some n \<Rightarrow> int n)\<rparr>"
  by (simp add: directive_spec_def conv_spec_def Let_def)

lemma format_decode_directive:
  assumes m: "cstring mem s (directive_format d @ rest)" and ok: "directive_ok d" and np: "\<not> pending spec"
  shows "format_decode mem s spec = Some (s + length (directive_format d), directive_spec d)"
proof -
  define tl where "tl = prec_format (d_prec d) @ d_qual d @ d_conv d # rest"
  have q: "d_qual d \<in> set qualifiers" and c: "d_conv d \<in> conv_chars" using ok by (simp_all add: directive_ok_def conv_chars_def)
  have p: "case d_prec d of None \<Rightarrow> True | Some n \<Rightarrow> n \<le> 32760" using ok by (simp add: directive_ok_def)
  have fs: "list_all (\<lambda>c. flag_char c \<noteq> None) (d_flags d)" using ok by (simp add: directive_ok_def)
  have m': "cstring mem s (0x25 # d_flags d @ (width_format (d_width d) @ tl))" using m by (simp add: directive_format_def tl_def)
  have h: "\<not> isdigit (hd tl)" "hd tl \<noteq> 0x2A" "flag_char (hd tl) = None" "tl \<noteq> []"
    using tail_head [OF q c, of rest] by (auto simp: tl_def prec_format_def digit_classes flag_char_def split: option.split)
  have w: "flag_char (hd (width_format (d_width d) @ tl)) = None"
    using ok h(3) hd_decimal decimal_digits(2) by (auto simp: width_format_def directive_ok_def split: option.splits)
  define s1 where "s1 = s + 1 + length (d_flags d)"
  have rf: "read_flags mem s 0 = Some (flag_bits_of (d_flags d), s1)"
    unfolding flag_bits_of_def s1_def by (rule read_flags_spec [OF m' fs]) (use w in blast)
  have m1: "cstring mem s1 (width_format (d_width d) @ tl)" unfolding s1_def
    using cstring_front [of mem s "0x25 # d_flags d"] m' by simp
  define s2 where "s2 = s1 + length (width_format (d_width d))"
  have m2: "cstring mem s2 tl" unfolding s2_def by (rule cstring_front [OF m1])
  have "aget mem s = Some 0x25" using m' by simp
  then have te: "text_end mem s = Some s" "aget mem s = Some 0x25" by (simp_all add: text_end.simps)
  have dp: "decode_precision mem s2 (x\<lparr>ftype := FORMAT_TYPE_NONE, flags := flag_bits_of (d_flags d), field_width := fw\<rparr>)
      = Some (s + length (directive_format d), conv_spec (d_conv d) (x\<lparr>ftype := FORMAT_TYPE_NONE, flags := flag_bits_of (d_flags d), field_width := fw,
          precision := case d_prec d of None \<Rightarrow> - 1 | Some n \<Rightarrow> int n, qualifier := qual_of (d_qual d)\<rparr>))" for x fw
    using decode_precision_spec [OF m2 [unfolded tl_def] q c p] by (simp add: s2_def s1_def directive_format_def)
  show ?thesis
  proof (cases "d_width d")
    case None
    then have "aget mem s1 = Some (hd tl)" "s2 = s1" using m1 h(4) by (cases tl; simp add: width_format_def s2_def)+
    then show ?thesis using te rf np None h dp [of "- 1" spec] unfolding directive_spec_conv [of d "nbase spec"]
      by (cases spec) (simp add: format_decode_def pending_def Let_def)
  next
    case (Some n)
    then have n: "0 < n" "n < 2 ^ 31" "wr16 (int n) = int n" using ok by (auto simp: directive_ok_def intro: wr16_id)
    have m3: "cstring mem s1 (decimal n @ tl)" using m1 Some by (simp add: width_format_def)
    have "aget mem s1 = Some (hd (decimal n))" using m3 decimal_digits(2) [of n] by (cases "decimal n") simp_all
    moreover have "skip_atoi mem s1 0 = Some (int n, s2)" using skip_atoi_decimal [OF m3 _ n(2)] h(1) Some by (simp add: s2_def width_format_def)
    ultimately show ?thesis using te rf np Some h n(3) hd_decimal [OF n(1)] dp [of "int n" spec] unfolding directive_spec_conv [of d "nbase spec"]
      by (cases spec) (simp add: format_decode_def pending_def Let_def)
  qed
qed

section \<open>Printing a format\<close>

definition cstr :: "memory \<Rightarrow> nat \<Rightarrow> u8 list option" where
  "cstr mem s = (let xs = takeWhile (\<lambda>c. c \<noteq> 0) (drop s mem) in if s + length xs < length mem then Some xs else None)"

text \<open>The text of a conversion and the arguments it leaves.\<close>

definition directive_out :: "memory \<Rightarrow> directive \<Rightarrow> u64 list \<Rightarrow> (u8 list \<times> u64 list) option" where
  "directive_out mem d args =
     (let spec = directive_spec d in
      if d_conv d = 0x25 then Some ([0x25], args)
      else do {
        (a, args) \<leftarrow> va_arg args;
        if d_conv d = 0x63 then Some (field spec [ucast a], args)
        else if d_conv d = 0x73
        then do {
          xs \<leftarrow> (if unat a < PAGE_SIZE then Some (butlast null_string) else cstr mem (unat a));
          Some (string_text xs spec, args) }
        else Some (number_text (va_number (ftype spec) a) spec, args) })"

text \<open>A format: directives with the plain text before each of them, and the plain text at the end.\<close>

type_synonym format = "(u8 list \<times> directive) list \<times> u8 list"

fun format_string :: "format \<Rightarrow> u8 list" where
  "format_string ([], l) = l"
| "format_string ((t, d) # ps, l) = t @ directive_format d @ format_string (ps, l)"

fun format_out :: "memory \<Rightarrow> format \<Rightarrow> u64 list \<Rightarrow> u8 list option" where
  "format_out mem ([], l) args = Some l"
| "format_out mem ((t, d) # ps, l) args = do {
     (u, args) \<leftarrow> directive_out mem d args;
     v \<leftarrow> format_out mem (ps, l) args;
     Some (t @ u @ v) }"

definition format_ok :: "format \<Rightarrow> bool" where
  "format_ok f \<longleftrightarrow> list_all (\<lambda>(t, d). 0x25 \<notin> set t \<and> directive_ok d) (fst f) \<and> 0x25 \<notin> set (snd f)"

lemma cstr_cstring: "cstr mem s = Some xs \<Longrightarrow> cstring mem s xs \<and> length xs \<le> length mem"
proof -
  assume c: "cstr mem s = Some xs"
  have x: "xs = takeWhile (\<lambda>c. c \<noteq> 0) (drop s mem)" "s + length xs < length mem"
    using c by (auto simp: cstr_def Let_def split: if_splits)
  have "drop s mem ! length xs = 0" unfolding x(1)
    by (rule nth_length_takeWhile [of "\<lambda>c. c \<noteq> 0" "drop s mem", simplified not_not]) (use x in auto)
  moreover have "mem ! (s + i) = xs ! i" if "i < length xs" for i
    using that x(2) takeWhile_nth [of i "\<lambda>c. c \<noteq> 0" "drop s mem"] by (simp add: x(1))
  moreover have "0 \<notin> set xs" unfolding x(1) by (auto dest: set_takeWhileD)
  ultimately show ?thesis using x(2) by (auto intro!: cstring_intro simp: aget_def)
qed

lemma conv_spec_fields [simp]:
  "field_width (conv_spec c spec) = field_width spec" "precision (conv_spec c spec) = precision spec"
  by (simp_all add: conv_spec_def Let_def)

lemma directive_spec_range:
  assumes "directive_ok d"
  shows "- 1 \<le> field_width (directive_spec d)" "field_width (directive_spec d) \<le> 32767"
    "- 1 \<le> precision (directive_spec d)" "precision (directive_spec d) \<le> 32760" "nbase (directive_spec d) \<in> {8, 10, 16}"
  using assms by (auto simp: directive_spec_def Let_def directive_ok_def split: option.splits)

lemma vs_text:
  assumes m: "cstring mem s (l @ rest)" and l: "l \<noteq> []" "0x25 \<notin> set l" "rest = [] \<or> hd rest = 0x25" and np: "\<not> pending spec"
  shows "vs_loop ks mem e s spec args st out = do {
    out \<leftarrow> puts e l out; vs_loop ks mem e (s + length l) (spec\<lparr>ftype := FORMAT_TYPE_NONE\<rparr>) args st out }"
proof -
  obtain c where g: "aget mem s = Some c" "c \<noteq> 0" using m l(1) by (cases l) auto
  have "\<exists>c'. aget mem (s + length l) = Some c'" using cstring_front [OF m] by (cases rest) auto
  then have fd: "format_decode mem s spec = Some (s + length l, spec\<lparr>ftype := FORMAT_TYPE_NONE\<rparr>)"
    using text_end_spec [OF m l(2,3)] l(1) np by (auto simp: format_decode_def pending_def)
  have "mem_read mem s (length l + length rest) = Some (l @ rest)" using cstring_read [OF m] by simp
  then have "mem_read mem s (length l) = Some l" by (auto simp: mem_read_def take_add split: if_splits)
  then have "copy_text mem e s (length l) out = puts e l out" for e out using l(1) by (intro copy_text_puts) simp_all
  then show ?thesis unfolding vs_loop_step [OF g fd] by (simp add: vs_step_def regroup_def case_prod_unfold)
qed

lemma vs_step_number:
  assumes "ftype spec = number_type x"
  shows "vs_step ks mem e f0 f spec args st out = do { (a, args) \<leftarrow> va_arg args; out \<leftarrow> number e (va_number (ftype spec) a) spec out; Some (f, spec, args, st, out) }"
proof -
  have "number_type x \<in> {FORMAT_TYPE_LONG_LONG, FORMAT_TYPE_ULONG, FORMAT_TYPE_LONG, FORMAT_TYPE_SIZE_T, FORMAT_TYPE_PTRDIFF, FORMAT_TYPE_UBYTE,
      FORMAT_TYPE_BYTE, FORMAT_TYPE_USHORT, FORMAT_TYPE_SHORT, FORMAT_TYPE_INT, FORMAT_TYPE_UINT}" by (simp add: number_type_def Let_def)
  then show ?thesis unfolding vs_step_def assms by (elim insertE emptyE) simp_all
qed

lemma null_cstring: "cstring null_string 0 (butlast null_string)"
  by (simp add: null_string_def aget_def)

lemma string_arg:
  assumes "(if unat a < PAGE_SIZE then Some (butlast null_string) else cstr mem (unat a)) = Some xs" "length mem < 2 ^ 31"
    "directive_ok d" "spec = directive_spec d"
  shows "string e mem (unat a) spec out = puts e (string_text xs spec) out"
proof -
  note r = directive_spec_range [OF assms(3), folded assms(4)]
  have b: "- 32766 \<le> field_width spec" "precision spec \<le> 32767" using r by simp_all
  show ?thesis
  proof (cases "unat a < PAGE_SIZE")
    case True
    then have "xs = butlast null_string" using assms(1) by simp
    then show ?thesis using True string_at_spec [OF null_cstring _ b(1) r(2,3) b(2)] by (simp add: string_def null_string_def)
  next
    case False
    then have c: "cstring mem (unat a) xs" "length xs < 2 ^ 31" using cstr_cstring [of mem "unat a" xs] assms(1,2) by auto
    then show ?thesis using False string_at_spec [OF c b(1) r(2,3) b(2)] by (simp add: string_def)
  qed
qed

lemma vs_step_directive:
  assumes ok: "directive_ok d" and o': "directive_out mem d args = Some (t, args')" and l: "length mem < 2 ^ 31"
  shows "\<exists>fw. \<forall>e st out. vs_step ks mem e f0 f (directive_spec d) args st out
    = do { out \<leftarrow> puts e t out; Some (f, (directive_spec d)\<lparr>field_width := fw\<rparr>, args', st, out) }"
proof -
  define spec where "spec = directive_spec d"
  note r = directive_spec_range [OF ok, folded spec_def]
  have ty: "ftype spec = (if d_conv d = 0x63 then FORMAT_TYPE_CHAR else if d_conv d = 0x73 then FORMAT_TYPE_STR
      else if d_conv d = 0x25 then FORMAT_TYPE_PERCENT_CHAR else number_type (spec\<lparr>ftype := FORMAT_TYPE_NONE\<rparr>))"
    by (simp add: spec_def directive_spec_def Let_def)
  have same: "spec\<lparr>field_width := field_width spec\<rparr> = spec" by simp
  note o = o' [unfolded directive_out_def Let_def, folded spec_def]
  consider "d_conv d = 0x25" | "d_conv d = 0x63" | "d_conv d = 0x73" | "d_conv d \<notin> {0x25, 0x63, 0x73}" by blast
  then show ?thesis unfolding spec_def [symmetric]
  proof cases
    case 1
    then have "vs_step ks mem e f0 f spec args st out = do { out \<leftarrow> puts e t out; Some (f, spec\<lparr>field_width := field_width spec\<rparr>, args', st, out) }"
      for e st out using o ty by (simp add: vs_step_def put_puts del: puts.simps)
    then show "\<exists>fw. \<forall>e st out. vs_step ks mem e f0 f spec args st out = do { out \<leftarrow> puts e t out; Some (f, spec\<lparr>field_width := fw\<rparr>, args', st, out) }" by blast
  next
    case 2
    then obtain a where a: "args = a # args'" "t = field spec [ucast a]" using o by (cases args) auto
    obtain fw where cc: "\<And>e out. char_conv e spec (a # args') out = do { out \<leftarrow> puts e t out; Some (spec\<lparr>field_width := fw\<rparr>, args', out) }"
      using char_conv_spec [OF r(1,2), of a args'] unfolding a(2) by blast
    have "vs_step ks mem e f0 f spec args st out = do { out \<leftarrow> puts e t out; Some (f, spec\<lparr>field_width := fw\<rparr>, args', st, out) }" for e st out
      using 2 ty a(1) by (simp add: vs_step_def cc)
    then show "\<exists>fw. \<forall>e st out. vs_step ks mem e f0 f spec args st out = do { out \<leftarrow> puts e t out; Some (f, spec\<lparr>field_width := fw\<rparr>, args', st, out) }" by blast
  next
    case 3
    then obtain a xs where a: "args = a # args'" "t = string_text xs spec"
      "(if unat a < PAGE_SIZE then Some (butlast null_string) else cstr mem (unat a)) = Some xs"
      using o by (cases args) (auto simp: bind_eq_Some_conv)
    have "vs_step ks mem e f0 f spec args st out = do { out \<leftarrow> puts e t out; Some (f, spec\<lparr>field_width := field_width spec\<rparr>, args', st, out) }" for e st out
      using 3 ty a(1,2) string_arg [OF a(3) l ok spec_def] by (simp add: vs_step_def)
    then show "\<exists>fw. \<forall>e st out. vs_step ks mem e f0 f spec args st out = do { out \<leftarrow> puts e t out; Some (f, spec\<lparr>field_width := fw\<rparr>, args', st, out) }" by blast
  next
    case 4
    then obtain a where a: "args = a # args'" "t = number_text (va_number (ftype spec) a) spec" using o by (cases args) auto
    have t: "ftype spec = number_type (spec\<lparr>ftype := FORMAT_TYPE_NONE\<rparr>)" using ty 4 by simp
    have "vs_step ks mem e f0 f spec args st out = do { out \<leftarrow> puts e t out; Some (f, spec\<lparr>field_width := field_width spec\<rparr>, args', st, out) }" for e st out
      unfolding vs_step_number [OF t] a using number_spec [OF r(5,1,2,4)] by simp
    then show "\<exists>fw. \<forall>e st out. vs_step ks mem e f0 f spec args st out = do { out \<leftarrow> puts e t out; Some (f, spec\<lparr>field_width := fw\<rparr>, args', st, out) }" by blast
  qed
qed

lemma directive_nonpending: "\<not> pending ((directive_spec d)\<lparr>field_width := fw\<rparr>)"
  by (simp add: directive_spec_def Let_def pending_def number_type_not_pending)

lemma vs_directive:
  assumes m: "cstring mem s (directive_format d @ rest)" and ok: "directive_ok d" and np: "\<not> pending spec"
    and o: "directive_out mem d args = Some (t, args')" and l: "length mem < 2 ^ 31"
  shows "\<exists>spec'. \<not> pending spec' \<and> (\<forall>e st out. vs_loop ks mem e s spec args st out
    = do { out \<leftarrow> puts e t out; vs_loop ks mem e (s + length (directive_format d)) spec' args' st out })"
proof -
  have g: "aget mem s = Some 0x25" "(0x25 :: u8) \<noteq> 0" using m by (simp_all add: directive_format_def)
  obtain fw where v: "\<And>e st out. vs_step ks mem e s (s + length (directive_format d)) (directive_spec d) args st out
      = do { out \<leftarrow> puts e t out; Some (s + length (directive_format d), (directive_spec d)\<lparr>field_width := fw\<rparr>, args', st, out) }"
    using vs_step_directive [OF ok o l] by blast
  have "vs_loop ks mem e s spec args st out
      = do { out \<leftarrow> puts e t out; vs_loop ks mem e (s + length (directive_format d)) ((directive_spec d)\<lparr>field_width := fw\<rparr>) args' st out }" for e st out
    unfolding vs_loop_step [OF g format_decode_directive [OF m ok np]] v by (simp add: regroup_def)
  then show ?thesis using directive_nonpending by blast
qed

lemma vs_plain:
  assumes m: "cstring mem s (l @ rest)" and l: "0x25 \<notin> set l" "rest = [] \<or> hd rest = 0x25" and np: "\<not> pending spec"
  shows "\<exists>spec'. \<not> pending spec' \<and> (\<forall>e args st out. vs_loop ks mem e s spec args st out
    = do { out \<leftarrow> puts e l out; vs_loop ks mem e (s + length l) spec' args st out })"
proof (cases "l = []")
  case True
  then show ?thesis using np by (intro exI [of _ spec]) simp
next
  case False
  have "\<not> pending (spec\<lparr>ftype := FORMAT_TYPE_NONE\<rparr>)" by (simp add: pending_def)
  then show ?thesis using vs_text [OF m False l np] by blast
qed

lemma vs_format:
  "cstring mem s (format_string f) \<Longrightarrow> format_ok f \<Longrightarrow> \<not> pending spec \<Longrightarrow> format_out mem f args = Some xs \<Longrightarrow> length mem < 2 ^ 31 \<Longrightarrow>
    \<exists>args'. \<forall>e st out. vs_loop ks mem e s spec args st out = do { out \<leftarrow> puts e xs out; Some (args', st, out) }"
proof (induction mem f args arbitrary: s spec xs rule: format_out.induct)
  case (1 mem l args)
  then have m: "cstring mem s (l @ [])" "0x25 \<notin> set l" "xs = l" by (simp_all add: format_ok_def)
  obtain spec' where v: "\<And>e args st out. vs_loop ks mem e s spec args st out = do { out \<leftarrow> puts e l out; vs_loop ks mem e (s + length l) spec' args st out }"
    using vs_plain [OF m(1,2) _ "1.prems"(3)] by blast
  have "aget mem (s + length l) = Some 0" using cstring_front [OF m(1)] by simp
  then have "vs_loop ks mem e (s + length l) spec' args st out = Some (args, st, out)" for e st out by (subst vs_loop.simps) simp
  then have "vs_loop ks mem e s spec args st out = do { out \<leftarrow> puts e xs out; Some (args, st, out) }" for e st out unfolding v m(3) by presburger
  then show ?case by blast
next
  case (2 mem t d ps l args)
  obtain u args1 v where o: "directive_out mem d args = Some (u, args1)" "format_out mem (ps, l) args1 = Some v" "xs = t @ u @ v"
    using "2.prems"(4) by (auto simp: bind_eq_Some_conv)
  have ok: "0x25 \<notin> set t" "directive_ok d" "format_ok (ps, l)" using "2.prems"(2) by (simp_all add: format_ok_def)
  have m: "cstring mem s (t @ (directive_format d @ format_string (ps, l)))" using "2.prems"(1) by simp
  have h: "hd (directive_format d @ format_string (ps, l)) = 0x25" by (simp add: directive_format_def)
  obtain spec1 where s1: "\<not> pending spec1"
    "\<And>e args st out. vs_loop ks mem e s spec args st out = do { out \<leftarrow> puts e t out; vs_loop ks mem e (s + length t) spec1 args st out }"
    using vs_plain [OF m ok(1) _ "2.prems"(3)] h by blast
  have m1: "cstring mem (s + length t) (directive_format d @ format_string (ps, l))" by (rule cstring_front [OF m])
  obtain spec2 where s2: "\<not> pending spec2" "\<And>e st out. vs_loop ks mem e (s + length t) spec1 args st out
      = do { out \<leftarrow> puts e u out; vs_loop ks mem e (s + length t + length (directive_format d)) spec2 args1 st out }"
    using vs_directive [OF m1 ok(2) s1(1) o(1) "2.prems"(5)] by blast
  obtain args' where s3: "\<And>e st out. vs_loop ks mem e (s + length t + length (directive_format d)) spec2 args1 st out
      = do { out \<leftarrow> puts e v out; Some (args', st, out) }"
    using "2.IH" [OF o(1) refl cstring_front [OF m1] ok(3) s2(1) o(2) "2.prems"(5)] by blast
  have "vs_loop ks mem e s spec args st out = do { out \<leftarrow> puts e xs out; Some (args', st, out) }" for e st out
    unfolding s1(2) s2(2) s3 o(3) by (simp add: puts_append del: puts_bind)
  then show ?case by blast
qed

section \<open>Decoding any format\<close>

definition number_types :: "format_type set" where
  "number_types = {FORMAT_TYPE_LONG_LONG, FORMAT_TYPE_ULONG, FORMAT_TYPE_LONG, FORMAT_TYPE_UBYTE, FORMAT_TYPE_BYTE, FORMAT_TYPE_USHORT,
     FORMAT_TYPE_SHORT, FORMAT_TYPE_UINT, FORMAT_TYPE_INT, FORMAT_TYPE_SIZE_T, FORMAT_TYPE_PTRDIFF}"

text \<open>The 16-bit fields, and the base of a number conversion.\<close>

definition spec_fields :: "printf_spec \<Rightarrow> bool" where
  "spec_fields spec \<longleftrightarrow> - 32768 \<le> field_width spec \<and> field_width spec \<le> 32767 \<and> - 32768 \<le> precision spec \<and> precision spec \<le> 32767"

definition spec_typed :: "printf_spec \<Rightarrow> bool" where
  "spec_typed spec \<longleftrightarrow> spec_fields spec \<and> (ftype spec \<in> number_types \<longrightarrow> nbase spec \<in> {8, 10, 16} \<and> - 1 \<le> precision spec)"

lemma skip_atoi_in: "cstring mem s xs \<Longrightarrow> \<exists>n k. skip_atoi mem s i = Some (n, s + k) \<and> k \<le> length xs"
proof (induction xs arbitrary: s i)
  case Nil
  then show ?case by (subst skip_atoi.simps) (simp add: digit_classes)
next
  case (Cons c xs)
  then have "cstring mem (s + 1) xs" "aget mem s = Some c" by simp_all
  then obtain n k where "skip_atoi mem (s + 1) (wr32 (i * 10 + uint c - 0x30)) = Some (n, s + 1 + k)" "k \<le> length xs"
    using Cons.IH by blast
  then show ?case using \<open>aget mem s = Some c\<close>
    by (subst skip_atoi.simps) (cases "isdigit c", auto intro: exI [of _ "Suc k"] exI [of _ 0])
qed

lemma text_end_in: "cstring mem s xs \<Longrightarrow> \<exists>k. text_end mem s = Some (s + k) \<and> k \<le> length xs"
proof (induction xs arbitrary: s)
  case Nil
  then show ?case by (subst text_end.simps) simp
next
  case (Cons c xs)
  then obtain k where "text_end mem (s + 1) = Some (s + 1 + k)" "k \<le> length xs" by (metis cstring.simps(2))
  then show ?case using Cons.prems by (subst text_end.simps) (auto intro: exI [of _ "Suc k"])
qed

lemma read_flags_in: "cstring mem s (x # xs) \<Longrightarrow> \<exists>f k. read_flags mem s fl = Some (f, s + 1 + k) \<and> k \<le> length xs"
proof (induction xs arbitrary: s x fl)
  case Nil
  then show ?case by (subst read_flags.simps) (simp add: flag_char_def)
next
  case (Cons c xs)
  then have c: "cstring mem (s + 1) (c # xs)" "aget mem (s + 1) = Some c" by simp_all
  show ?case
  proof (cases "flag_char c")
    case None
    then show ?thesis using c(2) by (subst read_flags.simps) simp
  next
    case (Some v)
    obtain f k where "read_flags mem (s + 1) (fl OR v) = Some (f, s + 1 + 1 + k)" "k \<le> length xs" using Cons.IH [OF c(1)] by blast
    then show ?thesis using Some c(2) by (subst read_flags.simps) (auto intro: exI [of _ "Suc k"])
  qed
qed

lemma decode_conversion_in:
  assumes "cstring mem s xs" "spec_fields spec" "- 1 \<le> precision spec"
  shows "\<exists>k spec'. decode_conversion mem s spec = Some (s + k, spec') \<and> k \<le> length xs \<and> spec_typed spec'"
proof -
  obtain c where c: "aget mem s = Some c" "c \<noteq> 0 \<longrightarrow> 1 \<le> length xs" using assms(1) by (cases xs) auto
  have "number_type x \<in> number_types" for x by (simp add: number_type_def number_types_def Let_def)
  then show ?thesis using c assms(2,3)
    by (auto simp: decode_conversion_def Let_def spec_typed_def spec_fields_def number_types_def intro: exI [of _ 0] exI [of _ 1])
qed

text \<open>Decoding goes on inside the string from a later position.\<close>

lemma decode_later:
  assumes "\<exists>k spec'. F = Some (s + j + k, spec') \<and> k \<le> length (drop j xs) \<and> P spec'" "j \<le> length xs"
  shows "\<exists>k spec'. F = Some (s + k, spec') \<and> k \<le> length xs \<and> P spec'"
proof -
  obtain k spec' where "F = Some (s + (j + k), spec')" "k \<le> length xs - j" "P spec'" using assms(1) by (auto simp: add.assoc)
  then show ?thesis using assms(2) by (intro exI [of _ "j + k"]) auto
qed

lemma decode_qualifier_in:
  assumes m: "cstring mem s xs" and t: "spec_fields spec" "- 1 \<le> precision spec"
  shows "\<exists>k spec'. decode_qualifier mem s spec = Some (s + k, spec') \<and> k \<le> length xs \<and> spec_typed spec'"
proof -
  have conv: "\<exists>k spec'. decode_conversion mem (s + j) (spec\<lparr>qualifier := q\<rparr>) = Some (s + k, spec') \<and> k \<le> length xs \<and> spec_typed spec'"
    if "j \<le> length xs" for j q
    by (rule decode_later [OF decode_conversion_in [OF cstring_drop [OF m that]] that]) (use t in \<open>simp_all add: spec_fields_def\<close>)
  show ?thesis
  proof (cases xs)
    case Nil
    then have "aget mem s = Some 0" using m by simp
    then show ?thesis using conv [of 0 "0xFF"] by (simp add: decode_qualifier_def TOLOWER_def)
  next
    case (Cons c ys)
    then have g: "aget mem s = Some c" using m by simp
    have g1: "aget mem (s + 1) = Some (hd (ys @ [0]))" using m Cons by (cases ys) simp_all
    have two: "ys \<noteq> []" if "c = hd (ys @ [0])" using that m Cons by (cases ys) simp_all
    show ?thesis
    proof (cases "c = 0x68 \<or> TOLOWER c = 0x6C \<or> TOLOWER c = 0x7A \<or> c = 0x74")
      case True
      show ?thesis
      proof (cases "c = hd (ys @ [0]) \<and> (c = 0x6C \<or> c = 0x68)")
        case T: True
        then have "2 \<le> length xs" using two Cons by (cases ys) simp_all
        then show ?thesis using T True g g1 conv [of 2 "0x4C"] conv [of 2 "0x48"] by (auto simp: decode_qualifier_def)
      next
        case False
        then have "decode_qualifier mem s spec = decode_conversion mem (s + 1) (spec\<lparr>qualifier := c\<rparr>)"
          using True g g1 by (auto simp: decode_qualifier_def)
        then show ?thesis using conv [of 1 c] Cons by simp
      qed
    next
      case False
      then have "decode_qualifier mem s spec = decode_conversion mem (s + 0) (spec\<lparr>qualifier := 0xFF\<rparr>)" using g by (simp add: decode_qualifier_def)
      then show ?thesis using conv [of 0 "0xFF"] by simp
    qed
  qed
qed

lemma pending_typed:
  "ftype spec = FORMAT_TYPE_WIDTH \<or> ftype spec = FORMAT_TYPE_PRECISION \<or> ftype spec = FORMAT_TYPE_NONE \<Longrightarrow> spec_typed spec = spec_fields spec"
  by (auto simp: spec_typed_def number_types_def)

lemma decode_precision_in:
  assumes m: "cstring mem s xs" and t: "spec_fields spec"
  shows "\<exists>k spec'. decode_precision mem s spec = Some (s + k, spec') \<and> k \<le> length xs \<and> spec_typed spec'"
proof -
  have qual: "\<exists>k spec'. decode_qualifier mem (s + j) (spec\<lparr>precision := p\<rparr>) = Some (s + k, spec') \<and> k \<le> length xs \<and> spec_typed spec'"
    if "j \<le> length xs" "- 1 \<le> p" "p \<le> 32767" for j p
    by (rule decode_later [OF decode_qualifier_in [OF cstring_drop [OF m that(1)]] that(1)]) (use t that in \<open>simp_all add: spec_fields_def\<close>)
  obtain c where g: "aget mem s = Some c" "c \<noteq> 0 \<longrightarrow> 1 \<le> length xs" using m by (cases xs) auto
  show ?thesis
  proof (cases "c = 0x2E")
    case False
    then show ?thesis using g qual [of 0 "- 1"] by (simp add: decode_precision_def)
  next
    case True
    then have l: "1 \<le> length xs" using g by auto
    have m1: "cstring mem (s + 1) (drop 1 xs)" by (rule cstring_drop [OF m l])
    then obtain d where d: "aget mem (s + 1) = Some d" "d \<noteq> 0 \<longrightarrow> 2 \<le> length xs" by (cases "drop 1 xs") (auto simp: drop_Suc_Cons Suc_le_eq dest: arg_cong [of _ _ length])
    obtain n k where n: "skip_atoi mem (s + 1) 0 = Some (n, s + (1 + k))" "1 + k \<le> length xs"
      using skip_atoi_in [OF m1, of 0] l by (auto simp: add.assoc)
    have p: "- 1 \<le> (if wr16 n < 0 then 0 else wr16 n)" "(if wr16 n < 0 then 0 else wr16 n) \<le> 32767" using wr16_range [of n] by auto
    show ?thesis
    proof (cases "isdigit d")
      case D: True
      then show ?thesis using True g d(1) n(1) qual [OF n(2) p] by (simp add: decode_precision_def)
    next
      case F: False
      show ?thesis
      proof (cases "d = 0x2A")
        case D: True
        then have "2 \<le> length xs" using d(2) by auto
        then show ?thesis using True F D g d(1) t by (auto simp: decode_precision_def pending_typed spec_fields_def intro: exI [of _ 2])
      next
        case False
        then show ?thesis using True F g d(1) qual [OF l, of "- 1"] by (simp add: decode_precision_def)
      qed
    qed
  qed
qed

lemma format_decode_in:
  assumes m: "cstring mem s xs" and t: "spec_fields spec"
  shows "\<exists>k spec'. format_decode mem s spec = Some (s + k, spec') \<and> k \<le> length xs \<and> spec_typed spec'"
proof -
  have prec: "\<exists>k spec'. decode_precision mem (s + j) spec1 = Some (s + k, spec') \<and> k \<le> length xs \<and> spec_typed spec'"
    if "j \<le> length xs" "spec_fields spec1" for j spec1
    by (rule decode_later [OF decode_precision_in [OF cstring_drop [OF m that(1)] that(2)] that(1)])
  consider "ftype spec = FORMAT_TYPE_WIDTH" | "ftype spec = FORMAT_TYPE_PRECISION" | "\<not> pending spec" by (auto simp: pending_def)
  then show ?thesis
  proof cases
    case 1
    let ?s = "if field_width spec < 0
         then spec\<lparr>field_width := wr16 (- field_width spec), flags := flags spec OR fl_LEFT, ftype := FORMAT_TYPE_NONE\<rparr>
         else spec\<lparr>ftype := FORMAT_TYPE_NONE\<rparr>"
    have "spec_fields ?s" using t wr16_range [of "- field_width spec"] by (auto simp: spec_fields_def)
    from prec [of 0, OF _ this] show ?thesis using 1 by (simp add: format_decode_def)
  next
    case 2
    let ?s = "spec\<lparr>precision := if precision spec < 0 then 0 else precision spec, ftype := FORMAT_TYPE_NONE\<rparr>"
    have "spec_fields ?s" "- 1 \<le> precision ?s" using t by (auto simp: spec_fields_def)
    from decode_qualifier_in [OF m this] show ?thesis using 2 by (simp add: format_decode_def)
  next
    case 3
    define spec0 where "spec0 = spec\<lparr>ftype := FORMAT_TYPE_NONE\<rparr>"
    obtain k where k: "text_end mem s = Some (s + k)" "k \<le> length xs" using text_end_in [OF m] by blast
    have g: "aget mem (s + k) = Some ((xs @ [0]) ! k)" by (rule cstring_nth [OF m k(2)])
    show ?thesis
    proof (cases "k \<noteq> 0 \<or> (xs @ [0]) ! k = 0")
      case True
      then have "format_decode mem s spec = Some (s + k, spec0)" using 3 k(1) g
        by (auto simp: format_decode_def pending_def spec0_def Let_def)
      then show ?thesis using k(2) t by (simp add: pending_typed spec0_def spec_fields_def)
    next
      case False
      then obtain x ys where xs: "xs = x # ys" by (cases xs) auto
      have te: "text_end mem s = Some s" "aget mem s = Some x" "x \<noteq> 0" using False k(1) m xs by auto
      obtain fl j where f: "read_flags mem s 0 = Some (fl, s + (1 + j))" "1 + j \<le> length xs"
        using read_flags_in [of mem s x ys 0] m xs by (auto simp: add.assoc)
      define spec1 where "spec1 = spec0\<lparr>flags := fl, field_width := - 1\<rparr>"
      have t1: "spec_fields spec1" using t by (simp add: spec1_def spec0_def spec_fields_def)
      define c where "c = (xs @ [0]) ! (1 + j)"
      have gc: "aget mem (s + (1 + j)) = Some c" unfolding c_def by (rule cstring_nth [OF m f(2)])
      have cl: "c \<noteq> 0 \<Longrightarrow> 2 + j \<le> length xs" using f(2) by (cases "1 + j = length xs") (auto simp: c_def nth_append)
      have fd: "format_decode mem s spec = (if isdigit c
          then do { (n, f) \<leftarrow> skip_atoi mem (s + (1 + j)) 0; decode_precision mem f (spec1\<lparr>field_width := wr16 n\<rparr>) }
          else if c = 0x2A then Some (s + (1 + j) + 1, spec1\<lparr>ftype := FORMAT_TYPE_WIDTH\<rparr>)
          else decode_precision mem (s + (1 + j)) spec1)"
        using 3 te f(1) gc by (simp add: format_decode_def pending_def spec0_def spec1_def Let_def)
      obtain n i where n: "skip_atoi mem (s + (1 + j)) 0 = Some (n, s + (1 + j + i))" "1 + j + i \<le> length xs"
        using skip_atoi_in [OF cstring_drop [OF m f(2)], of 0] f(2) by (auto simp: add.assoc)
      have tn: "spec_fields (spec1\<lparr>field_width := wr16 n\<rparr>)" using t1 wr16_range [of n] by (simp add: spec_fields_def)
      consider "isdigit c" | "\<not> isdigit c" "c = 0x2A" | "\<not> isdigit c" "c \<noteq> 0x2A" by blast
      then show ?thesis
      proof cases
        case 1
        then show ?thesis using prec [OF n(2) tn] unfolding fd n(1) by simp
      next
        case 2
        then have "2 + j \<le> length xs" using cl by simp
        then show ?thesis using 2 t1 by (auto simp: fd pending_typed spec_fields_def intro!: exI [of _ "2 + j"])
      next
        case 3
        then show ?thesis using prec [OF f(2) t1] by (simp add: fd)
      qed
    qed
  qed
qed

section \<open>Whole calls\<close>

lemma vsnprintf_run:
  assumes "cstring mem fmt (format_string f)" "format_ok f" "format_out mem f args = Some xs" "length mem < 2 ^ 31"
  obtains args' where "\<And>e b. vs_loop ks mem e fmt empty_spec args [] (b, 0) = do { out \<leftarrow> puts e xs (b, 0); Some (args', [], out) }"
proof -
  have "\<not> pending empty_spec" by (simp add: pending_def empty_spec_def)
  from vs_format [OF assms(1,2) this assms(3,4), of ks] that show thesis by blast
qed

lemma vsnprintf_format:
  assumes f: "cstring mem fmt (format_string f)" "format_ok f" "format_out mem f args = Some xs" "length mem < 2 ^ 31"
    and s: "unat sz < 2 ^ 31" "buf + unat sz < 2 ^ 64" "unat sz \<le> length b" and x: "length xs < 2 ^ 31"
  shows "vsnprintf ks mem buf b sz fmt args = Some (int (length xs), printed xs (unat sz) b, [])"
proof -
  obtain args' where v: "\<And>e b. vs_loop ks mem e fmt empty_spec args [] (b, 0) = do { out \<leftarrow> puts e xs (b, 0); Some (args', [], out) }"
    by (rule vsnprintf_run [where ks = ks, OF f]) blast
  have "buf_end buf (unat sz) = unat sz" using s(2) by (simp add: buf_end_def)
  then show ?thesis using small_size [OF s(1)] puts_spec [OF s(3), of xs 0] s(3) wr32_small [OF x]
    by (auto simp: vsnprintf_def Let_def v aset_def printed_def min_def)
qed

text \<open>With the size 0 \<open>vscnprintf\<close> returns -1, although it is documented to return 0.\<close>

lemma vscnprintf_size_0:
  "vsnprintf ks mem buf b 0 fmt args = Some (i, b', st) \<Longrightarrow> vscnprintf ks mem buf b 0 fmt args = Some (- 1, b', st)"
proof -
  have "sint (ucast (- 1 :: u64) :: u32) = - 1" by code_simp
  then show "vsnprintf ks mem buf b 0 fmt args = Some (i, b', st) \<Longrightarrow> vscnprintf ks mem buf b 0 fmt args = Some (- 1, b', st)"
    by (simp add: vscnprintf_def clip_count_def)
qed

section \<open>Properties\<close>

text \<open>
  C33. Whatever the format is, \<open>format_decode\<close> reads a token of it without going beyond the terminating zero, and
  returns a well-typed specification: the width and the precision are 16-bit numbers, and a number conversion has the
  base 8, 10 or 16.
\<close>

theorem format_decode_typed:
  assumes "cstring mem s xs" "spec_typed spec"
  shows "\<exists>k spec'. format_decode mem s spec = Some (s + k, spec') \<and> k \<le> length xs \<and> spec_typed spec'"
  by (rule format_decode_in [OF assms(1)]) (use assms(2) in \<open>simp add: spec_typed_def\<close>)

theorem format_decode_typed_witness:
  "\<exists>k spec'. format_decode [0x25, 0x2D, 0x35, 0x2E, 0] 0 empty_spec = Some (k, spec') \<and> k \<le> 4 \<and> spec_typed spec'"
proof -
  have "cstring [0x25, 0x2D, 0x35, 0x2E, 0] 0 [0x25, 0x2D, 0x35, 0x2E]" by (simp add: aget_def)
  moreover have "spec_typed empty_spec" by (simp add: spec_typed_def spec_fields_def number_types_def empty_spec_def)
  ultimately show ?thesis using format_decode_typed [of _ 0 "[0x25, 0x2D, 0x35, 0x2E]" empty_spec] by fastforce
qed

text \<open>
  C31. The text that \<open>vsnprintf\<close> prints does not depend on the buffer: when the call with the size 0 returns, every call
  with the same format and arguments returns the same length, leaves everything from the size on untouched, and puts
  the text, cut to the size less one, and a terminating zero into the buffer.
\<close>

theorem vsnprintf_ok:
  assumes "vsnprintf ks mem buf0 b0 0 fmt args = Some (r, b1, st)"
  shows "\<exists>xs. r = wr32 (int (length xs)) \<and> (\<forall>buf b sz. unat sz < 2 ^ 31 \<and> buf + unat sz < 2 ^ 64 \<and> unat sz \<le> length b \<longrightarrow>
    (\<exists>b'. vsnprintf ks mem buf b sz fmt args = Some (r, b', st) \<and> length b' = length b \<and> drop (unat sz) b' = drop (unat sz) b \<and>
      (0 < unat sz \<longrightarrow> take (min (length xs) (unat sz - 1)) b' = take (unat sz - 1) xs \<and> b' ! min (length xs) (unat sz - 1) = 0)))"
proof -
  obtain xs where "r = wr32 (int (length xs))"
    "\<And>buf b sz. unat sz < 2 ^ 31 \<Longrightarrow> buf + unat sz < 2 ^ 64 \<Longrightarrow> unat sz \<le> length b \<Longrightarrow>
      vsnprintf ks mem buf b sz fmt args = Some (r, printed xs (unat sz) b, st)"
    by (rule vsnprintf_text [OF assms]) blast
  then show ?thesis using printed_spec by (intro exI [of _ xs]) simp
qed

theorem vsnprintf_ok_witness:
  "\<exists>b'. vsnprintf None [0x61, 0x62, 0] 4096 [1, 2, 3] 2 0 [] = Some (2, b', []) \<and> take 1 b' = [0x61] \<and> b' ! 1 = 0 \<and> drop 2 b' = [3]"
proof -
  have m: "cstring [0x61, 0x62, 0] 0 (format_string ([], [0x61, 0x62]))" by (simp add: aget_def)
  have "vsnprintf None [0x61, 0x62, 0] 0 [] 0 0 [] = Some (2, [], [])"
    using vsnprintf_format [OF m _ _ _ _ _ _, of "[]" "[0x61, 0x62]" 0 0 "[]" None] by (simp add: format_ok_def printed_def)
  from vsnprintf_ok [OF this] obtain xs where x: "2 = wr32 (int (length xs))"
    "\<exists>b'. vsnprintf None [0x61, 0x62, 0] 4096 [1, 2, 3] 2 0 [] = Some (2, b', []) \<and> length b' = 3 \<and> drop 2 b' = [3] \<and>
      take (min (length xs) 1) b' = take 1 xs \<and> b' ! min (length xs) 1 = 0"
    by (auto dest!: spec [of _ "4096"] spec [of _ "[1, 2, 3]"] spec [of _ "2 :: u64"])
  have "vsnprintf None [0x61, 0x62, 0] 4096 [1, 2, 3] 2 0 [] = Some (2, printed [0x61, 0x62] 2 [1, 2, 3], [])"
    using vsnprintf_format [OF m, of "[]" "[0x61, 0x62]" 2 4096 "[1, 2, 3]" None] by (simp add: format_ok_def)
  then show ?thesis using x(2) by (simp add: printed_def overlay_def)
qed



text \<open>
  C34. \<open>vsprintf\<close> is safe exactly when the text and its terminator fit: then they are written and nothing else, and
  otherwise it writes beyond the end of the buffer.
\<close>

theorem vsprintf_ok:
  assumes "cstring mem fmt (format_string f)" "format_ok f" "format_out mem f args = Some xs" "length mem < 2 ^ 31"
    "length b < 2 ^ 31 - 1" "buf + (2 ^ 31 - 1) < 2 ^ 64"
  shows "vsprintf ks mem buf b fmt args =
    (if length xs < length b then Some (int (length xs), xs @ 0 # drop (length xs + 1) b, []) else None)"
proof -
  obtain args' where v: "\<And>e b. vs_loop ks mem e fmt empty_spec args [] (b, 0) = do { out \<leftarrow> puts e xs (b, 0); Some (args', [], out) }"
    by (rule vsnprintf_run [where ks = ks, OF assms(1-4)]) blast
  define E :: nat where "E = 2 ^ 31 - 1"
  have e: "buf_end buf (unat (0x7FFFFFFF :: u64)) = E" using assms(6) by (simp add: buf_end_def E_def)
  have z: "\<not> sint (ucast (0x7FFFFFFF :: u64) :: u32) < 0" by simp
  have E: "length b < E" using assms(5) by (simp add: E_def)
  have run: "vsprintf ks mem buf b fmt args = do {
      (b, s) \<leftarrow> puts E xs (b, 0);
      b \<leftarrow> (if s < E then aset b s 0 else aset b (E - 1) 0);
      Some (wr32 (int s), b, []) }"
    unfolding vsprintf_def vsnprintf_def Let_def e v using z E by (simp add: case_prod_unfold cong: if_cong)
  show ?thesis
  proof (cases "length xs < length b")
    case True
    have o: "overlay E xs b 0 = xs @ drop (length xs) b" using True E by (simp add: overlay_def)
    have "drop (length xs) b = b ! length xs # drop (length xs + 1) b" using True by (simp add: Cons_nth_drop_Suc)
    moreover have "length xs < 2 ^ 31" using True assms(5) by simp
    ultimately show ?thesis using True E wr32_small [of "length xs"] unfolding run puts_total by (simp add: aset_def o)
  next
    case False
    show ?thesis
    proof (cases "length xs = length b")
      case True
      then show ?thesis using E unfolding run puts_total by (simp add: aset_def overlay_def)
    next
      case F: False
      then have "puts E xs (b, 0) = None" using False E by (auto simp: puts_total)
      then show ?thesis using False unfolding run by simp
    qed
  qed
qed

theorem vsprintf_ok_witness:
  "vsprintf None [0x61, 0x62, 0] 4096 [1, 2, 3, 4] 0 [] = Some (2, [0x61, 0x62, 0, 4], []) \<and> vsprintf None [0x61, 0x62, 0] 4096 [1, 2] 0 [] = None"
proof -
  have m: "cstring [0x61, 0x62, 0] 0 (format_string ([], [0x61, 0x62]))" by (simp add: aget_def)
  have f: "format_ok ([], [0x61, 0x62])" by (simp add: format_ok_def)
  show ?thesis using vsprintf_ok [OF m f, of "[]" "[0x61, 0x62]" "[1, 2, 3, 4]" 4096 None] vsprintf_ok [OF m f, of "[]" "[0x61, 0x62]" "[1, 2]" 4096 None]
    by simp
qed

end
