(* ===== verification/Spec2Isabelle.thy ===== *)
theory Spec2Isabelle
  imports Lmb_Alloc Range_Table Bitmap_Shift Bitmap_Region Kfifo_Spsc Semaphore Rwsem Int_Math Int_Division C_String_Copy Rbtree_Ops Timespec Printf_Format
begin

text \<open>
  A verification library for the core data structures and allocators of the Linux
  2.6.34 kernel (\<open>src/linux-2.6.34\<close>).
\<close>

end
